(* ===== verification/Pedronet_Prelude.thy ===== *)
theory Pedronet_Prelude
  imports Main "HOL-Library.Word" "HOL-Library.Multiset" "HOL-Library.Signed_Division"
begin

text \<open>
  Shared vocabulary of the development: the machine types, the parameters that stand for
  pedrolib's time arithmetic, reachability of a step relation with the locale that turns a
  one-step invariant into a fact about all reachable states, and a few list and multiset
  lemmas.

  pedrolib is a git submodule whose sources are not part of the repository.  A
  \<open>Timestamp\<close> or \<open>Duration\<close> is represented by its public field \<open>usecs\<close> (the sources
  read and write it, e.g. include/pedronet/queue/timer\_hash\_wheel.h), and is ordered by it.
  Its arithmetic is a parameter: a record \<open>chrono\<close> of the operations, with \<open>chrono_ok\<close>
  the hypothesis that they are the documented ones.
\<close>

section \<open>Machine types\<close>

type_synonym byte = "8 word"
type_synonym u32 = "32 word"
type_synonym u64 = "64 word"
type_synonym usec = int

text \<open>The value a signed expression has after conversion to \<open>uint64_t\<close>.\<close>

definition to_u64 :: "int \<Rightarrow> nat" where
  "to_u64 x = nat (x mod 2 ^ 64)"

definition INT64_MAX :: int where
  "INT64_MAX = 2 ^ 63 - 1"

definition INT64_MIN :: int where
  "INT64_MIN = - (2 ^ 63)"

text \<open>Signed 64-bit subtraction and \<open>std::abs\<close>: None where the C++ is undefined (overflow).\<close>

definition in_int64 :: "int \<Rightarrow> bool" where
  "in_int64 x \<longleftrightarrow> INT64_MIN \<le> x \<and> x \<le> INT64_MAX"

definition sub64 :: "int \<Rightarrow> int \<Rightarrow> int option" where
  "sub64 a b = (if in_int64 (a - b) then Some (a - b) else None)"

definition abs64 :: "int \<Rightarrow> int option" where
  "abs64 a = (if in_int64 \<bar>a\<bar> then Some \<bar>a\<bar> else None)"

lemma to_u64_id: "0 \<le> x \<Longrightarrow> x < 2 ^ 64 \<Longrightarrow> to_u64 x = nat x"
  by (simp add: to_u64_def)

lemma to_u64_bound: "to_u64 x < 2 ^ 64"
proof -
  have "x mod 2 ^ 64 < (2 ^ 64 :: int)"
    by (rule pos_mod_bound) simp
  then show ?thesis
    by (simp add: to_u64_def nat_less_iff)
qed

section \<open>Time arithmetic of pedrolib, as a parameter\<close>

record chrono =
  ts_plus :: "usec \<Rightarrow> usec \<Rightarrow> usec"
  ts_minus :: "usec \<Rightarrow> usec \<Rightarrow> usec"
  us_per_sec :: int

definition chrono_ok :: "chrono \<Rightarrow> bool" where
  "chrono_ok K \<longleftrightarrow>
     (\<forall>t d. ts_plus K t d = t + d) \<and> (\<forall>t u. ts_minus K t u = t - u) \<and> us_per_sec K = 1000000"

definition usec_chrono :: chrono where
  "usec_chrono = \<lparr>ts_plus = (+), ts_minus = (-), us_per_sec = 1000000\<rparr>"

lemma chrono_okD [simp]:
  assumes "chrono_ok K"
  shows "ts_plus K t d = t + d" and "ts_minus K t u = t - u" and "us_per_sec K = 1000000"
  using assms by (simp_all add: chrono_ok_def)

lemma usec_chrono_ok [simp, intro]: "chrono_ok usec_chrono"
  by (simp add: chrono_ok_def usec_chrono_def)

section \<open>Reachable states and invariants\<close>

inductive reachable :: "('s \<Rightarrow> bool) \<Rightarrow> ('s \<Rightarrow> 's \<Rightarrow> bool) \<Rightarrow> 's \<Rightarrow> bool"
  for initial :: "'s \<Rightarrow> bool" and step :: "'s \<Rightarrow> 's \<Rightarrow> bool"
where
  start: "initial s \<Longrightarrow> reachable initial step s"
| next_step: "reachable initial step s \<Longrightarrow> step s t \<Longrightarrow> reachable initial step t"

lemma reachable_rtranclp:
  assumes "step\<^sup>*\<^sup>* s t" and "reachable initial step s"
  shows "reachable initial step t"
  using assms by (induction rule: rtranclp_induct) (auto intro: reachable.next_step)

locale invariant_system =
  fixes initial :: "'s \<Rightarrow> bool"
    and step :: "'s \<Rightarrow> 's \<Rightarrow> bool"
    and inv :: "'s \<Rightarrow> bool"
  assumes inv_initial: "initial s \<Longrightarrow> inv s"
    and inv_step: "inv s \<Longrightarrow> step s t \<Longrightarrow> inv t"
begin

lemma inv_reachable:
  assumes "reachable initial step s"
  shows "inv s"
  using assms by (induction rule: reachable.induct) (auto intro: inv_initial inv_step)

end

text \<open>
  The contract of a producer/consumer queue that signals its consumer through an event
  file descriptor.  \<open>asleep\<close>: the consumer is between two calls of \<open>Process\<close>;
  \<open>settled\<close>: no producer is in the middle of an \<open>Add\<close>; \<open>backlog\<close>: what is queued;
  \<open>signalled\<close>: the descriptor is readable.
\<close>

locale wakeup_protocol = invariant_system initial step inv
  for initial :: "'s \<Rightarrow> bool" and step :: "'s \<Rightarrow> 's \<Rightarrow> bool" and inv :: "'s \<Rightarrow> bool" +
  fixes asleep :: "'s \<Rightarrow> bool"
    and settled :: "'s \<Rightarrow> bool"
    and backlog :: "'s \<Rightarrow> 'c multiset"
    and signalled :: "'s \<Rightarrow> bool"
    and added :: "'s \<Rightarrow> 'c multiset"
    and ran :: "'s \<Rightarrow> 'c multiset"
  assumes wakes: "inv s \<Longrightarrow> asleep s \<Longrightarrow> settled s \<Longrightarrow> backlog s \<noteq> {#} \<Longrightarrow> signalled s"
    and accounts: "inv s \<Longrightarrow> asleep s \<Longrightarrow> added s = ran s + backlog s"
begin

lemma no_lost_wakeup:
  "reachable initial step s \<Longrightarrow> asleep s \<Longrightarrow> settled s \<Longrightarrow> backlog s \<noteq> {#} \<Longrightarrow> signalled s"
  by (blast intro: wakes inv_reachable)

lemma unsignalled_all_ran:
  assumes "reachable initial step s" and "asleep s" and "settled s" and "\<not> signalled s"
  shows "ran s = added s"
proof -
  from assms have "backlog s = {#}"
    using no_lost_wakeup by blast
  with assms(1,2) show ?thesis
    using accounts [of s] inv_reachable [of s] by simp
qed

end

section \<open>Lists and multisets\<close>

lemma mset_take_drop: "mset (take n xs) + mset (drop n xs) = mset xs"
  by (metis append_take_drop_id mset_append)

lemma map_nth_take: "n \<le> length xs \<Longrightarrow> map (\<lambda>i. f (xs ! i)) [0..<n] = map f (take n xs)"
  by (rule nth_equalityI) auto

lemma length_one_iff: "length (xs @ [x]) = 1 \<longleftrightarrow> xs = []"
  by simp

end
