(* ===== verification/Event_Flags.thy ===== *)
theory Event_Flags
  imports Pedronet_Prelude
begin

text \<open>
  The event masks of include/pedronet/event.h and src/event.cc: \<open>SelectEvents\<close> (what a
  channel asks the selector to watch) and \<open>ReceiveEvents\<close> (what the selector reports).
  Both wrap a \<open>uint32_t\<close>.  The POLL and EPOLL constants are those of the Linux headers the
  sources include.
\<close>

unbundle bit_operations_syntax

section \<open>Constants of poll.h and sys/epoll.h\<close>

definition POLLIN :: u32 where "POLLIN = 0x001"
definition POLLPRI :: u32 where "POLLPRI = 0x002"
definition POLLOUT :: u32 where "POLLOUT = 0x004"
definition POLLERR :: u32 where "POLLERR = 0x008"
definition POLLHUP :: u32 where "POLLHUP = 0x010"
definition POLLNVAL :: u32 where "POLLNVAL = 0x020"
definition POLLRDHUP :: u32 where "POLLRDHUP = 0x2000"
definition EPOLLET :: u32 where "EPOLLET = 0x80000000"

lemmas poll_defs = POLLIN_def POLLPRI_def POLLOUT_def POLLERR_def POLLHUP_def POLLNVAL_def
  POLLRDHUP_def EPOLLET_def

section \<open>SelectEvents\<close>

datatype select_trigger = kLevel | kEdge

datatype select_events = SelectEvents (se_value: u32)

definition kNoneEvent :: select_events where
  "kNoneEvent = SelectEvents 0"

definition kReadEvent :: select_events where
  "kReadEvent = SelectEvents (POLLIN OR POLLPRI)"

definition kWriteEvent :: select_events where
  "kWriteEvent = SelectEvents POLLOUT"

definition se_contains :: "select_events \<Rightarrow> select_events \<Rightarrow> bool" where
  "se_contains e other \<longleftrightarrow> se_value e AND se_value other \<noteq> 0"

definition se_add :: "select_events \<Rightarrow> select_events \<Rightarrow> select_events" where
  "se_add e other = SelectEvents (se_value e OR se_value other)"

definition se_remove :: "select_events \<Rightarrow> select_events \<Rightarrow> select_events" where
  "se_remove e other = SelectEvents (se_value e AND NOT (se_value other))"

definition se_differs :: "select_events \<Rightarrow> select_events \<Rightarrow> bool" where
  "se_differs e other \<longleftrightarrow> se_value e \<noteq> se_value other"

definition se_trigger :: "select_trigger \<Rightarrow> select_events \<Rightarrow> select_events" where
  "se_trigger trigger e = (if trigger = kEdge then se_add e (SelectEvents EPOLLET) else e)"

definition se_string :: "select_events \<Rightarrow> string" where
  "se_string e =
     [if se_contains e kReadEvent then CHR ''r'' else CHR ''-'',
      if se_contains e kWriteEvent then CHR ''w'' else CHR ''-'']"

lemmas se_ops = kNoneEvent_def kReadEvent_def kWriteEvent_def se_contains_def se_add_def
  se_remove_def se_differs_def se_trigger_def

lemma mask_split: "(x :: u32) AND (y OR z) = 0 \<longleftrightarrow> x AND y = 0 \<and> x AND z = 0"
  by (simp add: bit_eq_iff bit_and_iff bit_or_iff) blast

text \<open>Setting or clearing one mask leaves what a disjoint mask says untouched.\<close>

lemma se_contains_add_other:
  assumes "se_value m AND se_value k = 0"
  shows "se_contains (se_add e k) m = se_contains e m"
proof -
  have "(se_value e OR se_value k) AND se_value m =
      (se_value e AND se_value m) OR (se_value m AND se_value k)"
    by (simp add: bit_eq_iff bit_and_iff bit_or_iff) blast
  with assms show ?thesis
    by (simp add: se_contains_def se_add_def)
qed

lemma se_contains_remove_other:
  assumes "se_value m AND se_value k = 0"
  shows "se_contains (se_remove e k) m = se_contains e m"
proof -
  have "\<forall>n. \<not> (bit (se_value m) n \<and> bit (se_value k) n)"
    using assms by (metis bit_and_iff bit_0_eq bot_apply bot_bool_def)
  then have "(se_value e AND NOT (se_value k)) AND se_value m = se_value e AND se_value m"
    by (simp add: bit_eq_iff bit_and_iff bit_not_iff) blast
  then show ?thesis
    by (simp add: se_contains_def se_remove_def)
qed

lemma se_contains_add_self: "se_value m \<noteq> 0 \<Longrightarrow> se_contains (se_add e m) m"
proof -
  assume "se_value m \<noteq> 0"
  moreover have "(se_value e OR se_value m) AND se_value m = se_value m"
    by (simp add: bit_eq_iff bit_and_iff bit_or_iff)
  ultimately show ?thesis
    by (simp add: se_contains_def se_add_def)
qed

lemma se_contains_remove_self: "\<not> se_contains (se_remove e m) m"
  by (simp add: se_contains_def se_remove_def bit_eq_iff bit_and_iff bit_not_iff)

lemma read_write_disjoint [simp]:
  "se_value kReadEvent AND se_value kWriteEvent = 0"
  "se_value kWriteEvent AND se_value kReadEvent = 0"
  by (simp_all add: kReadEvent_def kWriteEvent_def poll_defs)

lemma read_write_nonzero [simp]: "se_value kReadEvent \<noteq> 0" "se_value kWriteEvent \<noteq> 0"
  by (simp_all add: kReadEvent_def kWriteEvent_def poll_defs)

lemma none_contains [simp]: "\<not> se_contains kNoneEvent m"
  by (simp add: se_contains_def kNoneEvent_def)

lemma se_differs_iff [simp]: "se_differs e f \<longleftrightarrow> e \<noteq> f"
  by (cases e; cases f) (simp add: se_differs_def)

section \<open>ReceiveEvents\<close>

datatype receive_events = ReceiveEvents (re_value: u32)

definition kHangUp :: receive_events where "kHangUp = ReceiveEvents POLLHUP"
definition kInvalid :: receive_events where "kInvalid = ReceiveEvents POLLNVAL"
definition kError :: receive_events where "kError = ReceiveEvents POLLERR"
definition kReadable :: receive_events where "kReadable = ReceiveEvents POLLIN"
definition kPriorReadable :: receive_events where "kPriorReadable = ReceiveEvents POLLPRI"
definition kReadHangUp :: receive_events where "kReadHangUp = ReceiveEvents POLLRDHUP"
definition kWritable :: receive_events where "kWritable = ReceiveEvents POLLOUT"

lemmas re_consts = kHangUp_def kInvalid_def kError_def kReadable_def kPriorReadable_def
  kReadHangUp_def kWritable_def

definition re_contains :: "receive_events \<Rightarrow> receive_events \<Rightarrow> bool" where
  "re_contains e other \<longleftrightarrow> re_value e AND re_value other \<noteq> 0"

definition re_one_of :: "receive_events \<Rightarrow> receive_events list \<Rightarrow> bool" where
  "re_one_of e evs \<longleftrightarrow> list_ex (re_contains e) evs"

definition re_all_of :: "receive_events \<Rightarrow> receive_events list \<Rightarrow> bool" where
  "re_all_of e evs \<longleftrightarrow> list_all (re_contains e) evs"

definition re_add :: "receive_events \<Rightarrow> receive_events \<Rightarrow> receive_events" where
  "re_add e other = ReceiveEvents (re_value e OR re_value other)"

definition re_remove :: "receive_events \<Rightarrow> receive_events \<Rightarrow> receive_events" where
  "re_remove e other = ReceiveEvents (re_value e AND NOT (re_value other))"

end
