(* ===== verification/Event_Channel.thy ===== *)
theory Event_Channel
  imports Pedronet_Prelude
begin

text \<open>
  include/pedronet/channel/event\_channel.h and src/channel/event\_channel.cc: the channel
  around an \<open>eventfd(2)\<close>.  The descriptor is its kernel counter: a write of 1 adds one
  unless the counter is at its maximum \<open>2^64 - 2\<close> (the write then fails with EAGAIN, and
  \<open>WakeUp\<close> ignores the result); a read returns the counter and resets it, and fails with
  EAGAIN while it is zero.  The descriptor is readable exactly when the counter is not zero.
\<close>

datatype fatal = FatalEventRead

definition EVENTFD_MAX :: nat where
  "EVENTFD_MAX = 2 ^ 64 - 2"

record event_channel =
  ec_counter :: nat

definition ec_create :: event_channel where
  "ec_create = \<lparr>ec_counter = 0\<rparr>"

definition ec_readable :: "event_channel \<Rightarrow> bool" where
  "ec_readable ch \<longleftrightarrow> 0 < ec_counter ch"

definition ec_wakeup :: "event_channel \<Rightarrow> event_channel" where
  "ec_wakeup ch = (if ec_counter ch < EVENTFD_MAX then ch\<lparr>ec_counter := ec_counter ch + 1\<rparr> else ch)"

text \<open>
  \<open>HandleEvents\<close>: the read, and its value with the channel after it; the event callback
  runs next.  A short read is fatal.
\<close>

definition ec_read :: "event_channel \<Rightarrow> fatal + event_channel" where
  "ec_read ch = (if ec_counter ch = 0 then Inl FatalEventRead else Inr (ch\<lparr>ec_counter := 0\<rparr>))"

definition ec_handle_events ::
  "(event_channel \<Rightarrow> 'r) option \<Rightarrow> event_channel \<Rightarrow> fatal + (event_channel \<times> 'r option)" where
  "ec_handle_events event_callback ch =
     (case ec_read ch of
        Inl e \<Rightarrow> Inl e
      | Inr ch' \<Rightarrow> Inr (ch', map_option (\<lambda>cb. cb ch') event_callback))"

lemma ec_wakeup_readable [simp]: "ec_readable (ec_wakeup ch)"
  by (simp add: ec_readable_def ec_wakeup_def EVENTFD_MAX_def)

lemma ec_readable_wakeup_mono: "ec_readable ch \<Longrightarrow> ec_readable (ec_wakeup ch)"
  by simp

lemma ec_create_quiet [simp]: "\<not> ec_readable ec_create"
  by (simp add: ec_readable_def ec_create_def)

lemma ec_read_readable: "ec_readable ch \<longleftrightarrow> (\<exists>ch'. ec_read ch = Inr ch')"
  by (simp add: ec_readable_def ec_read_def)

lemma ec_read_resets: "ec_read ch = Inr ch' \<Longrightarrow> \<not> ec_readable ch'"
  by (auto simp: ec_read_def ec_readable_def split: if_splits)

end
