(* ===== verification/Event_Queue.thy ===== *)
theory Event_Queue
  imports Event_Channel "HOL-Library.While_Combinator"
begin

text \<open>
  include/pedronet/queue/event\_queue.h and its three implementations, as the sequential
  code: \<open>EventBlockingQueue\<close> (a mutex and a deque), \<open>EventDoubleBufferQueue\<close> (two
  vectors swapped under a mutex) and \<open>EventLockFreeQueue\<close> (moodycamel's concurrent queue and
  an atomic counter).  Theory Event\_Queue\_Threads holds their interleavings.

  A callback is a value of type \<open>'c\<close>; the parameter \<open>spawn c\<close> is the list of callbacks
  that running \<open>c\<close> adds to the same queue.  \<open>Process\<close> returns the callbacks it ran, in
  order, and the queue it leaves; None means that it does not return.  Its loops are
  \<open>partial_function (option)\<close>.
\<close>

section \<open>The contract of an event queue\<close>

locale event_queue =
  fixes add :: "'c \<Rightarrow> 'q \<Rightarrow> 'q"
    and process :: "('c \<Rightarrow> 'c list) \<Rightarrow> 'q \<Rightarrow> ('c list \<times> 'q) option"
    and pending :: "'q \<Rightarrow> 'c multiset"
    and awake :: "'q \<Rightarrow> bool"
    and inv :: "'q \<Rightarrow> bool"
  assumes inv_add: "inv q \<Longrightarrow> inv (add c q)"
    and pending_add: "inv q \<Longrightarrow> pending (add c q) = add_mset c (pending q)"
    and awake_add: "inv q \<Longrightarrow> pending q = {#} \<or> awake q \<Longrightarrow> awake (add c q)"
    and inv_process: "inv q \<Longrightarrow> process spawn q = Some (rs, q') \<Longrightarrow> inv q'"
    and process_accounts: "inv q \<Longrightarrow> process spawn q = Some (rs, q') \<Longrightarrow>
      mset rs + pending q' = pending q + (\<Sum>c\<in>#mset rs. mset (spawn c))"
    and process_first: "inv q \<Longrightarrow> process spawn q = Some (rs, q') \<Longrightarrow> pending q \<subseteq># mset rs"
    and process_quiet: "inv q \<Longrightarrow> (\<And>c. c \<in># pending q \<Longrightarrow> spawn c = []) \<Longrightarrow>
      \<exists>rs q'. process spawn q = Some (rs, q') \<and> mset rs = pending q \<and> pending q' = {#}"
    and process_returns: "inv q \<Longrightarrow> (\<And>c d. d \<in> set (spawn c) \<Longrightarrow> (rank :: 'c \<Rightarrow> nat) d < rank c) \<Longrightarrow>
      process spawn q \<noteq> None"
begin

definition add_all :: "'c list \<Rightarrow> 'q \<Rightarrow> 'q" where
  "add_all cs q = fold add cs q"

lemma inv_add_all: "inv q \<Longrightarrow> inv (add_all cs q)"
  by (induction cs arbitrary: q) (auto simp: add_all_def intro: inv_add)

lemma pending_add_all: "inv q \<Longrightarrow> pending (add_all cs q) = mset cs + pending q"
proof (induction cs arbitrary: q)
  case (Cons c cs)
  then have "pending (fold add cs (add c q)) = mset cs + pending (add c q)"
    by (auto simp: add_all_def intro: inv_add)
  with Cons.prems show ?case
    by (simp add: add_all_def pending_add)
qed (simp add: add_all_def)

lemma awake_add_all:
  "inv q \<Longrightarrow> pending q = {#} \<or> awake q \<Longrightarrow> cs \<noteq> [] \<Longrightarrow> awake (add_all cs q)"
proof (induction cs arbitrary: q)
  case (Cons c cs)
  have "awake (add c q)" and "inv (add c q)"
    using Cons.prems by (auto intro: inv_add awake_add)
  then show ?case
    using Cons.IH [of "add c q"] by (cases "cs = []") (auto simp: add_all_def)
qed simp

text \<open>
  What a client gets: callbacks that schedule nothing, added to an empty queue, make it
  awake, and the next \<open>Process\<close> returns, having run exactly them, and leaves nothing.
\<close>

lemma add_all_process:
  assumes "inv q" and "pending q = {#}" and "\<And>c. c \<in> set cs \<Longrightarrow> spawn c = []"
  obtains rs q' where "process spawn (add_all cs q) = Some (rs, q')"
    and "mset rs = mset cs" and "pending q' = {#}"
proof -
  have "inv (add_all cs q)" and "pending (add_all cs q) = mset cs"
    using assms(1,2) by (simp_all add: inv_add_all pending_add_all)
  then show ?thesis
    using process_quiet [of "add_all cs q" spawn] assms(3) that by auto
qed

text \<open>Nothing that was pending before a \<open>Process\<close> that returns is left out of it.\<close>

lemma process_runs_pending:
  assumes "inv q" and "process spawn q = Some (rs, q')" and "c \<in># pending q"
  shows "c \<in> set rs"
  using process_first [OF assms(1,2)] assms(3) by (metis mset_subset_eqD set_mset_mset)

end

section \<open>EventBlockingQueue\<close>

record 'c blocking_queue =
  bq_channel :: event_channel
  bq_queue :: "'c list"

definition bq_create :: "event_channel \<Rightarrow> 'c blocking_queue" where
  "bq_create ch = \<lparr>bq_channel = ch, bq_queue = []\<rparr>"

definition bq_pop :: "'c blocking_queue \<Rightarrow> ('c \<times> 'c blocking_queue) option" where
  "bq_pop q = (case bq_queue q of [] \<Rightarrow> None | c # cs \<Rightarrow> Some (c, q\<lparr>bq_queue := cs\<rparr>))"

definition bq_add :: "'c \<Rightarrow> 'c blocking_queue \<Rightarrow> 'c blocking_queue" where
  "bq_add callback q =
     (let q1 = q\<lparr>bq_queue := bq_queue q @ [callback]\<rparr>
      in if length (bq_queue q1) = 1 then q1\<lparr>bq_channel := ec_wakeup (bq_channel q1)\<rparr> else q1)"

definition bq_size :: "'c blocking_queue \<Rightarrow> nat" where
  "bq_size q = length (bq_queue q)"

partial_function (option) bq_process ::
  "('c \<Rightarrow> 'c list) \<Rightarrow> 'c blocking_queue \<Rightarrow> ('c list \<times> 'c blocking_queue) option"
where
  "bq_process spawn q =
     (case bq_pop q of
        None \<Rightarrow> Some ([], q)
      | Some (callback, q1) \<Rightarrow>
          Option.bind (bq_process spawn (fold bq_add (spawn callback) q1))
            (\<lambda>(rs, q2). Some (callback # rs, q2)))"

section \<open>EventDoubleBufferQueue\<close>

record 'c double_queue =
  dq_channel :: event_channel
  dq_pending :: "'c list"
  dq_running :: "'c list"

definition dq_create :: "event_channel \<Rightarrow> 'c double_queue" where
  "dq_create ch = \<lparr>dq_channel = ch, dq_pending = [], dq_running = []\<rparr>"

definition dq_add :: "'c \<Rightarrow> 'c double_queue \<Rightarrow> 'c double_queue" where
  "dq_add callback q =
     (let q1 = q\<lparr>dq_pending := dq_pending q @ [callback]\<rparr>
      in if length (dq_pending q1) = 1 then q1\<lparr>dq_channel := ec_wakeup (dq_channel q1)\<rparr> else q1)"

definition dq_size :: "'c double_queue \<Rightarrow> nat" where
  "dq_size q = length (dq_pending q)"

definition dq_swap :: "'c double_queue \<Rightarrow> 'c double_queue" where
  "dq_swap q = q\<lparr>dq_running := dq_pending q, dq_pending := dq_running q\<rparr>"

fun dq_run :: "('c \<Rightarrow> 'c list) \<Rightarrow> 'c list \<Rightarrow> 'c double_queue \<Rightarrow> 'c double_queue" where
  "dq_run spawn [] q = q"
| "dq_run spawn (callback # cs) q = dq_run spawn cs (fold dq_add (spawn callback) q)"

definition dq_process ::
  "('c \<Rightarrow> 'c list) \<Rightarrow> 'c double_queue \<Rightarrow> ('c list \<times> 'c double_queue) option"
where
  "dq_process spawn q =
     (let q1 = dq_swap q; q2 = dq_run spawn (dq_running q1) q1
      in Some (dq_running q1, q2\<lparr>dq_running := []\<rparr>))"

section \<open>EventLockFreeQueue\<close>

text \<open>
  \<open>moodycamel::ConcurrentQueue\<close> is a git submodule: its operations are a parameter.
  \<open>cq_ok\<close> states what its documentation promises and the queue relies on: \<open>enqueue\<close>
  fails only when memory runs out (so it succeeds here) and adds its element;
  \<open>try_dequeue_bulk\<close> takes at most as many elements as asked for, and none only when there
  is none.  Nothing is said about the order in which elements leave.
\<close>

record ('c, 'k) concurrent_queue_ops =
  cq_enqueue :: "'c \<Rightarrow> 'k \<Rightarrow> bool \<times> 'k"
  cq_try_dequeue_bulk :: "nat \<Rightarrow> 'k \<Rightarrow> 'c list \<times> 'k"
  cq_contents :: "'k \<Rightarrow> 'c multiset"

definition cq_ok :: "('c, 'k) concurrent_queue_ops \<Rightarrow> bool" where
  "cq_ok Q \<longleftrightarrow>
     (\<forall>c k. fst (cq_enqueue Q c k)
        \<and> cq_contents Q (snd (cq_enqueue Q c k)) = add_mset c (cq_contents Q k))
   \<and> (\<forall>n k xs k'. cq_try_dequeue_bulk Q n k = (xs, k') \<longrightarrow>
        length xs \<le> n \<and> mset xs + cq_contents Q k' = cq_contents Q k
        \<and> (0 < n \<and> cq_contents Q k \<noteq> {#} \<longrightarrow> xs \<noteq> []))"

record 'k lockfree_queue =
  lq_channel :: event_channel
  lq_size :: u64
  lq_queue :: 'k

definition lq_create :: "event_channel \<Rightarrow> 'k \<Rightarrow> 'k lockfree_queue" where
  "lq_create ch k = \<lparr>lq_channel = ch, lq_size = 0, lq_queue = k\<rparr>"

text \<open>The loop \<open>while (!queue_.enqueue(callback)) yield\<close>.\<close>

definition lq_enqueue :: "('c, 'k) concurrent_queue_ops \<Rightarrow> 'c \<Rightarrow> 'k \<Rightarrow> 'k" where
  "lq_enqueue Q callback k =
     snd (while (\<lambda>(ok, _). \<not> ok) (\<lambda>(_, k'). cq_enqueue Q callback k') (cq_enqueue Q callback k))"

definition lq_add :: "('c, 'k) concurrent_queue_ops \<Rightarrow> 'c \<Rightarrow> 'k lockfree_queue \<Rightarrow> 'k lockfree_queue"
where
  "lq_add Q callback q =
     (let q1 = q\<lparr>lq_queue := lq_enqueue Q callback (lq_queue q)\<rparr>;
          old = lq_size q1;
          q2 = q1\<lparr>lq_size := old + 1\<rparr>
      in if old = 0 then q2\<lparr>lq_channel := ec_wakeup (lq_channel q2)\<rparr> else q2)"

partial_function (option) lq_process ::
  "('c, 'k) concurrent_queue_ops \<Rightarrow> ('c \<Rightarrow> 'c list) \<Rightarrow> 'k lockfree_queue \<Rightarrow>
     ('c list \<times> 'k lockfree_queue) option"
where
  "lq_process Q spawn q =
     (case cq_try_dequeue_bulk Q 32 (lq_queue q) of
        (buf, k) \<Rightarrow>
          if length buf = 0 then Some ([], q\<lparr>lq_queue := k\<rparr>)
          else
            Option.bind
              (lq_process Q spawn
                (fold (lq_add Q) (concat (map spawn buf))
                  (q\<lparr>lq_queue := k, lq_size := lq_size q + (- of_nat (length buf))\<rparr>)))
              (\<lambda>(rs, q'). Some (buf @ rs, q')))"

definition lq_size_of :: "'k lockfree_queue \<Rightarrow> u64" where
  "lq_size_of q = lq_size q"

section \<open>Facts about the blocking queue\<close>

lemma bq_queue_add [simp]: "bq_queue (bq_add c q) = bq_queue q @ [c]"
  by (simp add: bq_add_def Let_def)

lemma bq_queue_fold [simp]: "bq_queue (fold bq_add cs q) = bq_queue q @ cs"
  by (induction cs arbitrary: q) auto

lemma bq_pop_None [simp]: "bq_pop q = None \<longleftrightarrow> bq_queue q = []"
  by (simp add: bq_pop_def split: list.splits)

lemma bq_pop_Some: "bq_pop q = Some (c, q1) \<longleftrightarrow>
    (\<exists>cs. bq_queue q = c # cs \<and> q1 = q\<lparr>bq_queue := cs\<rparr>)"
  by (auto simp: bq_pop_def split: list.splits)

lemma bq_awake_add:
  "bq_queue q = [] \<or> ec_readable (bq_channel q) \<Longrightarrow> ec_readable (bq_channel (bq_add c q))"
  by (auto simp: bq_add_def Let_def)

text \<open>
  A \<open>Process\<close> that returns has run the queue in first-in first-out order, the callbacks
  scheduled meanwhile included: each callback's own additions follow everything queued before.
\<close>

lemma bq_process_fifo:
  assumes "bq_process spawn q = Some (rs, q')"
  shows "rs = bq_queue q @ concat (map spawn rs)" and "bq_queue q' = []"
proof -
  let ?P = "\<lambda>spawn q r. fst r = bq_queue q @ concat (map spawn (fst r)) \<and> bq_queue (snd r) = []"
  have "?P spawn q (rs, q')"
  proof (rule bq_process.raw_induct [where P = ?P, OF _ assms])
    fix f spawn and q :: "'a blocking_queue" and r
    assume IH: "\<And>spawn q r. f spawn q = Some r \<Longrightarrow> ?P spawn q r"
      and run: "(case bq_pop q of None \<Rightarrow> Some ([], q)
        | Some (callback, q1) \<Rightarrow> Option.bind (f spawn (fold bq_add (spawn callback) q1))
            (\<lambda>(rs, q2). Some (callback # rs, q2))) = Some r"
    show "?P spawn q r"
    proof (cases "bq_pop q")
      case None
      with run show ?thesis by auto
    next
      case (Some p)
      then obtain c cs where q: "bq_queue q = c # cs" and p: "p = (c, q\<lparr>bq_queue := cs\<rparr>)"
        by (metis bq_pop_Some surj_pair)
      from run Some p obtain rs q2
        where f: "f spawn (fold bq_add (spawn c) (q\<lparr>bq_queue := cs\<rparr>)) = Some (rs, q2)"
          and r: "r = (c # rs, q2)"
        by (auto simp: bind_eq_Some_conv)
      from IH [OF f] q r show ?thesis by simp
    qed
  qed
  then show "rs = bq_queue q @ concat (map spawn rs)" and "bq_queue q' = []"
    by simp_all
qed

lemma mset_concat_map: "mset (concat (map f xs)) = (\<Sum>x\<in>#mset xs. mset (f x))"
  by (induction xs) auto

text \<open>Termination: when callbacks only schedule callbacks of smaller rank, the loop ends.\<close>

lemma ranks_decrease:
  assumes "\<And>d. d \<in> set ds \<Longrightarrow> rank d < rank c"
  shows "(image_mset rank (M + mset ds), image_mset rank (add_mset c M)) \<in> mult {(x, y). x < (y::nat)}"
proof -
  have "(image_mset rank M + image_mset rank (mset ds), image_mset rank M + {#rank c#})
      \<in> mult {(x, y). x < (y::nat)}"
    by (rule one_step_implies_mult) (auto dest: assms)
  then show ?thesis by simp
qed

lemma wf_rank_mult: "wf (mult {(x, y). x < (y::nat)})"
  by (intro wf_mult) (rule wf)

lemma bq_process_returns:
  fixes rank :: "'c \<Rightarrow> nat"
  assumes dec: "\<And>c d. d \<in> set (spawn c) \<Longrightarrow> rank d < rank c"
  shows "bq_process spawn q \<noteq> None"
proof (induction "image_mset rank (mset (bq_queue q))" arbitrary: q rule: wf_induct_rule [OF wf_rank_mult])
  case 1
  show ?case
  proof (cases "bq_queue q")
    case Nil
    then show ?thesis by (subst bq_process.simps) (simp add: bq_pop_def)
  next
    case (Cons c cs)
    let ?q = "fold bq_add (spawn c) (q\<lparr>bq_queue := cs\<rparr>)"
    have "(image_mset rank (mset cs + mset (spawn c)), image_mset rank (add_mset c (mset cs)))
        \<in> mult {(x, y). x < (y::nat)}"
      by (rule ranks_decrease) (rule dec)
    then have "bq_process spawn ?q \<noteq> None"
      using 1 [of ?q] Cons by simp
    then show ?thesis
      by (subst bq_process.simps) (auto simp: bq_pop_def Cons)
  qed
qed

interpretation bq: event_queue bq_add bq_process "\<lambda>q. mset (bq_queue q)"
  "\<lambda>q. ec_readable (bq_channel q)" "\<lambda>_. True"
proof unfold_locales
  fix spawn :: "'c \<Rightarrow> 'c list" and q q' :: "'c blocking_queue" and rs
  assume run: "bq_process spawn q = Some (rs, q')"
  show "mset rs + mset (bq_queue q') = mset (bq_queue q) + (\<Sum>c\<in>#mset rs. mset (spawn c))"
    using bq_process_fifo [OF run] by (metis add.right_neutral mset.simps(1) mset_append mset_concat_map)
  show "mset (bq_queue q) \<subseteq># mset rs"
    using bq_process_fifo [OF run] by (metis mset_append mset_subset_eq_add_left)
next
  fix spawn :: "'c \<Rightarrow> 'c list" and q :: "'c blocking_queue"
  assume quiet: "\<And>c. c \<in># mset (bq_queue q) \<Longrightarrow> spawn c = []"
  show "\<exists>rs q'. bq_process spawn q = Some (rs, q') \<and> mset rs = mset (bq_queue q) \<and> mset (bq_queue q') = {#}"
    using quiet
  proof (induction "bq_queue q" arbitrary: q)
    case Nil
    then show ?case by (subst bq_process.simps) (simp add: bq_pop_def)
  next
    case (Cons c cs)
    have "\<exists>rs q'. bq_process spawn (q\<lparr>bq_queue := cs\<rparr>) = Some (rs, q')
        \<and> mset rs = mset cs \<and> mset (bq_queue q') = {#}"
      using Cons.hyps(1) [of "q\<lparr>bq_queue := cs\<rparr>"] Cons.hyps(2) Cons.prems by (metis (no_types, lifting)
          blocking_queue.select_convs(2) blocking_queue.surjective blocking_queue.update_convs(2)
          in_multiset_in_set list.set_intros(2))
    moreover have "spawn c = []"
      using Cons.prems Cons.hyps(2) by (metis in_multiset_in_set list.set_intros(1))
    ultimately show ?case
      using Cons.hyps(2) [symmetric] by (subst bq_process.simps) (auto simp: bq_pop_def)
  qed
next
  fix spawn :: "'c \<Rightarrow> 'c list" and rank :: "'c \<Rightarrow> nat" and q :: "'c blocking_queue"
  assume "\<And>c d. d \<in> set (spawn c) \<Longrightarrow> rank d < rank c"
  then show "bq_process spawn q \<noteq> None" by (rule bq_process_returns)
qed (auto simp: bq_awake_add)

section \<open>Facts about the double buffer queue\<close>

lemma dq_add_simps [simp]:
  "dq_pending (dq_add c q) = dq_pending q @ [c]"
  "dq_running (dq_add c q) = dq_running q"
  by (simp_all add: dq_add_def Let_def)

lemma dq_fold_simps [simp]:
  "dq_pending (fold dq_add cs q) = dq_pending q @ cs"
  "dq_running (fold dq_add cs q) = dq_running q"
  by (induction cs arbitrary: q) auto

lemma dq_run_simps [simp]:
  "dq_pending (dq_run spawn cs q) = dq_pending q @ concat (map spawn cs)"
  "dq_running (dq_run spawn cs q) = dq_running q"
  by (induction cs arbitrary: q) auto

lemma dq_awake_add:
  "dq_pending q = [] \<or> ec_readable (dq_channel q) \<Longrightarrow> ec_readable (dq_channel (dq_add c q))"
  by (auto simp: dq_add_def Let_def)

definition dq_idle :: "'c double_queue \<Rightarrow> bool" where
  "dq_idle q \<longleftrightarrow> dq_running q = []"

text \<open>
  \<open>Process\<close> always returns: it runs the callbacks that were pending and leaves the ones they
  scheduled for the next round.
\<close>

lemma dq_process_eq:
  assumes "dq_idle q"
  obtains q' where "dq_process spawn q = Some (dq_pending q, q')"
    and "dq_pending q' = concat (map spawn (dq_pending q))" and "dq_idle q'"
  using assms by (simp add: dq_process_def dq_swap_def dq_idle_def Let_def)

lemma dq_awake_fold:
  "dq_pending q = [] \<or> ec_readable (dq_channel q) \<Longrightarrow> cs \<noteq> [] \<Longrightarrow>
    ec_readable (dq_channel (fold dq_add cs q))"
proof (induction cs arbitrary: q)
  case (Cons c cs)
  then show ?case
    using dq_awake_add [of q c] by (cases "cs = []") auto
qed simp

lemma dq_awake_run:
  "dq_pending q = [] \<or> ec_readable (dq_channel q) \<Longrightarrow>
    dq_pending (dq_run spawn cs q) = [] \<or> ec_readable (dq_channel (dq_run spawn cs q))"
proof (induction cs arbitrary: q)
  case (Cons c cs)
  let ?q = "fold dq_add (spawn c) q"
  have "dq_pending ?q = [] \<or> ec_readable (dq_channel ?q)"
    using Cons.prems dq_awake_fold [of q "spawn c"] by (cases "spawn c = []") auto
  then show ?case
    using Cons.IH [of ?q] by simp
qed simp

lemma dq_process_awake:
  assumes "dq_idle q" and "dq_process spawn q = Some (rs, q')"
  shows "dq_pending q' = [] \<or> ec_readable (dq_channel q')"
  using assms dq_awake_run [of "dq_swap q" spawn "dq_pending q"]
  by (auto simp: dq_process_def dq_swap_def dq_idle_def Let_def)

interpretation dq: event_queue dq_add dq_process "\<lambda>q. mset (dq_pending q)"
  "\<lambda>q. ec_readable (dq_channel q)" dq_idle
proof unfold_locales
  fix spawn :: "'c \<Rightarrow> 'c list" and q q' :: "'c double_queue" and rs
  assume idle: "dq_idle q" and run: "dq_process spawn q = Some (rs, q')"
  from idle obtain q1 where *: "dq_process spawn q = Some (dq_pending q, q1)"
    "dq_pending q1 = concat (map spawn (dq_pending q))" "dq_idle q1"
    by (rule dq_process_eq)
  from run * show "dq_idle q'" by simp
  from run * show "mset rs + mset (dq_pending q') = mset (dq_pending q) + (\<Sum>c\<in>#mset rs. mset (spawn c))"
    by (simp only: option.inject prod.inject mset_concat_map)
  from run * show "mset (dq_pending q) \<subseteq># mset rs" by simp
next
  fix spawn :: "'c \<Rightarrow> 'c list" and q :: "'c double_queue"
  assume idle: "dq_idle q" and quiet: "\<And>c. c \<in># mset (dq_pending q) \<Longrightarrow> spawn c = []"
  from idle obtain q1 where *: "dq_process spawn q = Some (dq_pending q, q1)"
    "dq_pending q1 = concat (map spawn (dq_pending q))" "dq_idle q1"
    by (rule dq_process_eq)
  with quiet show "\<exists>rs q'. dq_process spawn q = Some (rs, q') \<and> mset rs = mset (dq_pending q)
      \<and> mset (dq_pending q') = {#}"
    by auto
qed (auto simp: dq_awake_add dq_idle_def dq_process_def Let_def)

section \<open>Facts about the lock free queue\<close>

lemma cq_okD:
  assumes "cq_ok Q"
  shows "fst (cq_enqueue Q c k)"
    and "cq_contents Q (snd (cq_enqueue Q c k)) = add_mset c (cq_contents Q k)"
    and "cq_try_dequeue_bulk Q n k = (xs, k') \<Longrightarrow> mset xs + cq_contents Q k' = cq_contents Q k"
    and "cq_try_dequeue_bulk Q n k = (xs, k') \<Longrightarrow> length xs \<le> n"
    and "cq_try_dequeue_bulk Q n k = (xs, k') \<Longrightarrow> 0 < n \<Longrightarrow> cq_contents Q k \<noteq> {#} \<Longrightarrow> xs \<noteq> []"
  using assms unfolding cq_ok_def by blast+

lemma lq_enqueue_eq: "cq_ok Q \<Longrightarrow> lq_enqueue Q c k = snd (cq_enqueue Q c k)"
  using cq_okD(1) [of Q c k]
  by (cases "cq_enqueue Q c k") (simp add: lq_enqueue_def while_unfold)

lemma lq_contents_add [simp]:
  "cq_ok Q \<Longrightarrow> cq_contents Q (lq_queue (lq_add Q c q)) = add_mset c (cq_contents Q (lq_queue q))"
  by (simp add: lq_add_def Let_def lq_enqueue_eq cq_okD(2))

lemma lq_contents_fold [simp]:
  "cq_ok Q \<Longrightarrow> cq_contents Q (lq_queue (fold (lq_add Q) cs q)) = mset cs + cq_contents Q (lq_queue q)"
  by (induction cs arbitrary: q) auto

text \<open>
  Between calls, the counter is the number of queued callbacks (modulo 2^64); a counter of
  zero is what makes \<open>Add\<close> wake the loop.
\<close>

definition lq_counted :: "('c, 'k) concurrent_queue_ops \<Rightarrow> 'k lockfree_queue \<Rightarrow> bool" where
  "lq_counted Q q \<longleftrightarrow> lq_size q = of_nat (size (cq_contents Q (lq_queue q)))"

lemma lq_counted_add: "cq_ok Q \<Longrightarrow> lq_counted Q q \<Longrightarrow> lq_counted Q (lq_add Q c q)"
  by (simp add: lq_counted_def lq_add_def Let_def lq_enqueue_eq cq_okD(2))

lemma lq_counted_fold: "cq_ok Q \<Longrightarrow> lq_counted Q q \<Longrightarrow> lq_counted Q (fold (lq_add Q) cs q)"
  by (induction cs arbitrary: q) (auto simp: lq_counted_add)

lemma lq_counted_dequeue:
  assumes "cq_ok Q" and "lq_counted Q q" and "cq_try_dequeue_bulk Q n (lq_queue q) = (buf, k)"
  shows "lq_counted Q (q\<lparr>lq_queue := k, lq_size := lq_size q + (- of_nat (length buf))\<rparr>)"
proof -
  have "size (cq_contents Q (lq_queue q)) = length buf + size (cq_contents Q k)"
    using cq_okD(3) [OF assms(1,3)] by (metis size_mset size_union)
  with assms(2) show ?thesis
    by (simp add: lq_counted_def)
qed

lemma lq_awake_add:
  assumes "cq_ok Q" and "lq_counted Q q"
    and "cq_contents Q (lq_queue q) = {#} \<or> ec_readable (lq_channel q)"
  shows "ec_readable (lq_channel (lq_add Q c q))"
  using assms by (auto simp: lq_add_def Let_def lq_counted_def)

text \<open>One round of the drain loop, for a queue that is counted.\<close>

lemma lq_process_cases:
  assumes "cq_ok Q" and "lq_process Q spawn q = Some (rs, q')"
    and "cq_try_dequeue_bulk Q 32 (lq_queue q) = (buf, k)"
    and q1: "q1 = fold (lq_add Q) (concat (map spawn buf))
              (q\<lparr>lq_queue := k, lq_size := lq_size q + (- of_nat (length buf))\<rparr>)"
  shows "buf = [] \<and> rs = [] \<and> q' = q\<lparr>lq_queue := k\<rparr> \<or>
    buf \<noteq> [] \<and> (\<exists>rs1. lq_process Q spawn q1 = Some (rs1, q') \<and> rs = buf @ rs1)"
  using assms by (subst (asm) lq_process.simps) (auto simp: bind_eq_Some_conv split: if_splits)

lemma lq_process_facts:
  assumes ok: "cq_ok Q" and run: "lq_process Q spawn q = Some (rs, q')" and cnt: "lq_counted Q q"
  shows "lq_counted Q q' \<and> cq_contents Q (lq_queue q') = {#} \<and>
    mset rs = cq_contents Q (lq_queue q) + (\<Sum>c\<in>#mset rs. mset (spawn c))"
proof -
  let ?P = "\<lambda>Q spawn q r. cq_ok Q \<and> lq_counted Q q \<longrightarrow> lq_counted Q (snd r) \<and>
    cq_contents Q (lq_queue (snd r)) = {#} \<and>
    mset (fst r) = cq_contents Q (lq_queue q) + (\<Sum>c\<in>#mset (fst r). mset (spawn c))"
  have "?P Q spawn q (rs, q')"
  proof (rule lq_process.raw_induct [where P = ?P, OF _ run])
    fix f Q spawn and q :: "'b lockfree_queue" and r
    assume IH: "\<And>Q spawn q r. f Q spawn q = Some r \<Longrightarrow> ?P Q spawn q r"
      and body: "(case cq_try_dequeue_bulk Q 32 (lq_queue q) of
        (buf, k) \<Rightarrow> if length buf = 0 then Some ([], q\<lparr>lq_queue := k\<rparr>)
          else Option.bind (f Q spawn (fold (lq_add Q) (concat (map spawn buf))
                (q\<lparr>lq_queue := k, lq_size := lq_size q + (- of_nat (length buf))\<rparr>)))
              (\<lambda>(rs, q'). Some (buf @ rs, q'))) = Some r"
    obtain buf k where deq: "cq_try_dequeue_bulk Q 32 (lq_queue q) = (buf, k)"
      by fastforce
    let ?q1 = "q\<lparr>lq_queue := k, lq_size := lq_size q + (- of_nat (length buf))\<rparr>"
    show "?P Q spawn q r"
    proof (cases "buf = []")
      case True
      show ?thesis
      proof (rule impI)
        assume *: "cq_ok Q \<and> lq_counted Q q"
        then have "cq_contents Q k = cq_contents Q (lq_queue q)" and "cq_contents Q (lq_queue q) = {#}"
          using cq_okD(3,5) [of Q 32 "lq_queue q" buf k] deq True by auto
        then show "lq_counted Q (snd r) \<and> cq_contents Q (lq_queue (snd r)) = {#} \<and>
            mset (fst r) = cq_contents Q (lq_queue q) + (\<Sum>c\<in>#mset (fst r). mset (spawn c))"
          using body deq True * by (auto simp: lq_counted_def)
      qed
    next
      case False
      with body deq obtain rs1 q2
        where f: "f Q spawn (fold (lq_add Q) (concat (map spawn buf)) ?q1) = Some (rs1, q2)"
          and r: "r = (buf @ rs1, q2)"
        by (auto simp: bind_eq_Some_conv)
      show ?thesis
      proof (rule impI)
        assume *: "cq_ok Q \<and> lq_counted Q q"
        then have "lq_counted Q (fold (lq_add Q) (concat (map spawn buf)) ?q1)"
          using deq by (intro lq_counted_fold lq_counted_dequeue) auto
        then have "lq_counted Q q2" "cq_contents Q (lq_queue q2) = {#}"
          "mset rs1 = mset (concat (map spawn buf)) + cq_contents Q k + (\<Sum>c\<in>#mset rs1. mset (spawn c))"
          using IH [OF f] * by simp_all
        moreover have "cq_contents Q (lq_queue q) = mset buf + cq_contents Q k"
          using cq_okD(3) [OF _ deq] * by simp
        ultimately show "lq_counted Q (snd r) \<and> cq_contents Q (lq_queue (snd r)) = {#} \<and>
            mset (fst r) = cq_contents Q (lq_queue q) + (\<Sum>c\<in>#mset (fst r). mset (spawn c))"
          using r by (simp add: mset_concat_map add_ac)
      qed
    qed
  qed
  with ok cnt show ?thesis by simp
qed

lemma ranks_decrease_all:
  assumes "buf \<noteq> []" and dec: "\<And>c d. d \<in> set (spawn c) \<Longrightarrow> rank d < rank c"
  shows "(image_mset rank (M + mset (concat (map spawn buf))), image_mset rank (M + mset buf))
    \<in> mult {(x, y). x < (y::nat)}"
proof -
  have "\<forall>k \<in># image_mset rank (mset (concat (map spawn buf))). \<exists>j \<in># image_mset rank (mset buf).
      (k, j) \<in> {(x, y). x < y}"
    using dec by fastforce
  then have "(image_mset rank M + image_mset rank (mset (concat (map spawn buf))),
      image_mset rank M + image_mset rank (mset buf)) \<in> mult {(x, y). x < (y::nat)}"
    using assms(1) by (intro one_step_implies_mult) auto
  then show ?thesis by simp
qed

lemma lq_process_returns:
  fixes rank :: "'c \<Rightarrow> nat"
  assumes ok: "cq_ok Q" and dec: "\<And>c d. d \<in> set (spawn c) \<Longrightarrow> rank d < rank c"
  shows "lq_process Q spawn q \<noteq> None"
proof (induction "image_mset rank (cq_contents Q (lq_queue q))" arbitrary: q
    rule: wf_induct_rule [OF wf_rank_mult])
  case 1
  obtain buf k where deq: "cq_try_dequeue_bulk Q 32 (lq_queue q) = (buf, k)"
    by fastforce
  let ?q = "fold (lq_add Q) (concat (map spawn buf))
              (q\<lparr>lq_queue := k, lq_size := lq_size q + (- of_nat (length buf))\<rparr>)"
  show ?case
  proof (cases "buf = []")
    case True
    with deq show ?thesis by (subst lq_process.simps) simp
  next
    case False
    have "mset buf + cq_contents Q k = cq_contents Q (lq_queue q)"
      using cq_okD(3) [OF ok deq] .
    then have "(image_mset rank (cq_contents Q (lq_queue ?q)), image_mset rank (cq_contents Q (lq_queue q)))
        \<in> mult {(x, y). x < (y::nat)}"
      using ranks_decrease_all [where spawn = spawn and M = "cq_contents Q k", OF False dec] ok by (simp add: add_ac)
    from 1 [OF this] have "lq_process Q spawn ?q \<noteq> None" .
    with deq False show ?thesis by (subst lq_process.simps) auto
  qed
qed

lemma lq_process_quiet:
  assumes ok: "cq_ok Q"
    and quiet: "\<And>c. c \<in># cq_contents Q (lq_queue q) \<Longrightarrow> spawn c = []"
  shows "\<exists>rs q'. lq_process Q spawn q = Some (rs, q') \<and> mset rs = cq_contents Q (lq_queue q)
    \<and> cq_contents Q (lq_queue q') = {#}"
  using quiet
proof (induction "size (cq_contents Q (lq_queue q))" arbitrary: q rule: less_induct)
  case less
  obtain buf k where deq: "cq_try_dequeue_bulk Q 32 (lq_queue q) = (buf, k)"
    by fastforce
  have sum: "cq_contents Q (lq_queue q) = mset buf + cq_contents Q k"
    using cq_okD(3) [OF ok deq] by simp
  let ?q = "q\<lparr>lq_queue := k, lq_size := lq_size q + (- of_nat (length buf))\<rparr>"
  show ?case
  proof (cases "buf = []")
    case True
    then have "cq_contents Q (lq_queue q) = {#}"
      using cq_okD(5) [OF ok deq] by auto
    with deq True sum show ?thesis by (subst lq_process.simps) simp
  next
    case False
    have "\<And>c. c \<in> set buf \<Longrightarrow> spawn c = []"
      using less.prems sum by simp
    then have none: "concat (map spawn buf) = []" by simp
    obtain rs q' where "lq_process Q spawn ?q = Some (rs, q')" "mset rs = cq_contents Q k"
      "cq_contents Q (lq_queue q') = {#}"
      using less.hyps [of ?q] less.prems sum False by auto
    moreover have "fold (lq_add Q) (concat (map spawn buf)) ?q = ?q"
      by (simp only: none fold_simps)
    ultimately show ?thesis
      using deq False sum by (subst lq_process.simps) (simp del: fold_simps)
  qed
qed

text \<open>The lock free queue meets the contract whatever concurrent queue is underneath.\<close>

lemma lq_event_queue:
  assumes ok: "cq_ok Q"
  shows "event_queue (lq_add Q) (lq_process Q) (\<lambda>q. cq_contents Q (lq_queue q))
    (\<lambda>q. ec_readable (lq_channel q)) (lq_counted Q)"
proof (unfold_locales, goal_cases)
  case (4 q spawn rs q')
  then show ?case using lq_process_facts [OF ok] by blast
next
  case (5 q spawn rs q')
  then show ?case using lq_process_facts [OF ok] by fastforce
next
  case (6 q spawn rs q')
  then show ?case using lq_process_facts [OF ok] by (metis mset_subset_eq_add_left)
next
  case (7 q spawn)
  then show ?case using lq_process_quiet [OF ok] by blast
next
  case (8 q spawn rank)
  show ?case by (rule lq_process_returns [OF ok]) (rule 8(2))
qed (use ok in \<open>auto simp: lq_counted_add lq_awake_add\<close>)

end
