(* ===== verification/Event_Queue_Threads.thy ===== *)
theory Event_Queue_Threads
  imports Event_Queue
begin

text \<open>
  The three event queues under interleaving.  Producers call \<open>Add\<close> from any thread, also
  from a callback that is running; the loop thread reads the event channel
  (\<open>EventChannel::HandleEvents\<close>) and then runs \<open>Process\<close>.  A step is what happens
  between two synchronisation points of the code: a critical section of the mutex, one
  atomic operation, one operation of the concurrent queue, one callback.  \<open>added\<close> and
  \<open>ran\<close> are histories.

  Each system is a \<open>wakeup_protocol\<close>: a loop that sleeps on an unreadable descriptor has no
  callback left to run, so no wakeup is lost.
\<close>

section \<open>EventBlockingQueue\<close>

record 'c bq_system =
  bs_queue :: "'c blocking_queue"
  bs_draining :: bool
  bs_added :: "'c list"
  bs_ran :: "'c list"

definition bs_initial :: "'c bq_system \<Rightarrow> bool" where
  "bs_initial s \<longleftrightarrow>
     s = \<lparr>bs_queue = bq_create ec_create, bs_draining = False, bs_added = [], bs_ran = []\<rparr>"

inductive bs_step :: "'c bq_system \<Rightarrow> 'c bq_system \<Rightarrow> bool" where
  bs_add: "bs_step s (s\<lparr>bs_queue := bq_add c (bs_queue s), bs_added := bs_added s @ [c]\<rparr>)"
| bs_read: "\<not> bs_draining s \<Longrightarrow> ec_read (bq_channel (bs_queue s)) = Inr ch \<Longrightarrow>
     bs_step s (s\<lparr>bs_queue := (bs_queue s)\<lparr>bq_channel := ch\<rparr>, bs_draining := True\<rparr>)"
| bs_pop: "bs_draining s \<Longrightarrow> bq_pop (bs_queue s) = Some (c, q) \<Longrightarrow>
     bs_step s (s\<lparr>bs_queue := q, bs_ran := bs_ran s @ [c]\<rparr>)"
| bs_done: "bs_draining s \<Longrightarrow> bq_pop (bs_queue s) = None \<Longrightarrow> bs_step s (s\<lparr>bs_draining := False\<rparr>)"

definition bs_inv :: "'c bq_system \<Rightarrow> bool" where
  "bs_inv s \<longleftrightarrow>
     bs_added s = bs_ran s @ bq_queue (bs_queue s)
   \<and> (bs_draining s \<or> bq_queue (bs_queue s) = [] \<or> ec_readable (bq_channel (bs_queue s)))"

lemma bs_inv_initial: "bs_initial s \<Longrightarrow> bs_inv s"
  by (simp add: bs_initial_def bs_inv_def bq_create_def)

lemma bs_inv_step: "bs_step s t \<Longrightarrow> bs_inv s \<Longrightarrow> bs_inv t"
proof (induction rule: bs_step.induct)
  case (bs_add s c)
  then show ?case
    using bq_awake_add [of "bs_queue s" c] by (auto simp: bs_inv_def)
qed (auto simp: bs_inv_def bq_pop_Some)

interpretation bs: wakeup_protocol bs_initial bs_step bs_inv "\<lambda>s. \<not> bs_draining s" "\<lambda>_. True"
  "\<lambda>s. mset (bq_queue (bs_queue s))" "\<lambda>s. ec_readable (bq_channel (bs_queue s))"
  "\<lambda>s. mset (bs_added s)" "\<lambda>s. mset (bs_ran s)"
proof unfold_locales
  fix s :: "'c bq_system"
  assume "bs_inv s" and "\<not> bs_draining s"
  then show "mset (bs_added s) = mset (bs_ran s) + mset (bq_queue (bs_queue s))"
    and "mset (bq_queue (bs_queue s)) \<noteq> {#} \<Longrightarrow> ec_readable (bq_channel (bs_queue s))"
    by (auto simp: bs_inv_def)
qed (auto intro: bs_inv_initial bs_inv_step)

section \<open>EventDoubleBufferQueue\<close>

datatype dq_phase = DqAsleep | DqWoken | DqRunning nat

record 'c dq_system =
  ds_queue :: "'c double_queue"
  ds_phase :: dq_phase
  ds_added :: "'c list"
  ds_ran :: "'c list"

definition ds_initial :: "'c dq_system \<Rightarrow> bool" where
  "ds_initial s \<longleftrightarrow>
     s = \<lparr>ds_queue = dq_create ec_create, ds_phase = DqAsleep, ds_added = [], ds_ran = []\<rparr>"

inductive ds_step :: "'c dq_system \<Rightarrow> 'c dq_system \<Rightarrow> bool" where
  ds_add: "ds_step s (s\<lparr>ds_queue := dq_add c (ds_queue s), ds_added := ds_added s @ [c]\<rparr>)"
| ds_read: "ds_phase s = DqAsleep \<Longrightarrow> ec_read (dq_channel (ds_queue s)) = Inr ch \<Longrightarrow>
     ds_step s (s\<lparr>ds_queue := (ds_queue s)\<lparr>dq_channel := ch\<rparr>, ds_phase := DqWoken\<rparr>)"
| ds_swap: "ds_phase s = DqWoken \<Longrightarrow>
     ds_step s (s\<lparr>ds_queue := dq_swap (ds_queue s), ds_phase := DqRunning 0\<rparr>)"
| ds_run: "ds_phase s = DqRunning i \<Longrightarrow> i < length (dq_running (ds_queue s)) \<Longrightarrow>
     ds_step s (s\<lparr>ds_ran := ds_ran s @ [dq_running (ds_queue s) ! i], ds_phase := DqRunning (Suc i)\<rparr>)"
| ds_clear: "ds_phase s = DqRunning i \<Longrightarrow> i = length (dq_running (ds_queue s)) \<Longrightarrow>
     ds_step s (s\<lparr>ds_queue := (ds_queue s)\<lparr>dq_running := []\<rparr>, ds_phase := DqAsleep\<rparr>)"

fun ds_unrun :: "dq_phase \<Rightarrow> 'c list \<Rightarrow> 'c list" where
  "ds_unrun (DqRunning i) running = drop i running"
| "ds_unrun _ running = running"

definition ds_inv :: "'c dq_system \<Rightarrow> bool" where
  "ds_inv s \<longleftrightarrow>
     ds_added s = ds_ran s @ ds_unrun (ds_phase s) (dq_running (ds_queue s)) @ dq_pending (ds_queue s)
   \<and> ((\<exists>i. ds_phase s = DqRunning i) \<or> dq_running (ds_queue s) = [])
   \<and> (ds_phase s = DqWoken \<or> dq_pending (ds_queue s) = [] \<or> ec_readable (dq_channel (ds_queue s)))"

lemma ds_inv_initial: "ds_initial s \<Longrightarrow> ds_inv s"
  by (simp add: ds_initial_def ds_inv_def dq_create_def)

lemma ds_inv_step: "ds_step s t \<Longrightarrow> ds_inv s \<Longrightarrow> ds_inv t"
proof (induction rule: ds_step.induct)
  case (ds_add s c)
  then show ?case
    using dq_awake_add [of "ds_queue s" c] by (auto simp: ds_inv_def)
next
  case (ds_run s i)
  then show ?case
    by (simp add: ds_inv_def Cons_nth_drop_Suc)
qed (auto simp: ds_inv_def dq_swap_def)

interpretation ds: wakeup_protocol ds_initial ds_step ds_inv "\<lambda>s. ds_phase s = DqAsleep" "\<lambda>_. True"
  "\<lambda>s. mset (dq_pending (ds_queue s))" "\<lambda>s. ec_readable (dq_channel (ds_queue s))"
  "\<lambda>s. mset (ds_added s)" "\<lambda>s. mset (ds_ran s)"
proof unfold_locales
  fix s :: "'c dq_system"
  assume "ds_inv s" and "ds_phase s = DqAsleep"
  then show "mset (ds_added s) = mset (ds_ran s) + mset (dq_pending (ds_queue s))"
    and "mset (dq_pending (ds_queue s)) \<noteq> {#} \<Longrightarrow> ec_readable (dq_channel (ds_queue s))"
    by (auto simp: ds_inv_def)
qed (auto intro: ds_inv_initial ds_inv_step)

section \<open>EventLockFreeQueue\<close>

text \<open>
  The concurrent queue is a multiset here, its documented abstract content: an enqueue adds an
  element, a bulk dequeue takes any 1 to 32 of the elements, or none when there is none.
  \<open>Add\<close> is two steps, the enqueue and the \<open>fetch_add\<close>; \<open>ls_mid\<close> counts the threads
  between them.  \<open>Process\<close> subtracts what it dequeued in a step of its own, so the counter
  can pass below zero and wrap.
\<close>

datatype 'c lq_phase = LqAsleep | LqDraining | LqTaken "'c list" | LqRunning "'c list"

record 'c lq_system =
  ls_queue :: "'c multiset lockfree_queue"
  ls_mid :: nat
  ls_phase :: "'c lq_phase"
  ls_added :: "'c multiset"
  ls_ran :: "'c multiset"

definition ls_initial :: "'c lq_system \<Rightarrow> bool" where
  "ls_initial s \<longleftrightarrow>
     s = \<lparr>ls_queue = lq_create ec_create {#}, ls_mid = 0, ls_phase = LqAsleep, ls_added = {#}, ls_ran = {#}\<rparr>"

definition lq_bump :: "'k lockfree_queue \<Rightarrow> 'k lockfree_queue" where
  "lq_bump q =
     (let old = lq_size q; q1 = q\<lparr>lq_size := old + 1\<rparr>
      in if old = 0 then q1\<lparr>lq_channel := ec_wakeup (lq_channel q1)\<rparr> else q1)"

inductive ls_step :: "'c lq_system \<Rightarrow> 'c lq_system \<Rightarrow> bool" where
  ls_enqueue: "ls_step s (s\<lparr>ls_queue := (ls_queue s)\<lparr>lq_queue := add_mset c (lq_queue (ls_queue s))\<rparr>,
     ls_mid := Suc (ls_mid s), ls_added := add_mset c (ls_added s)\<rparr>)"
| ls_count: "ls_mid s = Suc n \<Longrightarrow> ls_step s (s\<lparr>ls_queue := lq_bump (ls_queue s), ls_mid := n\<rparr>)"
| ls_read: "ls_phase s = LqAsleep \<Longrightarrow> ec_read (lq_channel (ls_queue s)) = Inr ch \<Longrightarrow>
     ls_step s (s\<lparr>ls_queue := (ls_queue s)\<lparr>lq_channel := ch\<rparr>, ls_phase := LqDraining\<rparr>)"
| ls_take: "ls_phase s = LqDraining \<Longrightarrow> mset buf \<subseteq># lq_queue (ls_queue s) \<Longrightarrow>
     0 < length buf \<Longrightarrow> length buf \<le> 32 \<Longrightarrow>
     ls_step s (s\<lparr>ls_queue := (ls_queue s)\<lparr>lq_queue := lq_queue (ls_queue s) - mset buf\<rparr>,
       ls_phase := LqTaken buf\<rparr>)"
| ls_uncount: "ls_phase s = LqTaken buf \<Longrightarrow>
     ls_step s (s\<lparr>ls_queue := (ls_queue s)\<lparr>lq_size := lq_size (ls_queue s) + (- of_nat (length buf))\<rparr>,
       ls_phase := LqRunning buf\<rparr>)"
| ls_run: "ls_phase s = LqRunning (c # buf) \<Longrightarrow>
     ls_step s (s\<lparr>ls_phase := LqRunning buf, ls_ran := add_mset c (ls_ran s)\<rparr>)"
| ls_again: "ls_phase s = LqRunning [] \<Longrightarrow> ls_step s (s\<lparr>ls_phase := LqDraining\<rparr>)"
| ls_empty: "ls_phase s = LqDraining \<Longrightarrow> lq_queue (ls_queue s) = {#} \<Longrightarrow>
     ls_step s (s\<lparr>ls_phase := LqAsleep\<rparr>)"

fun ls_held :: "'c lq_phase \<Rightarrow> 'c list" where
  "ls_held (LqTaken buf) = buf"
| "ls_held (LqRunning buf) = buf"
| "ls_held _ = []"

fun ls_uncounted :: "'c lq_phase \<Rightarrow> int" where
  "ls_uncounted (LqTaken buf) = int (length buf)"
| "ls_uncounted _ = 0"

text \<open>What the counter would be as an unbounded integer.\<close>

definition ls_level :: "'c lq_system \<Rightarrow> int" where
  "ls_level s = int (size (lq_queue (ls_queue s))) + ls_uncounted (ls_phase s) - int (ls_mid s)"

definition ls_inv :: "'c lq_system \<Rightarrow> bool" where
  "ls_inv s \<longleftrightarrow>
     lq_size (ls_queue s) = of_int (ls_level s)
   \<and> ls_added s = ls_ran s + mset (ls_held (ls_phase s)) + lq_queue (ls_queue s)
   \<and> (ls_phase s = LqAsleep \<and> 0 < ls_level s \<longrightarrow> ec_readable (lq_channel (ls_queue s)))"

lemma lq_bump_simps [simp]:
  "lq_queue (lq_bump q) = lq_queue q" "lq_size (lq_bump q) = lq_size q + 1"
  by (simp_all add: lq_bump_def Let_def)

lemma lq_bump_readable:
  "lq_size q = 0 \<or> ec_readable (lq_channel q) \<Longrightarrow> ec_readable (lq_channel (lq_bump q))"
  by (auto simp: lq_bump_def Let_def)

lemma ls_inv_initial: "ls_initial s \<Longrightarrow> ls_inv s"
  by (simp add: ls_initial_def ls_inv_def ls_level_def lq_create_def)

lemma ls_inv_count:
  assumes "ls_inv s" and "ls_mid s = Suc n"
  shows "ls_inv (s\<lparr>ls_queue := lq_bump (ls_queue s), ls_mid := n\<rparr>)"
proof -
  let ?t = "s\<lparr>ls_queue := lq_bump (ls_queue s), ls_mid := n\<rparr>"
  have level: "ls_level ?t = ls_level s + 1"
    using assms(2) by (simp add: ls_level_def)
  have "ls_phase s = LqAsleep \<and> 0 < ls_level ?t \<longrightarrow> ec_readable (lq_channel (lq_bump (ls_queue s)))"
    using assms(1) level by (cases "ls_level s = 0") (auto simp: ls_inv_def intro!: lq_bump_readable)
  with assms(1) level show ?thesis
    by (simp add: ls_inv_def)
qed

lemma ls_inv_step: "ls_step s t \<Longrightarrow> ls_inv s \<Longrightarrow> ls_inv t"
proof (induction rule: ls_step.induct)
  case (ls_count s n)
  then show ?case by (blast intro: ls_inv_count)
next
  case (ls_take s buf)
  have "size (lq_queue (ls_queue s)) = length buf + size (lq_queue (ls_queue s) - mset buf)"
    using ls_take.hyps(2) by (metis size_mset size_union subset_mset.add_diff_inverse)
  with ls_take show ?case
    by (simp add: ls_inv_def ls_level_def)
next
  case (ls_uncount s buf)
  then show ?case
    by (simp add: ls_inv_def ls_level_def)
qed (auto simp: ls_inv_def ls_level_def)

interpretation ls: wakeup_protocol ls_initial ls_step ls_inv "\<lambda>s. ls_phase s = LqAsleep"
  "\<lambda>s. ls_mid s = 0" "\<lambda>s. lq_queue (ls_queue s)" "\<lambda>s. ec_readable (lq_channel (ls_queue s))"
  ls_added ls_ran
proof unfold_locales
  fix s :: "'c lq_system"
  assume *: "ls_inv s" "ls_phase s = LqAsleep"
  then show "ls_added s = ls_ran s + lq_queue (ls_queue s)"
    by (simp add: ls_inv_def)
  show "ls_mid s = 0 \<Longrightarrow> lq_queue (ls_queue s) \<noteq> {#} \<Longrightarrow> ec_readable (lq_channel (ls_queue s))"
    using * by (auto simp: ls_inv_def ls_level_def)
qed (auto intro: ls_inv_initial ls_inv_step)

text \<open>The step form of \<open>Add\<close> is the sequential \<open>lq_add\<close>: the enqueue, then the count.\<close>

lemma lq_add_steps:
  "lq_add Q c q = lq_bump (q\<lparr>lq_queue := lq_enqueue Q c (lq_queue q)\<rparr>)"
  by (simp add: lq_add_def lq_bump_def Let_def)

end
