(* ===== verification/Event_Queue_Properties.thy ===== *)
theory Event_Queue_Properties
  imports Event_Queue_Threads
begin

text \<open>
  What the event queues promise: each callback given to \<open>Add\<close> is run exactly once and the
  loop never sleeps on work; a \<open>Process\<close> runs what was pending; and what \<open>Process\<close> does
  with callbacks that schedule further callbacks, where the three implementations differ.
\<close>

section \<open>A concurrent queue for the witnesses\<close>

text \<open>The simplest queue that keeps the documented promises, a list.\<close>

definition list_queue_ops :: "('c, 'c list) concurrent_queue_ops" where
  "list_queue_ops =
     \<lparr>cq_enqueue = \<lambda>c k. (True, k @ [c]),
      cq_try_dequeue_bulk = \<lambda>n k. (take n k, drop n k),
      cq_contents = mset\<rparr>"

lemma list_queue_ok [simp, intro]: "cq_ok list_queue_ops"
  by (auto simp: cq_ok_def list_queue_ops_def mset_take_drop)

lemma list_queue_simps [simp]:
  "cq_contents list_queue_ops = mset"
  "lq_counted list_queue_ops (lq_create ec_create [])"
  by (simp_all add: list_queue_ops_def lq_counted_def lq_create_def)

lemma list_queue_add [simp]: "lq_queue (lq_add list_queue_ops c q) = lq_queue q @ [c]"
  by (simp add: lq_add_def Let_def lq_enqueue_eq list_queue_ok) (simp add: list_queue_ops_def)

section \<open>No lost wakeup\<close>

text \<open>
  EventBlockingQueue: in every interleaving of Add calls with the loop thread, a loop that
  is between two calls of Process either has nothing queued or has a readable event channel, and
  the callbacks ran so far followed by the queue are those added, in the order of addition.
\<close>

theorem bq_no_lost_wakeup:
  assumes "reachable bs_initial bs_step s" and "\<not> bs_draining s"
  shows "(bq_queue (bs_queue s) = [] \<or> ec_readable (bq_channel (bs_queue s)))
    \<and> bs_added s = bs_ran s @ bq_queue (bs_queue s)"
  using bs.inv_reachable [OF assms(1)] assms(2) by (auto simp: bs_inv_def)

theorem bq_no_lost_wakeup_witness:
  "\<exists>s :: nat bq_system. bs_added s = [7] \<and> bs_ran s = [] \<and> ec_readable (bq_channel (bs_queue s))"
proof -
  let ?i = "\<lparr>bs_queue = bq_create ec_create, bs_draining = False, bs_added = [], bs_ran = []\<rparr> :: nat bq_system"
  let ?s = "?i\<lparr>bs_queue := bq_add 7 (bs_queue ?i), bs_added := bs_added ?i @ [7]\<rparr>"
  have "reachable bs_initial bs_step ?s"
    by (rule reachable.next_step, rule reachable.start) (simp add: bs_initial_def, rule bs_add)
  from bq_no_lost_wakeup [OF this] show ?thesis
    by (intro exI [of _ ?s]) (simp add: bq_create_def)
qed

text \<open>
  EventDoubleBufferQueue: the same for the two buffers swapped under the mutex: a sleeping
  loop with pending callbacks has been signalled, and no callback is lost, duplicated or
  reordered.
\<close>

theorem dq_no_lost_wakeup:
  assumes "reachable ds_initial ds_step s" and "ds_phase s = DqAsleep"
  shows "(dq_pending (ds_queue s) = [] \<or> ec_readable (dq_channel (ds_queue s)))
    \<and> ds_added s = ds_ran s @ dq_pending (ds_queue s)"
  using ds.inv_reachable [OF assms(1)] assms(2) by (auto simp: ds_inv_def)

theorem dq_no_lost_wakeup_witness:
  "\<exists>s :: nat dq_system. ds_added s = [7] \<and> ds_ran s = [] \<and> ec_readable (dq_channel (ds_queue s))"
proof -
  let ?i = "\<lparr>ds_queue = dq_create ec_create, ds_phase = DqAsleep, ds_added = [], ds_ran = []\<rparr> :: nat dq_system"
  let ?s = "?i\<lparr>ds_queue := dq_add 7 (ds_queue ?i), ds_added := ds_added ?i @ [7]\<rparr>"
  have "reachable ds_initial ds_step ?s"
    by (rule reachable.next_step, rule reachable.start) (simp add: ds_initial_def, rule ds_add)
  from dq_no_lost_wakeup [OF this] show ?thesis
    by (intro exI [of _ ?s]) (simp add: dq_create_def)
qed

text \<open>
  EventLockFreeQueue: with the counter incremented in a step of its own after the enqueue
  and decremented after the dequeue, so that it can wrap below zero, a sleeping loop with queued
  callbacks and no Add in progress has been signalled, nothing is lost, and the counter is the
  number of queued callbacks modulo 2^64.
\<close>

theorem lq_no_lost_wakeup:
  assumes "reachable ls_initial ls_step s" and "ls_phase s = LqAsleep" and "ls_mid s = 0"
  shows "(lq_queue (ls_queue s) = {#} \<or> ec_readable (lq_channel (ls_queue s)))
    \<and> ls_added s = ls_ran s + lq_queue (ls_queue s)
    \<and> lq_size (ls_queue s) = of_nat (size (lq_queue (ls_queue s)))"
  using ls.no_lost_wakeup [OF assms] ls.accounts [OF ls.inv_reachable [OF assms(1)] assms(2)]
    ls.inv_reachable [OF assms(1)] assms(2,3)
  by (auto simp: ls_inv_def ls_level_def)

theorem lq_no_lost_wakeup_witness:
  "\<exists>s :: nat lq_system. ls_added s = {#7#} \<and> ls_ran s = {#} \<and> ec_readable (lq_channel (ls_queue s))"
proof -
  let ?i = "\<lparr>ls_queue = lq_create ec_create {#}, ls_mid = 0, ls_phase = LqAsleep, ls_added = {#},
      ls_ran = {#}\<rparr> :: nat lq_system"
  let ?s = "?i\<lparr>ls_queue := (ls_queue ?i)\<lparr>lq_queue := add_mset 7 (lq_queue (ls_queue ?i))\<rparr>,
      ls_mid := Suc (ls_mid ?i), ls_added := add_mset 7 (ls_added ?i)\<rparr>"
  let ?t = "?s\<lparr>ls_queue := lq_bump (ls_queue ?s), ls_mid := 0\<rparr>"
  have "reachable ls_initial ls_step ?s"
    by (rule reachable.next_step, rule reachable.start) (simp add: ls_initial_def, rule ls_enqueue)
  then have "reachable ls_initial ls_step ?t"
    by (rule reachable.next_step) (rule ls_count, simp)
  from lq_no_lost_wakeup [OF this] show ?thesis
    by (intro exI [of _ ?t]) (simp add: lq_create_def)
qed

section \<open>What Process runs\<close>

text \<open>
  EventBlockingQueue::Process returns when callbacks only schedule callbacks of smaller
  rank; it then leaves the queue empty and has run the queued callbacks and all they scheduled,
  first in first out.
\<close>

theorem bq_process_drains:
  fixes rank :: "'c \<Rightarrow> nat"
  assumes "\<And>c d. d \<in> set (spawn c) \<Longrightarrow> rank d < rank c"
  shows "\<exists>rs q'. bq_process spawn q = Some (rs, q')
    \<and> rs = bq_queue q @ concat (map spawn rs) \<and> bq_queue q' = []"
proof -
  obtain rs q' where run: "bq_process spawn q = Some (rs, q')"
    using bq_process_returns [where spawn = spawn and rank = rank and q = q, OF assms] by auto
  then show ?thesis using bq_process_fifo [OF run] by blast
qed

theorem bq_process_drains_witness:
  "\<exists>rs q'. bq_process (\<lambda>n. [0..<n]) (fold bq_add [3, 0] (bq_create ec_create)) = Some (rs, q')
    \<and> rs = [3, 0] @ concat (map (\<lambda>n. [0..<n]) rs) \<and> bq_queue q' = []"
  using bq_process_drains [where rank = "\<lambda>n. n" and spawn = "\<lambda>n. [0..<n]"
    and q = "fold bq_add [3, 0] (bq_create ec_create)"]
  by (simp add: bq_create_def)

text \<open>
  EventDoubleBufferQueue::Process always returns: it runs exactly what was pending, in
  order, keeps what the callbacks scheduled for the next round, and the event channel is
  readable if there is any.
\<close>

theorem dq_process_rounds:
  assumes "dq_idle q"
  shows "\<exists>q'. dq_process spawn q = Some (dq_pending q, q') \<and> dq_idle q'
    \<and> dq_pending q' = concat (map spawn (dq_pending q))
    \<and> (dq_pending q' = [] \<or> ec_readable (dq_channel q'))"
  using dq_process_eq [OF assms] dq_process_awake [OF assms] by metis

theorem dq_process_rounds_witness:
  "\<exists>q'. dq_process (\<lambda>n. [0..<n]) (fold dq_add [2, 1] (dq_create ec_create)) = Some ([2, 1], q')
    \<and> dq_pending q' = [0, 1, 0] \<and> ec_readable (dq_channel q')"
  using dq_process_rounds [of "fold dq_add [2, 1] (dq_create ec_create)" "\<lambda>n. [0..<n]"]
  by (force simp: dq_create_def dq_idle_def upt_rec)

text \<open>
  EventLockFreeQueue::Process, for any concurrent queue that keeps its documented promises,
  returns when callbacks only schedule callbacks of smaller rank, having run each queued and
  each scheduled callback exactly once, and leaves an empty queue with counter zero.
\<close>

theorem lq_process_drains:
  fixes rank :: "'c \<Rightarrow> nat"
  assumes "cq_ok Q" and "lq_counted Q q" and "\<And>c d. d \<in> set (spawn c) \<Longrightarrow> rank d < rank c"
  shows "\<exists>rs q'. lq_process Q spawn q = Some (rs, q')
    \<and> mset rs = cq_contents Q (lq_queue q) + mset (concat (map spawn rs))
    \<and> cq_contents Q (lq_queue q') = {#} \<and> lq_size q' = 0"
proof -
  obtain rs q' where run: "lq_process Q spawn q = Some (rs, q')"
    using lq_process_returns [where Q = Q and spawn = spawn and rank = rank and q = q, OF assms(1,3)] by auto
  then show ?thesis
    using lq_process_facts [OF assms(1) run assms(2)] by (auto simp: lq_counted_def mset_concat_map)
qed

theorem lq_process_drains_witness:
  "\<exists>rs q'. lq_process list_queue_ops (\<lambda>n. [0..<n]) (fold (lq_add list_queue_ops) [3, 0] (lq_create ec_create []))
      = Some (rs, q')
    \<and> mset rs = {#3, 0#} + mset (concat (map (\<lambda>n. [0..<n]) rs)) \<and> lq_size q' = 0"
proof -
  let ?q = "fold (lq_add list_queue_ops) [3, 0] (lq_create ec_create [])"
  have "lq_counted list_queue_ops ?q"
    by (intro lq_counted_fold) simp_all
  from lq_process_drains [OF list_queue_ok this, where spawn = "\<lambda>n. [0..<n]" and rank = "\<lambda>n. n"]
  have "\<exists>rs q'. lq_process list_queue_ops (\<lambda>n. [0..<n]) ?q = Some (rs, q')
    \<and> mset rs = cq_contents list_queue_ops (lq_queue ?q) + mset (concat (map (\<lambda>n. [0..<n]) rs))
    \<and> cq_contents list_queue_ops (lq_queue q') = {#} \<and> lq_size q' = 0"
    by simp
  then show ?thesis
    by (auto simp: lq_create_def)
qed

section \<open>Callbacks that keep scheduling\<close>

text \<open>
  Everything a drain loop runs satisfies \<open>rs = pending + additions of rs\<close>.  A class of
  callbacks in which each schedules another of the class would make its number of runs exceed
  itself, so such a loop does not return.
\<close>

lemma respawn_count:
  assumes "\<And>c. P c \<Longrightarrow> \<exists>d \<in> set (spawn c). P d"
  shows "size (filter_mset P (mset rs)) \<le> size (filter_mset P (mset (concat (map spawn rs))))"
proof (induction rs)
  case (Cons c rs)
  have "P c \<Longrightarrow> 1 \<le> size (filter_mset P (mset (spawn c)))"
    using assms [of c] by (fastforce simp: Suc_le_eq nonempty_has_size [symmetric] filter_mset_eq_mempty_iff)
  with Cons show ?case by auto
qed simp

lemma respawn_absurd:
  assumes "\<And>c. P c \<Longrightarrow> \<exists>d \<in> set (spawn c). P d" and "P c" and "c \<in># M"
    and "mset rs = M + mset (concat (map spawn rs))"
  shows False
proof -
  have "size (filter_mset P (mset rs)) = size (filter_mset P M) + size (filter_mset P (mset (concat (map spawn rs))))"
    unfolding assms(4) by simp
  moreover have "0 < size (filter_mset P M)"
    using assms(2,3) by (fastforce simp: nonempty_has_size [symmetric] filter_mset_eq_mempty_iff)
  ultimately show False
    using respawn_count [of P spawn rs] assms(1) by fastforce
qed

text \<open>
  A queued callback of a class in which each callback schedules another of the class (one
  that reschedules itself, say) keeps Process of the blocking and of the lock free queue from
  ever returning, while the double buffer queue always returns.
\<close>

theorem respawn_starves:
  assumes respawn: "\<And>c. P c \<Longrightarrow> \<exists>d \<in> set (spawn c). P d" and "P c"
  shows "(c \<in> set (bq_queue b) \<longrightarrow> bq_process spawn b = None)
    \<and> (cq_ok Q \<and> lq_counted Q l \<and> c \<in># cq_contents Q (lq_queue l) \<longrightarrow> lq_process Q spawn l = None)
    \<and> dq_process spawn d \<noteq> None"
proof (intro conjI impI)
  note absurd = respawn_absurd [where P = P and spawn = spawn, OF respawn \<open>P c\<close>]
  show "bq_process spawn b = None" if "c \<in> set (bq_queue b)"
  proof (cases "bq_process spawn b")
    case (Some r)
    then have "mset (fst r) = mset (bq_queue b) + mset (concat (map spawn (fst r)))"
      using bq_process_fifo(1) [of spawn b "fst r" "snd r"] by (metis mset_append prod.collapse)
    with absurd that show ?thesis by (metis in_multiset_in_set)
  qed
  show "lq_process Q spawn l = None"
    if *: "cq_ok Q \<and> lq_counted Q l \<and> c \<in># cq_contents Q (lq_queue l)"
  proof (cases "lq_process Q spawn l")
    case (Some r)
    then have "mset (fst r) = cq_contents Q (lq_queue l) + mset (concat (map spawn (fst r)))"
      using lq_process_facts [of Q spawn l "fst r" "snd r"] * by (simp add: mset_concat_map)
    with absurd * show ?thesis by blast
  qed
qed (simp add: dq_process_def Let_def)

theorem respawn_starves_witness:
  "bq_process (\<lambda>n::nat. [n]) (bq_add 5 (bq_create ec_create)) = None
   \<and> lq_process list_queue_ops (\<lambda>n::nat. [n]) (lq_add list_queue_ops 5 (lq_create ec_create [])) = None"
proof -
  let ?l = "lq_add list_queue_ops 5 (lq_create ec_create []) :: nat list lockfree_queue"
  have "lq_counted list_queue_ops ?l"
    by (intro lq_counted_add) simp_all
  then show ?thesis
    using respawn_starves [where P = "\<lambda>_. True" and c = "5::nat" and spawn = "\<lambda>n. [n]"
      and b = "bq_add 5 (bq_create ec_create)" and l = ?l and Q = list_queue_ops]
    by (simp add: list_queue_ok)
qed

end
