(* ===== verification/Timer_Heap.thy ===== *)
theory Timer_Heap
  imports Pedronet_Prelude
begin

text \<open>
  include/pedronet/queue/timer\_heap\_queue.h and src/queue/timer\_heap\_queue.cc: timers in a
  priority queue of timeouts, with a table that owns the entries.  A timeout holds a weak
  pointer: it is represented by the entry's id, and locking it succeeds while the table has
  that id.  This is exact as long as ids do not repeat, that is for fewer than 2^64 calls of
  \<open>Add\<close>; \<open>hq_counter\<close> counts those calls without bound and the id is its value as a
  \<open>uint64_t\<close>, so the facts that need distinct ids assume \<open>hq_counter < 2^64\<close>.

  The clock: \<open>clk n\<close> is the n-th reading of \<open>Timestamp::Now()\<close>, \<open>hq_reads\<close> counts the
  readings.  The calls of \<open>WakeUpAt\<close> on the timer channel are the history \<open>hq_wakes\<close>.

  The mutex is released around each callback.  \<open>env c n\<close> is what happens to the queue in
  that window: the calls of the callback \<open>c\<close> itself and of other threads, in their order.
\<close>

section \<open>std::priority\_queue\<close>

datatype timeout = Timeout (to_expire: usec) (to_timer: nat)

text \<open>\<open>operator<\<close> of \<open>Timeout\<close>: the greatest element is one that expires first.\<close>

instantiation timeout :: preorder
begin

definition less_timeout :: "timeout \<Rightarrow> timeout \<Rightarrow> bool" where
  "less_timeout a other \<longleftrightarrow> to_expire other < to_expire a"

definition less_eq_timeout :: "timeout \<Rightarrow> timeout \<Rightarrow> bool" where
  "less_eq_timeout a other \<longleftrightarrow> to_expire other \<le> to_expire a"

instance
  by standard (auto simp: less_timeout_def less_eq_timeout_def)

end

text \<open>
  What the C++ standard says of a priority queue.  Which of several greatest elements is the
  top is left open, and the lemmas of the locale do not depend on it.
\<close>

locale std_priority_queue =
  fixes push :: "'a::preorder \<Rightarrow> 'q \<Rightarrow> 'q"
    and top :: "'q \<Rightarrow> 'a option"
    and pop :: "'q \<Rightarrow> 'q"
    and elems :: "'q \<Rightarrow> 'a multiset"
    and inv :: "'q \<Rightarrow> bool"
  assumes inv_push: "inv q \<Longrightarrow> inv (push x q)"
    and inv_pop: "inv q \<Longrightarrow> inv (pop q)"
    and elems_push: "elems (push x q) = add_mset x (elems q)"
    and top_None: "top q = None \<longleftrightarrow> elems q = {#}"
    and top_greatest: "inv q \<Longrightarrow> top q = Some x \<Longrightarrow> y \<in># elems q \<Longrightarrow> \<not> x < y"
    and elems_pop: "top q = Some x \<Longrightarrow> elems q = add_mset x (elems (pop q))"
begin

lemma top_in: "top q = Some x \<Longrightarrow> x \<in># elems q"
  by (simp add: elems_pop)

lemma filter_pop:
  "top q = Some x \<Longrightarrow> P x \<Longrightarrow> size (filter_mset P (elems q)) = Suc (size (filter_mset P (elems (pop q))))"
  by (simp add: elems_pop)

text \<open>When the top misses an upper set of the order, no element is in it.\<close>

lemma top_decides:
  assumes "inv q" and "top q = Some x" and "\<not> P x"
    and total: "\<And>x y :: 'a. x < y \<or> y \<le> x" and up: "\<And>x y. y \<le> x \<Longrightarrow> P y \<Longrightarrow> P x"
  shows "filter_mset P (elems q) = {#}"
proof -
  have "\<not> P y" if "y \<in># elems q" for y
    using top_greatest [OF assms(1,2) that] total [of x y] up [of y x] assms(3) by blast
  then show ?thesis by simp
qed

end

definition pq_push :: "timeout \<Rightarrow> timeout list \<Rightarrow> timeout list" where
  "pq_push t ts = insort_key to_expire t ts"

fun pq_top :: "timeout list \<Rightarrow> timeout option" where
  "pq_top [] = None"
| "pq_top (t # ts) = Some t"

definition pq_pop :: "timeout list \<Rightarrow> timeout list" where
  "pq_pop ts = tl ts"

definition pq_sorted :: "timeout list \<Rightarrow> bool" where
  "pq_sorted ts \<longleftrightarrow> sorted (map to_expire ts)"

lemma mset_pq_push [simp]: "mset (pq_push t ts) = add_mset t (mset ts)"
  by (simp add: pq_push_def)

lemma set_pq_push [simp]: "set (pq_push t ts) = insert t (set ts)"
  by (simp add: pq_push_def set_insort_key)

lemma pq_sorted_push [simp]: "pq_sorted (pq_push t ts) = pq_sorted ts"
  by (simp add: pq_sorted_def pq_push_def sorted_insort_key)

lemma pq_sorted_Cons: "pq_sorted (t # ts) \<longleftrightarrow> pq_sorted ts \<and> (\<forall>u \<in> set ts. to_expire t \<le> to_expire u)"
  by (auto simp: pq_sorted_def)

interpretation pq: std_priority_queue pq_push pq_top pq_pop mset pq_sorted
proof
  fix q :: "timeout list" and x y
  show "pq_sorted q \<Longrightarrow> pq_sorted (pq_pop q)"
    by (cases q) (auto simp: pq_pop_def pq_sorted_Cons)
  show "(pq_top q = None) = (mset q = {#})"
    by (cases q) auto
  show "pq_sorted q \<Longrightarrow> pq_top q = Some x \<Longrightarrow> y \<in># mset q \<Longrightarrow> \<not> x < y"
    by (cases q) (auto simp: pq_sorted_Cons less_timeout_def)
  show "pq_top q = Some x \<Longrightarrow> mset q = add_mset x (mset (pq_pop q))"
    by (cases q) (auto simp: pq_pop_def)
qed simp_all

section \<open>TimerHeapQueue\<close>

record 'c heap_entry =
  he_id :: nat
  he_callback :: 'c
  he_interval :: usec

record 'c heap_queue =
  hq_counter :: nat
  hq_queue :: "timeout list"
  hq_table :: "nat \<rightharpoonup> 'c heap_entry"
  hq_reads :: nat
  hq_wakes :: "usec list"

datatype 'c timer_cmd = CmdAdd usec usec 'c | CmdCancel nat

definition hq_create :: "'c heap_queue" where
  "hq_create = \<lparr>hq_counter = 0, hq_queue = [], hq_table = Map.empty, hq_reads = 0, hq_wakes = []\<rparr>"

definition hq_now :: "(nat \<Rightarrow> usec) \<Rightarrow> 'c heap_queue \<Rightarrow> usec \<times> 'c heap_queue" where
  "hq_now clk q = (clk (hq_reads q), q\<lparr>hq_reads := Suc (hq_reads q)\<rparr>)"

definition hq_wakeup_at :: "usec \<Rightarrow> 'c heap_queue \<Rightarrow> 'c heap_queue" where
  "hq_wakeup_at t q = q\<lparr>hq_wakes := hq_wakes q @ [t]\<rparr>"

text \<open>\<open>table_.emplace\<close> keeps the entry that is already there.\<close>

definition hq_emplace :: "nat \<Rightarrow> 'c heap_entry \<Rightarrow> 'c heap_queue \<Rightarrow> 'c heap_queue" where
  "hq_emplace key e q =
     (case hq_table q key of None \<Rightarrow> q\<lparr>hq_table := (hq_table q)(key \<mapsto> e)\<rparr> | Some _ \<Rightarrow> q)"

definition hq_add ::
  "chrono \<Rightarrow> (nat \<Rightarrow> usec) \<Rightarrow> usec \<Rightarrow> usec \<Rightarrow> 'c \<Rightarrow> 'c heap_queue \<Rightarrow> nat \<times> 'c heap_queue" where
  "hq_add K clk delay interval callback q =
     (let (now, q1) = hq_now clk q;
          expired = ts_plus K now delay;
          tid = to_u64 (int (hq_counter q1) + 1);
          q2 = q1\<lparr>hq_counter := Suc (hq_counter q1)\<rparr>;
          timer = \<lparr>he_id = tid, he_callback = callback, he_interval = interval\<rparr>;
          q3 = q2\<lparr>hq_queue := pq_push (Timeout expired tid) (hq_queue q2)\<rparr>;
          q4 = hq_emplace tid timer q3
      in (tid, hq_wakeup_at expired q4))"

definition hq_cancel :: "nat \<Rightarrow> 'c heap_queue \<Rightarrow> 'c heap_queue" where
  "hq_cancel timer_id q = q\<lparr>hq_table := (hq_table q)(timer_id := None)\<rparr>"

fun hq_cmd :: "chrono \<Rightarrow> (nat \<Rightarrow> usec) \<Rightarrow> 'c timer_cmd \<Rightarrow> 'c heap_queue \<Rightarrow> 'c heap_queue" where
  "hq_cmd K clk (CmdAdd delay interval callback) q = snd (hq_add K clk delay interval callback q)"
| "hq_cmd K clk (CmdCancel timer_id) q = hq_cancel timer_id q"

text \<open>
  What \<open>Process\<close> does with a due timer whose weak pointer locks: the callback with the mutex
  released, then either the next timeout of a periodic timer, or the removal of the entry.
\<close>

definition hq_fire ::
  "chrono \<Rightarrow> (nat \<Rightarrow> usec) \<Rightarrow> ('c \<Rightarrow> nat \<Rightarrow> 'c timer_cmd list) \<Rightarrow> 'c heap_entry \<Rightarrow>
     'c heap_queue \<Rightarrow> 'c heap_queue" where
  "hq_fire K clk env timer q =
     (let q1 = fold (hq_cmd K clk) (env (he_callback timer) (hq_reads q)) q
      in if 0 < he_interval timer then
           let (now, q2) = hq_now clk q1;
               expire = ts_plus K now (he_interval timer)
           in q2\<lparr>hq_queue := pq_push (Timeout expire (he_id timer)) (hq_queue q2)\<rparr>
         else q1\<lparr>hq_table := (hq_table q1)(he_id timer := None)\<rparr>)"

text \<open>
  The loop of \<open>Process\<close>, with the fired timers (expiry and id) in order; None means that it
  does not return.
\<close>

partial_function (option) hq_loop ::
  "chrono \<Rightarrow> (nat \<Rightarrow> usec) \<Rightarrow> ('c \<Rightarrow> nat \<Rightarrow> 'c timer_cmd list) \<Rightarrow> usec \<Rightarrow> 'c heap_queue \<Rightarrow>
     ((usec \<times> nat) list \<times> 'c heap_queue) option"
where
  "hq_loop K clk env now q =
     (case pq_top (hq_queue q) of
        None \<Rightarrow> Some ([], q)
      | Some item \<Rightarrow>
          if to_expire item \<le> now then
            (let q1 = q\<lparr>hq_queue := pq_pop (hq_queue q)\<rparr>
             in case hq_table q1 (to_timer item) of
                  None \<Rightarrow> hq_loop K clk env now q1
                | Some timer \<Rightarrow>
                    Option.bind (hq_loop K clk env now (hq_fire K clk env timer q1))
                      (\<lambda>(rs, q'). Some ((to_expire item, he_id timer) # rs, q')))
          else Some ([], q))"

definition hq_process ::
  "chrono \<Rightarrow> (nat \<Rightarrow> usec) \<Rightarrow> ('c \<Rightarrow> nat \<Rightarrow> 'c timer_cmd list) \<Rightarrow> 'c heap_queue \<Rightarrow>
     ((usec \<times> nat) list \<times> 'c heap_queue) option"
where
  "hq_process K clk env q =
     (let (now, q1) = hq_now clk q
      in Option.bind (hq_loop K clk env now q1) (\<lambda>(rs, q2).
           Some (rs, case pq_top (hq_queue q2) of
                       None \<Rightarrow> q2
                     | Some item \<Rightarrow> hq_wakeup_at (to_expire item) q2)))"

end
