(* ===== verification/Timer_Heap_Facts.thy ===== *)
theory Timer_Heap_Facts
  imports Timer_Heap
begin

text \<open>
  What \<open>TimerHeapQueue\<close> guarantees.  The loop of \<open>Process\<close> is unfolded once into the
  inductive relation \<open>hq_runs\<close>; the facts about a whole \<open>Process\<close> are rule inductions on it.
\<close>

section \<open>Runs of the loop\<close>

inductive hq_runs ::
  "chrono \<Rightarrow> (nat \<Rightarrow> usec) \<Rightarrow> ('c \<Rightarrow> nat \<Rightarrow> 'c timer_cmd list) \<Rightarrow> usec \<Rightarrow> 'c heap_queue \<Rightarrow>
     (usec \<times> nat) list \<Rightarrow> 'c heap_queue \<Rightarrow> bool"
  for K and clk and env and now
where
  hq_stop: "(\<forall>item. pq_top (hq_queue q) = Some item \<longrightarrow> now < to_expire item) \<Longrightarrow>
    hq_runs K clk env now q [] q"
| hq_dead: "pq_top (hq_queue q) = Some item \<Longrightarrow> to_expire item \<le> now \<Longrightarrow>
    hq_table q (to_timer item) = None \<Longrightarrow>
    hq_runs K clk env now (q\<lparr>hq_queue := pq_pop (hq_queue q)\<rparr>) rs q' \<Longrightarrow>
    hq_runs K clk env now q rs q'"
| hq_live: "pq_top (hq_queue q) = Some item \<Longrightarrow> to_expire item \<le> now \<Longrightarrow>
    hq_table q (to_timer item) = Some timer \<Longrightarrow>
    hq_runs K clk env now (hq_fire K clk env timer (q\<lparr>hq_queue := pq_pop (hq_queue q)\<rparr>)) rs q' \<Longrightarrow>
    hq_runs K clk env now q ((to_expire item, he_id timer) # rs) q'"

lemma hq_loop_runs:
  assumes "hq_loop K clk env now q = Some (rs, q')"
  shows "hq_runs K clk env now q rs q'"
proof -
  let ?P = "\<lambda>K clk env now q r. hq_runs K clk env now q (fst r) (snd r)"
  have "?P K clk env now q (rs, q')"
  proof (rule hq_loop.raw_induct [where P = ?P, OF _ assms])
    fix f K clk now and env :: "'a \<Rightarrow> nat \<Rightarrow> 'a timer_cmd list" and q r
    assume IH: "\<And>K clk env now q r. f K clk env now q = Some r \<Longrightarrow> ?P K clk env now q r"
      and body: "(case pq_top (hq_queue q) of None \<Rightarrow> Some ([], q)
        | Some item \<Rightarrow> if to_expire item \<le> now then
            (let q1 = q\<lparr>hq_queue := pq_pop (hq_queue q)\<rparr>
             in case hq_table q1 (to_timer item) of None \<Rightarrow> f K clk env now q1
                | Some timer \<Rightarrow> Option.bind (f K clk env now (hq_fire K clk env timer q1))
                    (\<lambda>(rs, q'). Some ((to_expire item, he_id timer) # rs, q')))
          else Some ([], q)) = Some r"
    show "?P K clk env now q r"
    proof (cases "\<exists>item. pq_top (hq_queue q) = Some item \<and> to_expire item \<le> now")
      case False
      with body have "r = ([], q)" by (auto split: option.splits if_splits)
      with False show ?thesis by (auto intro!: hq_stop)
    next
      case True
      then obtain item where item: "pq_top (hq_queue q) = Some item" "to_expire item \<le> now" by blast
      show ?thesis
      proof (cases "hq_table q (to_timer item)")
        case None
        with body item have "f K clk env now (q\<lparr>hq_queue := pq_pop (hq_queue q)\<rparr>) = Some r" by simp
        from hq_dead [OF item None IH [OF this]] show ?thesis .
      next
        case (Some timer)
        with body item obtain rs1 q2 where
          f: "f K clk env now (hq_fire K clk env timer (q\<lparr>hq_queue := pq_pop (hq_queue q)\<rparr>)) = Some (rs1, q2)"
          and r: "r = ((to_expire item, he_id timer) # rs1, q2)"
          by (auto simp: bind_eq_Some_conv)
        from hq_live [OF item Some] IH [OF f] r show ?thesis by simp
      qed
    qed
  qed
  then show ?thesis by simp
qed

lemma hq_processE:
  assumes "hq_process K clk env q = Some (rs, q')"
  obtains q2 where "hq_runs K clk env (clk (hq_reads q)) (q\<lparr>hq_reads := Suc (hq_reads q)\<rparr>) rs q2"
    and "q' = (case pq_top (hq_queue q2) of None \<Rightarrow> q2 | Some item \<Rightarrow> hq_wakeup_at (to_expire item) q2)"
  using assms by (auto simp: hq_process_def hq_now_def bind_eq_Some_conv dest: hq_loop_runs)

section \<open>What one operation changes\<close>

lemma hq_add_simps:
  "hq_queue (snd (hq_add K clk d i c q)) =
     pq_push (Timeout (ts_plus K (clk (hq_reads q)) d) (to_u64 (int (hq_counter q) + 1))) (hq_queue q)"
  "hq_counter (snd (hq_add K clk d i c q)) = Suc (hq_counter q)"
  "hq_reads (snd (hq_add K clk d i c q)) = Suc (hq_reads q)"
  by (simp_all add: hq_add_def hq_now_def hq_emplace_def hq_wakeup_at_def Let_def split: option.split)

lemma hq_add_table:
  "hq_table q (to_u64 (int (hq_counter q) + 1)) = None \<Longrightarrow>
    hq_table (snd (hq_add K clk d i c q)) = (hq_table q)
      (to_u64 (int (hq_counter q) + 1) \<mapsto>
        \<lparr>he_id = to_u64 (int (hq_counter q) + 1), he_callback = c, he_interval = i\<rparr>)"
  by (simp add: hq_add_def hq_now_def hq_emplace_def hq_wakeup_at_def Let_def)

lemma hq_cancel_simps [simp]:
  "hq_queue (hq_cancel tid q) = hq_queue q"
  "hq_counter (hq_cancel tid q) = hq_counter q"
  "hq_reads (hq_cancel tid q) = hq_reads q"
  "hq_table (hq_cancel tid q) = (hq_table q)(tid := None)"
  by (simp_all add: hq_cancel_def)

section \<open>Well-formed queues\<close>

text \<open>
  \<open>hq_wf x q\<close>: the heap is ordered, ids are those given out so far, and each entry of the
  table has exactly one timeout in the heap, none if it is the timer \<open>x\<close> whose callback is
  running.  An id whose entry was cancelled may have a timeout left, which \<open>Process\<close> drops.
\<close>

definition hq_timeouts :: "'c heap_queue \<Rightarrow> nat \<Rightarrow> nat" where
  "hq_timeouts q tid = count (image_mset to_timer (mset (hq_queue q))) tid"

definition hq_wf :: "nat option \<Rightarrow> 'c heap_queue \<Rightarrow> bool" where
  "hq_wf x q \<longleftrightarrow>
     pq_sorted (hq_queue q)
   \<and> (\<forall>tid e. hq_table q tid = Some e \<longrightarrow> he_id e = tid \<and> 0 < tid \<and> tid \<le> hq_counter q
        \<and> hq_timeouts q tid = (if x = Some tid then 0 else 1))
   \<and> (\<forall>t \<in> set (hq_queue q). to_timer t \<le> hq_counter q)
   \<and> (\<forall>tid. x = Some tid \<longrightarrow> tid \<le> hq_counter q)"

lemma hq_wf_create: "hq_wf None hq_create"
  by (simp add: hq_wf_def hq_create_def pq_sorted_def)

lemma hq_id_eq: "hq_counter q + 1 < 2 ^ 64 \<Longrightarrow> to_u64 (int (hq_counter q) + 1) = Suc (hq_counter q)"
  by (simp add: to_u64_id nat_add_distrib)

lemma hq_timeouts_fresh:
  assumes "hq_wf x q" shows "hq_timeouts q (Suc (hq_counter q)) = 0"
proof -
  have "Suc (hq_counter q) \<notin> to_timer ` set (hq_queue q)"
    using assms by (auto simp: hq_wf_def)
  then show ?thesis
    by (simp add: hq_timeouts_def count_eq_zero_iff)
qed

lemma hq_fresh:
  assumes "hq_wf x q" shows "hq_table q (Suc (hq_counter q)) = None"
proof (rule ccontr)
  assume "hq_table q (Suc (hq_counter q)) \<noteq> None"
  then obtain e where "hq_table q (Suc (hq_counter q)) = Some e" by blast
  with assms have "Suc (hq_counter q) \<le> hq_counter q" unfolding hq_wf_def by blast
  then show False by simp
qed

lemma hq_wf_id: "hq_wf x q \<Longrightarrow> hq_table q tid = Some e \<Longrightarrow> tid \<le> hq_counter q \<and> he_id e = tid"
  by (simp add: hq_wf_def)

lemma hq_wf_sorted: "hq_wf x q \<Longrightarrow> pq_sorted (hq_queue q)"
  by (simp add: hq_wf_def)

lemma hq_wf_add:
  assumes wf: "hq_wf x q" and bound: "Suc (hq_counter q) < 2 ^ 64"
  shows "hq_wf x (snd (hq_add K clk d i c q))"
proof -
  let ?tid = "Suc (hq_counter q)" and ?q = "snd (hq_add K clk d i c q)"
  have tid: "to_u64 (int (hq_counter q) + 1) = ?tid"
    using bound by (simp add: hq_id_eq)
  have tab: "hq_table ?q = (hq_table q)(?tid \<mapsto> \<lparr>he_id = ?tid, he_callback = c, he_interval = i\<rparr>)"
    using hq_add_table [of q K clk d i c] hq_fresh [OF wf] tid by simp
  have cnt: "hq_timeouts ?q t = hq_timeouts q t + (if t = ?tid then 1 else 0)" for t
    by (simp add: hq_timeouts_def hq_add_simps tid)
  show ?thesis
    using wf hq_timeouts_fresh [OF wf] by (auto simp: hq_wf_def cnt tab hq_add_simps tid intro: le_SucI)
qed

lemma hq_wf_cancel: "hq_wf x q \<Longrightarrow> hq_wf x (hq_cancel tid q)"
  by (auto simp: hq_wf_def hq_timeouts_def)

lemma hq_cmd_mono: "hq_counter q \<le> hq_counter (hq_cmd K clk cmd q)" "hq_reads q \<le> hq_reads (hq_cmd K clk cmd q)"
  by (cases cmd; simp add: hq_add_simps)+

lemma hq_cmds_mono:
  "hq_counter q \<le> hq_counter (fold (hq_cmd K clk) cmds q)"
  "hq_reads q \<le> hq_reads (fold (hq_cmd K clk) cmds q)"
proof (induction cmds arbitrary: q)
  case (Cons cmd cmds)
  case 1
  show ?case using Cons(1) [of "hq_cmd K clk cmd q"] hq_cmd_mono(1) [of q K clk cmd] by simp
next
  case (Cons cmd cmds)
  case 2
  show ?case using Cons(2) [of "hq_cmd K clk cmd q"] hq_cmd_mono(2) [of q K clk cmd] by simp
qed simp_all

lemma hq_wf_cmds:
  "hq_wf x q \<Longrightarrow> hq_counter (fold (hq_cmd K clk) cmds q) < 2 ^ 64 \<Longrightarrow>
    hq_wf x (fold (hq_cmd K clk) cmds q)"
proof (induction cmds arbitrary: q)
  case (Cons cmd cmds)
  have "hq_counter (hq_cmd K clk cmd q) < 2 ^ 64"
    using Cons.prems(2) hq_cmds_mono(1) [of "hq_cmd K clk cmd q" K clk cmds] by simp
  then have "hq_wf x (hq_cmd K clk cmd q)"
    using Cons.prems(1) by (cases cmd) (auto simp: hq_wf_cancel hq_add_simps intro!: hq_wf_add)
  with Cons.IH Cons.prems(2) show ?case by simp
qed simp

section \<open>One round of the loop\<close>

lemma hq_fire_simps:
  "hq_counter (hq_fire K clk env timer q) = hq_counter (fold (hq_cmd K clk) (env (he_callback timer) (hq_reads q)) q)"
  "hq_reads (fold (hq_cmd K clk) (env (he_callback timer) (hq_reads q)) q) \<le> hq_reads (hq_fire K clk env timer q)"
  by (auto simp: hq_fire_def hq_now_def Let_def)

lemma hq_fire_mono:
  "hq_counter q \<le> hq_counter (hq_fire K clk env timer q)"
  "hq_reads q \<le> hq_reads (hq_fire K clk env timer q)"
proof -
  let ?q = "fold (hq_cmd K clk) (env (he_callback timer) (hq_reads q)) q"
  show "hq_counter q \<le> hq_counter (hq_fire K clk env timer q)"
    using hq_cmds_mono(1) [of q K clk "env (he_callback timer) (hq_reads q)"]
    by (simp add: hq_fire_simps(1))
  have "hq_reads q \<le> hq_reads ?q"
    by (rule hq_cmds_mono)
  also have "\<dots> \<le> hq_reads (hq_fire K clk env timer q)"
    by (rule hq_fire_simps)
  finally show "hq_reads q \<le> hq_reads (hq_fire K clk env timer q)" .
qed

lemma hq_top_Some: "pq_top (hq_queue q) = Some item \<longleftrightarrow> (\<exists>ts. hq_queue q = item # ts)"
  by (cases "hq_queue q") auto

lemma hq_wf_pop_dead:
  assumes "hq_wf None q" and "pq_top (hq_queue q) = Some item" and "hq_table q (to_timer item) = None"
  shows "hq_wf None (q\<lparr>hq_queue := pq_pop (hq_queue q)\<rparr>)"
proof -
  from assms(2) obtain ts where q: "hq_queue q = item # ts"
    by (auto simp: hq_top_Some)
  have "hq_timeouts q tid = hq_timeouts (q\<lparr>hq_queue := ts\<rparr>) tid" if "hq_table q tid \<noteq> None" for tid
    using that assms(3) q by (auto simp: hq_timeouts_def)
  with assms(1) q show ?thesis
    by (fastforce simp: hq_wf_def pq_pop_def pq_sorted_Cons)
qed

lemma hq_wf_pop_live:
  assumes "hq_wf None q" and "pq_top (hq_queue q) = Some item" and "hq_table q (to_timer item) = Some timer"
  shows "hq_wf (Some (he_id timer)) (q\<lparr>hq_queue := pq_pop (hq_queue q)\<rparr>)" and "he_id timer = to_timer item"
proof -
  from assms(2) obtain ts where q: "hq_queue q = item # ts"
    by (auto simp: hq_top_Some)
  show tid: "he_id timer = to_timer item"
    using assms(1,3) by (auto simp: hq_wf_def)
  have "hq_timeouts (q\<lparr>hq_queue := ts\<rparr>) tid = (if tid = to_timer item then 0 else 1)"
    if "hq_table q tid \<noteq> None" for tid
  proof -
    have "hq_timeouts q tid = 1"
      using that assms(1) by (auto simp: hq_wf_def)
    then show ?thesis
      using q by (auto simp: hq_timeouts_def split: if_splits)
  qed
  with assms(1) q tid show "hq_wf (Some (he_id timer)) (q\<lparr>hq_queue := pq_pop (hq_queue q)\<rparr>)"
    by (fastforce simp: hq_wf_def pq_pop_def pq_sorted_Cons)
qed

lemma hq_wf_push:
  assumes "hq_wf (Some tid) q"
  shows "hq_wf None (q\<lparr>hq_reads := n, hq_queue := pq_push (Timeout e tid) (hq_queue q)\<rparr>)"
proof -
  have "hq_timeouts (q\<lparr>hq_reads := n, hq_queue := pq_push (Timeout e tid) (hq_queue q)\<rparr>) t =
      hq_timeouts q t + (if t = tid then 1 else 0)" for t
    by (simp add: hq_timeouts_def)
  with assms show ?thesis
    by (auto simp: hq_wf_def)
qed

lemma hq_wf_erase:
  assumes "hq_wf (Some tid) q"
  shows "hq_wf None (q\<lparr>hq_table := (hq_table q)(tid := None)\<rparr>)"
  using assms by (auto simp: hq_wf_def hq_timeouts_def)

lemma hq_wf_fire:
  assumes "hq_wf (Some (he_id timer)) q" and "hq_counter (hq_fire K clk env timer q) < 2 ^ 64"
  shows "hq_wf None (hq_fire K clk env timer q)"
proof -
  have "hq_wf (Some (he_id timer)) (fold (hq_cmd K clk) (env (he_callback timer) (hq_reads q)) q)"
    using assms hq_wf_cmds by (metis hq_fire_simps(1))
  then show ?thesis
    by (simp add: hq_fire_def hq_now_def Let_def hq_wf_push hq_wf_erase)
qed

lemma hq_runs_mono:
  "hq_runs K clk env now q rs q' \<Longrightarrow> hq_counter q \<le> hq_counter q' \<and> hq_reads q \<le> hq_reads q'"
proof (induction rule: hq_runs.induct)
  case (hq_live q item timer rs q')
  then show ?case
    using hq_fire_mono [of "q\<lparr>hq_queue := pq_pop (hq_queue q)\<rparr>" K clk env timer] by simp
qed simp_all

text \<open>The invariant holds again when the loop ends, whatever the callbacks did to the queue.\<close>

lemma hq_wf_runs:
  "hq_runs K clk env now q rs q' \<Longrightarrow> hq_wf None q \<Longrightarrow> hq_counter q' < 2 ^ 64 \<Longrightarrow> hq_wf None q'"
proof (induction rule: hq_runs.induct)
  case (hq_dead q item rs q')
  then show ?case by (simp add: hq_wf_pop_dead)
next
  case (hq_live q item timer rs q')
  have "hq_counter (hq_fire K clk env timer (q\<lparr>hq_queue := pq_pop (hq_queue q)\<rparr>)) < 2 ^ 64"
    using hq_runs_mono [OF hq_live.hyps(4)] hq_live.prems(2) by simp
  then have "hq_wf None (hq_fire K clk env timer (q\<lparr>hq_queue := pq_pop (hq_queue q)\<rparr>))"
    by (rule hq_wf_fire [OF hq_wf_pop_live(1) [OF hq_live.prems(1) hq_live.hyps(1,3)]])
  then show ?case by (rule hq_live.IH) (rule hq_live.prems(2))
qed

text \<open>The same with a stronger invariant \<open>P\<close> carried along.\<close>

lemma hq_runs_wf_induct [consumes 3, case_names stop dead live]:
  assumes "hq_runs K clk env now q rs q'" and "hq_wf None q" and "hq_counter q' < 2 ^ 64"
    and "\<And>q. hq_wf None q \<Longrightarrow> (\<And>t. t \<in> set (hq_queue q) \<Longrightarrow> now < to_expire t) \<Longrightarrow> P q [] q"
    and "\<And>q item ts rs q'. hq_wf None q \<Longrightarrow> hq_queue q = item # ts \<Longrightarrow> to_expire item \<le> now \<Longrightarrow>
      hq_table q (to_timer item) = None \<Longrightarrow> P (q\<lparr>hq_queue := ts\<rparr>) rs q' \<Longrightarrow> P q rs q'"
    and "\<And>q item ts timer rs q'. hq_wf None q \<Longrightarrow> hq_queue q = item # ts \<Longrightarrow> to_expire item \<le> now \<Longrightarrow>
      hq_table q (to_timer item) = Some timer \<Longrightarrow> he_id timer = to_timer item \<Longrightarrow>
      hq_wf (Some (to_timer item)) (q\<lparr>hq_queue := ts\<rparr>) \<Longrightarrow>
      hq_counter (hq_fire K clk env timer (q\<lparr>hq_queue := ts\<rparr>)) < 2 ^ 64 \<Longrightarrow>
      hq_wf None (hq_fire K clk env timer (q\<lparr>hq_queue := ts\<rparr>)) \<Longrightarrow>
      hq_runs K clk env now (hq_fire K clk env timer (q\<lparr>hq_queue := ts\<rparr>)) rs q' \<Longrightarrow>
      hq_counter q' < 2 ^ 64 \<Longrightarrow>
      P (hq_fire K clk env timer (q\<lparr>hq_queue := ts\<rparr>)) rs q' \<Longrightarrow>
      P q ((to_expire item, to_timer item) # rs) q'"
  shows "P q rs q'"
  using assms(1-3)
proof (induction rule: hq_runs.induct)
  case (hq_stop q)
  have "now < to_expire t" if "t \<in> set (hq_queue q)" for t
    using hq_stop that by (cases "hq_queue q") (auto simp: hq_wf_def pq_sorted_Cons)
  with hq_stop.prems show ?case by (intro assms(4)) auto
next
  case (hq_dead q item rs q')
  from hq_dead.hyps(1) obtain ts where q: "hq_queue q = item # ts"
    by (auto simp: hq_top_Some)
  with hq_dead hq_wf_pop_dead [OF hq_dead.prems(1) hq_dead.hyps(1) hq_dead.hyps(3)] show ?case
    by (intro assms(5) [OF hq_dead.prems(1) q]) (auto simp: pq_pop_def)
next
  case (hq_live q item timer rs q')
  from hq_live.hyps(1) obtain ts where q: "hq_queue q = item # ts"
    by (auto simp: hq_top_Some)
  note pop = hq_wf_pop_live [OF hq_live.prems(1) hq_live.hyps(1) hq_live.hyps(3)]
  have bound: "hq_counter (hq_fire K clk env timer (q\<lparr>hq_queue := ts\<rparr>)) < 2 ^ 64"
    using hq_runs_mono [OF hq_live.hyps(4)] hq_live.prems(2) q by (simp add: pq_pop_def)
  have wf: "hq_wf None (hq_fire K clk env timer (q\<lparr>hq_queue := ts\<rparr>))"
    using pop bound q by (intro hq_wf_fire) (auto simp: pq_pop_def)
  with hq_live.IH hq_live.prems q have "P (hq_fire K clk env timer (q\<lparr>hq_queue := ts\<rparr>)) rs q'"
    by (simp add: pq_pop_def)
  then show ?case
    using hq_live.prems q hq_live.hyps pop bound wf
    by (simp add: assms(6) pq_pop_def)
qed

section \<open>What the callbacks can do to other timers\<close>

text \<open>A removed id never comes back, and an entry is only ever removed.\<close>

lemma hq_cmd_table_dead:
  assumes "hq_table q tid = None" and "tid \<le> hq_counter q" and "hq_counter (hq_cmd K clk cmd q) < 2 ^ 64"
  shows "hq_table (hq_cmd K clk cmd q) tid = None"
proof (cases cmd)
  case (CmdAdd d i c)
  then have "Suc (hq_counter q) < 2 ^ 64"
    using assms(3) by (simp add: hq_add_simps)
  then have "to_u64 (int (hq_counter q) + 1) = Suc (hq_counter q)"
    by (simp add: hq_id_eq)
  with CmdAdd assms show ?thesis
    by (simp add: hq_add_def hq_now_def hq_emplace_def hq_wakeup_at_def Let_def split: option.split)
qed (use assms in simp)

lemma hq_cmd_table_keep:
  "hq_table q tid = Some e \<Longrightarrow> cmd \<noteq> CmdCancel tid \<Longrightarrow> hq_table (hq_cmd K clk cmd q) tid = Some e"
  by (cases cmd) (auto simp: hq_add_def hq_now_def hq_emplace_def hq_wakeup_at_def Let_def split: option.split)

lemma hq_cmd_table_same:
  "hq_table q tid = Some e \<Longrightarrow> hq_table (hq_cmd K clk cmd q) tid \<in> {None, Some e}"
  using hq_cmd_table_keep [of q tid e cmd K clk] by (cases "cmd = CmdCancel tid") auto

lemma hq_cmds_table_dead:
  "hq_table q tid = None \<Longrightarrow> tid \<le> hq_counter q \<Longrightarrow> hq_counter (fold (hq_cmd K clk) cmds q) < 2 ^ 64 \<Longrightarrow>
    hq_table (fold (hq_cmd K clk) cmds q) tid = None"
proof (induction cmds arbitrary: q)
  case (Cons cmd cmds)
  have "hq_counter (hq_cmd K clk cmd q) < 2 ^ 64"
    using Cons.prems(3) hq_cmds_mono(1) [of "hq_cmd K clk cmd q" K clk cmds] by simp
  then have "hq_table (hq_cmd K clk cmd q) tid = None"
    using Cons.prems by (intro hq_cmd_table_dead)
  with Cons.IH Cons.prems hq_cmd_mono(1) [of q K clk cmd] show ?case by simp
qed simp

lemma hq_cmds_table_same:
  "hq_table q tid = Some e \<Longrightarrow> tid \<le> hq_counter q \<Longrightarrow> hq_counter (fold (hq_cmd K clk) cmds q) < 2 ^ 64 \<Longrightarrow>
    hq_table (fold (hq_cmd K clk) cmds q) tid \<in> {None, Some e}"
proof (induction cmds arbitrary: q)
  case (Cons cmd cmds)
  have "tid \<le> hq_counter (hq_cmd K clk cmd q)"
    using Cons.prems(2) hq_cmd_mono(1) [of q K clk cmd] by simp
  then show ?case
    using hq_cmd_table_same [OF Cons.prems(1), of K clk cmd] Cons.prems(3)
      Cons.IH [of "hq_cmd K clk cmd q"] hq_cmds_table_dead [of "hq_cmd K clk cmd q" tid K clk cmds] by auto
qed simp

lemma hq_cmds_table_keep:
  "hq_table q tid = Some e \<Longrightarrow> CmdCancel tid \<notin> set cmds \<Longrightarrow> hq_table (fold (hq_cmd K clk) cmds q) tid = Some e"
proof (induction cmds arbitrary: q)
  case (Cons cmd cmds)
  then show ?case using hq_cmd_table_keep [of q tid e cmd K clk] by auto
qed simp

text \<open>A timeout in the heap stays there until the loop pops it.\<close>

lemma hq_cmds_keep: "t \<in> set (hq_queue q) \<Longrightarrow> t \<in> set (hq_queue (fold (hq_cmd K clk) cmds q))"
proof (induction cmds arbitrary: q)
  case (Cons cmd cmds)
  then have "t \<in> set (hq_queue (hq_cmd K clk cmd q))"
    by (cases cmd) (auto simp: hq_add_simps)
  with Cons.IH show ?case by simp
qed simp

lemma hq_fire_keeps: "t \<in> set (hq_queue q) \<Longrightarrow> t \<in> set (hq_queue (hq_fire K clk env timer q))"
  using hq_cmds_keep [of t q K clk] by (auto simp: hq_fire_def hq_now_def Let_def)

text \<open>Commands only add timeouts; with delays that are not negative, they are not overdue.\<close>

lemma hq_cmd_queue:
  assumes "chrono_ok K" and "\<And>n. hq_reads q \<le> n \<Longrightarrow> now \<le> clk n"
    and "\<And>d i c. cmd = CmdAdd d i c \<Longrightarrow> b \<le> d"
  shows "\<exists>M. mset (hq_queue (hq_cmd K clk cmd q)) = mset (hq_queue q) + M \<and> (\<forall>t \<in># M. now + b \<le> to_expire t)"
proof (cases cmd)
  case (CmdAdd d i c)
  have "now + b \<le> clk (hq_reads q) + d"
    using assms(2) [of "hq_reads q"] assms(3) [OF CmdAdd] by simp
  with CmdAdd assms(1) show ?thesis
    by (intro exI [of _ "{#Timeout (clk (hq_reads q) + d) (to_u64 (int (hq_counter q) + 1))#}"])
      (simp add: hq_add_simps)
qed simp

lemma hq_cmds_queue:
  assumes "chrono_ok K" and "\<And>n. hq_reads q \<le> n \<Longrightarrow> now \<le> clk n"
    and "\<And>d i c. CmdAdd d i c \<in> set cmds \<Longrightarrow> b \<le> d"
  shows "\<exists>M. mset (hq_queue (fold (hq_cmd K clk) cmds q)) = mset (hq_queue q) + M
    \<and> (\<forall>t \<in># M. now + b \<le> to_expire t)"
  using assms(2,3)
proof (induction cmds arbitrary: q)
  case (Cons cmd cmds)
  obtain M where M: "mset (hq_queue (hq_cmd K clk cmd q)) = mset (hq_queue q) + M" "\<forall>t \<in># M. now + b \<le> to_expire t"
    using hq_cmd_queue [OF assms(1), of q now clk cmd b] Cons.prems by auto
  moreover obtain N where "mset (hq_queue (fold (hq_cmd K clk) cmds (hq_cmd K clk cmd q))) =
      mset (hq_queue (hq_cmd K clk cmd q)) + N" "\<forall>t \<in># N. now + b \<le> to_expire t"
    using Cons.IH [of "hq_cmd K clk cmd q"] Cons.prems hq_cmd_mono(2) [of q K clk cmd]
    by (meson list.set_intros(2) order.trans)
  ultimately show ?case
    by (intro exI [of _ "M + N"]) auto
qed simp

text \<open>\<open>b\<close> is 0 or 1: every delay is at least \<open>b\<close>, and a positive interval is at least 1.\<close>

definition delays_from :: "int \<Rightarrow> ('c \<Rightarrow> nat \<Rightarrow> 'c timer_cmd list) \<Rightarrow> bool" where
  "delays_from b env \<longleftrightarrow> (\<forall>c n d i c'. CmdAdd d i c' \<in> set (env c n) \<longrightarrow> b \<le> d)"

lemma hq_fire_queue:
  assumes "chrono_ok K" and clk: "\<And>n. hq_reads q \<le> n \<Longrightarrow> now \<le> clk n" and "delays_from b env" and "b \<le> 1"
  shows "\<exists>M. mset (hq_queue (hq_fire K clk env timer q)) = mset (hq_queue q) + M
    \<and> (\<forall>t \<in># M. now + b \<le> to_expire t)"
proof -
  let ?cmds = "env (he_callback timer) (hq_reads q)"
  let ?q = "fold (hq_cmd K clk) ?cmds q"
  obtain M where M: "mset (hq_queue ?q) = mset (hq_queue q) + M" "\<forall>t \<in># M. now + b \<le> to_expire t"
    using hq_cmds_queue [of K q now clk ?cmds b, OF assms(1) clk] assms(3)
    unfolding delays_from_def by blast
  have "hq_reads q \<le> hq_reads ?q"
    by (rule hq_cmds_mono)
  then have "now \<le> clk (hq_reads ?q)" by (rule clk)
  then have "0 < he_interval timer \<Longrightarrow> now + b \<le> clk (hq_reads ?q) + he_interval timer"
    using \<open>b \<le> 1\<close> by simp
  with M assms(1) show ?thesis
    by (intro exI [of _ "if 0 < he_interval timer
        then add_mset (Timeout (clk (hq_reads ?q) + he_interval timer) (he_id timer)) M else M"])
      (simp add: hq_fire_def hq_now_def Let_def)
qed

lemma hq_fire_table:
  "hq_table (hq_fire K clk env timer q) =
    (let t = hq_table (fold (hq_cmd K clk) (env (he_callback timer) (hq_reads q)) q)
     in if 0 < he_interval timer then t else t(he_id timer := None))"
  by (simp add: hq_fire_def hq_now_def Let_def)

lemma hq_fire_table_keep:
  assumes "hq_table q tid = Some e" and "CmdCancel tid \<notin> set (env (he_callback timer) (hq_reads q))"
    and "he_id timer \<noteq> tid \<or> 0 < he_interval timer"
  shows "hq_table (hq_fire K clk env timer q) tid = Some e"
  using hq_cmds_table_keep [OF assms(1,2), of K clk] assms(3) by (auto simp: hq_fire_table Let_def)

lemma hq_fire_table_same:
  assumes "hq_table q tid = Some e" and "tid \<le> hq_counter q" and "hq_counter (hq_fire K clk env timer q) < 2 ^ 64"
  shows "hq_table (hq_fire K clk env timer q) tid \<in> {None, Some e}"
  using hq_cmds_table_same [OF assms(1,2), of K clk "env (he_callback timer) (hq_reads q)"] assms(3)
  by (auto simp: hq_fire_table hq_fire_simps Let_def)

lemma hq_fire_table_dead:
  assumes "hq_table q tid = None" and "tid \<le> hq_counter q" and "hq_counter (hq_fire K clk env timer q) < 2 ^ 64"
  shows "hq_table (hq_fire K clk env timer q) tid = None"
  using hq_cmds_table_dead [OF assms(1,2), of K clk "env (he_callback timer) (hq_reads q)"] assms(3)
  by (simp add: hq_fire_table hq_fire_simps Let_def)

end
