(* ===== verification/Timer_Heap_Properties.thy ===== *)
theory Timer_Heap_Properties
  imports Timer_Heap_Facts
begin

text \<open>
  What one \<open>Process\<close> of \<open>TimerHeapQueue\<close> promises, whatever the callbacks and the other
  threads do to the queue while a callback runs: which timers fire, in which order, how often,
  which wakeup is asked for, and that the call returns.
\<close>

section \<open>Which timers fire\<close>

lemma hq_runs_due:
  assumes "hq_runs K clk env now q rs q'" and "hq_wf None q" and "hq_counter q' < 2 ^ 64"
  shows "(\<forall>(e, tid) \<in> set rs. e \<le> now) \<and> (\<forall>t \<in> set (hq_queue q'). now < to_expire t)"
  using assms by (induction rule: hq_runs_wf_induct) auto

lemma hq_runs_dead:
  assumes "hq_runs K clk env now q rs q'" and "hq_wf None q" and "hq_counter q' < 2 ^ 64"
  shows "hq_table q tid = None \<Longrightarrow> tid \<le> hq_counter q \<Longrightarrow> hq_table q' tid = None \<and> tid \<notin> snd ` set rs"
  using assms
proof (induction rule: hq_runs_wf_induct)
  case (live q item ts timer rs q')
  let ?q = "hq_fire K clk env timer (q\<lparr>hq_queue := ts\<rparr>)"
  have "hq_table ?q tid = None"
    using live by (intro hq_fire_table_dead) auto
  moreover have "tid \<le> hq_counter ?q"
    using live.prems(2) hq_fire_mono(1) [of "q\<lparr>hq_queue := ts\<rparr>" K clk env timer] by simp
  ultimately show ?case using live by auto
qed auto

lemma hq_runs_one_shot:
  assumes "hq_runs K clk env now q rs q'" and "hq_wf None q" and "hq_counter q' < 2 ^ 64"
  shows "hq_table q tid = Some e \<Longrightarrow> he_interval e \<le> 0 \<Longrightarrow>
    count (mset (map snd rs)) tid \<le> 1 \<and> (tid \<in> snd ` set rs \<longrightarrow> hq_table q' tid = None)"
  using assms
proof (induction rule: hq_runs_wf_induct)
  case (live q item ts timer rs q')
  let ?q = "hq_fire K clk env timer (q\<lparr>hq_queue := ts\<rparr>)"
  note dead = hq_runs_dead [OF live.hyps(9,8,10)]
  have tid: "tid \<le> hq_counter q"
    using live by (auto dest: hq_wf_id)
  then have "tid \<le> hq_counter ?q"
    using hq_fire_mono(1) [of "q\<lparr>hq_queue := ts\<rparr>" K clk env timer] by simp
  moreover have "count (mset (map snd rs)) tid = 0" if "tid \<notin> snd ` set rs"
    using that by (simp add: count_eq_zero_iff)
  moreover have "hq_table ?q tid = None" if "to_timer item = tid"
    using that live by (simp add: hq_fire_table Let_def)
  moreover have "hq_table ?q tid \<in> {None, Some e}"
    using live.prems live.hyps(7) tid by (intro hq_fire_table_same) simp_all
  ultimately show ?case
    using dead [of tid] live.IH live.prems by (cases "hq_table ?q tid") auto
qed auto

lemma hq_runs_fires:
  assumes "hq_runs K clk env now q rs q'" and "hq_wf None q" and "hq_counter q' < 2 ^ 64"
  shows "hq_table q tid = Some e \<Longrightarrow> t \<in> set (hq_queue q) \<Longrightarrow> to_timer t = tid \<Longrightarrow> to_expire t \<le> now \<Longrightarrow>
    (\<And>c n. CmdCancel tid \<notin> set (env c n)) \<Longrightarrow> chrono_ok K \<Longrightarrow> tid \<in> snd ` set rs"
  using assms
proof (induction rule: hq_runs_wf_induct)
  case (live q item ts timer rs q')
  let ?p = "q\<lparr>hq_queue := ts\<rparr>"
  let ?q = "hq_fire K clk env timer ?p"
  show ?case
  proof (cases "to_timer item = tid")
    case False
    then have "hq_table ?q tid = Some e"
      using live by (intro hq_fire_table_keep) auto
    moreover have "t \<in> set (hq_queue ?q)"
    proof -
      have "t \<in> set ts" using live False by auto
      then show ?thesis using hq_fire_keeps [of t ?p K clk env timer] by simp
    qed
    ultimately show ?thesis using live by auto
  qed auto
next
  case (stop q)
  then show ?case by (meson leD)
qed auto

section \<open>In which order, and how often\<close>

lemma hq_runs_ordered:
  assumes "hq_runs K clk env now q rs q'" and "hq_wf None q" and "hq_counter q' < 2 ^ 64"
    and K: "chrono_ok K" and env: "delays_from 0 env"
  shows "(\<And>n. hq_reads q \<le> n \<Longrightarrow> now \<le> clk n) \<Longrightarrow> sorted (map fst rs)
    \<and> (\<forall>l \<le> now. (\<forall>t \<in> set (hq_queue q). l \<le> to_expire t) \<longrightarrow> (\<forall>r \<in> set rs. l \<le> fst r))"
  using assms(1-3)
proof (induction rule: hq_runs_wf_induct)
  case (live q item ts timer rs q')
  let ?p = "q\<lparr>hq_queue := ts\<rparr>"
  let ?q = "hq_fire K clk env timer ?p"
  have later: "now \<le> clk n" if "hq_reads ?q \<le> n" for n
    using that hq_fire_mono(2) [of ?p K clk env timer] live.prems [of n] by simp
  obtain M where M: "mset (hq_queue ?q) = mset ts + M" "\<forall>t \<in># M. now + 0 \<le> to_expire t"
    using hq_fire_queue [OF K, of ?p now clk 0 env timer] live.prems env by auto
  have low: "l \<le> to_expire t" if "t \<in> set (hq_queue ?q)" "l \<le> now" "\<forall>u \<in> set ts. l \<le> to_expire u" for t l
  proof -
    have "t \<in> set ts \<or> t \<in># M" using that(1) M(1) by (metis set_mset_mset union_iff)
    then show ?thesis using that(2,3) M(2) by auto
  qed
  have IH: "sorted (map fst rs)" "\<And>l. l \<le> now \<Longrightarrow> \<forall>t \<in> set (hq_queue ?q). l \<le> to_expire t \<Longrightarrow> \<forall>r \<in> set rs. l \<le> fst r"
    using live.IH later by blast+
  have "\<forall>u \<in> set ts. to_expire item \<le> to_expire u"
    using hq_wf_sorted [OF live.hyps(1)] live.hyps(2) by (simp add: pq_sorted_Cons)
  then have "\<forall>r \<in> set rs. to_expire item \<le> fst r"
    using IH(2) low live.hyps(3) by blast
  moreover have "\<forall>r \<in> set rs. l \<le> fst r" if "l \<le> now" "\<forall>t \<in> set (hq_queue q). l \<le> to_expire t" for l
    using that IH(2) low live.hyps(2) by simp
  ultimately show ?case
    using IH(1) live.hyps(2) by auto
qed auto

definition hq_due :: "usec \<Rightarrow> 'c heap_queue \<Rightarrow> (usec \<times> nat) multiset" where
  "hq_due now q = image_mset (\<lambda>t. (to_expire t, to_timer t))
     (filter_mset (\<lambda>t. to_expire t \<le> now) (mset (hq_queue q)))"

lemma hq_due_pop:
  "hq_queue q = item # ts \<Longrightarrow> to_expire item \<le> now \<Longrightarrow>
    hq_due now q = add_mset (to_expire item, to_timer item) (hq_due now (q\<lparr>hq_queue := ts\<rparr>))"
  by (simp add: hq_due_def)

lemma hq_due_fire:
  assumes "chrono_ok K" and "delays_from 1 env" and "\<And>n. hq_reads q \<le> n \<Longrightarrow> now \<le> clk n"
  shows "hq_due now (hq_fire K clk env timer q) = hq_due now q"
proof -
  obtain M where M: "mset (hq_queue (hq_fire K clk env timer q)) = mset (hq_queue q) + M"
    "\<forall>t \<in># M. now + 1 \<le> to_expire t"
    using hq_fire_queue [OF assms(1), of q now clk 1 env timer] assms by auto
  from M(2) have "filter_mset (\<lambda>t. to_expire t \<le> now) M = {#}"
    by (auto simp: filter_mset_eq_mempty_iff)
  with M(1) show ?thesis by (simp add: hq_due_def)
qed

lemma hq_runs_once:
  assumes "hq_runs K clk env now q rs q'" and "hq_wf None q" and "hq_counter q' < 2 ^ 64"
    and K: "chrono_ok K" and env: "delays_from 1 env"
  shows "(\<And>n. hq_reads q \<le> n \<Longrightarrow> now \<le> clk n) \<Longrightarrow> mset rs \<subseteq># hq_due now q"
  using assms(1-3)
proof (induction rule: hq_runs_wf_induct)
  case (dead q item ts rs q')
  have "mset rs \<subseteq># hq_due now (q\<lparr>hq_queue := ts\<rparr>)"
    using dead by simp
  then show ?case
    using hq_due_pop [OF dead.hyps(2,3)] by (metis mset_subset_eq_add_right add_mset_add_single subset_mset.order_trans mset_subset_eq_add_left)
next
  case (live q item ts timer rs q')
  let ?p = "q\<lparr>hq_queue := ts\<rparr>"
  have "now \<le> clk n" if "hq_reads (hq_fire K clk env timer ?p) \<le> n" for n
    using that hq_fire_mono(2) [of ?p K clk env timer] live.prems [of n] by simp
  then have "mset rs \<subseteq># hq_due now ?p"
    using live.IH hq_due_fire [OF K env, of ?p now clk timer] live.prems by simp
  then show ?case
    using hq_due_pop [OF live.hyps(2,3)] by simp
qed simp

lemma hq_loop_returns:
  assumes K: "chrono_ok K" and env: "delays_from 1 env"
  shows "(\<And>n. hq_reads q \<le> n \<Longrightarrow> now \<le> clk n) \<Longrightarrow> hq_loop K clk env now q \<noteq> None"
proof (induction "size (hq_due now q)" arbitrary: q rule: less_induct)
  case less
  show ?case
  proof (cases "\<exists>item ts. hq_queue q = item # ts \<and> to_expire item \<le> now")
    case False
    then show ?thesis
      by (subst hq_loop.simps) (auto split: option.split simp: hq_top_Some)
  next
    case True
    then obtain item ts where q: "hq_queue q = item # ts" "to_expire item \<le> now" by blast
    let ?p = "q\<lparr>hq_queue := ts\<rparr>"
    have smaller: "size (hq_due now ?p) < size (hq_due now q)"
      using hq_due_pop [OF q] by simp
    have dead: "hq_loop K clk env now ?p \<noteq> None"
      using less.hyps [OF smaller] less.prems by simp
    have live: "hq_loop K clk env now (hq_fire K clk env timer ?p) \<noteq> None" for timer
    proof (rule less.hyps)
      show "size (hq_due now (hq_fire K clk env timer ?p)) < size (hq_due now q)"
        using hq_due_fire [OF K env, of ?p now clk timer] less.prems smaller by simp
      show "now \<le> clk n" if "hq_reads (hq_fire K clk env timer ?p) \<le> n" for n
        using that hq_fire_mono(2) [of ?p K clk env timer] less.prems [of n] by simp
    qed
    show ?thesis
    proof (cases "hq_table q (to_timer item)")
      case None
      with q dead show ?thesis by (subst hq_loop.simps) (simp add: pq_pop_def)
    next
      case (Some timer)
      obtain r where "hq_loop K clk env now (hq_fire K clk env timer ?p) = Some r"
        using live [of timer] by blast
      with q Some show ?thesis by (subst hq_loop.simps) (simp add: pq_pop_def split: prod.split)
    qed
  qed
qed

section \<open>Properties of Process\<close>

text \<open>
  C6. TimerHeapQueue::Process, with any activity of callbacks and other threads in between: the
  timers that ran were due at the reading of the clock taken at its start, no timeout left in
  the heap was due at that reading, each timer still in the table has exactly one timeout in
  the heap, and if any is left the last WakeUpAt asked for is the earliest of them.
\<close>

theorem hq_process_due:
  assumes "hq_wf None q" and "hq_process K clk env q = Some (rs, q')" and "hq_counter q' < 2 ^ 64"
  shows "hq_wf None q'
    \<and> (\<forall>(e, tid) \<in> set rs. e \<le> clk (hq_reads q))
    \<and> (\<forall>t \<in> set (hq_queue q'). clk (hq_reads q) < to_expire t \<and> last (hq_wakes q') \<le> to_expire t)
    \<and> (hq_queue q' = [] \<or> last (hq_wakes q') \<in> to_expire ` set (hq_queue q'))"
proof -
  obtain q2 where run: "hq_runs K clk env (clk (hq_reads q)) (q\<lparr>hq_reads := Suc (hq_reads q)\<rparr>) rs q2"
    and q': "q' = (case pq_top (hq_queue q2) of None \<Rightarrow> q2 | Some item \<Rightarrow> hq_wakeup_at (to_expire item) q2)"
    using hq_processE [OF assms(2)] .
  have eqs: "hq_counter q' = hq_counter q2" "hq_queue q' = hq_queue q2" "hq_table q' = hq_table q2"
    using q' by (auto simp: hq_wakeup_at_def split: option.splits)
  have wf: "hq_wf None (q\<lparr>hq_reads := Suc (hq_reads q)\<rparr>)"
    using assms(1) by (simp add: hq_wf_def hq_timeouts_def)
  have "hq_wf None q2"
    using hq_wf_runs [OF run wf] assms(3) eqs by simp
  then have "hq_wf None q'" and sorted: "pq_sorted (hq_queue q')"
    using eqs by (auto simp: hq_wf_def hq_timeouts_def)
  moreover have "\<forall>t \<in> set (hq_queue q'). last (hq_wakes q') \<le> to_expire t"
    and "hq_queue q' = [] \<or> last (hq_wakes q') \<in> to_expire ` set (hq_queue q')"
    using q' eqs(2) sorted by (cases "hq_queue q2"; auto simp: hq_wakeup_at_def pq_sorted_Cons)+
  ultimately show ?thesis
    using hq_runs_due [OF run wf] assms(3) eqs by auto
qed

text \<open>A queue with a one-shot timer of 5 and one of 50 microseconds, added at time 0.\<close>

definition two_timers :: "nat heap_queue" where
  "two_timers = snd (hq_add usec_chrono int 50 0 7 (snd (hq_add usec_chrono (\<lambda>_. 0) 5 0 3 hq_create)))"

lemma two_timers_eq:
  "two_timers = \<lparr>hq_counter = 2, hq_queue = [Timeout 5 1, Timeout 51 2],
    hq_table = [1 \<mapsto> \<lparr>he_id = 1, he_callback = 3, he_interval = 0\<rparr>,
                2 \<mapsto> \<lparr>he_id = 2, he_callback = 7, he_interval = 0\<rparr>],
    hq_reads = 2, hq_wakes = [5, 51]\<rparr>"
  by (simp add: two_timers_def hq_add_def hq_now_def hq_create_def hq_emplace_def hq_wakeup_at_def
      usec_chrono_def to_u64_def pq_push_def Let_def)

lemma two_timers_wf: "hq_wf None two_timers"
  by (auto simp: hq_wf_def two_timers_eq pq_sorted_def hq_timeouts_def)

text \<open>The timer of 5 runs at time 20; its callback adds one of 9.\<close>

definition late_clock :: "nat \<Rightarrow> usec" where
  "late_clock n = 18 + int n"

definition rescheduling :: "nat \<Rightarrow> nat \<Rightarrow> nat timer_cmd list" where
  "rescheduling c n = (if c = 3 then [CmdAdd 9 0 8] else [])"

lemma two_timers_process:
  "hq_process usec_chrono late_clock rescheduling two_timers =
    Some ([(5, 1)], \<lparr>hq_counter = 3, hq_queue = [Timeout 30 3, Timeout 51 2],
      hq_table = [2 \<mapsto> \<lparr>he_id = 2, he_callback = 7, he_interval = 0\<rparr>,
                  3 \<mapsto> \<lparr>he_id = 3, he_callback = 8, he_interval = 0\<rparr>],
      hq_reads = 4, hq_wakes = [5, 51, 30, 30]\<rparr>)"
  by (simp add: hq_process_def hq_now_def two_timers_eq hq_loop.simps hq_fire_def rescheduling_def hq_add_def
      hq_emplace_def hq_wakeup_at_def usec_chrono_def late_clock_def to_u64_def pq_push_def pq_pop_def Let_def
      fun_eq_iff)

theorem hq_process_due_witness:
  "\<exists>rs q'. hq_process usec_chrono late_clock rescheduling two_timers = Some (rs, q')
    \<and> hq_wf None q' \<and> (\<forall>(e, tid) \<in> set rs. e \<le> 20)"
proof -
  let ?p = "the (hq_process usec_chrono late_clock rescheduling two_timers)"
  have "hq_wf None (snd ?p) \<and> (\<forall>(e, tid) \<in> set (fst ?p). e \<le> late_clock (hq_reads two_timers))"
    using hq_process_due [OF two_timers_wf two_timers_process] by (simp add: two_timers_process)
  moreover have "hq_reads two_timers = 2"
    by (simp add: two_timers_eq)
  ultimately show ?thesis
    by (simp add: two_timers_process late_clock_def)
qed

text \<open>
  C19. TimerHeapQueue::Process returns when every Add that callbacks or other threads make while it
  runs has a delay of at least one microsecond and the clock never goes below the reading taken at
  its start.  As long as fewer than 2^64 timers have been added, it then has run timers in the order
  of their expiry, only timeouts that were due at its start, and none of them twice.
\<close>

theorem hq_process_returns:
  assumes "chrono_ok K" and "hq_wf None q" and "delays_from 1 env"
    and "\<And>n. hq_reads q \<le> n \<Longrightarrow> clk (hq_reads q) \<le> clk n"
  shows "\<exists>rs q'. hq_process K clk env q = Some (rs, q') \<and>
    (hq_counter q' < 2 ^ 64 \<longrightarrow> sorted (map fst rs) \<and> mset rs \<subseteq># hq_due (clk (hq_reads q)) q)"
proof -
  let ?q = "q\<lparr>hq_reads := Suc (hq_reads q)\<rparr>"
  have later: "clk (hq_reads q) \<le> clk n" if "hq_reads ?q \<le> n" for n
    using that assms(4) by simp
  have "hq_loop K clk env (clk (hq_reads q)) ?q \<noteq> None"
    using later by (rule hq_loop_returns [OF assms(1,3)])
  then obtain rs q' where some: "hq_process K clk env q = Some (rs, q')"
    by (auto simp: hq_process_def hq_now_def)
  then obtain q2 where run: "hq_runs K clk env (clk (hq_reads q)) ?q rs q2"
    and q': "q' = (case pq_top (hq_queue q2) of None \<Rightarrow> q2 | Some item \<Rightarrow> hq_wakeup_at (to_expire item) q2)"
    by (rule hq_processE)
  have wf: "hq_wf None ?q"
    using assms(2) by (simp add: hq_wf_def hq_timeouts_def)
  have "hq_counter q' = hq_counter q2"
    using q' by (auto simp: hq_wakeup_at_def split: option.splits)
  moreover have "delays_from 0 env"
    using assms(3) by (fastforce simp: delays_from_def)
  moreover have "hq_due (clk (hq_reads q)) ?q = hq_due (clk (hq_reads q)) q"
    by (simp add: hq_due_def)
  ultimately show ?thesis
    using some hq_runs_ordered [OF run wf _ assms(1) _ later] hq_runs_once [OF run wf _ assms(1,3) later] by auto
qed

theorem hq_process_returns_witness:
  "\<exists>rs q'. hq_process usec_chrono late_clock rescheduling two_timers = Some (rs, q')
    \<and> sorted (map fst rs) \<and> mset rs \<subseteq># {#(5, 1)#}"
proof -
  have "delays_from 1 rescheduling"
    by (auto simp: delays_from_def rescheduling_def split: if_splits)
  then have "\<exists>rs q'. hq_process usec_chrono late_clock rescheduling two_timers = Some (rs, q') \<and>
    (hq_counter q' < 2 ^ 64 \<longrightarrow> sorted (map fst rs) \<and>
      mset rs \<subseteq># hq_due (late_clock (hq_reads two_timers)) two_timers)"
    by (intro hq_process_returns two_timers_wf) (auto simp: late_clock_def)
  then show ?thesis
    by (simp add: two_timers_process hq_due_def late_clock_def)
qed

text \<open>
  C4. A due timer that is in the table of TimerHeapQueue and that no callback or thread cancels
  while Process runs is run by it.
\<close>

theorem hq_due_timer_fires:
  assumes "chrono_ok K" and "hq_wf None q" and "hq_process K clk env q = Some (rs, q')" and "hq_counter q' < 2 ^ 64"
    and "hq_table q tid = Some e" and "t \<in> set (hq_queue q)" and "to_timer t = tid"
    and "to_expire t \<le> clk (hq_reads q)" and "\<And>c n. CmdCancel tid \<notin> set (env c n)"
  shows "tid \<in> snd ` set rs"
proof -
  obtain q2 where run: "hq_runs K clk env (clk (hq_reads q)) (q\<lparr>hq_reads := Suc (hq_reads q)\<rparr>) rs q2"
    and q': "q' = (case pq_top (hq_queue q2) of None \<Rightarrow> q2 | Some item \<Rightarrow> hq_wakeup_at (to_expire item) q2)"
    using hq_processE [OF assms(3)] .
  have "hq_wf None (q\<lparr>hq_reads := Suc (hq_reads q)\<rparr>)"
    using assms(2) by (simp add: hq_wf_def hq_timeouts_def)
  moreover have "hq_counter q2 < 2 ^ 64"
    using q' assms(4) by (auto simp: hq_wakeup_at_def split: option.splits)
  ultimately show ?thesis
    using assms by (intro hq_runs_fires [OF run, of tid e t]) auto
qed

theorem hq_due_timer_fires_witness:
  "\<exists>rs q'. hq_process usec_chrono late_clock rescheduling two_timers = Some (rs, q') \<and> 1 \<in> snd ` set rs"
proof -
  have "1 \<in> snd ` set [(5 :: int, 1 :: nat)]"
    by (rule hq_due_timer_fires [OF usec_chrono_ok two_timers_wf two_timers_process,
        where tid = 1 and t = "Timeout 5 1"])
      (auto simp: two_timers_eq late_clock_def rescheduling_def split: if_splits)
  with two_timers_process show ?thesis by blast
qed

section \<open>Histories of a queue\<close>

text \<open>
  Any number of \<open>Add\<close>, \<open>Cancel\<close> and \<open>Process\<close>, each \<open>Process\<close> with callbacks and calls of
  other threads of its own: the ids that ran and the ids that \<open>Add\<close> returned, in order.
\<close>

inductive hq_later ::
  "chrono \<Rightarrow> (nat \<Rightarrow> usec) \<Rightarrow> 'c heap_queue \<Rightarrow> nat list \<Rightarrow> nat list \<Rightarrow> 'c heap_queue \<Rightarrow> bool"
  for K clk q
where
  later_now: "hq_later K clk q [] [] q"
| later_add: "hq_later K clk q fired given p \<Longrightarrow> hq_add K clk d i c p = (tid, p') \<Longrightarrow>
    hq_later K clk q fired (given @ [tid]) p'"
| later_cancel: "hq_later K clk q fired given p \<Longrightarrow> hq_later K clk q fired given (hq_cancel tid p)"
| later_process: "hq_later K clk q fired given p \<Longrightarrow> hq_process K clk env p = Some (rs, p') \<Longrightarrow>
    hq_later K clk q (fired @ map snd rs) given p'"

lemma hq_runs_same:
  assumes "hq_runs K clk env now q rs q'" and "hq_wf None q" and "hq_counter q' < 2 ^ 64"
  shows "hq_table q tid = Some e \<Longrightarrow> hq_table q' tid \<in> {None, Some e}"
  using assms
proof (induction rule: hq_runs_wf_induct)
  case (live q item ts timer rs q')
  let ?q = "hq_fire K clk env timer (q\<lparr>hq_queue := ts\<rparr>)"
  have tid: "tid \<le> hq_counter q"
    using live by (auto dest: hq_wf_id)
  then have "tid \<le> hq_counter ?q"
    using hq_fire_mono(1) [of "q\<lparr>hq_queue := ts\<rparr>" K clk env timer] by simp
  moreover have "hq_table ?q tid \<in> {None, Some e}"
    using live.prems live.hyps(7) tid by (intro hq_fire_table_same) simp_all
  ultimately show ?case
    using hq_runs_dead [OF live.hyps(9,8,10), of tid] live.IH by auto
qed auto

text \<open>A whole \<open>Process\<close>.\<close>

lemma hq_process_facts:
  assumes "hq_process K clk env q = Some (rs, q')" and wf: "hq_wf None q" and bound: "hq_counter q' < 2 ^ 64"
  shows "hq_wf None q'" and "hq_counter q \<le> hq_counter q'"
    and "hq_table q tid = None \<Longrightarrow> tid \<le> hq_counter q \<Longrightarrow> hq_table q' tid = None \<and> tid \<notin> set (map snd rs)"
    and "hq_table q tid = Some e \<Longrightarrow> he_interval e \<le> 0 \<Longrightarrow>
      count_list (map snd rs) tid \<le> 1 \<and> (tid \<in> set (map snd rs) \<longrightarrow> hq_table q' tid = None)
      \<and> hq_table q' tid \<in> {None, Some e}"
proof -
  let ?q = "q\<lparr>hq_reads := Suc (hq_reads q)\<rparr>"
  obtain q2 where run: "hq_runs K clk env (clk (hq_reads q)) ?q rs q2"
    and q': "q' = (case pq_top (hq_queue q2) of None \<Rightarrow> q2 | Some item \<Rightarrow> hq_wakeup_at (to_expire item) q2)"
    using assms(1) by (rule hq_processE)
  have wf': "hq_wf None ?q"
    using wf by (simp add: hq_wf_def hq_timeouts_def)
  have eqs: "hq_counter q2 = hq_counter q'" "hq_table q2 = hq_table q'" "hq_wf None q2 = hq_wf None q'"
    using q' by (auto simp: hq_wakeup_at_def hq_wf_def hq_timeouts_def split: option.splits)
  note run' = run wf' bound [folded eqs(1)]
  show "hq_wf None q'"
    using hq_wf_runs [OF run'] eqs by simp
  show "hq_counter q \<le> hq_counter q'"
    using hq_runs_mono [OF run] eqs by simp
  show "hq_table q' tid = None \<and> tid \<notin> set (map snd rs)" if "hq_table q tid = None" "tid \<le> hq_counter q"
    using hq_runs_dead [OF run', of tid] that eqs by simp
  show "count_list (map snd rs) tid \<le> 1 \<and> (tid \<in> set (map snd rs) \<longrightarrow> hq_table q' tid = None)
      \<and> hq_table q' tid \<in> {None, Some e}" if "hq_table q tid = Some e" "he_interval e \<le> 0"
    using hq_runs_one_shot [OF run', of tid e] hq_runs_same [OF run', of tid e] that eqs
    by (simp flip: count_mset)
qed

lemma hq_add_facts:
  assumes "hq_add K clk d i c q = (tid, q')" and "hq_wf x q" and "hq_counter q' < 2 ^ 64"
  shows "hq_wf x q'" and "tid = Suc (hq_counter q)" and "hq_counter q' = Suc (hq_counter q)"
    and "t \<le> hq_counter q \<Longrightarrow> hq_table q' t = hq_table q t"
proof -
  have q': "q' = snd (hq_add K clk d i c q)"
    using assms(1) by simp
  then show n: "hq_counter q' = Suc (hq_counter q)"
    by (simp add: hq_add_simps)
  with assms(3) have bound: "Suc (hq_counter q) < 2 ^ 64" by simp
  then have id: "to_u64 (int (hq_counter q) + 1) = Suc (hq_counter q)"
    by (simp add: hq_id_eq)
  show "hq_wf x q'"
    unfolding q' by (rule hq_wf_add [OF assms(2) bound])
  show "tid = Suc (hq_counter q)"
    using assms(1) id by (simp add: hq_add_def hq_now_def Let_def)
  show "hq_table q' t = hq_table q t" if "t \<le> hq_counter q"
    using hq_add_table [of q K clk d i c] hq_fresh [OF assms(2)] id that by (simp add: q')
qed

lemma hq_later_wf:
  assumes "hq_later K clk q fired given q'" and "hq_wf None q"
  shows "hq_counter q \<le> hq_counter q' \<and> (hq_counter q' < 2 ^ 64 \<longrightarrow> hq_wf None q')"
  using assms
proof (induction rule: hq_later.induct)
  case (later_add fired given p d i c tid p')
  have n: "hq_counter p' = Suc (hq_counter p)"
    using hq_add_simps(2) [of K clk d i c p] later_add(2) by simp
  moreover have "hq_wf None p'" if "hq_counter p' < 2 ^ 64"
    using hq_add_facts(1) [OF later_add(2) _ that] later_add that n by simp
  ultimately show ?case
    using later_add by auto
next
  case (later_cancel fired given p tid)
  then show ?case by (simp add: hq_wf_cancel)
next
  case (later_process fired given p env rs p')
  obtain q2 where run: "hq_runs K clk env (clk (hq_reads p)) (p\<lparr>hq_reads := Suc (hq_reads p)\<rparr>) rs q2"
    and p': "p' = (case pq_top (hq_queue q2) of None \<Rightarrow> q2 | Some item \<Rightarrow> hq_wakeup_at (to_expire item) q2)"
    using later_process(2) by (rule hq_processE)
  have mono: "hq_counter p \<le> hq_counter p'"
    using hq_runs_mono [OF run] p' by (auto simp: hq_wakeup_at_def split: option.split)
  moreover have "hq_wf None p'" if "hq_counter p' < 2 ^ 64"
    using hq_process_facts(1) [OF later_process(2) _ that] later_process mono that by simp
  ultimately show ?case
    using later_process by auto
qed simp

text \<open>The fate of an id that is gone, and of a one-shot timer.\<close>

lemma hq_later_dead:
  assumes "hq_later K clk q fired given q'" and "hq_wf None q" and "hq_table q tid = None" and "tid \<le> hq_counter q"
  shows "hq_counter q' < 2 ^ 64 \<longrightarrow> hq_table q' tid = None \<and> tid \<notin> set fired \<and> tid \<notin> set given"
  using assms
proof (induction rule: hq_later.induct)
  case (later_add fired given p d i c t p')
  note before = hq_later_wf [OF later_add(1) later_add.prems(1)]
  have n: "hq_counter p' = Suc (hq_counter p)"
    using hq_add_simps(2) [of K clk d i c p] later_add(2) by simp
  show ?case
    using hq_add_facts(2,4) [OF later_add(2), of None] before later_add.IH later_add.prems n by auto
next
  case (later_cancel fired given p t)
  then show ?case by simp
next
  case (later_process fired given p env rs p')
  have "hq_later K clk q (fired @ map snd rs) given p'"
    using later_process(1,2) by (rule hq_later.later_process)
  note after = hq_later_wf [OF this later_process.prems(1)] and before = hq_later_wf [OF later_process(1) later_process.prems(1)]
  show ?case
  proof
    assume bound: "hq_counter p' < 2 ^ 64"
    have "hq_counter p \<le> hq_counter p'"
      using later_process(2) by (elim hq_processE) (auto dest!: hq_runs_mono simp: hq_wakeup_at_def split: option.splits)
    with bound before have wf: "hq_wf None p" "hq_counter p < 2 ^ 64" by auto
    with hq_process_facts(3) [OF later_process(2) wf(1) bound, of tid] before later_process.IH later_process.prems
    show "hq_table p' tid = None \<and> tid \<notin> set (fired @ map snd rs) \<and> tid \<notin> set given"
      by auto
  qed
qed simp

lemma hq_later_one_shot:
  assumes "hq_later K clk q fired given q'" and "hq_wf None q" and "hq_table q tid = Some e" and "he_interval e \<le> 0"
  shows "hq_counter q' < 2 ^ 64 \<longrightarrow> count_list fired tid \<le> 1 \<and> (tid \<in> set fired \<longrightarrow> hq_table q' tid = None)
    \<and> hq_table q' tid \<in> {None, Some e}"
  using assms
proof (induction rule: hq_later.induct)
  case (later_add fired given p d i c t p')
  note before = hq_later_wf [OF later_add(1) later_add.prems(1)]
  have n: "hq_counter p' = Suc (hq_counter p)"
    using hq_add_simps(2) [of K clk d i c p] later_add(2) by simp
  have "tid \<le> hq_counter p"
    using before hq_wf_id [OF later_add.prems(1,2)] by simp
  then show ?case
    using hq_add_facts(4) [OF later_add(2), of None tid] before later_add.IH later_add.prems n by auto
next
  case (later_cancel fired given p t)
  then show ?case by auto
next
  case (later_process fired given p env rs p')
  note before = hq_later_wf [OF later_process(1) later_process.prems(1)]
  have tid: "tid \<le> hq_counter p"
    using before hq_wf_id [OF later_process.prems(1,2)] by simp
  show ?case
  proof
    assume bound: "hq_counter p' < 2 ^ 64"
    have "hq_counter p \<le> hq_counter p'"
      using later_process(2) by (elim hq_processE) (auto dest!: hq_runs_mono simp: hq_wakeup_at_def split: option.splits)
    with bound before have wf: "hq_wf None p" "hq_counter p < 2 ^ 64" by auto
    note facts = hq_process_facts(3,4) [OF later_process(2) wf(1) bound, of tid]
    show "count_list (fired @ map snd rs) tid \<le> 1 \<and> (tid \<in> set (fired @ map snd rs) \<longrightarrow> hq_table p' tid = None)
        \<and> hq_table p' tid \<in> {None, Some e}"
    proof (cases "hq_table p tid")
      case None
      with facts(1) tid have "hq_table p' tid = None" "count_list (map snd rs) tid = 0"
        by (auto simp: count_list_0_iff)
      with later_process.IH later_process.prems wf(2) show ?thesis by simp
    next
      case (Some f)
      with later_process.IH later_process.prems wf(2) have "f = e" "tid \<notin> set fired"
        by auto
      with facts(2) [of e] Some later_process.prems show ?thesis
        by (auto simp: count_list_0_iff)
    qed
  qed
qed simp

text \<open>
  C5. In any later history of a TimerHeapQueue (any Add, Cancel and Process, with any callbacks), as
  long as fewer than 2^64 timers have been added: a timer that was cancelled, or whose entry is gone
  for another reason, never runs again, no later Add returns its id, and its entry does not come
  back; and a one-shot timer runs at most once, however often Process is called, and is gone when it
  has run.
\<close>

theorem hq_cancelled_never_fires:
  assumes "hq_wf None q" and "tid \<le> hq_counter q" and "hq_counter q' < 2 ^ 64"
  shows "(hq_later K clk (hq_cancel tid q) fired given q' \<or> hq_table q tid = None \<and> hq_later K clk q fired given q' \<longrightarrow>
      tid \<notin> set fired \<and> tid \<notin> set given \<and> hq_table q' tid = None)
    \<and> (hq_later K clk q fired given q' \<longrightarrow> (\<forall>e. hq_table q tid = Some e \<and> he_interval e \<le> 0 \<longrightarrow>
      count_list fired tid \<le> 1 \<and> (tid \<in> set fired \<longrightarrow> hq_table q' tid = None)))"
proof -
  have "hq_wf None (hq_cancel tid q)"
    using assms(1) by (rule hq_wf_cancel)
  then have "tid \<notin> set fired \<and> tid \<notin> set given \<and> hq_table q' tid = None"
    if "hq_later K clk (hq_cancel tid q) fired given q'"
    using hq_later_dead [OF that, of tid] assms(2,3) by simp
  moreover have "tid \<notin> set fired \<and> tid \<notin> set given \<and> hq_table q' tid = None"
    if "hq_table q tid = None" "hq_later K clk q fired given q'"
    using hq_later_dead [OF that(2) assms(1) that(1)] assms(2,3) by simp
  moreover have "count_list fired tid \<le> 1 \<and> (tid \<in> set fired \<longrightarrow> hq_table q' tid = None)"
    if "hq_later K clk q fired given q'" "hq_table q tid = Some e" "he_interval e \<le> 0" for e
    using hq_later_one_shot [OF that(1) assms(1) that(2,3)] assms(3) by simp
  ultimately show ?thesis
    by blast
qed

text \<open>Cancelled before a Process, which therefore has nothing to run.\<close>

theorem hq_cancelled_never_fires_witness:
  "\<exists>rs q'. hq_process usec_chrono late_clock rescheduling (hq_cancel 1 two_timers) = Some (rs, q')
    \<and> 1 \<notin> set (map snd rs) \<and> hq_table q' 1 = None"
proof -
  let ?q' = "\<lparr>hq_counter = 2, hq_queue = [Timeout 51 2],
      hq_table = [2 \<mapsto> \<lparr>he_id = 2, he_callback = 7, he_interval = 0\<rparr>], hq_reads = 3, hq_wakes = [5, 51, 51]\<rparr>"
  have process: "hq_process usec_chrono late_clock rescheduling (hq_cancel 1 two_timers) = Some ([], ?q')"
    by (simp add: hq_process_def hq_now_def two_timers_eq hq_loop.simps hq_cancel_def hq_wakeup_at_def
        late_clock_def pq_pop_def Let_def fun_eq_iff)
  have "hq_later usec_chrono late_clock (hq_cancel 1 two_timers) [] [] ?q'"
    using later_process [OF later_now process] by simp
  then show ?thesis
    using hq_cancelled_never_fires [OF two_timers_wf, of 1 ?q' usec_chrono late_clock "[]" "[]"] process
    by (auto simp: two_timers_eq)
qed

end
