(* ===== verification/Timer_Channel.thy ===== *)
theory Timer_Channel
  imports Pedronet_Prelude
begin

text \<open>
  include/pedronet/channel/timer\_channel.h and src/channel/timer\_channel.cc: the channel
  around a \<open>timerfd(2)\<close>.  \<open>last_wakeup_us_\<close> is the atomic int64; the calls of
  \<open>timerfd_settime\<close> are a history of the clock reading at the call and the \<open>it_value\<close> given,
  latest first.  A one-shot timerfd expires \<open>it_value\<close> after the last such call, and an
  \<open>it_value\<close> of zero disarms it.

  \<open>WakeUpAfter\<close> compares RELATIVE durations taken at different times.  The facts below say
  what that gives: an accepted call arms exactly the duration asked for, never disarms, and
  replaces a later deadline by an earlier one when little time has passed since the deadline
  was armed, but by a later one when much time has passed.
\<close>

section \<open>State and operations\<close>

record timer_channel =
  tc_last_wakeup_us :: int
  tc_settimes :: "(usec \<times> int \<times> int) list"

definition tc_create :: timer_channel where
  "tc_create = \<lparr>tc_last_wakeup_us = INT64_MAX, tc_settimes = []\<rparr>"

definition kMinWakeUpDuration :: usec where
  "kMinWakeUpDuration = 100"

text \<open>
  The test of the compare-and-swap loop on the value \<open>us\<close> it loaded: whether to return
  without arming.  None: the subtraction overflows, which C++ leaves undefined.
\<close>

definition tc_ignores :: "int \<Rightarrow> int \<Rightarrow> bool option" where
  "tc_ignores usec us =
     Option.bind (sub64 usec us) (\<lambda>d.
       Option.bind (abs64 d) (\<lambda>a. Some (a < 100 \<or> us < usec)))"

text \<open>
  The loop: a strong compare-and-swap that meets no other thread succeeds at once, so one
  thread runs the body once.  The result: None is undefined behaviour, Some None an early
  return, Some (Some ch) the channel after the swap.
\<close>

definition tc_claim :: "usec \<Rightarrow> timer_channel \<Rightarrow> timer_channel option option" where
  "tc_claim usec ch =
     (case tc_ignores usec (tc_last_wakeup_us ch) of
        None \<Rightarrow> None
      | Some True \<Rightarrow> Some None
      | Some False \<Rightarrow> Some (Some (ch\<lparr>tc_last_wakeup_us := usec\<rparr>)))"

definition tc_settime :: "chrono \<Rightarrow> usec \<Rightarrow> usec \<Rightarrow> timer_channel \<Rightarrow> timer_channel" where
  "tc_settime K now usec ch =
     ch\<lparr>tc_settimes := (now, usec sdiv us_per_sec K, (usec smod us_per_sec K) * 1000) # tc_settimes ch\<rparr>"

definition tc_wakeup_after :: "chrono \<Rightarrow> usec \<Rightarrow> usec \<Rightarrow> timer_channel \<Rightarrow> timer_channel option" where
  "tc_wakeup_after K now duration ch =
     (let usec = max duration kMinWakeUpDuration
      in case tc_claim usec ch of
           None \<Rightarrow> None
         | Some None \<Rightarrow> Some ch
         | Some (Some ch1) \<Rightarrow> Some (tc_settime K now usec ch1))"

text \<open>\<open>WakeUpAt\<close>: \<open>now\<close> is the reading of \<open>Timestamp::Now()\<close> it takes.\<close>

definition tc_wakeup_at :: "chrono \<Rightarrow> usec \<Rightarrow> usec \<Rightarrow> timer_channel \<Rightarrow> timer_channel option" where
  "tc_wakeup_at K now timestamp ch = tc_wakeup_after K now (ts_minus K timestamp now) ch"

text \<open>
  \<open>HandleEvents\<close> stores INT64\_MIN, reads the descriptor (a failed read is only logged), stores
  INT64\_MAX and runs the callback.  Another thread can call \<open>WakeUpAfter\<close> between the two
  stores.
\<close>

definition tc_begin_read :: "timer_channel \<Rightarrow> timer_channel" where
  "tc_begin_read ch = ch\<lparr>tc_last_wakeup_us := INT64_MIN\<rparr>"

definition tc_end_read :: "timer_channel \<Rightarrow> timer_channel" where
  "tc_end_read ch = ch\<lparr>tc_last_wakeup_us := INT64_MAX\<rparr>"

definition tc_handle_events :: "(timer_channel \<Rightarrow> timer_channel option) option \<Rightarrow> timer_channel \<Rightarrow>
    timer_channel option" where
  "tc_handle_events event_callback ch =
     (let ch1 = tc_end_read (tc_begin_read ch)
      in case event_callback of None \<Rightarrow> Some ch1 | Some cb \<Rightarrow> cb ch1)"

text \<open>When the descriptor will become readable.\<close>

definition tc_deadline :: "timer_channel \<Rightarrow> usec option" where
  "tc_deadline ch =
     (case tc_settimes ch of
        [] \<Rightarrow> None
      | (now, sec, nsec) # _ \<Rightarrow>
          if sec = 0 \<and> nsec = 0 then None else Some (now + sec * 1000000 + nsec div 1000))"

section \<open>Facts\<close>

lemma sub64_Some [simp]: "in_int64 (a - b) \<Longrightarrow> sub64 a b = Some (a - b)"
  by (simp add: sub64_def)

lemma tc_ignores_eq:
  assumes "0 < usec" and "usec \<le> INT64_MAX" and "0 \<le> us" and "us \<le> INT64_MAX"
  shows "tc_ignores usec us = Some (us - 100 < usec)"
proof -
  have "in_int64 (usec - us)" and "in_int64 \<bar>usec - us\<bar>"
    using assms by (auto simp: in_int64_def INT64_MIN_def INT64_MAX_def)
  then show ?thesis
    by (auto simp: tc_ignores_def sub64_def abs64_def)
qed

text \<open>The \<open>itimerspec\<close> is well formed, exact, and never the one that disarms.\<close>

lemma settime_split:
  assumes "0 < usec"
  shows "usec sdiv 1000000 = usec div 1000000" and "usec smod 1000000 = usec mod (1000000 :: int)"
  using assms by (simp_all add: signed_divide_int_def signed_modulo_int_def sgn_if)

lemma settime_exact:
  fixes usec :: int
  assumes "0 < usec"
  shows "usec div 1000000 * 1000000 + (usec mod 1000000 * 1000) div 1000 = usec"
    and "0 \<le> usec mod 1000000 * 1000" and "usec mod 1000000 * 1000 < 1000000000"
    and "\<not> (usec div 1000000 = 0 \<and> usec mod 1000000 * 1000 = 0)"
proof -
  have "0 \<le> usec mod 1000000" and "usec mod 1000000 < 1000000"
    by simp_all
  then show "0 \<le> usec mod 1000000 * 1000" and "usec mod 1000000 * 1000 < 1000000000"
    by simp_all
  show "usec div 1000000 * 1000000 + (usec mod 1000000 * 1000) div 1000 = usec"
    by simp
  show "\<not> (usec div 1000000 = 0 \<and> usec mod 1000000 * 1000 = 0)"
    using assms div_mult_mod_eq [of usec 1000000] by auto
qed

lemma tc_deadline_settime:
  assumes "chrono_ok K" and "0 < usec"
  shows "tc_deadline (tc_settime K now usec ch) = Some (now + usec)"
  using assms settime_exact [OF assms(2)]
  by (simp add: tc_deadline_def tc_settime_def settime_split)

lemma tc_settime_last [simp]: "tc_last_wakeup_us (tc_settime K now usec ch) = tc_last_wakeup_us ch"
  by (simp add: tc_settime_def)

lemma tc_wakeup_after_eq:
  assumes "0 \<le> tc_last_wakeup_us ch" and "tc_last_wakeup_us ch \<le> INT64_MAX" and "d \<le> INT64_MAX"
  shows "tc_wakeup_after K now d ch =
    Some (if tc_last_wakeup_us ch - 100 < max d 100 then ch
          else tc_settime K now (max d 100) (ch\<lparr>tc_last_wakeup_us := max d 100\<rparr>))"
proof -
  have "tc_ignores (max d 100) (tc_last_wakeup_us ch) = Some (tc_last_wakeup_us ch - 100 < max d 100)"
    using assms by (intro tc_ignores_eq) (auto simp: INT64_MAX_def)
  then show ?thesis
    by (simp add: tc_wakeup_after_def tc_claim_def kMinWakeUpDuration_def Let_def)
qed

end
