(* ===== verification/Timer_Service.thy ===== *)
theory Timer_Service
  imports Timer_Channel Timer_Heap_Properties
begin

text \<open>
  The timer heap together with the timer channel it arms: when the descriptor becomes readable
  compared with the timer that asked for it.  \<open>WakeUpAt\<close> promises a wakeup at most 100
  microseconds late at the time of the call, but a later call can take the promise back: the
  channel compares durations that were measured from different moments.
\<close>

section \<open>The channel in use\<close>

text \<open>
  \<open>tc_ok now ch\<close>: at time \<open>now\<close>, either the last wakeup was consumed and any duration is
  accepted, or \<open>last_wakeup_us_\<close> is the duration of the last \<open>timerfd_settime\<close>.
\<close>

definition tc_armed :: "usec \<Rightarrow> usec \<Rightarrow> timer_channel \<Rightarrow> bool" where
  "tc_armed t u ch \<longleftrightarrow>
     100 \<le> u \<and> u \<le> INT64_MAX \<and> tc_last_wakeup_us ch = u \<and> tc_deadline ch = Some (t + u)"

definition tc_ok :: "usec \<Rightarrow> timer_channel \<Rightarrow> bool" where
  "tc_ok now ch \<longleftrightarrow> tc_last_wakeup_us ch = INT64_MAX \<or> (\<exists>t u. t \<le> now \<and> tc_armed t u ch)"

lemma tc_ok_create: "tc_ok now tc_create"
  by (simp add: tc_ok_def tc_create_def)

lemma tc_ok_later: "tc_ok now ch \<Longrightarrow> now \<le> now' \<Longrightarrow> tc_ok now' ch"
  by (fastforce simp: tc_ok_def)

lemma tc_ok_handle: "tc_handle_events None ch = Some ch' \<Longrightarrow> tc_ok now ch'"
  by (auto simp: tc_handle_events_def tc_begin_read_def tc_end_read_def tc_ok_def Let_def)

lemma tc_ok_range: "tc_ok now ch \<Longrightarrow> 0 \<le> tc_last_wakeup_us ch \<and> tc_last_wakeup_us ch \<le> INT64_MAX"
  by (auto simp: tc_ok_def tc_armed_def INT64_MAX_def)

text \<open>An accepted call arms the descriptor for exactly the duration asked for, 100 at least.\<close>

lemma tc_wakeup_accepted:
  assumes "chrono_ok K" and "0 \<le> tc_last_wakeup_us ch" and "tc_last_wakeup_us ch \<le> INT64_MAX"
    and "d \<le> INT64_MAX" and "max d 100 + 100 \<le> tc_last_wakeup_us ch"
  obtains ch' where "tc_wakeup_after K now d ch = Some ch'" and "tc_armed now (max d 100) ch'"
proof
  let ?ch = "tc_settime K now (max d 100) (ch\<lparr>tc_last_wakeup_us := max d 100\<rparr>)"
  show "tc_wakeup_after K now d ch = Some ?ch"
    using tc_wakeup_after_eq [OF assms(2-4), of K now] assms(5) by simp
  show "tc_armed now (max d 100) ?ch"
    using assms(1,4) by (simp add: tc_armed_def tc_deadline_settime INT64_MAX_def)
qed

lemma tc_wakeup_ignored:
  assumes "0 \<le> tc_last_wakeup_us ch" and "tc_last_wakeup_us ch \<le> INT64_MAX"
    and "d \<le> INT64_MAX" and "tc_last_wakeup_us ch < max d 100 + 100"
  shows "tc_wakeup_after K now d ch = Some ch"
  using tc_wakeup_after_eq [OF assms(1-3), of K now] assms(4) by simp

lemma tc_wakeup_at_kept:
  assumes "chrono_ok K" and "tc_ok now ch" and "T - now \<le> INT64_MAX - 200"
  shows "\<exists>ch' D. tc_wakeup_at K now T ch = Some ch' \<and> tc_ok now ch' \<and> tc_deadline ch' = Some D
    \<and> D < max T (now + 100) + 100"
proof -
  let ?d = "T - now"
  have d: "?d \<le> INT64_MAX" and big: "max ?d 100 + 100 \<le> INT64_MAX"
    using assms(3) by (simp_all add: INT64_MAX_def)
  note range = tc_ok_range [OF assms(2)]
  show ?thesis
  proof (cases "max ?d 100 + 100 \<le> tc_last_wakeup_us ch")
    case True
    obtain ch' where ch': "tc_wakeup_after K now ?d ch = Some ch'" "tc_armed now (max ?d 100) ch'"
      using tc_wakeup_accepted [OF assms(1) range [THEN conjunct1] range [THEN conjunct2] d True, of now] .
    then have "tc_deadline ch' = Some (now + max ?d 100)" and "tc_ok now ch'"
      by (auto simp: tc_armed_def tc_ok_def)
    with ch' assms(1) show ?thesis
      by (auto simp: tc_wakeup_at_def)
  next
    case False
    then have "tc_wakeup_after K now ?d ch = Some ch"
      using tc_wakeup_ignored range d by simp
    moreover obtain t u where "t \<le> now" "tc_armed t u ch"
      using assms(2) False big by (auto simp: tc_ok_def)
    moreover from this False have "t + u < max T (now + 100) + 100"
      by (auto simp: tc_armed_def max_def split: if_splits)
    ultimately show ?thesis
      using assms(1,2) by (auto simp: tc_wakeup_at_def tc_armed_def)
  qed
qed

text \<open>
  C40. TimerChannel::WakeUpAt keeps its word, called by one thread at a time outside HandleEvents,
  on a channel whose stored wakeup is either INT64\_MAX (none) or what the descriptor was armed with
  at some time up to now (tc\_ok), and for a time T at most INT64\_MAX - 200 microseconds away: the
  call is defined, the descriptor is armed, and it becomes readable less than 100 microseconds after
  T (after now plus 100 microseconds, for a T nearer than that); and the channel is again such a
  channel.  Without these assumptions the promise can fail: tc\_wakeup\_in\_read\_window (between the
  two stores of HandleEvents) and wheel\_wakeup\_overtaken (two calls at once).
\<close>

theorem tc_wakeup_at_promise:
  assumes "chrono_ok K" and "tc_ok now ch" and "T - now \<le> INT64_MAX - 200"
  shows "\<exists>ch' D. tc_wakeup_at K now T ch = Some ch' \<and> tc_ok now ch' \<and> tc_deadline ch' = Some D
    \<and> D < max T (now + 100) + 100"
  using assms by (rule tc_wakeup_at_kept)

theorem tc_wakeup_at_promise_witness:
  "\<exists>ch' D. tc_wakeup_at usec_chrono 0 5000 tc_create = Some ch' \<and> tc_deadline ch' = Some D \<and> D < 5100"
  using tc_wakeup_at_promise [OF usec_chrono_ok tc_ok_create, of 5000 0] by (auto simp: INT64_MAX_def)

section \<open>The heap and the channel\<close>

text \<open>
  \<open>TimerHeapQueue::Add\<close> with the channel: \<open>WakeUpAt\<close> reads the clock once more.  None is
  undefined behaviour in the channel.
\<close>

definition ht_add ::
  "chrono \<Rightarrow> (nat \<Rightarrow> usec) \<Rightarrow> usec \<Rightarrow> usec \<Rightarrow> 'c \<Rightarrow> 'c heap_queue \<times> timer_channel \<Rightarrow>
     (nat \<times> 'c heap_queue \<times> timer_channel) option" where
  "ht_add K clk delay interval callback s =
     (let (tid, q1) = hq_add K clk delay interval callback (fst s);
          (now, q2) = hq_now clk q1
      in case tc_wakeup_at K now (last (hq_wakes q1)) (snd s) of
           None \<Rightarrow> None
         | Some ch \<Rightarrow> Some (tid, q2, ch))"

text \<open>
  Adding a timer can delay another one: when the descriptor is armed at time t for u
  microseconds and a timer is added later whose delay is shorter than u by 100 microseconds or
  more but which expires after t + u, the channel is armed anew for the later expiry, although
  the heap still holds the earlier timeout.
\<close>

theorem ht_add_postpones:
  assumes "chrono_ok K" and "tc_armed t u ch" and "early \<in> set (hq_queue q)" and "to_expire early \<le> t + u"
    and "clk (hq_reads q) = now" and "clk (Suc (hq_reads q)) = now"
    and "100 \<le> delay" and "delay + 100 \<le> u" and "t + u < now + delay"
  shows "\<exists>tid q' ch'. ht_add K clk delay interval callback (q, ch) = Some (tid, q', ch')
    \<and> early \<in> set (hq_queue q') \<and> tc_deadline ch' = Some (now + delay)
    \<and> to_expire early < now + delay"
proof -
  have "0 \<le> tc_last_wakeup_us ch" "tc_last_wakeup_us ch \<le> INT64_MAX" "delay \<le> INT64_MAX"
    "max delay 100 + 100 \<le> tc_last_wakeup_us ch"
    using assms(2,7,8) by (auto simp: tc_armed_def)
  then obtain ch' where ch': "tc_wakeup_after K now delay ch = Some ch'" "tc_armed now (max delay 100) ch'"
    using tc_wakeup_accepted [OF assms(1)] by metis
  let ?r = "hq_add K clk delay interval callback q"
  have wakes: "last (hq_wakes (snd ?r)) = now + delay"
    using assms(1,5) by (auto simp: hq_add_def hq_now_def hq_wakeup_at_def Let_def)
  have "ht_add K clk delay interval callback (q, ch) =
      Some (fst ?r, (snd ?r)\<lparr>hq_reads := Suc (Suc (hq_reads q))\<rparr>, ch')"
    using ch'(1) wakes assms(1,6)
    by (simp add: ht_add_def hq_now_def tc_wakeup_at_def hq_add_simps case_prod_beta Let_def)
  moreover have "early \<in> set (hq_queue (snd ?r))"
    using assms(3) by (simp add: hq_add_simps)
  moreover have "tc_deadline ch' = Some (now + delay)"
    using ch'(2) assms(7) by (simp add: tc_armed_def)
  ultimately show ?thesis
    using assms(4,9) by auto
qed

text \<open>
  A timer of 10 seconds added at time 0, another of 5 seconds added at second 9: the descriptor
  is armed for second 14.
\<close>

theorem ht_add_postpones_witness:
  "\<exists>tid q ch. Option.bind
      (ht_add usec_chrono (\<lambda>n. if n < 2 then 0 else 9000000) 10000000 0 (1::nat) (hq_create, tc_create))
      (\<lambda>(_, s). ht_add usec_chrono (\<lambda>n. if n < 2 then 0 else 9000000) 5000000 0 2 s) = Some (tid, q, ch)
    \<and> tc_deadline ch = Some 14000000 \<and> Timeout 10000000 1 \<in> set (hq_queue q)"
proof -
  let ?clk = "\<lambda>n::nat. if n < 2 then 0 else 9000000 :: int"
  let ?q = "(snd (hq_add usec_chrono ?clk 10000000 0 (1::nat) hq_create))\<lparr>hq_reads := 2\<rparr>"
  obtain ch where ch: "tc_wakeup_after usec_chrono 0 10000000 tc_create = Some ch" "tc_armed 0 10000000 ch"
    using tc_wakeup_accepted [OF usec_chrono_ok, of tc_create 10000000 0]
    by (auto simp: tc_create_def INT64_MAX_def)
  then have "ht_add usec_chrono ?clk 10000000 0 (1::nat) (hq_create, tc_create) = Some (1, ?q, ch)"
    by (simp add: ht_add_def hq_add_def hq_now_def hq_create_def hq_emplace_def hq_wakeup_at_def usec_chrono_def
        to_u64_def tc_wakeup_at_def Let_def)
  moreover have "\<exists>tid q' ch'. ht_add usec_chrono ?clk 5000000 0 2 (?q, ch) = Some (tid, q', ch')
      \<and> Timeout 10000000 1 \<in> set (hq_queue q') \<and> tc_deadline ch' = Some (9000000 + 5000000)
      \<and> to_expire (Timeout 10000000 1) < 9000000 + 5000000"
    by (rule ht_add_postpones [OF usec_chrono_ok ch(2)])
      (simp_all add: hq_add_def hq_now_def hq_create_def hq_emplace_def hq_wakeup_at_def usec_chrono_def
        to_u64_def Let_def)
  ultimately show ?thesis by auto
qed

section \<open>A wakeup requested while the descriptor is read\<close>

text \<open>
  Between the two stores of TimerChannel::HandleEvents the stored value is INT64_MIN, and a
  WakeUpAfter of another thread in that window subtracts it from a positive duration: the
  subtraction overflows, so the call is undefined whatever the duration.
\<close>

theorem tc_wakeup_in_read_window: "tc_wakeup_after K now d (tc_begin_read ch) = None"
proof -
  have "\<not> in_int64 (max d 100 - INT64_MIN)"
    by (simp add: in_int64_def INT64_MIN_def INT64_MAX_def)
  then show ?thesis
    by (simp add: tc_wakeup_after_def tc_claim_def tc_ignores_def tc_begin_read_def sub64_def
        kMinWakeUpDuration_def Let_def)
qed

end
