(* ===== verification/Timer_Rearm.thy ===== *)
theory Timer_Rearm
  imports Timer_Service
begin

text \<open>
  The life of the timers of a loop: the descriptor becomes readable, \<open>TimerChannel::HandleEvents\<close>
  reads it and calls \<open>TimerHeapQueue::Process\<close>, the callbacks add and cancel timers, and the
  channel is armed again.  These are the operations of \<open>Timer_Heap\<close> with the timer channel in the
  state, so that every \<open>WakeUpAt\<close> takes effect, and reads the clock, where the code calls it.
\<close>

section \<open>The queue with its channel\<close>

fun ht_cmd ::
  "chrono \<Rightarrow> (nat \<Rightarrow> usec) \<Rightarrow> 'c timer_cmd \<Rightarrow> 'c heap_queue \<times> timer_channel \<Rightarrow>
     ('c heap_queue \<times> timer_channel) option" where
  "ht_cmd K clk (CmdAdd delay interval callback) s = map_option snd (ht_add K clk delay interval callback s)"
| "ht_cmd K clk (CmdCancel timer_id) s = Some (hq_cancel timer_id (fst s), snd s)"

fun ht_cmds ::
  "chrono \<Rightarrow> (nat \<Rightarrow> usec) \<Rightarrow> 'c timer_cmd list \<Rightarrow> 'c heap_queue \<times> timer_channel \<Rightarrow>
     ('c heap_queue \<times> timer_channel) option" where
  "ht_cmds K clk [] s = Some s"
| "ht_cmds K clk (c # cs) s = Option.bind (ht_cmd K clk c s) (ht_cmds K clk cs)"

definition ht_fire ::
  "chrono \<Rightarrow> (nat \<Rightarrow> usec) \<Rightarrow> ('c \<Rightarrow> nat \<Rightarrow> 'c timer_cmd list) \<Rightarrow> 'c heap_entry \<Rightarrow>
     'c heap_queue \<times> timer_channel \<Rightarrow> ('c heap_queue \<times> timer_channel) option" where
  "ht_fire K clk env timer s =
     Option.bind (ht_cmds K clk (env (he_callback timer) (hq_reads (fst s))) s) (\<lambda>(q1, ch).
       Some (if 0 < he_interval timer then
               let (now, q2) = hq_now clk q1;
                   expire = ts_plus K now (he_interval timer)
               in (q2\<lparr>hq_queue := pq_push (Timeout expire (he_id timer)) (hq_queue q2)\<rparr>, ch)
             else (q1\<lparr>hq_table := (hq_table q1)(he_id timer := None)\<rparr>, ch)))"

text \<open>None: the loop does not return, or the channel runs into undefined behaviour.\<close>

partial_function (option) ht_loop ::
  "chrono \<Rightarrow> (nat \<Rightarrow> usec) \<Rightarrow> ('c \<Rightarrow> nat \<Rightarrow> 'c timer_cmd list) \<Rightarrow> usec \<Rightarrow> 'c heap_queue \<times> timer_channel \<Rightarrow>
     ((usec \<times> nat) list \<times> 'c heap_queue \<times> timer_channel) option"
where
  "ht_loop K clk env now s =
     (case pq_top (hq_queue (fst s)) of
        None \<Rightarrow> Some ([], s)
      | Some item \<Rightarrow>
          if to_expire item \<le> now then
            (let s1 = ((fst s)\<lparr>hq_queue := pq_pop (hq_queue (fst s))\<rparr>, snd s)
             in case hq_table (fst s1) (to_timer item) of
                  None \<Rightarrow> ht_loop K clk env now s1
                | Some timer \<Rightarrow>
                    Option.bind (ht_fire K clk env timer s1) (\<lambda>s2.
                      Option.bind (ht_loop K clk env now s2)
                        (\<lambda>(rs, s'). Some ((to_expire item, he_id timer) # rs, s'))))
          else Some ([], s))"

definition ht_process ::
  "chrono \<Rightarrow> (nat \<Rightarrow> usec) \<Rightarrow> ('c \<Rightarrow> nat \<Rightarrow> 'c timer_cmd list) \<Rightarrow> 'c heap_queue \<times> timer_channel \<Rightarrow>
     ((usec \<times> nat) list \<times> 'c heap_queue \<times> timer_channel) option"
where
  "ht_process K clk env s =
     (let (now, q1) = hq_now clk (fst s)
      in Option.bind (ht_loop K clk env now (q1, snd s)) (\<lambda>(rs, q2, ch).
           case pq_top (hq_queue q2) of
             None \<Rightarrow> Some (rs, q2, ch)
           | Some item \<Rightarrow>
               (let (now', q3) = hq_now clk (hq_wakeup_at (to_expire item) q2)
                in map_option (\<lambda>ch'. (rs, q3, ch')) (tc_wakeup_at K now' (to_expire item) ch))))"

text \<open>\<open>HandleEvents\<close> of the channel, whose callback is \<open>Process\<close> (src/eventloop.cc).\<close>

definition ht_handle_events ::
  "chrono \<Rightarrow> (nat \<Rightarrow> usec) \<Rightarrow> ('c \<Rightarrow> nat \<Rightarrow> 'c timer_cmd list) \<Rightarrow> 'c heap_queue \<times> timer_channel \<Rightarrow>
     ((usec \<times> nat) list \<times> 'c heap_queue \<times> timer_channel) option"
where
  "ht_handle_events K clk env s = ht_process K clk env (fst s, tc_end_read (tc_begin_read (snd s)))"

section \<open>Within the range of the channel\<close>

text \<open>
  Durations below 2^63 - 201 microseconds (292,000 years) cannot overflow in the channel; the
  invariant says that no timeout is further away than that.
\<close>

definition kMaxDelay :: usec where
  "kMaxDelay = INT64_MAX - 200"

definition ht_safe :: "(nat \<Rightarrow> usec) \<Rightarrow> 'c heap_queue \<times> timer_channel \<Rightarrow> bool" where
  "ht_safe clk s \<longleftrightarrow> pq_sorted (hq_queue (fst s)) \<and> tc_ok (clk (hq_reads (fst s))) (snd s)
     \<and> (\<forall>t \<in> set (hq_queue (fst s)). to_expire t \<le> clk (hq_reads (fst s)) + kMaxDelay)
     \<and> (\<forall>tid e. hq_table (fst s) tid = Some e \<longrightarrow> he_interval e \<le> kMaxDelay)"

fun cmd_safe :: "'c timer_cmd \<Rightarrow> bool" where
  "cmd_safe (CmdAdd delay interval _) \<longleftrightarrow> 1 \<le> delay \<and> delay \<le> kMaxDelay \<and> interval \<le> kMaxDelay"
| "cmd_safe (CmdCancel _) \<longleftrightarrow> True"

definition env_safe :: "('c \<Rightarrow> nat \<Rightarrow> 'c timer_cmd list) \<Rightarrow> bool" where
  "env_safe env \<longleftrightarrow> (\<forall>c n. list_all cmd_safe (env c n))"

text \<open>What one operation leaves for the loop: nothing new that is due at \<open>now\<close>.\<close>

definition ht_keeps :: "(nat \<Rightarrow> usec) \<Rightarrow> usec \<Rightarrow> 'c heap_queue \<times> timer_channel \<Rightarrow> 'c heap_queue \<times> timer_channel \<Rightarrow> bool"
where
  "ht_keeps clk now s s' \<longleftrightarrow> ht_safe clk s' \<and> hq_due now (fst s') = hq_due now (fst s)
     \<and> hq_reads (fst s) \<le> hq_reads (fst s')"

lemma hq_due_push: "now < to_expire t \<Longrightarrow> hq_due now (q\<lparr>hq_queue := pq_push t (hq_queue q)\<rparr>) = hq_due now q"
  by (simp add: hq_due_def)

lemma hq_due_frame [simp]: "hq_due now (q\<lparr>hq_reads := n\<rparr>) = hq_due now q"
  "hq_due now (q\<lparr>hq_table := m\<rparr>) = hq_due now q" "hq_due now (hq_wakeup_at t q) = hq_due now q"
  by (simp_all add: hq_due_def hq_wakeup_at_def)

lemma hq_add_interval:
  "hq_table (snd (hq_add K clk d i c q)) tid = Some e \<Longrightarrow> hq_table q tid = Some e \<or> he_interval e = i"
  by (auto simp: hq_add_def hq_now_def hq_emplace_def hq_wakeup_at_def Let_def split: option.splits if_splits)

lemma ht_safe_later:
  assumes "ht_safe clk s" and "mono clk" and "tc_ok (clk n) ch" and "hq_reads (fst s) \<le> n"
    and "set (hq_queue q) \<subseteq> insert t (set (hq_queue (fst s)))" and "pq_sorted (hq_queue q)"
    and "to_expire t \<le> clk n + kMaxDelay" and "hq_reads q = n"
    and "\<And>tid e. hq_table q tid = Some e \<Longrightarrow> hq_table (fst s) tid = Some e \<or> he_interval e \<le> kMaxDelay"
  shows "ht_safe clk (q, ch)"
proof -
  have "clk (hq_reads (fst s)) \<le> clk n"
    using assms(2,4) by (auto simp: mono_def)
  then have "to_expire u \<le> clk n + kMaxDelay" if "u \<in> set (hq_queue (fst s))" for u
    using assms(1) that by (force simp: ht_safe_def)
  then show ?thesis
    using assms(1,3,5-9) by (fastforce simp: ht_safe_def)
qed

lemma ht_add_safe:
  assumes K: "chrono_ok K" and clk: "mono clk" and safe: "ht_safe clk s" and now: "now \<le> clk (hq_reads (fst s))"
    and cmd: "cmd_safe (CmdAdd d i c)"
  shows "\<exists>tid s'. ht_add K clk d i c s = Some (tid, s') \<and> ht_keeps clk now s s'"
proof -
  let ?q = "fst s" and ?n = "hq_reads (fst s)"
  let ?r = "hq_add K clk d i c ?q"
  have later: "clk ?n \<le> clk (Suc ?n)" "clk ?n \<le> clk (Suc (Suc ?n))" "clk (Suc ?n) \<le> clk (Suc (Suc ?n))"
    using clk by (auto simp: mono_def)
  have wakes: "last (hq_wakes (snd ?r)) = clk ?n + d"
    using K by (auto simp: hq_add_def hq_now_def hq_wakeup_at_def Let_def)
  have "tc_ok (clk (Suc ?n)) (snd s)"
    using safe later(1) by (auto simp: ht_safe_def intro: tc_ok_later)
  moreover have "(clk ?n + d) - clk (Suc ?n) \<le> INT64_MAX - 200"
    using cmd later(1) by (simp add: kMaxDelay_def)
  ultimately obtain ch where ch: "tc_wakeup_at K (clk (Suc ?n)) (clk ?n + d) (snd s) = Some ch" "tc_ok (clk (Suc ?n)) ch"
    using tc_wakeup_at_kept [OF K] by blast
  let ?s = "((snd ?r)\<lparr>hq_reads := Suc (Suc ?n)\<rparr>, ch)"
  have "ht_add K clk d i c s = Some (fst ?r, ?s)"
    using ch(1) wakes K by (simp add: ht_add_def hq_now_def hq_add_simps case_prod_beta Let_def)
  moreover have "ht_safe clk ?s"
  proof (rule ht_safe_later [OF safe clk tc_ok_later [OF ch(2) later(3)]])
    show "set (hq_queue ((snd ?r)\<lparr>hq_reads := Suc (Suc ?n)\<rparr>)) \<subseteq>
        insert (Timeout (clk ?n + d) (to_u64 (int (hq_counter ?q) + 1))) (set (hq_queue ?q))"
      using K by (simp add: hq_add_simps)
    show "pq_sorted (hq_queue ((snd ?r)\<lparr>hq_reads := Suc (Suc ?n)\<rparr>))"
      using safe by (simp add: hq_add_simps ht_safe_def)
    show "to_expire (Timeout (clk ?n + d) (to_u64 (int (hq_counter ?q) + 1))) \<le> clk (Suc (Suc ?n)) + kMaxDelay"
      using cmd later(2) by simp
  qed (use cmd in \<open>auto dest!: hq_add_interval\<close>)
  moreover have "hq_due now (fst ?s) = hq_due now ?q"
    using K cmd now by (simp add: hq_due_def hq_add_simps)
  ultimately show ?thesis
    by (auto simp: ht_keeps_def)
qed

lemma ht_cmd_safe:
  assumes "chrono_ok K" and "mono clk" and "ht_safe clk s" and "now \<le> clk (hq_reads (fst s))" and "cmd_safe cmd"
  shows "\<exists>s'. ht_cmd K clk cmd s = Some s' \<and> ht_keeps clk now s s'"
proof (cases cmd)
  case (CmdAdd d i c)
  with assms(5) show ?thesis
    using ht_add_safe [OF assms(1-4), of d i c] by auto
next
  case (CmdCancel tid)
  have "ht_safe clk (hq_cancel tid (fst s), snd s)"
    using assms(3) by (auto simp: ht_safe_def split: if_splits)
  with CmdCancel show ?thesis
    by (simp add: ht_keeps_def hq_due_def)
qed

lemma ht_keeps_refl: "ht_safe clk s \<Longrightarrow> ht_keeps clk now s s"
  by (simp add: ht_keeps_def)

lemma ht_keeps_trans: "ht_keeps clk now s t \<Longrightarrow> ht_keeps clk now t u \<Longrightarrow> ht_keeps clk now s u"
  by (simp add: ht_keeps_def)

lemma ht_keeps_now: "ht_keeps clk now s t \<Longrightarrow> mono clk \<Longrightarrow> now \<le> clk (hq_reads (fst s)) \<Longrightarrow> now \<le> clk (hq_reads (fst t))"
  by (auto simp: ht_keeps_def mono_def intro: order_trans)

lemma ht_cmds_safe:
  assumes "chrono_ok K" and "mono clk"
  shows "ht_safe clk s \<Longrightarrow> now \<le> clk (hq_reads (fst s)) \<Longrightarrow> list_all cmd_safe cmds \<Longrightarrow>
    \<exists>s'. ht_cmds K clk cmds s = Some s' \<and> ht_keeps clk now s s'"
proof (induction cmds arbitrary: s)
  case Nil
  then show ?case by (simp add: ht_keeps_refl)
next
  case (Cons cmd cmds)
  then obtain s1 where s1: "ht_cmd K clk cmd s = Some s1" "ht_keeps clk now s s1"
    using ht_cmd_safe [OF assms, of s now cmd] by auto
  then have "ht_safe clk s1" "now \<le> clk (hq_reads (fst s1))"
    using ht_keeps_now [OF s1(2) assms(2) Cons.prems(2)] by (auto simp: ht_keeps_def)
  then obtain s2 where "ht_cmds K clk cmds s1 = Some s2" "ht_keeps clk now s1 s2"
    using Cons.IH [of s1] Cons.prems by auto
  with s1 show ?case by (auto intro: ht_keeps_trans)
qed

lemma ht_fire_safe:
  assumes K: "chrono_ok K" and clk: "mono clk" and env: "env_safe env"
    and safe: "ht_safe clk s" and now: "now \<le> clk (hq_reads (fst s))" and timer: "he_interval timer \<le> kMaxDelay"
  shows "\<exists>s'. ht_fire K clk env timer s = Some s' \<and> ht_keeps clk now s s'"
proof -
  obtain q ch where q: "ht_cmds K clk (env (he_callback timer) (hq_reads (fst s))) s = Some (q, ch)"
      "ht_keeps clk now s (q, ch)"
    using ht_cmds_safe [OF K clk safe now] env by (force simp: env_safe_def)
  have n: "now \<le> clk (hq_reads q)" "clk (hq_reads q) \<le> clk (Suc (hq_reads q))"
    using ht_keeps_now [OF q(2) clk now] clk by (auto simp: mono_def)
  have safe': "ht_safe clk (q, ch)"
    using q(2) by (simp add: ht_keeps_def)
  show ?thesis
  proof (cases "0 < he_interval timer")
    case True
    let ?t = "Timeout (clk (hq_reads q) + he_interval timer) (he_id timer)"
    let ?q = "q\<lparr>hq_reads := Suc (hq_reads q), hq_queue := pq_push ?t (hq_queue q)\<rparr>"
    have "ht_fire K clk env timer s = Some (?q, ch)"
      using True q(1) K by (simp add: ht_fire_def hq_now_def)
    moreover have "ht_safe clk (?q, ch)"
      by (rule ht_safe_later [OF safe' clk, of "Suc (hq_reads q)" _ _ ?t])
        (use safe' timer n(2) in \<open>auto simp: ht_safe_def intro: tc_ok_later\<close>)
    moreover have "hq_due now ?q = hq_due now q"
      using True n(1) by (simp add: hq_due_def)
    ultimately show ?thesis
      using q(2) by (auto simp: ht_keeps_def)
  next
    case False
    let ?q = "q\<lparr>hq_table := (hq_table q)(he_id timer := None)\<rparr>"
    have "ht_fire K clk env timer s = Some (?q, ch)"
      using False q(1) by (simp add: ht_fire_def)
    moreover have "ht_safe clk (?q, ch)"
      using safe' by (auto simp: ht_safe_def split: if_splits)
    ultimately show ?thesis
      using q(2) by (auto simp: ht_keeps_def)
  qed
qed

section \<open>The loop and the wakeup after it\<close>

lemma ht_safe_pop:
  assumes "ht_safe clk s" and "hq_queue (fst s) = item # ts"
  shows "ht_safe clk ((fst s)\<lparr>hq_queue := ts\<rparr>, snd s)"
  using assms by (simp add: ht_safe_def pq_sorted_Cons)

lemma ht_loop_stop:
  assumes "ht_safe clk s" and "\<nexists>item ts. hq_queue (fst s) = item # ts \<and> to_expire item \<le> now"
  shows "ht_loop K clk env now s = Some ([], s) \<and> (\<forall>t \<in> set (hq_queue (fst s)). now < to_expire t)"
proof (cases "hq_queue (fst s)")
  case Nil
  then show ?thesis by (subst ht_loop.simps) simp
next
  case (Cons item ts)
  with assms show ?thesis
    by (subst ht_loop.simps) (fastforce simp: ht_safe_def pq_sorted_Cons)
qed

lemma ht_loop_safe:
  assumes K: "chrono_ok K" and clk: "mono clk" and env: "env_safe env"
  shows "ht_safe clk s \<Longrightarrow> now \<le> clk (hq_reads (fst s)) \<Longrightarrow>
    \<exists>rs s'. ht_loop K clk env now s = Some (rs, s') \<and> ht_safe clk s'
      \<and> (\<forall>r \<in> set rs. fst r \<le> now) \<and> (\<forall>t \<in> set (hq_queue (fst s')). now < to_expire t)"
proof (induction "size (hq_due now (fst s))" arbitrary: s rule: less_induct)
  case less
  show ?case
  proof (cases "\<exists>item ts. hq_queue (fst s) = item # ts \<and> to_expire item \<le> now")
    case False
    with ht_loop_stop [OF less.prems(1) False, of K env] less.prems(1) show ?thesis by auto
  next
    case True
    then obtain item ts where q: "hq_queue (fst s) = item # ts" "to_expire item \<le> now" by blast
    let ?s = "((fst s)\<lparr>hq_queue := ts\<rparr>, snd s)"
    have safe: "ht_safe clk ?s" and now: "now \<le> clk (hq_reads (fst ?s))"
      and smaller: "size (hq_due now (fst ?s)) < size (hq_due now (fst s))"
      using ht_safe_pop [OF less.prems(1) q(1)] less.prems(2) hq_due_pop [OF q] by auto
    show ?thesis
    proof (cases "hq_table (fst s) (to_timer item)")
      case None
      with q less.hyps [OF smaller safe now] show ?thesis
        by (subst ht_loop.simps) (simp add: pq_pop_def)
    next
      case (Some timer)
      then have "he_interval timer \<le> kMaxDelay"
        using less.prems(1) by (auto simp: ht_safe_def)
      then obtain s2 where s2: "ht_fire K clk env timer ?s = Some s2" "ht_keeps clk now ?s s2"
        using ht_fire_safe [OF K clk env safe now] by blast
      then have "size (hq_due now (fst s2)) < size (hq_due now (fst s))" "ht_safe clk s2"
        "now \<le> clk (hq_reads (fst s2))"
        using smaller ht_keeps_now [OF s2(2) clk now] by (auto simp: ht_keeps_def)
      from less.hyps [OF this] obtain rs s' where "ht_loop K clk env now s2 = Some (rs, s')" "ht_safe clk s'"
        "\<forall>r \<in> set rs. fst r \<le> now" "\<forall>t \<in> set (hq_queue (fst s')). now < to_expire t"
        by blast
      with q Some s2(1) show ?thesis
        by (subst ht_loop.simps) (auto simp: pq_pop_def)
    qed
  qed
qed

text \<open>
  C13. No timer is forgotten between two wakeups.  When the descriptor of the timer channel has
  become readable and HandleEvents runs TimerHeapQueue::Process, with callbacks and other threads
  that add (1 microsecond to 292,000 years ahead) and cancel timers whenever a callback runs: the
  call returns without undefined behaviour, it runs only timers that were due, every timer that
  was due when it started has left the heap, and unless the heap is empty the descriptor is armed
  and becomes readable less than 100 microseconds after the earliest expiry in the heap (less than
  200 microseconds after the clock was last read, if that is later).
\<close>

theorem timers_rearmed:
  assumes "chrono_ok K" and "mono clk" and "env_safe env" and "ht_safe clk (q, tc_end_read ch)"
  shows "\<exists>rs q' ch'. ht_handle_events K clk env (q, ch) = Some (rs, q', ch')
    \<and> (\<forall>r \<in> set rs. fst r \<le> clk (hq_reads q))
    \<and> (\<forall>t \<in> set (hq_queue q'). clk (hq_reads q) < to_expire t)
    \<and> (hq_queue q' = [] \<or> (\<exists>D. tc_deadline ch' = Some D
        \<and> (\<forall>t \<in> set (hq_queue q'). D < max (to_expire t) (clk (hq_reads q' - 1) + 100) + 100)))"
proof -
  let ?s = "(q\<lparr>hq_reads := Suc (hq_reads q)\<rparr>, tc_end_read ch)"
  have later: "clk n \<le> clk (Suc n)" for n
    using assms(2) by (auto simp: mono_def)
  have "ht_safe clk ?s"
    by (rule ht_safe_later [OF assms(4,2), of "Suc (hq_reads q)" _ _ "Timeout (clk (hq_reads q)) 0"])
      (use assms(4) in \<open>auto simp: ht_safe_def kMaxDelay_def INT64_MAX_def intro: tc_ok_later later order_trans [OF later]\<close>)
  then obtain rs q2 ch2 where l: "ht_loop K clk env (clk (hq_reads q)) ?s = Some (rs, q2, ch2)" "ht_safe clk (q2, ch2)"
      "\<forall>r \<in> set rs. fst r \<le> clk (hq_reads q)" "\<forall>t \<in> set (hq_queue q2). clk (hq_reads q) < to_expire t"
    using ht_loop_safe [OF assms(1-3), of ?s "clk (hq_reads q)"] later by auto
  have events: "ht_handle_events K clk env (q, ch) = (case pq_top (hq_queue q2) of None \<Rightarrow> Some (rs, q2, ch2)
      | Some item \<Rightarrow> map_option (\<lambda>ch'. (rs, (hq_wakeup_at (to_expire item) q2)\<lparr>hq_reads := Suc (hq_reads q2)\<rparr>, ch'))
          (tc_wakeup_at K (clk (hq_reads q2)) (to_expire item) ch2))"
    using l(1) by (simp add: ht_handle_events_def ht_process_def hq_now_def tc_end_read_def tc_begin_read_def
        hq_wakeup_at_def split: option.split)
  show ?thesis
  proof (cases "hq_queue q2")
    case Nil
    with events l show ?thesis by auto
  next
    case (Cons item ts)
    then have "tc_ok (clk (hq_reads q2)) ch2" "to_expire item - clk (hq_reads q2) \<le> INT64_MAX - 200"
      and first: "\<forall>t \<in> set (hq_queue q2). to_expire item \<le> to_expire t"
      using l(2) by (auto simp: ht_safe_def kMaxDelay_def pq_sorted_Cons)
    from tc_wakeup_at_kept [OF assms(1) this(1,2)] obtain ch' D where
      D: "tc_wakeup_at K (clk (hq_reads q2)) (to_expire item) ch2 = Some ch'" "tc_deadline ch' = Some D"
        "D < max (to_expire item) (clk (hq_reads q2) + 100) + 100"
      by blast
    let ?q = "(hq_wakeup_at (to_expire item) q2)\<lparr>hq_reads := Suc (hq_reads q2)\<rparr>"
    have q': "hq_queue ?q = hq_queue q2" "hq_reads ?q - 1 = hq_reads q2"
      by (simp_all add: hq_wakeup_at_def)
    have "D < max (to_expire t) (clk (hq_reads q2) + 100) + 100" if "t \<in> set (hq_queue q2)" for t
      using D(3) first that by fastforce
    then show ?thesis
      using events D(1,2) l(3,4) Cons
      by (intro exI [of _ rs] exI [of _ ?q] exI [of _ ch'] conjI disjI2 exI [of _ D]) (auto simp: q')
  qed
qed

text \<open>A timer due at 10 microseconds whose callback adds another one each time.\<close>

theorem timers_rearmed_witness:
  "let q = \<lparr>hq_counter = 1, hq_queue = [Timeout 10 1], hq_table = [1 \<mapsto> \<lparr>he_id = 1, he_callback = 7, he_interval = 300\<rparr>],
         hq_reads = 0, hq_wakes = []\<rparr>;
       clk = (\<lambda>n. 50 + int n); env = (\<lambda>c n. [CmdAdd 500 0 (c :: nat), CmdCancel 9])
   in \<exists>rs q' ch'. ht_handle_events usec_chrono clk env (q, tc_create) = Some (rs, q', ch')
    \<and> (\<forall>r \<in> set rs. fst r \<le> clk (hq_reads q))
    \<and> (\<forall>t \<in> set (hq_queue q'). clk (hq_reads q) < to_expire t)
    \<and> (hq_queue q' = [] \<or> (\<exists>D. tc_deadline ch' = Some D
        \<and> (\<forall>t \<in> set (hq_queue q'). D < max (to_expire t) (clk (hq_reads q' - 1) + 100) + 100)))"
  unfolding Let_def
  by (rule timers_rearmed)
    (auto simp: mono_def env_safe_def ht_safe_def kMaxDelay_def INT64_MAX_def tc_ok_def tc_end_read_def pq_sorted_def)

end
