(* ===== verification/Timer_Wheel.thy ===== *)
theory Timer_Wheel
  imports Timer_Heap
begin

text \<open>
  include/pedronet/queue/timer\_hash\_wheel.h: timers in a wheel of buckets, one per tick of a
  revolution.  A bucket is a \<open>std::map\<close> from the number of the revolution (\<open>rounds\<close>) to the
  ids of the timers of that tick, here an association list with ascending keys.  A timer that
  expires in tick \<open>t\<close> lies in bucket \<open>t mod n\<close> under the key \<open>t div n\<close>.

  As in theory Timer\_Heap: \<open>clk n\<close> is the n-th reading of the clock, \<open>env c n\<close> the calls made
  on the queue while the callback \<open>c\<close> runs, and the calls of \<open>WakeUpAt\<close> are a history.  The
  wheel holds no lock while it sweeps; calls of other threads at other points of the sweep than
  a callback are not modelled.
\<close>

section \<open>Bucket\<close>

type_synonym bucket = "(nat \<times> nat list) list"

fun wb_add :: "nat \<Rightarrow> nat \<Rightarrow> bucket \<Rightarrow> bucket" where
  "wb_add rounds tid [] = [(rounds, [tid])]"
| "wb_add rounds tid ((k, ids) # b) =
     (if rounds < k then (rounds, [tid]) # (k, ids) # b
      else if rounds = k then (k, ids @ [tid]) # b
      else (k, ids) # wb_add rounds tid b)"

text \<open>\<open>Pop\<close>; the key is returned with the ids it belongs to, for the history of the sweep.\<close>

fun wb_pop :: "nat \<Rightarrow> bucket \<Rightarrow> ((nat \<times> nat list) \<times> bucket) option" where
  "wb_pop rounds [] = None"
| "wb_pop rounds ((k, ids) # b) = (if rounds < k then None else Some ((k, ids), b))"

section \<open>TimerHashWheel\<close>

record 'c wheel_entry =
  we_rounds :: nat
  we_id :: nat
  we_interval :: usec
  we_callback :: 'c

record 'c wheel =
  wh_tick :: usec
  wh_last :: usec
  wh_counter :: nat
  wh_buckets :: "bucket list"
  wh_table :: "nat \<rightharpoonup> 'c wheel_entry"
  wh_reads :: nat
  wh_wakes :: "usec list"

definition wh_size :: "'c wheel \<Rightarrow> nat" where
  "wh_size w = length (wh_buckets w)"

definition wh_get_ticks :: "usec \<Rightarrow> usec \<Rightarrow> nat" where
  "wh_get_ticks tick ts = to_u64 (ts sdiv tick)"

definition wh_get_rounds :: "usec \<Rightarrow> nat \<Rightarrow> usec \<Rightarrow> nat" where
  "wh_get_rounds tick n ts = to_u64 (ts sdiv tick) div n"

definition wh_now :: "(nat \<Rightarrow> usec) \<Rightarrow> 'c wheel \<Rightarrow> usec \<times> 'c wheel" where
  "wh_now clk w = (clk (wh_reads w), w\<lparr>wh_reads := Suc (wh_reads w)\<rparr>)"

definition wh_wakeup :: "usec \<Rightarrow> 'c wheel \<Rightarrow> 'c wheel" where
  "wh_wakeup expire w = w\<lparr>wh_wakes := wh_wakes w @ [expire sdiv wh_tick w * wh_tick w]\<rparr>"

text \<open>The constructor: tick and number of buckets are the options.\<close>

definition wh_create :: "(nat \<Rightarrow> usec) \<Rightarrow> usec \<Rightarrow> nat \<Rightarrow> 'c wheel" where
  "wh_create clk tick n =
     \<lparr>wh_tick = tick, wh_last = clk 0, wh_counter = 0, wh_buckets = replicate n [],
      wh_table = Map.empty, wh_reads = 1, wh_wakes = [clk 0]\<rparr>"

definition wh_bucket_add :: "nat \<Rightarrow> nat \<Rightarrow> nat \<Rightarrow> 'c wheel \<Rightarrow> 'c wheel" where
  "wh_bucket_add i rounds tid w =
     w\<lparr>wh_buckets := (wh_buckets w)[i := wb_add rounds tid (wh_buckets w ! i)]\<rparr>"

definition wh_add ::
  "chrono \<Rightarrow> (nat \<Rightarrow> usec) \<Rightarrow> usec \<Rightarrow> usec \<Rightarrow> 'c \<Rightarrow> 'c wheel \<Rightarrow> nat \<times> 'c wheel" where
  "wh_add K clk delay interval callback w =
     (let tid = to_u64 (int (wh_counter w) + 1);
          (now, w1) = wh_now clk (w\<lparr>wh_counter := Suc (wh_counter w)\<rparr>);
          expired = ts_plus K now delay;
          ticks = wh_get_ticks (wh_tick w1) expired;
          rounds = wh_get_rounds (wh_tick w1) (wh_size w1) expired;
          b = ticks mod wh_size w1;
          entry = \<lparr>we_rounds = rounds, we_id = tid, we_interval = interval, we_callback = callback\<rparr>;
          w2 = w1\<lparr>wh_table := (wh_table w1)(tid \<mapsto> entry)\<rparr>
      in (tid, wh_wakeup expired (wh_bucket_add b rounds tid w2)))"

definition wh_cancel :: "nat \<Rightarrow> 'c wheel \<Rightarrow> 'c wheel" where
  "wh_cancel tid w = w\<lparr>wh_table := (wh_table w)(tid := None)\<rparr>"

fun wh_cmd :: "chrono \<Rightarrow> (nat \<Rightarrow> usec) \<Rightarrow> 'c timer_cmd \<Rightarrow> 'c wheel \<Rightarrow> 'c wheel" where
  "wh_cmd K clk (CmdAdd delay interval callback) w = snd (wh_add K clk delay interval callback w)"
| "wh_cmd K clk (CmdCancel tid) w = wh_cancel tid w"

text \<open>
  One popped id: a one-shot timer is cancelled, a periodic one is put into the wheel again (its
  \<open>rounds\<close> is changed through the pointer the table shares), then the callback runs.
\<close>

definition wh_fire ::
  "chrono \<Rightarrow> (nat \<Rightarrow> usec) \<Rightarrow> ('c \<Rightarrow> nat \<Rightarrow> 'c timer_cmd list) \<Rightarrow> usec \<Rightarrow> nat \<Rightarrow> 'c wheel_entry \<Rightarrow>
     'c wheel \<Rightarrow> 'c wheel" where
  "wh_fire K clk env now tid timer w =
     (let w1 = (if we_interval timer \<le> 0 then wh_cancel tid w
                else
                  let expire = ts_plus K now (we_interval timer);
                      ticks = wh_get_ticks (wh_tick w) expire;
                      rounds = wh_get_rounds (wh_tick w) (wh_size w) expire
                  in wh_bucket_add (ticks mod wh_size w) rounds (we_id timer)
                       (w\<lparr>wh_table := (wh_table w)(tid \<mapsto> timer\<lparr>we_rounds := rounds\<rparr>)\<rparr>))
      in fold (wh_cmd K clk) (env (we_callback timer) (wh_reads w1)) w1)"

text \<open>The ids of one \<open>Pop\<close>, with the list of those that fired.\<close>

fun wh_fire_ids ::
  "chrono \<Rightarrow> (nat \<Rightarrow> usec) \<Rightarrow> ('c \<Rightarrow> nat \<Rightarrow> 'c timer_cmd list) \<Rightarrow> usec \<Rightarrow> nat list \<Rightarrow> 'c wheel \<Rightarrow>
     nat list \<times> 'c wheel" where
  "wh_fire_ids K clk env now [] w = ([], w)"
| "wh_fire_ids K clk env now (tid # ids) w =
     (case wh_table w tid of
        None \<Rightarrow> wh_fire_ids K clk env now ids w
      | Some timer \<Rightarrow>
          let (fired, w1) = wh_fire_ids K clk env now ids (wh_fire K clk env now tid timer w)
          in (tid # fired, w1))"

text \<open>
  The inner loop of \<open>ProcessBuckets\<close>, for bucket \<open>i\<close>; the result lists what fired with the tick
  of the bucket and key it was popped from.  None: the loop does not end.
\<close>

partial_function (option) wh_drain ::
  "chrono \<Rightarrow> (nat \<Rightarrow> usec) \<Rightarrow> ('c \<Rightarrow> nat \<Rightarrow> 'c timer_cmd list) \<Rightarrow> usec \<Rightarrow> nat \<Rightarrow> nat \<Rightarrow> 'c wheel \<Rightarrow>
     ((nat \<times> nat) list \<times> 'c wheel) option"
where
  "wh_drain K clk env now rounds i w =
     (case wb_pop rounds (wh_buckets w ! i) of
        None \<Rightarrow> Some ([], w)
      | Some ((k, ids), b) \<Rightarrow>
          let (fired, w1) = wh_fire_ids K clk env now ids (w\<lparr>wh_buckets := (wh_buckets w)[i := b]\<rparr>)
          in Option.bind (wh_drain K clk env now rounds i w1)
               (\<lambda>(rs, w2). Some (map (Pair (k * wh_size w + i)) fired @ rs, w2)))"

text \<open>The outer loop, over the buckets of a range.\<close>

fun wh_sweep ::
  "chrono \<Rightarrow> (nat \<Rightarrow> usec) \<Rightarrow> ('c \<Rightarrow> nat \<Rightarrow> 'c timer_cmd list) \<Rightarrow> usec \<Rightarrow> nat \<Rightarrow> nat list \<Rightarrow> 'c wheel \<Rightarrow>
     ((nat \<times> nat) list \<times> 'c wheel) option"
where
  "wh_sweep K clk env now rounds [] w = Some ([], w)"
| "wh_sweep K clk env now rounds (i # is) w =
     Option.bind (wh_drain K clk env now rounds i w) (\<lambda>(rs, w1).
       Option.bind (wh_sweep K clk env now rounds is w1) (\<lambda>(rs', w2). Some (rs @ rs', w2)))"

definition wh_process_buckets ::
  "chrono \<Rightarrow> (nat \<Rightarrow> usec) \<Rightarrow> ('c \<Rightarrow> nat \<Rightarrow> 'c timer_cmd list) \<Rightarrow> usec \<Rightarrow> nat \<Rightarrow> nat \<Rightarrow> 'c wheel \<Rightarrow>
     ((nat \<times> nat) list \<times> 'c wheel) option"
where
  "wh_process_buckets K clk env now source target w =
     (let rounds = wh_get_rounds (wh_tick w) (wh_size w) now
      in wh_sweep K clk env now rounds [source..<Suc target] w)"

definition wh_process ::
  "chrono \<Rightarrow> (nat \<Rightarrow> usec) \<Rightarrow> ('c \<Rightarrow> nat \<Rightarrow> 'c timer_cmd list) \<Rightarrow> 'c wheel \<Rightarrow>
     ((nat \<times> nat) list \<times> 'c wheel) option"
where
  "wh_process K clk env w =
     (let (now, w1) = wh_now clk w;
          n = wh_size w1;
          t1 = wh_get_ticks (wh_tick w1) (wh_last w1);
          t2 = wh_get_ticks (wh_tick w1) now;
          swept =
            (if to_u64 (int t2 - int t1) < n then
               let b1 = t1 mod n; b2 = t2 mod n
               in if b1 \<le> b2 then wh_process_buckets K clk env now b1 b2 w1
                  else Option.bind (wh_process_buckets K clk env now b1 (n - 1) w1) (\<lambda>(rs, w2).
                         Option.bind (wh_process_buckets K clk env now 0 b2 w2) (\<lambda>(rs', w3).
                           Some (rs @ rs', w3)))
             else wh_process_buckets K clk env now 0 (n - 1) w1)
      in Option.bind swept (\<lambda>(rs, w2).
           Some (rs, wh_wakeup (ts_plus K now (wh_tick w2)) (w2\<lparr>wh_last := now\<rparr>))))"

end
