(* ===== verification/Timer_Wheel_Facts.thy ===== *)
theory Timer_Wheel_Facts
  imports Timer_Wheel
begin

text \<open>
  Facts about the wheel.  A sweep of a bucket is unfolded into the relation \<open>wd_runs\<close>; what
  callbacks and the re-insertion of periodic timers can add to the wheel is bounded by a tick
  \<open>T\<close> from which on all new timers expire.
\<close>

section \<open>Ticks\<close>

lemma sdiv_pos: "0 \<le> ts \<Longrightarrow> 0 < tick \<Longrightarrow> ts sdiv tick = ts div (tick :: int)"
  by (cases "ts = 0") (auto simp: signed_divide_int_def sgn_if)

lemma wh_get_ticks_eq:
  assumes "0 \<le> ts" and "ts < 2 ^ 63" and "0 < tick"
  shows "wh_get_ticks tick ts = nat (ts div tick)"
proof -
  have "ts div tick \<le> ts"
    using assms(1,3) by (metis div_by_1 div_le_dividend int_div_less_self linorder_le_less_linear order_le_less
        zdiv_mono2 int_one_le_iff_zero_less zero_less_one)
  then have "ts div tick < 2 ^ 64"
    using assms(2) by simp
  moreover have "0 \<le> ts div tick"
    using assms by (simp add: pos_imp_zdiv_nonneg_iff)
  ultimately show ?thesis
    using assms by (simp add: wh_get_ticks_def sdiv_pos to_u64_id)
qed

lemma wh_get_rounds_eq: "wh_get_rounds tick n ts = wh_get_ticks tick ts div n"
  by (simp add: wh_get_rounds_def wh_get_ticks_def)

lemma wh_ticks_mono:
  assumes "0 \<le> a" and "a \<le> b" and "b < 2 ^ 63" and "0 < tick"
  shows "wh_get_ticks tick a \<le> wh_get_ticks tick b"
  using assms by (simp add: wh_get_ticks_eq nat_le_eq_zle zdiv_mono1 pos_imp_zdiv_nonneg_iff)

lemma wh_ticks_next:
  assumes "0 \<le> a" and "a + tick \<le> b" and "b < 2 ^ 63" and "0 < tick"
  shows "Suc (wh_get_ticks tick a) \<le> wh_get_ticks tick b"
proof -
  have "a div tick + 1 = (a + tick) div tick"
    using assms(4) by (subst div_add_self2) simp_all
  also have "\<dots> \<le> b div tick"
    using assms(2,4) by (simp add: zdiv_mono1)
  finally have "a div tick + 1 \<le> b div tick" .
  moreover have "0 \<le> a div tick"
    using assms by (simp add: pos_imp_zdiv_nonneg_iff)
  ultimately show ?thesis
    using assms by (simp add: wh_get_ticks_eq)
qed

text \<open>The place of a tick in the wheel, and back.\<close>

lemma wh_place: "0 < (n::nat) \<Longrightarrow> t div n * n + t mod n = t"
  by simp

lemma wh_unplace: "i < n \<Longrightarrow> (k * n + i) mod n = i \<and> (k * n + i) div n = (k::nat)"
  by simp

section \<open>Buckets\<close>

definition wb_has :: "bucket \<Rightarrow> nat \<Rightarrow> nat \<Rightarrow> bool" where
  "wb_has b k tid \<longleftrightarrow> (\<exists>ids. (k, ids) \<in> set b \<and> tid \<in> set ids)"

definition wb_ok :: "bucket \<Rightarrow> bool" where
  "wb_ok b \<longleftrightarrow> sorted_wrt (<) (map fst b)"

lemma wb_has_Nil [simp]: "\<not> wb_has [] k tid"
  by (simp add: wb_has_def)

lemma wb_has_Cons: "wb_has ((k', ids) # b) k tid \<longleftrightarrow> (k = k' \<and> tid \<in> set ids) \<or> wb_has b k tid"
  by (auto simp: wb_has_def)

lemma wb_has_add: "wb_has (wb_add r t b) k tid \<longleftrightarrow> wb_has b k tid \<or> (k = r \<and> tid = t)"
  by (induction r t b rule: wb_add.induct) (auto simp: wb_has_Cons)

lemma wb_keys_add: "fst ` set (wb_add r t b) = insert r (fst ` set b)"
  by (induction r t b rule: wb_add.induct) auto

lemma wb_ok_add: "wb_ok b \<Longrightarrow> wb_ok (wb_add r t b)"
proof (induction r t b rule: wb_add.induct)
  case (2 r t k ids b)
  then show ?case
    using wb_keys_add [of r t b] by (auto simp: wb_ok_def dest!: equalityD1 subsetD)
qed (simp add: wb_ok_def)

lemma wb_pop_None: "wb_ok b \<Longrightarrow> wb_pop r b = None \<Longrightarrow> wb_has b k tid \<Longrightarrow> r < k"
  by (cases b) (auto simp: wb_ok_def wb_has_def split: if_splits)

lemma wb_pop_Some:
  assumes "wb_pop r b = Some ((k, ids), b')"
  shows "k \<le> r" and "wb_has b k' tid \<longleftrightarrow> (k' = k \<and> tid \<in> set ids) \<or> wb_has b' k' tid" and "wb_ok b \<Longrightarrow> wb_ok b'"
  using assms by (cases b; auto simp: wb_has_Cons wb_ok_def split: if_splits)+

section \<open>Wheels\<close>

definition wh_has :: "'c wheel \<Rightarrow> nat \<Rightarrow> nat \<Rightarrow> nat \<Rightarrow> bool" where
  "wh_has w i k tid \<longleftrightarrow> i < wh_size w \<and> wb_has (wh_buckets w ! i) k tid"

definition wh_ok :: "'c wheel \<Rightarrow> bool" where
  "wh_ok w \<longleftrightarrow> 0 < wh_tick w \<and> 0 < wh_size w \<and> (\<forall>b \<in> set (wh_buckets w). wb_ok b)"

lemma wh_bucket_add_simps [simp]:
  "wh_size (wh_bucket_add i r t w) = wh_size w"
  "wh_tick (wh_bucket_add i r t w) = wh_tick w"
  "wh_table (wh_bucket_add i r t w) = wh_table w"
  "wh_reads (wh_bucket_add i r t w) = wh_reads w"
  "wh_last (wh_bucket_add i r t w) = wh_last w"
  by (simp_all add: wh_bucket_add_def wh_size_def)

lemma wh_has_add:
  "j < wh_size w \<Longrightarrow> wh_has (wh_bucket_add j r t w) i k tid \<longleftrightarrow> wh_has w i k tid \<or> (i = j \<and> k = r \<and> tid = t)"
  by (auto simp: wh_has_def wh_bucket_add_def wh_size_def nth_list_update wb_has_add)

lemma wh_ok_add: "wh_ok w \<Longrightarrow> j < wh_size w \<Longrightarrow> wh_ok (wh_bucket_add j r t w)"
  by (auto simp: wh_ok_def wh_bucket_add_def wh_size_def dest!: subsetD [OF set_update_subset_insert]
      intro!: wb_ok_add)

lemma wh_has_upd [simp]:
  "wh_has (w\<lparr>wh_table := t\<rparr>) = wh_has w" "wh_has (w\<lparr>wh_reads := n\<rparr>) = wh_has w"
  "wh_has (w\<lparr>wh_counter := n\<rparr>) = wh_has w" "wh_has (w\<lparr>wh_wakes := ws\<rparr>) = wh_has w"
  "wh_has (w\<lparr>wh_last := l\<rparr>) = wh_has w"
  by (simp_all add: wh_has_def wh_size_def fun_eq_iff)

lemma wh_ok_upd [simp]:
  "wh_ok (w\<lparr>wh_table := t\<rparr>) = wh_ok w" "wh_ok (w\<lparr>wh_reads := n\<rparr>) = wh_ok w"
  "wh_ok (w\<lparr>wh_counter := n\<rparr>) = wh_ok w" "wh_ok (w\<lparr>wh_wakes := ws\<rparr>) = wh_ok w"
  "wh_ok (w\<lparr>wh_last := l\<rparr>) = wh_ok w"
  by (simp_all add: wh_ok_def wh_size_def)

lemma wh_size_upd [simp]:
  "wh_size (w\<lparr>wh_table := t\<rparr>) = wh_size w" "wh_size (w\<lparr>wh_reads := n\<rparr>) = wh_size w"
  "wh_size (w\<lparr>wh_counter := c\<rparr>) = wh_size w" "wh_size (w\<lparr>wh_wakes := ws\<rparr>) = wh_size w"
  "wh_size (w\<lparr>wh_last := l\<rparr>) = wh_size w"
  by (simp_all add: wh_size_def)

section \<open>What callbacks can do to the wheel\<close>

text \<open>Every timer that \<open>env\<close> adds, and every periodic timer put in again, expires in tick T or later.\<close>

definition wh_future :: "nat \<Rightarrow> chrono \<Rightarrow> (nat \<Rightarrow> usec) \<Rightarrow> ('c \<Rightarrow> nat \<Rightarrow> 'c timer_cmd list) \<Rightarrow> usec \<Rightarrow> nat \<Rightarrow> usec \<Rightarrow> bool"
where
  "wh_future T K clk env tick r0 now \<longleftrightarrow>
     (\<forall>c n d i c'. CmdAdd d i c' \<in> set (env c n) \<longrightarrow>
        (\<forall>m \<ge> r0. T \<le> wh_get_ticks tick (ts_plus K (clk m) d))
      \<and> (0 < i \<longrightarrow> T \<le> wh_get_ticks tick (ts_plus K now i)))"

definition wh_intervals :: "nat \<Rightarrow> chrono \<Rightarrow> usec \<Rightarrow> 'c wheel \<Rightarrow> bool" where
  "wh_intervals T K now w \<longleftrightarrow>
     (\<forall>tid e. wh_table w tid = Some e \<and> 0 < we_interval e \<longrightarrow>
        T \<le> wh_get_ticks (wh_tick w) (ts_plus K now (we_interval e)))"

text \<open>\<open>wh_sweeping\<close>: the invariant of a sweep.  \<open>wh_grows\<close>: what a step of it can do.\<close>

definition wh_sweeping :: "nat \<Rightarrow> chrono \<Rightarrow> usec \<Rightarrow> nat \<Rightarrow> usec \<Rightarrow> nat \<Rightarrow> 'c wheel \<Rightarrow> bool" where
  "wh_sweeping T K tick r0 now n w \<longleftrightarrow>
     wh_ok w \<and> wh_tick w = tick \<and> wh_size w = n \<and> r0 \<le> wh_reads w \<and> wh_intervals T K now w
   \<and> (\<forall>tid e. wh_table w tid = Some e \<longrightarrow> we_id e = tid)"

definition wh_low :: "nat \<Rightarrow> nat \<Rightarrow> 'c wheel \<Rightarrow> bucket" where
  "wh_low r i w = filter (\<lambda>(k, ids). k \<le> r) (wh_buckets w ! i)"

lemma wb_low_add: "r < k \<Longrightarrow> filter (\<lambda>(k, ids). k \<le> r) (wb_add k tid b) = filter (\<lambda>(k, ids). k \<le> r) b"
  by (induction k tid b rule: wb_add.induct) auto

lemma wh_low_upd [simp]:
  "wh_low r i (w\<lparr>wh_table := t\<rparr>) = wh_low r i w" "wh_low r i (w\<lparr>wh_reads := n\<rparr>) = wh_low r i w"
  "wh_low r i (w\<lparr>wh_counter := c\<rparr>) = wh_low r i w" "wh_low r i (w\<lparr>wh_wakes := ws\<rparr>) = wh_low r i w"
  by (simp_all add: wh_low_def)

definition wh_grows :: "nat \<Rightarrow> 'c wheel \<Rightarrow> 'c wheel \<Rightarrow> bool" where
  "wh_grows T w w' \<longleftrightarrow> wh_size w' = wh_size w
   \<and> (\<forall>i k tid. wh_has w i k tid \<longrightarrow> wh_has w' i k tid)
   \<and> (\<forall>i k tid. wh_has w' i k tid \<longrightarrow> wh_has w i k tid \<or> T \<le> k * wh_size w + i)
   \<and> (\<forall>i r. i < wh_size w \<and> r * wh_size w + i < T \<longrightarrow> wh_low r i w' = wh_low r i w)"

lemma wh_grows_refl [simp]: "wh_grows T w w"
  by (simp add: wh_grows_def)

lemma wh_grows_trans: "wh_grows T u v \<Longrightarrow> wh_grows T v w \<Longrightarrow> wh_grows T u w"
  unfolding wh_grows_def by metis

lemma wh_sweeping_add:
  "wh_sweeping T K tick r0 now n w \<Longrightarrow> j < n \<Longrightarrow> wh_sweeping T K tick r0 now n (wh_bucket_add j r t w)"
  by (auto simp: wh_sweeping_def wh_intervals_def wh_ok_add)

lemma wh_sweeping_upd [simp]:
  "wh_sweeping T K tick r0 now n (w\<lparr>wh_wakes := ws\<rparr>) = wh_sweeping T K tick r0 now n w"
  "wh_grows T w (w'\<lparr>wh_wakes := ws\<rparr>) = wh_grows T w w'"
  "wh_grows T (w\<lparr>wh_table := tab\<rparr>) w' = wh_grows T w w'"
  "wh_grows T (w\<lparr>wh_counter := c\<rparr>) w' = wh_grows T w w'"
  "wh_grows T (w\<lparr>wh_reads := r\<rparr>) w' = wh_grows T w w'"
  by (simp_all add: wh_sweeping_def wh_intervals_def wh_grows_def)

lemma wh_low_add:
  assumes "i < wh_size w" and "r * wh_size w + i < t"
  shows "wh_low r i (wh_bucket_add (t mod wh_size w) (t div wh_size w) tid w) = wh_low r i w"
proof (cases "t mod wh_size w = i")
  case True
  have "r * wh_size w + i < t div wh_size w * wh_size w + i"
    using assms(2) True by (metis div_mult_mod_eq)
  then have "r < t div wh_size w"
    by simp
  then show ?thesis
    using True assms(1) by (simp add: wh_low_def wh_bucket_add_def wh_size_def wb_low_add)
qed (simp add: wh_low_def wh_bucket_add_def)

lemma wh_grows_add:
  assumes "0 < wh_size w" and "T \<le> t"
  shows "wh_grows T w (wh_bucket_add (t mod wh_size w) (t div wh_size w) tid w)"
  using assms unfolding wh_grows_def
  by (intro conjI allI impI wh_low_add) (auto simp: wh_has_add)

lemma wh_cmd_sweeping:
  assumes "wh_sweeping T K tick r0 now n w" and "wh_future T K clk env tick r0 now"
    and "cmd \<in> set (env c m)"
  shows "wh_sweeping T K tick r0 now n (wh_cmd K clk cmd w) \<and> wh_grows T w (wh_cmd K clk cmd w)"
proof (cases cmd)
  case (CmdCancel tid)
  with assms(1) show ?thesis
    by (auto simp: wh_cancel_def wh_sweeping_def wh_intervals_def wh_grows_def)
next
  case (CmdAdd d i c')
  let ?t = "wh_get_ticks tick (ts_plus K (clk (wh_reads w)) d)"
  let ?tid = "to_u64 (int (wh_counter w) + 1)"
  let ?e = "\<lparr>we_rounds = ?t div n, we_id = ?tid, we_interval = i, we_callback = c'\<rparr>"
  let ?w = "w\<lparr>wh_counter := Suc (wh_counter w), wh_reads := Suc (wh_reads w), wh_table := (wh_table w)(?tid \<mapsto> ?e)\<rparr>"
  have T: "T \<le> ?t" and Ti: "0 < i \<longrightarrow> T \<le> wh_get_ticks tick (ts_plus K now i)"
    using assms CmdAdd unfolding wh_future_def wh_sweeping_def by blast+
  have size: "0 < n" "wh_size ?w = n" "wh_tick w = tick"
    using assms(1) by (auto simp: wh_sweeping_def wh_ok_def)
  have eq: "wh_cmd K clk cmd w = wh_wakeup (ts_plus K (clk (wh_reads w)) d) (wh_bucket_add (?t mod n) (?t div n) ?tid ?w)"
    using CmdAdd size by (simp add: wh_add_def wh_now_def wh_get_rounds_eq Let_def)
  have "wh_sweeping T K tick r0 now n ?w"
    using assms(1) Ti by (auto simp: wh_sweeping_def wh_intervals_def)
  then have "wh_sweeping T K tick r0 now n (wh_bucket_add (?t mod n) (?t div n) ?tid ?w)"
    using size(1) by (simp add: wh_sweeping_add)
  moreover have "wh_grows T ?w (wh_bucket_add (?t mod n) (?t div n) ?tid ?w)"
    using wh_grows_add [of ?w T ?t ?tid] size T by simp
  ultimately show ?thesis
    unfolding eq by (simp add: wh_wakeup_def)
qed

lemma wh_cmds_sweeping:
  assumes "wh_future T K clk env tick r0 now"
  shows "wh_sweeping T K tick r0 now n w \<Longrightarrow> set cmds \<subseteq> set (env c m) \<Longrightarrow>
    wh_sweeping T K tick r0 now n (fold (wh_cmd K clk) cmds w) \<and> wh_grows T w (fold (wh_cmd K clk) cmds w)"
proof (induction cmds arbitrary: w)
  case (Cons cmd cmds)
  then have "wh_sweeping T K tick r0 now n (wh_cmd K clk cmd w)" and "wh_grows T w (wh_cmd K clk cmd w)"
    using wh_cmd_sweeping [OF Cons.prems(1) assms, of cmd c m] by auto
  with Cons.IH Cons.prems(2) show ?case
    by (auto intro: wh_grows_trans)
qed simp

lemma wh_fire_sweeping:
  assumes "wh_sweeping T K tick r0 now n w" and "wh_future T K clk env tick r0 now"
    and "wh_table w tid = Some timer"
  shows "wh_sweeping T K tick r0 now n (wh_fire K clk env now tid timer w)
    \<and> wh_grows T w (wh_fire K clk env now tid timer w)"
proof -
  let ?t = "wh_get_ticks tick (ts_plus K now (we_interval timer))"
  let ?w = "w\<lparr>wh_table := (wh_table w)(tid \<mapsto> timer\<lparr>we_rounds := ?t div n\<rparr>)\<rparr>"
  let ?w1 = "if we_interval timer \<le> 0 then wh_cancel tid w else wh_bucket_add (?t mod n) (?t div n) tid ?w"
  have size: "0 < n" "wh_size w = n" "wh_tick w = tick" "we_id timer = tid"
    using assms(1,3) by (auto simp: wh_sweeping_def wh_ok_def)
  have w1: "wh_sweeping T K tick r0 now n ?w1 \<and> wh_grows T w ?w1"
  proof (cases "we_interval timer \<le> 0")
    case True
    with assms(1) show ?thesis
      by (auto simp: wh_cancel_def wh_sweeping_def wh_intervals_def wh_grows_def)
  next
    case False
    then have T: "T \<le> ?t"
      using assms(1,3) by (auto simp: wh_sweeping_def wh_intervals_def)
    have "wh_sweeping T K tick r0 now n ?w"
      using assms(1,3) by (auto simp: wh_sweeping_def wh_intervals_def)
    then have "wh_sweeping T K tick r0 now n (wh_bucket_add (?t mod n) (?t div n) tid ?w)"
      using size(1) by (simp add: wh_sweeping_add)
    moreover have "wh_grows T ?w (wh_bucket_add (?t mod n) (?t div n) tid ?w)"
      using wh_grows_add [of ?w T ?t tid] size T by simp
    then have "wh_grows T w (wh_bucket_add (?t mod n) (?t div n) tid ?w)"
      by (simp add: wh_grows_def)
    ultimately show ?thesis using False by simp
  qed
  have eq: "wh_fire K clk env now tid timer w = fold (wh_cmd K clk) (env (we_callback timer) (wh_reads ?w1)) ?w1"
    using size by (simp add: wh_fire_def wh_get_rounds_eq Let_def)
  show ?thesis
    unfolding eq using wh_cmds_sweeping [OF assms(2) w1 [THEN conjunct1] order_refl] w1
    by (blast intro: wh_grows_trans)
qed

lemma wh_fire_ids_sweeping:
  assumes "wh_future T K clk env tick r0 now"
  shows "wh_sweeping T K tick r0 now n w \<Longrightarrow> wh_fire_ids K clk env now ids w = (fired, w') \<Longrightarrow>
    wh_sweeping T K tick r0 now n w' \<and> wh_grows T w w'"
proof (induction ids arbitrary: w fired w')
  case (Cons tid ids)
  show ?case
  proof (cases "wh_table w tid")
    case None
    with Cons show ?thesis by simp
  next
    case (Some timer)
    obtain fired1 where "wh_fire_ids K clk env now ids (wh_fire K clk env now tid timer w) = (fired1, w')"
      using Cons.prems(2) Some by (auto split: prod.splits)
    then show ?thesis
      using Cons.IH wh_fire_sweeping [OF Cons.prems(1) assms Some] by (blast intro: wh_grows_trans)
  qed
qed simp

text \<open>A timer that is never cancelled by a call stays in the table until it has fired.\<close>

lemma wh_cmd_live:
  "wh_table w tid \<noteq> None \<Longrightarrow> cmd \<noteq> CmdCancel tid \<Longrightarrow> wh_table (wh_cmd K clk cmd w) tid \<noteq> None"
  by (cases cmd) (auto simp: wh_add_def wh_now_def wh_wakeup_def wh_cancel_def Let_def)

lemma wh_cmds_live:
  "wh_table w tid \<noteq> None \<Longrightarrow> CmdCancel tid \<notin> set cmds \<Longrightarrow> wh_table (fold (wh_cmd K clk) cmds w) tid \<noteq> None"
proof (induction cmds arbitrary: w)
  case (Cons cmd cmds)
  have "wh_table (wh_cmd K clk cmd w) tid \<noteq> None"
    using Cons.prems by (intro wh_cmd_live) auto
  with Cons.IH Cons.prems(2) show ?case by simp
qed simp

lemma wh_fire_live:
  assumes "wh_table w tid \<noteq> None" and "\<And>c n. CmdCancel tid \<notin> set (env c n)"
    and "tid \<noteq> tid' \<or> 0 < we_interval timer"
  shows "wh_table (wh_fire K clk env now tid' timer w) tid \<noteq> None"
  unfolding wh_fire_def Let_def using assms
  by (intro wh_cmds_live) (auto simp: wh_cancel_def)

lemma wh_fire_ids_live:
  assumes "\<And>c n. CmdCancel tid \<notin> set (env c n)"
  shows "wh_table w tid \<noteq> None \<Longrightarrow> wh_fire_ids K clk env now ids w = (fired, w') \<Longrightarrow>
    (tid \<in> set ids \<longrightarrow> tid \<in> set fired) \<and> (tid \<in> set fired \<or> wh_table w' tid \<noteq> None)"
proof (induction ids arbitrary: w fired w')
  case (Cons x ids)
  show ?case
  proof (cases "wh_table w x")
    case None
    with Cons show ?thesis by auto
  next
    case (Some timer)
    then obtain fired1 where f: "wh_fire_ids K clk env now ids (wh_fire K clk env now x timer w) = (fired1, w')"
      and fired: "fired = x # fired1"
      using Cons.prems(2) by (auto split: prod.splits)
    show ?thesis
    proof (cases "x = tid")
      case True
      with fired show ?thesis by simp
    next
      case False
      then have "wh_table (wh_fire K clk env now x timer w) tid \<noteq> None"
        using Cons.prems(1) assms by (intro wh_fire_live) auto
      with Cons.IH f fired False show ?thesis by auto
    qed
  qed
qed simp

section \<open>Runs of a sweep\<close>

inductive wd_runs ::
  "chrono \<Rightarrow> (nat \<Rightarrow> usec) \<Rightarrow> ('c \<Rightarrow> nat \<Rightarrow> 'c timer_cmd list) \<Rightarrow> usec \<Rightarrow> nat \<Rightarrow> nat \<Rightarrow> 'c wheel \<Rightarrow>
     (nat \<times> nat) list \<Rightarrow> 'c wheel \<Rightarrow> bool"
  for K and clk and env and now and rounds and i
where
  wd_stop: "wb_pop rounds (wh_buckets w ! i) = None \<Longrightarrow> wd_runs K clk env now rounds i w [] w"
| wd_round: "wb_pop rounds (wh_buckets w ! i) = Some ((k, ids), b) \<Longrightarrow>
    wh_fire_ids K clk env now ids (w\<lparr>wh_buckets := (wh_buckets w)[i := b]\<rparr>) = (fired, w1) \<Longrightarrow>
    wd_runs K clk env now rounds i w1 rs w2 \<Longrightarrow>
    wd_runs K clk env now rounds i w (map (Pair (k * wh_size w + i)) fired @ rs) w2"

lemma wh_drain_runs:
  assumes "wh_drain K clk env now rounds i w = Some (rs, w')"
  shows "wd_runs K clk env now rounds i w rs w'"
proof -
  let ?P = "\<lambda>K clk env now rounds i w r. wd_runs K clk env now rounds i w (fst r) (snd r)"
  have "?P K clk env now rounds i w (rs, w')"
  proof (rule wh_drain.raw_induct [where P = ?P, OF _ assms])
    fix f K clk now rounds i and env :: "'a \<Rightarrow> nat \<Rightarrow> 'a timer_cmd list" and w r
    assume IH: "\<And>K clk env now rounds i w r. f K clk env now rounds i w = Some r \<Longrightarrow> ?P K clk env now rounds i w r"
      and body: "(case wb_pop rounds (wh_buckets w ! i) of None \<Rightarrow> Some ([], w)
        | Some ((k, ids), b) \<Rightarrow>
          let (fired, w1) = wh_fire_ids K clk env now ids (w\<lparr>wh_buckets := (wh_buckets w)[i := b]\<rparr>)
          in Option.bind (f K clk env now rounds i w1)
               (\<lambda>(rs, w2). Some (map (Pair (k * wh_size w + i)) fired @ rs, w2))) = Some r"
    show "?P K clk env now rounds i w r"
    proof (cases "wb_pop rounds (wh_buckets w ! i)")
      case None
      with body show ?thesis by (auto intro: wd_stop)
    next
      case (Some p)
      then obtain k ids b where p: "wb_pop rounds (wh_buckets w ! i) = Some ((k, ids), b)"
        by (metis prod.collapse)
      obtain fired w1 where f: "wh_fire_ids K clk env now ids (w\<lparr>wh_buckets := (wh_buckets w)[i := b]\<rparr>) = (fired, w1)"
        by fastforce
      from body p f obtain rs1 w2 where rec: "f K clk env now rounds i w1 = Some (rs1, w2)"
        and r: "r = (map (Pair (k * wh_size w + i)) fired @ rs1, w2)"
        by (auto simp: bind_eq_Some_conv)
      from wd_round [OF p f] IH [OF rec] r show ?thesis by simp
    qed
  qed
  then show ?thesis by simp
qed

lemma wh_has_pop:
  assumes "wb_pop r (wh_buckets w ! i) = Some ((k, ids), b)" and "i < wh_size w"
  shows "wh_has w j k' tid \<longleftrightarrow> (j = i \<and> k' = k \<and> tid \<in> set ids) \<or> wh_has (w\<lparr>wh_buckets := (wh_buckets w)[i := b]\<rparr>) j k' tid"
  using assms(2) wb_pop_Some(2) [OF assms(1), of k' tid]
  by (auto simp: wh_has_def wh_size_def nth_list_update)

lemma wh_sweeping_pop:
  assumes "wb_pop r (wh_buckets w ! i) = Some ((k, ids), b)" and "i < n" and "wh_sweeping T K tick r0 now n w"
  shows "wh_sweeping T K tick r0 now n (w\<lparr>wh_buckets := (wh_buckets w)[i := b]\<rparr>)"
proof -
  have "wb_ok b"
    using assms wb_pop_Some(3) [OF assms(1)] by (auto simp: wh_sweeping_def wh_ok_def wh_size_def)
  with assms(3) show ?thesis
    by (auto simp: wh_sweeping_def wh_ok_def wh_size_def wh_intervals_def dest!: subsetD [OF set_update_subset_insert])
qed

end
