(* ===== verification/Timer_Wheel_Sweep.thy ===== *)
theory Timer_Wheel_Sweep
  imports Timer_Wheel_Facts
begin

text \<open>
  A whole sweep: what a drained bucket and a list of drained buckets leave and run, and which
  buckets \<open>Process\<close> drains.
\<close>

section \<open>One bucket\<close>

lemma wd_runs_grow:
  assumes "wd_runs K clk env now rounds i w rs w'" and "wh_future T K clk env tick r0 now" and "i < n"
  shows "wh_sweeping T K tick r0 now n w \<Longrightarrow> wh_sweeping T K tick r0 now n w'
    \<and> (\<forall>j k tid. wh_has w' j k tid \<longrightarrow> wh_has w j k tid \<or> T \<le> k * n + j)
    \<and> (\<forall>j k tid. j \<noteq> i \<and> wh_has w j k tid \<longrightarrow> wh_has w' j k tid)
    \<and> (\<forall>k tid. wh_has w' i k tid \<longrightarrow> rounds < k)
    \<and> (\<forall>(t, tid) \<in> set rs. \<exists>k \<le> rounds. t = k * n + i)"
  using assms(1)
proof (induction rule: wd_runs.induct)
  case (wd_stop w)
  then have "wb_ok (wh_buckets w ! i)"
    using assms(3) by (auto simp: wh_sweeping_def wh_ok_def wh_size_def)
  with wd_stop show ?case
    using wb_pop_None [of "wh_buckets w ! i"] by (auto simp: wh_has_def)
next
  case (wd_round w k ids b fired w1 rs w2)
  let ?w = "w\<lparr>wh_buckets := (wh_buckets w)[i := b]\<rparr>"
  have size: "wh_size w = n" using wd_round.prems by (simp add: wh_sweeping_def)
  have pop: "wh_has w j k' tid \<longleftrightarrow> (j = i \<and> k' = k \<and> tid \<in> set ids) \<or> wh_has ?w j k' tid" for j k' tid
    using wh_has_pop [OF wd_round.hyps(1)] assms(3) size by simp
  have step: "wh_sweeping T K tick r0 now n w1" "wh_grows T ?w w1"
    using wh_fire_ids_sweeping [OF assms(2) wh_sweeping_pop [OF wd_round.hyps(1) assms(3) wd_round.prems]
        wd_round.hyps(2)] by simp_all
  have "wh_has ?w j k' tid \<or> T \<le> k' * n + j" if "wh_has w1 j k' tid" for j k' tid
    using step(2) that size by (auto simp: wh_grows_def wh_size_def)
  moreover have "wh_has w1 j k' tid" if "wh_has ?w j k' tid" for j k' tid
    using step(2) that by (simp add: wh_grows_def)
  moreover have "k \<le> rounds"
    by (rule wb_pop_Some(1) [OF wd_round.hyps(1)])
  ultimately show ?case
    using wd_round.IH [OF step(1)] pop size by fastforce
qed

lemma wd_runs_fires:
  assumes "wd_runs K clk env now rounds i w rs w'" and "wh_future T K clk env tick r0 now" and "i < n"
    and keep: "\<And>c n. CmdCancel tid \<notin> set (env c n)"
  shows "wh_sweeping T K tick r0 now n w \<Longrightarrow> wh_table w tid \<noteq> None \<Longrightarrow>
    (\<forall>k \<le> rounds. wh_has w i k tid \<longrightarrow> tid \<in> snd ` set rs) \<and> (tid \<in> snd ` set rs \<or> wh_table w' tid \<noteq> None)"
  using assms(1)
proof (induction rule: wd_runs.induct)
  case (wd_stop w)
  then have "wb_ok (wh_buckets w ! i)"
    using assms(3) by (auto simp: wh_sweeping_def wh_ok_def wh_size_def)
  then have "\<not> k \<le> rounds" if "wh_has w i k tid" for k
    using wb_pop_None [OF _ wd_stop.hyps, of k tid] that by (simp add: wh_has_def)
  with wd_stop show ?case by blast
next
  case (wd_round w k ids b fired w1 rs w2)
  let ?w = "w\<lparr>wh_buckets := (wh_buckets w)[i := b]\<rparr>"
  have size: "wh_size w = n" using wd_round.prems(1) by (simp add: wh_sweeping_def)
  have pop: "wh_has w i k' tid \<longleftrightarrow> (k' = k \<and> tid \<in> set ids) \<or> wh_has ?w i k' tid" for k'
    using wh_has_pop [OF wd_round.hyps(1)] assms(3) size by simp
  have step: "wh_sweeping T K tick r0 now n w1" "wh_grows T ?w w1"
    using wh_fire_ids_sweeping [OF assms(2) wh_sweeping_pop [OF wd_round.hyps(1) assms(3) wd_round.prems(1)]
        wd_round.hyps(2)] by simp_all
  have live: "tid \<in> set ids \<longrightarrow> tid \<in> set fired" "tid \<in> set fired \<or> wh_table w1 tid \<noteq> None"
    using wh_fire_ids_live [OF keep _ wd_round.hyps(2)] wd_round.prems(2) by auto
  have mem: "tid \<in> snd ` set (map (Pair (k * wh_size w + i)) fired @ rs) \<longleftrightarrow> tid \<in> set fired \<or> tid \<in> snd ` set rs"
    by force
  have "wh_has w1 i k' tid" if "wh_has ?w i k' tid" for k'
    using step(2) that by (simp add: wh_grows_def)
  then show ?case
    unfolding mem using wd_round.IH [OF step(1)] live pop by blast
qed

section \<open>A list of buckets\<close>

lemma wh_sweep_append:
  "wh_sweep K clk env now rounds (xs @ ys) w =
    Option.bind (wh_sweep K clk env now rounds xs w) (\<lambda>(rs, w1).
      Option.bind (wh_sweep K clk env now rounds ys w1) (\<lambda>(rs', w2). Some (rs @ rs', w2)))"
proof (induction xs arbitrary: w)
  case Nil
  show ?case by (cases "wh_sweep K clk env now rounds ys w") auto
next
  case (Cons x xs)
  show ?case
  proof (cases "wh_drain K clk env now rounds x w")
    case (Some r)
    obtain rs w1 where r: "r = (rs, w1)" by fastforce
    show ?thesis
    proof (cases "wh_sweep K clk env now rounds xs w1")
      case (Some r')
      then show ?thesis
        using \<open>wh_drain K clk env now rounds x w = Some r\<close> r Cons.IH [of w1]
        by (cases r'; cases "wh_sweep K clk env now rounds ys (snd r')") auto
    qed (use Some r Cons.IH [of w1] in simp)
  qed simp
qed

lemma wh_sweep_grow:
  assumes "wh_future T K clk env tick r0 now"
  shows "wh_sweep K clk env now rounds is w = Some (rs, w') \<Longrightarrow> set is \<subseteq> {0..<n} \<Longrightarrow>
    wh_sweeping T K tick r0 now n w \<Longrightarrow> wh_sweeping T K tick r0 now n w'
    \<and> (\<forall>j k tid. wh_has w' j k tid \<longrightarrow> wh_has w j k tid \<and> (j \<in> set is \<longrightarrow> rounds < k) \<or> T \<le> k * n + j)
    \<and> (\<forall>(t, tid) \<in> set rs. \<exists>i \<in> set is. \<exists>k \<le> rounds. t = k * n + i)"
proof (induction "is" arbitrary: w rs w')
  case (Cons i "is")
  from Cons.prems(1) obtain rs1 w1 rs2 where d: "wh_drain K clk env now rounds i w = Some (rs1, w1)"
    and s: "wh_sweep K clk env now rounds is w1 = Some (rs2, w')" and rs: "rs = rs1 @ rs2"
    by (auto simp: bind_eq_Some_conv)
  have "i < n" "set is \<subseteq> {0..<n}" using Cons.prems(2) by auto
  note drained = wd_runs_grow [OF wh_drain_runs [OF d] assms \<open>i < n\<close> Cons.prems(3)]
  note swept = Cons.IH [OF s \<open>set is \<subseteq> {0..<n}\<close> drained [THEN conjunct1]]
  have has: "wh_has w j k tid \<and> (j \<in> set (i # is) \<longrightarrow> rounds < k) \<or> T \<le> k * n + j" if "wh_has w' j k tid" for j k tid
  proof (cases "T \<le> k * n + j")
    case False
    with swept that have *: "wh_has w1 j k tid" "j \<in> set is \<longrightarrow> rounds < k" by blast+
    with False drained have "wh_has w j k tid" by blast
    moreover have "j = i \<longrightarrow> rounds < k" using drained * by blast
    ultimately show ?thesis using * by simp
  qed simp
  have "\<forall>(t, tid) \<in> set rs. \<exists>j \<in> set (i # is). \<exists>k \<le> rounds. t = k * n + j"
    using drained swept rs by fastforce
  with has swept show ?case by blast
qed auto

lemma wh_sweep_fires:
  assumes "wh_future T K clk env tick r0 now" and keep: "\<And>c n. CmdCancel tid \<notin> set (env c n)"
  shows "wh_sweep K clk env now rounds is w = Some (rs, w') \<Longrightarrow> set is \<subseteq> {0..<n} \<Longrightarrow>
    wh_sweeping T K tick r0 now n w \<Longrightarrow> wh_table w tid \<noteq> None \<Longrightarrow>
    (\<forall>i \<in> set is. \<forall>k \<le> rounds. wh_has w i k tid \<longrightarrow> tid \<in> snd ` set rs)
    \<and> (tid \<in> snd ` set rs \<or> wh_table w' tid \<noteq> None)"
proof (induction "is" arbitrary: w rs w')
  case (Cons i "is")
  from Cons.prems(1) obtain rs1 w1 rs2 where d: "wh_drain K clk env now rounds i w = Some (rs1, w1)"
    and s: "wh_sweep K clk env now rounds is w1 = Some (rs2, w')" and rs: "rs = rs1 @ rs2"
    by (auto simp: bind_eq_Some_conv)
  have "i < n" and sub: "set is \<subseteq> {0..<n}" using Cons.prems(2) by auto
  note drained = wd_runs_grow [OF wh_drain_runs [OF d] assms(1) \<open>i < n\<close> Cons.prems(3)]
  note fires = wd_runs_fires [OF wh_drain_runs [OF d] assms(1) \<open>i < n\<close> keep Cons.prems(3,4)]
  have mem: "tid \<in> snd ` set rs \<longleftrightarrow> tid \<in> snd ` set rs1 \<or> tid \<in> snd ` set rs2"
    using rs by auto
  show ?case
  proof (cases "tid \<in> snd ` set rs1")
    case True
    with mem show ?thesis by blast
  next
    case False
    with fires have live: "wh_table w1 tid \<noteq> None" by blast
    note IH = Cons.IH [OF s sub drained [THEN conjunct1] live]
    have "tid \<in> snd ` set rs" if "j \<in> set (i # is)" "k \<le> rounds" "wh_has w j k tid" for j k
    proof (cases "j = i")
      case True
      with fires that False show ?thesis by blast
    next
      case False
      with drained that have "wh_has w1 j k tid" by blast
      with IH that False mem show ?thesis by auto
    qed
    with IH mem show ?thesis by blast
  qed
qed auto

section \<open>The buckets that Process drains\<close>

definition wh_swept :: "nat \<Rightarrow> nat \<Rightarrow> nat \<Rightarrow> nat list" where
  "wh_swept t1 t2 n =
     (if to_u64 (int t2 - int t1) < n then
        if t1 mod n \<le> t2 mod n then [t1 mod n..<Suc (t2 mod n)] else [t1 mod n..<n] @ [0..<Suc (t2 mod n)]
      else [0..<n])"

lemma wh_swept_range: "0 < n \<Longrightarrow> set (wh_swept t1 t2 n) \<subseteq> {0..<n}"
  using mod_less_divisor [of n t2] by (auto simp: wh_swept_def)

lemma to_u64_diff: "t1 \<le> t2 \<Longrightarrow> t2 < 2 ^ 64 \<Longrightarrow> to_u64 (int t2 - int t1) = t2 - t1"
  by (simp add: to_u64_def nat_diff_distrib' flip: of_nat_diff)

text \<open>Every tick between the last \<open>Process\<close> and this one has its bucket drained.\<close>

lemma wh_swept_covers:
  assumes n: "0 < (n::nat)" and t: "t1 \<le> t" "t \<le> t2" and "t2 < 2 ^ 64"
  shows "t mod n \<in> set (wh_swept t1 t2 n)"
proof (cases "t2 - t1 < n")
  case True
  have q: "t1 div n \<le> t div n" "t div n \<le> t2 div n"
    using t by (simp_all add: div_le_mono)
  have eqs: "t1 = t1 div n * n + t1 mod n" "t = t div n * n + t mod n" "t2 = t2 div n * n + t2 mod n"
    by simp_all
  have "t2 div n \<le> Suc (t1 div n)"
  proof (rule ccontr)
    assume "\<not> ?thesis"
    then have "(t1 div n + 2) * n \<le> t2 div n * n" by (intro mult_le_mono1) simp
    moreover have "(t1 div n + 2) * n = t1 div n * n + n + n"
      by (simp add: algebra_simps)
    ultimately show False
      using eqs(1,3) True mod_less_divisor [OF n, of t1] by linarith
  qed
  have wrap: "t2 mod n < t1 mod n" if "t2 div n = Suc (t1 div n)"
  proof -
    have "t2 = t1 div n * n + n + t2 mod n"
      using eqs(3) that by simp
    then show ?thesis
      using eqs(1) True by linarith
  qed
  from \<open>t2 div n \<le> Suc (t1 div n)\<close> consider (same) "t2 div n = t1 div n" "t div n = t1 div n"
    | (first) "t2 div n = Suc (t1 div n)" "t div n = t1 div n" | (second) "t2 div n = Suc (t1 div n)" "t div n = Suc (t1 div n)"
    using q by linarith
  then have "(if t1 mod n \<le> t2 mod n then t1 mod n \<le> t mod n \<and> t mod n \<le> t2 mod n
      else t1 mod n \<le> t mod n \<or> t mod n \<le> t2 mod n)"
  proof cases
    case same
    with eqs t show ?thesis by (metis add_le_cancel_left)
  next
    case first
    then have "t2 mod n < t1 mod n" using wrap by simp
    moreover have "t1 mod n \<le> t mod n" using first(2) eqs t(1) by (metis add_le_cancel_left)
    ultimately show ?thesis by simp
  next
    case second
    then have "t2 mod n < t1 mod n" using wrap by simp
    moreover have "t mod n \<le> t2 mod n" using second eqs t(2) by (metis add_le_cancel_left)
    ultimately show ?thesis by simp
  qed
  moreover have "to_u64 (int t2 - int t1) = t2 - t1"
    using t assms(4) by (simp add: to_u64_diff)
  ultimately show ?thesis
    using True n by (auto simp: wh_swept_def split: if_splits)
next
  case False
  have "to_u64 (int t2 - int t1) = t2 - t1"
    using t assms(4) by (simp add: to_u64_diff)
  with False n show ?thesis by (simp add: wh_swept_def)
qed

text \<open>\<open>Process\<close> as one sweep.\<close>

lemma wh_sweep_const:
  "wh_ok w \<Longrightarrow> (\<forall>tid e. wh_table w tid = Some e \<longrightarrow> we_id e = tid) \<Longrightarrow> set is \<subseteq> {0..<wh_size w} \<Longrightarrow>
    wh_sweep K clk env now rounds is w = Some (rs, w') \<Longrightarrow> wh_tick w' = wh_tick w \<and> wh_size w' = wh_size w"
  using wh_sweep_grow [of 0 K clk env "wh_tick w" "wh_reads w" now rounds "is" w rs w' "wh_size w"]
  by (simp add: wh_future_def wh_sweeping_def wh_intervals_def)

lemma wh_process_eq:
  assumes "wh_ok w" and "\<forall>tid e. wh_table w tid = Some e \<longrightarrow> we_id e = tid"
  shows "wh_process K clk env w =
    (let now = clk (wh_reads w); n = wh_size w; t1 = wh_get_ticks (wh_tick w) (wh_last w);
         t2 = wh_get_ticks (wh_tick w) now
     in Option.bind (wh_sweep K clk env now (t2 div n) (wh_swept t1 t2 n) (w\<lparr>wh_reads := Suc (wh_reads w)\<rparr>))
          (\<lambda>(rs, w2). Some (rs, wh_wakeup (ts_plus K now (wh_tick w2)) (w2\<lparr>wh_last := now\<rparr>))))"
proof -
  let ?w = "w\<lparr>wh_reads := Suc (wh_reads w)\<rparr>"
  let ?now = "clk (wh_reads w)" and ?n = "wh_size w"
  let ?t2 = "wh_get_ticks (wh_tick w) ?now"
  have n: "0 < ?n" "Suc (?n - Suc 0) = ?n" using assms(1) by (simp_all add: wh_ok_def)
  have const: "wh_tick w2 = wh_tick w \<and> wh_size w2 = ?n"
    if "wh_sweep K clk env ?now (?t2 div ?n) [b..<?n] ?w = Some (rs, w2)" for b rs w2
    using wh_sweep_const [of ?w "[b..<?n]" K clk env ?now "?t2 div ?n" rs w2] assms that by (simp add: subset_iff)
  have buckets: "wh_process_buckets K clk env ?now s t v =
      wh_sweep K clk env ?now (wh_get_ticks (wh_tick v) ?now div wh_size v) [s..<Suc t] v" for s t v
    by (simp add: wh_process_buckets_def wh_get_rounds_eq Let_def)
  have two: "Option.bind (wh_sweep K clk env ?now (?t2 div ?n) [b..<?n] ?w) (\<lambda>(rs, w2).
        Option.bind (wh_process_buckets K clk env ?now 0 b2 w2) (\<lambda>(rs', w3). Some (rs @ rs', w3)))
      = wh_sweep K clk env ?now (?t2 div ?n) ([b..<?n] @ [0..<Suc b2]) ?w" for b b2
    unfolding wh_sweep_append
    by (cases "wh_sweep K clk env ?now (?t2 div ?n) [b..<?n] ?w") (auto simp: buckets simp del: upt_Suc dest!: const)
  show ?thesis
    using n by (simp add: wh_process_def wh_now_def wh_swept_def buckets [of _ _ ?w] two Let_def
        del: upt_Suc Option.bind_assoc)
qed

end
