(* ===== verification/Timer_Wheel_Properties.thy ===== *)
theory Timer_Wheel_Properties
  imports Timer_Wheel_Sweep
begin

text \<open>
  What the wheel promises: no timer is missed, none fires a whole tick early as long as a sweep
  does not wrap around, and such a sweep ends.  And what it does when a sweep wraps around, or
  when a periodic timer is put back into a bucket that is being drained.
\<close>

section \<open>The invariant of a wheel\<close>

text \<open>
  Every timer in the wheel expires in the tick of the last \<open>Process\<close> or later.  Times are
  between 0 and 2^61 microseconds, so that sums do not leave the 64-bit range.
\<close>

definition wh_inv :: "'c wheel \<Rightarrow> bool" where
  "wh_inv w \<longleftrightarrow> wh_ok w \<and> 0 \<le> wh_last w
   \<and> (\<forall>tid e. wh_table w tid = Some e \<longrightarrow> we_id e = tid)
   \<and> (\<forall>i k tid. wh_has w i k tid \<longrightarrow> wh_get_ticks (wh_tick w) (wh_last w) \<le> k * wh_size w + i)"

definition wh_times :: "usec \<Rightarrow> (nat \<Rightarrow> usec) \<Rightarrow> ('c \<Rightarrow> nat \<Rightarrow> 'c timer_cmd list) \<Rightarrow> 'c wheel \<Rightarrow> bool" where
  "wh_times lo clk env w \<longleftrightarrow>
     wh_last w \<le> clk (wh_reads w)
   \<and> (\<forall>m \<ge> wh_reads w. clk (wh_reads w) \<le> clk m \<and> clk m \<le> 2 ^ 61)
   \<and> (\<forall>c n d i c'. CmdAdd d i c' \<in> set (env c n) \<longrightarrow> lo \<le> d \<and> d \<le> 2 ^ 61 \<and> (0 < i \<longrightarrow> lo \<le> i) \<and> i \<le> 2 ^ 61)
   \<and> (\<forall>tid e. wh_table w tid = Some e \<longrightarrow> (0 < we_interval e \<longrightarrow> lo \<le> we_interval e) \<and> we_interval e \<le> 2 ^ 61)"

lemma wh_times_sweeping:
  assumes "chrono_ok K" and "wh_inv w" and "wh_times lo clk env w" and "0 \<le> lo"
    and T: "\<And>b. clk (wh_reads w) + lo \<le> b \<Longrightarrow> b < 2 ^ 63 \<Longrightarrow> T \<le> wh_get_ticks (wh_tick w) b"
  shows "wh_future T K clk env (wh_tick w) (Suc (wh_reads w)) (clk (wh_reads w))"
    and "wh_sweeping T K (wh_tick w) (Suc (wh_reads w)) (clk (wh_reads w)) (wh_size w) (w\<lparr>wh_reads := Suc (wh_reads w)\<rparr>)"
proof -
  let ?now = "clk (wh_reads w)"
  have later: "T \<le> wh_get_ticks (wh_tick w) (t + d)" if "?now \<le> t" "t \<le> 2 ^ 61" "lo \<le> d" "d \<le> 2 ^ 61" for t d
    using that by (intro T) auto
  have now: "?now \<le> clk m \<and> clk m \<le> 2 ^ 61" if "wh_reads w \<le> m" for m
    using assms(3) that by (simp add: wh_times_def)
  show "wh_sweeping T K (wh_tick w) (Suc (wh_reads w)) ?now (wh_size w) (w\<lparr>wh_reads := Suc (wh_reads w)\<rparr>)"
    using assms(1-3) later [of ?now] now [of "wh_reads w"]
    by (auto simp: wh_sweeping_def wh_inv_def wh_times_def wh_intervals_def)
  have env: "lo \<le> d \<and> d \<le> 2 ^ 61 \<and> (0 < i \<longrightarrow> lo \<le> i) \<and> i \<le> 2 ^ 61" if "CmdAdd d i c' \<in> set (env c n)" for d i c' c n
    using assms(3) that unfolding wh_times_def by blast
  show "wh_future T K clk env (wh_tick w) (Suc (wh_reads w)) ?now"
    unfolding wh_future_def using assms(1) later env now by (metis Suc_leD chrono_okD(1) order_refl)
qed

lemma wh_process_sweep:
  assumes "wh_inv w" and "wh_process K clk env w = Some (rs, w')"
  obtains w2 where "wh_sweep K clk env (clk (wh_reads w)) (wh_get_ticks (wh_tick w) (clk (wh_reads w)) div wh_size w)
      (wh_swept (wh_get_ticks (wh_tick w) (wh_last w)) (wh_get_ticks (wh_tick w) (clk (wh_reads w))) (wh_size w))
      (w\<lparr>wh_reads := Suc (wh_reads w)\<rparr>) = Some (rs, w2)"
    and "w' = wh_wakeup (ts_plus K (clk (wh_reads w)) (wh_tick w2)) (w2\<lparr>wh_last := clk (wh_reads w)\<rparr>)"
  using assms wh_process_eq [of w K clk env] by (auto simp: wh_inv_def Let_def bind_eq_Some_conv)

lemma wh_ticks_now:
  assumes "wh_inv w" and "wh_times lo clk env w" and "clk (wh_reads w) \<le> b" and "b < 2 ^ 63"
  shows "wh_get_ticks (wh_tick w) (clk (wh_reads w)) \<le> wh_get_ticks (wh_tick w) b"
  using assms by (intro wh_ticks_mono) (auto simp: wh_inv_def wh_times_def wh_ok_def)

lemma wh_last_now:
  assumes "wh_inv w" and "wh_times lo clk env w"
  shows "wh_get_ticks (wh_tick w) (wh_last w) \<le> wh_get_ticks (wh_tick w) (clk (wh_reads w))"
proof -
  have "clk (wh_reads w) \<le> 2 ^ 61"
    using assms(2) unfolding wh_times_def by blast
  then show ?thesis
    using assms by (intro wh_ticks_mono) (auto simp: wh_inv_def wh_times_def wh_ok_def)
qed

lemma wh_ticks_bound: "wh_get_ticks tick ts < 2 ^ 64"
  unfolding wh_get_ticks_def by (rule to_u64_bound)

section \<open>A wheel for the witnesses\<close>

text \<open>
  A wheel of four buckets of 100 microseconds, created at time \<open>a\<close> with one timer added at that
  time; the sweep starts at time \<open>b\<close>, and no callback makes a call.
\<close>

definition two_times :: "usec \<Rightarrow> usec \<Rightarrow> nat \<Rightarrow> usec" where
  "two_times a b m = (if m < 2 then a else b)"

definition no_calls :: "nat \<Rightarrow> nat \<Rightarrow> nat timer_cmd list" where
  "no_calls c n = []"

definition small_wheel :: "usec \<Rightarrow> usec \<Rightarrow> usec \<Rightarrow> nat wheel" where
  "small_wheel a delay interval = snd (wh_add usec_chrono (\<lambda>_. a) delay interval 7 (wh_create (\<lambda>_. a) 100 4))"

lemma wh_has_single: "wh_has w i k tid \<Longrightarrow> wh_buckets w = b \<Longrightarrow> i < length b \<and> wb_has (b ! i) k tid"
  by (simp add: wh_has_def wh_size_def)

lemma four_buckets:
  "replicate 4 x = [x, x, x, x]" "[a, b, c, d][2 := x] = [a, b, x, d]" "[a, b, c, d][3 := x] = [a, b, c, x]"
  by (simp_all add: numeral_eq_Suc)

lemmas small_wheel_defs = small_wheel_def wh_create_def wh_add_def wh_now_def wh_wakeup_def wh_bucket_add_def
  wh_size_def wh_get_ticks_def wh_get_rounds_def usec_chrono_def to_u64_def signed_divide_int_def four_buckets Let_def

lemma small_wheel_250:
  "small_wheel 0 250 0 = \<lparr>wh_tick = 100, wh_last = 0, wh_counter = 1, wh_buckets = [[], [], [(0, [1])], []],
    wh_table = [1 \<mapsto> \<lparr>we_rounds = 0, we_id = 1, we_interval = 0, we_callback = 7\<rparr>], wh_reads = 2, wh_wakes = [0, 200]\<rparr>"
  by (simp add: small_wheel_defs)

lemma small_wheel_700:
  "small_wheel 300 400 0 = \<lparr>wh_tick = 100, wh_last = 300, wh_counter = 1, wh_buckets = [[], [], [], [(1, [1])]],
    wh_table = [1 \<mapsto> \<lparr>we_rounds = 1, we_id = 1, we_interval = 0, we_callback = 7\<rparr>], wh_reads = 2, wh_wakes = [300, 700]\<rparr>"
  by (simp add: small_wheel_defs)

lemma small_wheel_periodic:
  "small_wheel 0 0 50 = \<lparr>wh_tick = 100, wh_last = 0, wh_counter = 1, wh_buckets = [[(0, [1])], [], [], []],
    wh_table = [1 \<mapsto> \<lparr>we_rounds = 0, we_id = 1, we_interval = 50, we_callback = 7\<rparr>], wh_reads = 2, wh_wakes = [0, 0]\<rparr>"
  by (simp add: small_wheel_defs)

lemma small_wheel_ok: "wh_inv (small_wheel 0 250 0)" "wh_inv (small_wheel 300 400 0)" "wh_inv (small_wheel 0 0 50)"
  by (auto simp: small_wheel_250 small_wheel_700 small_wheel_periodic wh_inv_def wh_ok_def wh_size_def wb_ok_def
      wb_has_def wh_has_def wh_get_ticks_def to_u64_def signed_divide_int_def nth_Cons' split: if_splits)

lemma small_wheel_times: "a \<le> b \<Longrightarrow> b \<le> 2 ^ 61 \<Longrightarrow> wh_last w = a \<Longrightarrow> wh_reads w = 2 \<Longrightarrow>
    (\<forall>tid e. wh_table w tid = Some e \<longrightarrow> we_interval e = 0) \<Longrightarrow> wh_times lo (two_times a b) no_calls w"
  by (simp add: wh_times_def two_times_def no_calls_def)

lemma small_wheel_process_250:
  "\<exists>w'. wh_process usec_chrono (two_times 0 300) no_calls (small_wheel 0 250 0) = Some ([(2, 1)], w')"
  by (simp add: small_wheel_250 wh_process_def wh_now_def two_times_def wh_get_ticks_def wh_get_rounds_def to_u64_def
      signed_divide_int_def wh_size_def wh_process_buckets_def upt_rec wh_drain.simps wh_fire_def wh_cancel_def
      no_calls_def four_buckets Let_def)

lemma small_wheel_process_700:
  "\<exists>w'. wh_process usec_chrono (two_times 300 400) no_calls (small_wheel 300 400 0) = Some ([(7, 1)], w')"
  by (simp add: small_wheel_700 wh_process_def wh_now_def two_times_def wh_get_ticks_def wh_get_rounds_def to_u64_def
      signed_divide_int_def wh_size_def wh_process_buckets_def upt_rec wh_drain.simps wh_fire_def wh_cancel_def
      no_calls_def four_buckets Let_def)

text \<open>
  C38. TimerHashWheel::Process misses no timer, when nothing but the callbacks it runs touches the
  wheel between its steps (Add and Cancel of other threads fall within a callback; with an Add that
  computes its bucket before the sweep and stores after it, a timer is missed, see
  wheel\_add\_overtaken in theory Timer\_Wheel\_Races).  Assumed are a wheel in order, which holds no
  timer of a tick before its last Process and which the theorem gives back (wh\_inv), and a clock
  that does not go back, with delays and intervals that are not negative, all within 2^61
  microseconds (wh\_times).  When Process returns, every timer in the wheel expires in the tick of its
  start or later, and each live timer of a tick up to that one, unless a callback cancelled it, has
  run.
\<close>

theorem wheel_misses_none:
  assumes "chrono_ok K" and "wh_inv w" and "wh_times 0 clk env w" and "wh_process K clk env w = Some (rs, w')"
  shows "wh_inv w' \<and> wh_last w' = clk (wh_reads w)
    \<and> (\<forall>i k tid. wh_has w i k tid \<and> k * wh_size w + i \<le> wh_get_ticks (wh_tick w) (clk (wh_reads w))
        \<and> wh_table w tid \<noteq> None \<and> (\<forall>c n. CmdCancel tid \<notin> set (env c n)) \<longrightarrow> tid \<in> snd ` set rs)"
proof -
  let ?now = "clk (wh_reads w)" and ?n = "wh_size w" and ?w = "w\<lparr>wh_reads := Suc (wh_reads w)\<rparr>"
  let ?t1 = "wh_get_ticks (wh_tick w) (wh_last w)" and ?t2 = "wh_get_ticks (wh_tick w) ?now"
  obtain w2 where sweep: "wh_sweep K clk env ?now (?t2 div ?n) (wh_swept ?t1 ?t2 ?n) ?w = Some (rs, w2)"
    and w': "w' = wh_wakeup (ts_plus K ?now (wh_tick w2)) (w2\<lparr>wh_last := ?now\<rparr>)"
    using wh_process_sweep [OF assms(2,4)] .
  have n: "0 < ?n" using assms(2) by (simp add: wh_inv_def wh_ok_def)
  note range = wh_swept_range [OF n, of ?t1 ?t2]
  have "?t2 \<le> wh_get_ticks (wh_tick w) b" if "?now + 0 \<le> b" "b < 2 ^ 63" for b
    using wh_ticks_now [OF assms(2,3)] that by simp
  note sw = wh_times_sweeping [OF assms(1-3) order_refl this]
  note grow = wh_sweep_grow [OF sw(1) sweep range sw(2)]
  have covers: "i \<in> set (wh_swept ?t1 ?t2 ?n) \<and> k \<le> ?t2 div ?n"
    if "wh_has w i k tid" "k * ?n + i \<le> ?t2" for i k tid
  proof -
    have "i < ?n" "?t1 \<le> k * ?n + i"
      using that(1) assms(2) unfolding wh_inv_def by (simp add: wh_has_def, blast)
    then show ?thesis
      using wh_swept_covers [OF n, of ?t1 "k * ?n + i" ?t2] that(2) wh_ticks_bound [of "wh_tick w" ?now]
        div_le_mono [OF that(2), of ?n] by simp
  qed
  have left: "?t2 \<le> k * ?n + i" if "wh_has w2 i k tid" for i k tid
  proof (rule ccontr)
    assume "\<not> ?thesis"
    then have "wh_has w i k tid" "i \<in> set (wh_swept ?t1 ?t2 ?n) \<longrightarrow> ?t2 div ?n < k"
      using grow that by auto
    with covers \<open>\<not> ?thesis\<close> show False by fastforce
  qed
  have "wh_inv w'"
    using grow left w' sw(2) assms(2,3) by (auto simp: wh_inv_def wh_sweeping_def wh_wakeup_def wh_times_def)
  moreover have "tid \<in> snd ` set rs"
    if "wh_has w i k tid" "k * ?n + i \<le> ?t2" "wh_table w tid \<noteq> None" "\<forall>c n. CmdCancel tid \<notin> set (env c n)" for i k tid
    using wh_sweep_fires [OF sw(1) _ sweep range sw(2), of tid] that covers [OF that(1,2)] by auto
  ultimately show ?thesis
    using w' by (auto simp: wh_wakeup_def)
qed

theorem wheel_misses_none_witness:
  "\<exists>rs w'. wh_process usec_chrono (two_times 0 300) no_calls (small_wheel 0 250 0) = Some (rs, w')
    \<and> wh_inv w' \<and> 1 \<in> snd ` set rs"
proof -
  let ?w = "small_wheel 0 250 0"
  obtain w' where run: "wh_process usec_chrono (two_times 0 300) no_calls ?w = Some ([(2, 1)], w')"
    using small_wheel_process_250 by blast
  have times: "wh_times 0 (two_times 0 300) no_calls ?w"
    by (rule small_wheel_times) (auto simp: small_wheel_250)
  have "wh_inv w' \<and> 1 \<in> snd ` set [(2 :: nat, 1 :: nat)]"
    using wheel_misses_none [OF usec_chrono_ok small_wheel_ok(1) times run] by simp
  with run show ?thesis by blast
qed



text \<open>
  A sweep that wraps around the wheel runs timers early: when the tick of the start is in
  the next revolution but less than a revolution after the last one, a live timer of the new
  revolution that lies in a bucket from the last tick's on, up to a whole revolution away, runs
  at once.
\<close>

theorem wheel_early_on_wrap:
  assumes "chrono_ok K" and "wh_inv w" and "wh_times 0 clk env w" and "wh_process K clk env w = Some (rs, w')"
    and "wh_get_ticks (wh_tick w) (clk (wh_reads w)) - wh_get_ticks (wh_tick w) (wh_last w) < wh_size w"
    and "wh_get_ticks (wh_tick w) (clk (wh_reads w)) mod wh_size w < wh_get_ticks (wh_tick w) (wh_last w) mod wh_size w"
    and "wh_get_ticks (wh_tick w) (wh_last w) mod wh_size w \<le> i"
    and "wh_has w i (wh_get_ticks (wh_tick w) (clk (wh_reads w)) div wh_size w) tid"
    and "wh_table w tid \<noteq> None" and "\<And>c n. CmdCancel tid \<notin> set (env c n)"
  shows "tid \<in> snd ` set rs \<and> wh_get_ticks (wh_tick w) (clk (wh_reads w))
    < wh_get_ticks (wh_tick w) (clk (wh_reads w)) div wh_size w * wh_size w + i"
proof -
  let ?now = "clk (wh_reads w)" and ?n = "wh_size w" and ?w = "w\<lparr>wh_reads := Suc (wh_reads w)\<rparr>"
  let ?t1 = "wh_get_ticks (wh_tick w) (wh_last w)" and ?t2 = "wh_get_ticks (wh_tick w) ?now"
  obtain w2 where sweep: "wh_sweep K clk env ?now (?t2 div ?n) (wh_swept ?t1 ?t2 ?n) ?w = Some (rs, w2)"
    using wh_process_sweep [OF assms(2,4)] .
  have n: "0 < ?n" using assms(2) by (simp add: wh_inv_def wh_ok_def)
  have "?t2 \<le> wh_get_ticks (wh_tick w) b" if "?now + 0 \<le> b" "b < 2 ^ 63" for b
    using wh_ticks_now [OF assms(2,3)] that by simp
  note sw = wh_times_sweeping [OF assms(1-3) order_refl this]
  have "to_u64 (int ?t2 - int ?t1) = ?t2 - ?t1"
    using wh_last_now [OF assms(2,3)] wh_ticks_bound by (rule to_u64_diff)
  then have "i \<in> set (wh_swept ?t1 ?t2 ?n)"
    using assms(5-8) by (auto simp: wh_swept_def wh_has_def)
  then have "tid \<in> snd ` set rs"
    using wh_sweep_fires [OF sw(1) assms(10) sweep wh_swept_range [OF n] sw(2)] assms(8,9) by auto
  moreover have "?t2 < ?t2 div ?n * ?n + i"
    using assms(6,7) div_mult_mod_eq [of ?t2 ?n] by linarith
  ultimately show ?thesis by simp
qed

text \<open>A timer of time 700 runs in the sweep that starts at time 400.\<close>

theorem wheel_early_on_wrap_witness:
  "\<exists>rs w'. wh_process usec_chrono (two_times 300 400) no_calls (small_wheel 300 400 0) = Some (rs, w')
    \<and> 1 \<in> snd ` set rs"
proof -
  let ?w = "small_wheel 300 400 0"
  obtain w' where run: "wh_process usec_chrono (two_times 300 400) no_calls ?w = Some ([(7, 1)], w')"
    using small_wheel_process_700 by blast
  have times: "wh_times 0 (two_times 300 400) no_calls ?w"
    by (rule small_wheel_times) (auto simp: small_wheel_700)
  have "1 \<in> snd ` set [(7 :: nat, 1 :: nat)] \<and>
      wh_get_ticks (wh_tick ?w) (two_times 300 400 (wh_reads ?w))
        < wh_get_ticks (wh_tick ?w) (two_times 300 400 (wh_reads ?w)) div wh_size ?w * wh_size ?w + 3"
    by (rule wheel_early_on_wrap [OF usec_chrono_ok small_wheel_ok(2) times run])
      (simp_all add: small_wheel_700 two_times_def wh_get_ticks_def to_u64_def signed_divide_int_def wh_size_def
        wh_has_def wb_has_def no_calls_def)
  with run show ?thesis by blast
qed

section \<open>Sweeps that end\<close>

lemma wh_low_pop:
  assumes "wb_pop r (wh_buckets w ! i) = Some ((k, ids), b)" and "i < wh_size w"
  shows "length (wh_low r i (w\<lparr>wh_buckets := (wh_buckets w)[i := b]\<rparr>)) < length (wh_low r i w)"
  using assms by (cases "wh_buckets w ! i") (auto simp: wh_low_def wh_size_def split: if_splits)

lemma wh_drain_returns:
  assumes "wh_future T K clk env tick r0 now" and "i < n" and "rounds * n + i < T"
  shows "wh_sweeping T K tick r0 now n w \<Longrightarrow> wh_drain K clk env now rounds i w \<noteq> None"
proof (induction "length (wh_low rounds i w)" arbitrary: w rule: less_induct)
  case less
  have size: "wh_size w = n" using less.prems by (simp add: wh_sweeping_def)
  show ?case
  proof (cases "wb_pop rounds (wh_buckets w ! i)")
    case None
    then show ?thesis by (subst wh_drain.simps) simp
  next
    case (Some p)
    then obtain k ids b where p: "wb_pop rounds (wh_buckets w ! i) = Some ((k, ids), b)"
      by (metis prod.collapse)
    let ?w = "w\<lparr>wh_buckets := (wh_buckets w)[i := b]\<rparr>"
    obtain fired w1 where f: "wh_fire_ids K clk env now ids ?w = (fired, w1)"
      by fastforce
    have step: "wh_sweeping T K tick r0 now n w1" "wh_grows T ?w w1"
      using wh_fire_ids_sweeping [OF assms(1) wh_sweeping_pop [OF p assms(2) less.prems] f] by simp_all
    have "wh_low rounds i w1 = wh_low rounds i ?w"
      using step(2) assms(2,3) size by (simp add: wh_grows_def wh_size_def)
    then have "length (wh_low rounds i w1) < length (wh_low rounds i w)"
      using wh_low_pop [OF p] assms(2) size by simp
    then have "wh_drain K clk env now rounds i w1 \<noteq> None"
      using less.hyps step(1) by blast
    with p f show ?thesis by (subst wh_drain.simps) auto
  qed
qed

lemma wh_sweep_returns:
  assumes "wh_future T K clk env tick r0 now" and "\<And>i. i \<in> set is \<Longrightarrow> i < n \<and> rounds * n + i < T"
  shows "wh_sweeping T K tick r0 now n w \<Longrightarrow> wh_sweep K clk env now rounds is w \<noteq> None"
  using assms(2)
proof (induction "is" arbitrary: w)
  case (Cons i "is")
  then have i: "i < n" "rounds * n + i < T" by auto
  obtain rs w1 where d: "wh_drain K clk env now rounds i w = Some (rs, w1)"
    using wh_drain_returns [OF assms(1) i Cons.prems(1)] by auto
  have "wh_sweeping T K tick r0 now n w1"
    using wd_runs_grow [OF wh_drain_runs [OF d] assms(1) i(1) Cons.prems(1)] by simp
  then have "wh_sweep K clk env now rounds is w1 \<noteq> None"
    using Cons.IH Cons.prems(2) by simp
  with d show ?case by auto
qed simp

text \<open>
  A sweep of TimerHashWheel that does not wrap around returns when all delays and all
  periods are at least one tick.
\<close>

theorem wheel_returns:
  assumes "chrono_ok K" and "wh_inv w" and "wh_times (wh_tick w) clk env w"
    and "wh_get_ticks (wh_tick w) (clk (wh_reads w)) - wh_get_ticks (wh_tick w) (wh_last w) < wh_size w"
    and "wh_get_ticks (wh_tick w) (wh_last w) mod wh_size w \<le> wh_get_ticks (wh_tick w) (clk (wh_reads w)) mod wh_size w"
  shows "wh_process K clk env w \<noteq> None"
proof -
  let ?now = "clk (wh_reads w)" and ?n = "wh_size w" and ?w = "w\<lparr>wh_reads := Suc (wh_reads w)\<rparr>"
  let ?t1 = "wh_get_ticks (wh_tick w) (wh_last w)" and ?t2 = "wh_get_ticks (wh_tick w) ?now"
  have n: "0 < ?n" and tick: "0 < wh_tick w" "0 \<le> ?now"
    using assms(2,3) by (auto simp: wh_inv_def wh_ok_def wh_times_def)
  have next_tick: "Suc ?t2 \<le> wh_get_ticks (wh_tick w) b" if "?now + wh_tick w \<le> b" "b < 2 ^ 63" for b
    using wh_ticks_next [OF tick(2) that tick(1)] .
  have fut: "wh_future (Suc ?t2) K clk env (wh_tick w) (Suc (wh_reads w)) ?now"
    and sw: "wh_sweeping (Suc ?t2) K (wh_tick w) (Suc (wh_reads w)) ?now ?n ?w"
    using tick(1) by (auto intro!: wh_times_sweeping [OF assms(1-3)] next_tick)
  have "to_u64 (int ?t2 - int ?t1) = ?t2 - ?t1"
    using wh_last_now [OF assms(2,3)] wh_ticks_bound by (rule to_u64_diff)
  then have swept: "i < ?n \<and> ?t2 div ?n * ?n + i < Suc ?t2" if "i \<in> set (wh_swept ?t1 ?t2 ?n)" for i
  proof -
    have "i \<le> ?t2 mod ?n"
      using that assms(4,5) \<open>to_u64 (int ?t2 - int ?t1) = ?t2 - ?t1\<close> by (auto simp: wh_swept_def)
    then show ?thesis
      using mod_less_divisor [OF n, of ?t2] div_mult_mod_eq [of ?t2 ?n] by linarith
  qed
  have "wh_sweep K clk env ?now (?t2 div ?n) (wh_swept ?t1 ?t2 ?n) ?w \<noteq> None"
    by (rule wh_sweep_returns [OF fut _ sw]) (rule swept)
  then show ?thesis
    using assms(2) wh_process_eq [of w K clk env] by (auto simp: wh_inv_def Let_def)
qed

theorem wheel_returns_witness:
  "wh_process usec_chrono (two_times 0 300) no_calls (small_wheel 0 250 0) \<noteq> None"
proof (rule wheel_returns [OF usec_chrono_ok small_wheel_ok(1)])
  show "wh_times (wh_tick (small_wheel 0 250 0)) (two_times 0 300) no_calls (small_wheel 0 250 0)"
    by (rule small_wheel_times) (auto simp: small_wheel_250)
qed (simp_all add: small_wheel_250 two_times_def wh_get_ticks_def to_u64_def signed_divide_int_def wh_size_def)

section \<open>Sweeps that do not end\<close>

definition wh_periodic :: "nat \<Rightarrow> usec \<Rightarrow> 'c wheel \<Rightarrow> bool" where
  "wh_periodic tid v w \<longleftrightarrow> (\<exists>e. wh_table w tid = Some e \<and> we_interval e = v)"

lemma wh_fire_periodic:
  assumes "\<And>c n. env c n = []" and "0 < v" and "wh_periodic tid v w" and "wh_ok w"
    and "wh_table w x = Some timer" and "we_id timer = x"
  shows "wh_periodic tid v (wh_fire K clk env now x timer w)"
    and "x = tid \<Longrightarrow> wh_has (wh_fire K clk env now x timer w)
      (wh_get_ticks (wh_tick w) (ts_plus K now v) mod wh_size w)
      (wh_get_ticks (wh_tick w) (ts_plus K now v) div wh_size w) tid"
  using assms by (auto simp: wh_fire_def wh_periodic_def wh_cancel_def wh_get_rounds_eq wh_has_add wh_ok_def Let_def)

lemma wh_fire_ids_periodic:
  assumes env: "\<And>c n. env c n = []" and v: "0 < v" and fut: "wh_future T K clk env tick r0 now"
  shows "wh_sweeping T K tick r0 now n w \<Longrightarrow> wh_periodic tid v w \<Longrightarrow> wh_fire_ids K clk env now ids w = (fired, w') \<Longrightarrow>
    wh_periodic tid v w' \<and> (tid \<in> set ids \<longrightarrow> wh_has w' (wh_get_ticks tick (ts_plus K now v) mod n)
      (wh_get_ticks tick (ts_plus K now v) div n) tid)"
proof (induction ids arbitrary: w fired w')
  case (Cons x ids)
  show ?case
  proof (cases "wh_table w x")
    case None
    with Cons show ?thesis by (auto simp: wh_periodic_def)
  next
    case (Some timer)
    let ?w = "wh_fire K clk env now x timer w"
    from Cons.prems(3) Some obtain fired1 where f: "wh_fire_ids K clk env now ids ?w = (fired1, w')"
      by (auto split: prod.splits)
    have sw: "wh_sweeping T K tick r0 now n ?w"
      using wh_fire_sweeping [OF Cons.prems(1) fut Some] by simp
    have ok: "wh_ok w" "we_id timer = x" "wh_tick w = tick" "wh_size w = n"
      using Cons.prems(1) Some by (auto simp: wh_sweeping_def)
    note per = wh_fire_periodic [where K = K and clk = clk and now = now, OF env v Cons.prems(2) ok(1) Some ok(2)]
    have "wh_grows T ?w w'"
      using wh_fire_ids_sweeping [OF fut sw f] by simp
    with per ok Cons.IH [OF sw per(1) f] show ?thesis
      by (auto simp: wh_grows_def)
  qed
qed simp

lemma wd_runs_periodic:
  assumes "wd_runs K clk env now rounds i w rs w'" and env: "\<And>c n. env c n = []" and v: "0 < v"
    and fut: "wh_future T K clk env tick r0 now" and "i < n"
  shows "wh_sweeping T K tick r0 now n w \<Longrightarrow> wh_periodic tid v w \<Longrightarrow> wh_periodic tid v w'
    \<and> \<not> (i = wh_get_ticks tick (ts_plus K now v) mod n \<and> wh_get_ticks tick (ts_plus K now v) div n \<le> rounds
        \<and> (\<exists>k \<le> rounds. wh_has w i k tid))"
  using assms(1)
proof (induction rule: wd_runs.induct)
  case (wd_stop w)
  then have "wb_ok (wh_buckets w ! i)"
    using assms(5) by (auto simp: wh_sweeping_def wh_ok_def wh_size_def)
  then have "\<not> k \<le> rounds" if "wh_has w i k tid" for k
    using wb_pop_None [OF _ wd_stop.hyps, of k tid] that by (simp add: wh_has_def)
  with wd_stop show ?case by blast
next
  case (wd_round w k ids b fired w1 rs w2)
  let ?w = "w\<lparr>wh_buckets := (wh_buckets w)[i := b]\<rparr>"
  have size: "wh_size w = n" using wd_round.prems(1) by (simp add: wh_sweeping_def)
  have pop: "wh_has w i k' tid \<longleftrightarrow> (k' = k \<and> tid \<in> set ids) \<or> wh_has ?w i k' tid" for k'
    using wh_has_pop [OF wd_round.hyps(1)] assms(5) size by simp
  note sw = wh_sweeping_pop [OF wd_round.hyps(1) assms(5) wd_round.prems(1)]
  have per: "wh_periodic tid v ?w" using wd_round.prems(2) by (simp add: wh_periodic_def)
  have step: "wh_sweeping T K tick r0 now n w1" "wh_grows T ?w w1"
    using wh_fire_ids_sweeping [OF fut sw wd_round.hyps(2)] by simp_all
  note fire = wh_fire_ids_periodic [OF env v fut sw per wd_round.hyps(2)]
  have keep: "wh_has w1 i k' tid" if "wh_has ?w i k' tid" for k'
    using step(2) that by (simp add: wh_grows_def)
  show ?case
    using wd_round.IH [OF step(1)] fire pop keep by blast
qed

lemma wh_sweep_hangs:
  assumes env: "\<And>c n. env c n = []" and v: "0 < v" and fut: "wh_future T K clk env tick r0 now"
    and "wh_get_ticks tick (ts_plus K now v) div n \<le> rounds"
  shows "wh_sweeping T K tick r0 now n w \<Longrightarrow> set is \<subseteq> {0..<n} \<Longrightarrow> wh_periodic tid v w \<Longrightarrow>
    wh_get_ticks tick (ts_plus K now v) mod n \<in> set is \<Longrightarrow> k \<le> rounds \<Longrightarrow>
    wh_has w (wh_get_ticks tick (ts_plus K now v) mod n) k tid \<Longrightarrow> wh_sweep K clk env now rounds is w = None"
proof (induction "is" arbitrary: w)
  case (Cons i "is")
  show ?case
  proof (cases "wh_drain K clk env now rounds i w")
    case (Some r)
    obtain rs w1 where r: "r = (rs, w1)" by fastforce
    have i: "i < n" using Cons.prems(2) by simp
    note run = wh_drain_runs [OF Some [unfolded r]]
    note per = wd_runs_periodic [OF run env v fut i Cons.prems(1,3)]
    note grow = wd_runs_grow [OF run fut i Cons.prems(1)]
    have ne: "i \<noteq> wh_get_ticks tick (ts_plus K now v) mod n"
      using per Cons.prems(5,6) assms(4) by blast
    then have has: "wh_has w1 (wh_get_ticks tick (ts_plus K now v) mod n) k tid"
      using grow [THEN conjunct2, THEN conjunct2, THEN conjunct1] Cons.prems(6) by metis
    have "wh_sweep K clk env now rounds is w1 = None"
      by (rule Cons.IH) (use Cons.prems grow per ne has in auto)
    with Some r show ?thesis by simp
  qed simp
qed simp

text \<open>
  A periodic timer can keep Process of TimerHashWheel from ever returning: when its next
  expiry, counted from the start of the sweep, falls into a bucket that the sweep drains and a
  revolution not after the present one, and the timer is in that bucket for the present
  revolution or an earlier one, it is put back and popped again for ever.
\<close>

theorem wheel_hangs:
  assumes "wh_inv w" and "\<And>c n. env c n = []" and "wh_table w tid = Some e" and "0 < we_interval e"
    and "wh_get_ticks (wh_tick w) (ts_plus K (clk (wh_reads w)) (we_interval e)) mod wh_size w = i"
    and "wh_get_ticks (wh_tick w) (ts_plus K (clk (wh_reads w)) (we_interval e)) div wh_size w
      \<le> wh_get_ticks (wh_tick w) (clk (wh_reads w)) div wh_size w"
    and "i \<in> set (wh_swept (wh_get_ticks (wh_tick w) (wh_last w)) (wh_get_ticks (wh_tick w) (clk (wh_reads w))) (wh_size w))"
    and "wh_has w i k tid" and "k \<le> wh_get_ticks (wh_tick w) (clk (wh_reads w)) div wh_size w"
  shows "wh_process K clk env w = None"
proof -
  let ?now = "clk (wh_reads w)" and ?n = "wh_size w" and ?w = "w\<lparr>wh_reads := Suc (wh_reads w)\<rparr>"
  let ?t1 = "wh_get_ticks (wh_tick w) (wh_last w)" and ?t2 = "wh_get_ticks (wh_tick w) ?now"
  have n: "0 < ?n" using assms(1) by (simp add: wh_inv_def wh_ok_def)
  have fut: "wh_future 0 K clk env (wh_tick w) 0 ?now"
    by (simp add: wh_future_def)
  have "wh_sweeping 0 K (wh_tick w) 0 ?now ?n ?w" and "wh_periodic tid (we_interval e) ?w"
    using assms(1,3) by (simp_all add: wh_inv_def wh_sweeping_def wh_intervals_def wh_periodic_def)
  then have "wh_sweep K clk env ?now (?t2 div ?n) (wh_swept ?t1 ?t2 ?n) ?w = None"
    using assms(5-9) wh_swept_range [OF n]
    by (intro wh_sweep_hangs [OF assms(2,4) fut, where k = k]) auto
  then show ?thesis
    using assms(1) wh_process_eq [of w K clk env] by (simp add: wh_inv_def Let_def)
qed

text \<open>A timer with a period of 50 microseconds on a wheel of 100 microseconds a tick.\<close>

theorem wheel_hangs_witness:
  "wh_process usec_chrono (two_times 0 0) no_calls (small_wheel 0 0 50) = None"
  by (rule wheel_hangs [OF small_wheel_ok(3), where tid = 1 and i = 0 and k = 0 and
        e = "\<lparr>we_rounds = 0, we_id = 1, we_interval = 50, we_callback = 7\<rparr>"])
    (simp_all add: small_wheel_periodic two_times_def wh_get_ticks_def to_u64_def signed_divide_int_def wh_size_def
      wh_has_def wb_has_def no_calls_def wh_swept_def usec_chrono_def)

end
