(* ===== verification/Net_Environment.thy ===== *)
theory Net_Environment
  imports Pedronet_Prelude
begin

text \<open>
  The world of a connection that is not code of the repository: pedrolib's \<open>ArrayBuffer\<close>
  (a parameter, with its documented behaviour as the hypothesis \<open>buffer_ok\<close>) and the
  operating system, whose answers are an oracle: the k-th system call of a connection gets the
  k-th answer, so a theorem for every oracle is a theorem for every behaviour of the kernel and
  the peer.
\<close>

section \<open>ArrayBuffer\<close>

record 'b buffer_ops =
  bf_bytes :: "'b \<Rightarrow> byte list"
  bf_empty :: 'b
  bf_writable_bytes :: "'b \<Rightarrow> nat"
  bf_ensure_writable :: "nat \<Rightarrow> 'b \<Rightarrow> 'b"
  bf_append :: "byte list \<Rightarrow> 'b \<Rightarrow> 'b"
  bf_append_file :: "byte list \<Rightarrow> 'b \<Rightarrow> 'b"
  bf_retrieve :: "nat \<Rightarrow> 'b \<Rightarrow> 'b"
  bf_reset :: "'b \<Rightarrow> 'b"

definition bf_readable_bytes :: "'b buffer_ops \<Rightarrow> 'b \<Rightarrow> nat" where
  "bf_readable_bytes B b = length (bf_bytes B b)"

text \<open>
  \<open>bf_append\<close> may be called only with room for the bytes; \<open>bf_append_file\<close> is the read from
  a file descriptor, which makes its own room.
\<close>

definition buffer_ok :: "'b buffer_ops \<Rightarrow> bool" where
  "buffer_ok B \<longleftrightarrow>
     bf_bytes B (bf_empty B) = []
   \<and> (\<forall>n b. bf_bytes B (bf_ensure_writable B n b) = bf_bytes B b
        \<and> n \<le> bf_writable_bytes B (bf_ensure_writable B n b))
   \<and> (\<forall>xs b. length xs \<le> bf_writable_bytes B b \<longrightarrow> bf_bytes B (bf_append B xs b) = bf_bytes B b @ xs)
   \<and> (\<forall>xs b. bf_bytes B (bf_append_file B xs b) = bf_bytes B b @ xs)
   \<and> (\<forall>n b. n \<le> bf_readable_bytes B b \<longrightarrow> bf_bytes B (bf_retrieve B n b) = drop n (bf_bytes B b))
   \<and> (\<forall>b. bf_bytes B (bf_reset B b) = [])"

lemma buffer_okD:
  assumes "buffer_ok B"
  shows "bf_bytes B (bf_empty B) = []"
    and "bf_bytes B (bf_ensure_writable B n b) = bf_bytes B b"
    and "n \<le> bf_writable_bytes B (bf_ensure_writable B n b)"
    and "length xs \<le> bf_writable_bytes B b \<Longrightarrow> bf_bytes B (bf_append B xs b) = bf_bytes B b @ xs"
    and "bf_bytes B (bf_append_file B xs b) = bf_bytes B b @ xs"
    and "n \<le> bf_readable_bytes B b \<Longrightarrow> bf_bytes B (bf_retrieve B n b) = drop n (bf_bytes B b)"
    and "bf_bytes B (bf_reset B b) = []"
  using assms by (simp_all add: buffer_ok_def)

text \<open>A buffer of bounded initial capacity, for the witnesses: the bytes and the free room.\<close>

definition list_buffer :: "(byte list \<times> nat) buffer_ops" where
  "list_buffer =
     \<lparr>bf_bytes = fst, bf_empty = ([], 0), bf_writable_bytes = snd,
      bf_ensure_writable = \<lambda>n (bs, r). (bs, max n r),
      bf_append = \<lambda>xs (bs, r). (bs @ take r xs, r - length xs),
      bf_append_file = \<lambda>xs (bs, r). (bs @ xs, r),
      bf_retrieve = \<lambda>n (bs, r). (drop n bs, r + n),
      bf_reset = \<lambda>(bs, r). ([], r + length bs)\<rparr>"

lemma list_buffer_ok: "buffer_ok list_buffer"
  by (auto simp: buffer_ok_def list_buffer_def bf_readable_bytes_def)

lemma list_buffer_simps [simp]:
  "bf_readable_bytes list_buffer b = length (fst b)" "bf_bytes list_buffer b = fst b"
  "bf_retrieve list_buffer n (bs, r) = (drop n bs, r + n)" "bf_writable_bytes list_buffer b = snd b"
  "bf_ensure_writable list_buffer n (bs, r) = (bs, max n r)"
  "bf_append list_buffer xs (bs, r) = (bs @ take r xs, r - length xs)"
  "bf_append_file list_buffer xs (bs, r) = (bs @ xs, r)" "bf_empty list_buffer = ([], 0)"
  by (simp_all add: list_buffer_def bf_readable_bytes_def)

section \<open>System calls\<close>

text \<open>
  \<open>os_write k bs\<close>: the result of \<open>write\<close> for these bytes, a count or a negative value;
  \<open>os_read k\<close>: the bytes a read delivers (none at end of stream) or the errno of a failed one;
  \<open>os_so_error k\<close>: the code of \<open>GetError\<close>, that is the pending error of the socket
  (SO\_ERROR).  \<open>os_kOk\<close> is the code that compares equal to pedrolib's \<open>Error::kOk\<close>;
  EWOULDBLOCK and EAGAIN are the errno values the code names.
\<close>

record net_os =
  os_write :: "nat \<Rightarrow> byte list \<Rightarrow> int"
  os_read :: "nat \<Rightarrow> int + byte list"
  os_so_error :: "nat \<Rightarrow> int"
  os_kOk :: int

definition EAGAIN :: int where "EAGAIN = 11"
definition EWOULDBLOCK :: int where "EWOULDBLOCK = 11"

text \<open>\<open>write(2)\<close> never takes more than it is given.\<close>

definition os_ok :: "net_os \<Rightarrow> bool" where
  "os_ok sys \<longleftrightarrow> (\<forall>k bs. os_write sys k bs \<le> int (length bs))"

end
