(* ===== verification/Socket_Channel.thy ===== *)
theory Socket_Channel
  imports Event_Flags
begin

text \<open>
  include/pedronet/channel/socket\_channel.h and src/channel/socket\_channel.cc: the event mask
  of a socket, kept in step with what the selector watches, and the dispatch of reported
  events to the four callbacks.  \<open>sc_watch\<close> is the selector's entry for this channel: None
  while the channel is not registered; \<open>Selector::Update\<close> of an unregistered channel does
  nothing (src/selector/epoller.cc, include/pedronet/selector/poller.h).
\<close>

section \<open>The event mask\<close>

record socket_channel =
  sc_events :: select_events
  sc_watch :: "select_events option"
  sc_open :: bool

definition sc_create :: socket_channel where
  "sc_create = \<lparr>sc_events = kNoneEvent, sc_watch = None, sc_open = True\<rparr>"

definition sc_update :: "socket_channel \<Rightarrow> socket_channel" where
  "sc_update ch =
     (case sc_watch ch of None \<Rightarrow> ch | Some _ \<Rightarrow> ch\<lparr>sc_watch := Some (sc_events ch)\<rparr>)"

definition sc_set_writable :: "bool \<Rightarrow> socket_channel \<Rightarrow> socket_channel" where
  "sc_set_writable on ch =
     (let ev = sc_events ch;
          ch1 = ch\<lparr>sc_events := (if on then se_add ev kWriteEvent else se_remove ev kWriteEvent)\<rparr>
      in if se_differs ev (sc_events ch1) then sc_update ch1 else ch1)"

definition sc_set_readable :: "bool \<Rightarrow> socket_channel \<Rightarrow> socket_channel" where
  "sc_set_readable on ch =
     (let ev = sc_events ch;
          ch1 = ch\<lparr>sc_events := (if on then se_add ev kReadEvent else se_remove ev kReadEvent)\<rparr>
      in if se_differs ev (sc_events ch1) then sc_update ch1 else ch1)"

definition sc_readable :: "socket_channel \<Rightarrow> bool" where
  "sc_readable ch = se_contains (sc_events ch) kReadEvent"

definition sc_writable :: "socket_channel \<Rightarrow> bool" where
  "sc_writable ch = se_contains (sc_events ch) kWriteEvent"

text \<open>\<open>File::Close\<close> of the socket, called on POLLNVAL.\<close>

definition sc_close :: "socket_channel \<Rightarrow> socket_channel" where
  "sc_close ch = ch\<lparr>sc_open := False\<rparr>"

section \<open>Dispatch\<close>

record 's socket_callbacks =
  cb_close :: "('s \<Rightarrow> 's) option"
  cb_error :: "('s \<Rightarrow> 's) option"
  cb_read :: "('s \<Rightarrow> 's) option"
  cb_write :: "('s \<Rightarrow> 's) option"

definition run_cb :: "('s \<Rightarrow> 's) option \<Rightarrow> 's \<Rightarrow> 's" where
  "run_cb cb s = (case cb of None \<Rightarrow> s | Some f \<Rightarrow> f s)"

text \<open>\<open>'s\<close> is the state the callbacks act on; \<open>close_fd\<close> is \<open>this->Close()\<close> in it.\<close>

definition sc_handle_events ::
  "'s socket_callbacks \<Rightarrow> ('s \<Rightarrow> 's) \<Rightarrow> receive_events \<Rightarrow> 's \<Rightarrow> 's" where
  "sc_handle_events cb close_fd events s =
     (let s1 = (if re_contains events kHangUp \<and> \<not> re_contains events kReadable
                then run_cb (cb_close cb) s else s);
          s2 = (if re_one_of events [kError, kInvalid]
                then (let t = run_cb (cb_error cb) s1
                      in if re_contains events kInvalid then close_fd t else t)
                else s1);
          s3 = (if re_one_of events [kReadable, kPriorReadable, kReadHangUp]
                then run_cb (cb_read cb) s2 else s2)
      in if re_contains events kWritable then run_cb (cb_write cb) s3 else s3)"

section \<open>Facts\<close>

text \<open>
  \<open>sc_synced\<close>: what the selector watches is the mask.  Every operation keeps it, so a change
  of the mask is never missed and never needs a second call.
\<close>

definition sc_synced :: "socket_channel \<Rightarrow> bool" where
  "sc_synced ch \<longleftrightarrow> sc_watch ch = None \<or> sc_watch ch = Some (sc_events ch)"

lemma sc_update_simps [simp]:
  "sc_events (sc_update ch) = sc_events ch"
  "sc_open (sc_update ch) = sc_open ch"
  "(sc_watch (sc_update ch) = None) = (sc_watch ch = None)"
  by (simp_all add: sc_update_def split: option.split)

lemma sc_synced_update [simp]: "sc_synced (sc_update ch)"
  by (simp add: sc_synced_def sc_update_def split: option.split)

lemma sc_set_simps [simp]:
  "sc_events (sc_set_writable on ch) =
    (if on then se_add (sc_events ch) kWriteEvent else se_remove (sc_events ch) kWriteEvent)"
  "sc_events (sc_set_readable on ch) =
    (if on then se_add (sc_events ch) kReadEvent else se_remove (sc_events ch) kReadEvent)"
  "sc_open (sc_set_writable on ch) = sc_open ch"
  "sc_open (sc_set_readable on ch) = sc_open ch"
  "(sc_watch (sc_set_writable on ch) = None) = (sc_watch ch = None)"
  "(sc_watch (sc_set_readable on ch) = None) = (sc_watch ch = None)"
  by (auto simp: sc_set_writable_def sc_set_readable_def Let_def)

lemma sc_synced_set [intro]:
  "sc_synced ch \<Longrightarrow> sc_synced (sc_set_writable on ch)"
  "sc_synced ch \<Longrightarrow> sc_synced (sc_set_readable on ch)"
  by (auto simp: sc_set_writable_def sc_set_readable_def Let_def sc_synced_def sc_update_def)

lemma sc_set_get [simp]:
  "sc_writable (sc_set_writable on ch) = on"
  "sc_readable (sc_set_readable on ch) = on"
  "sc_readable (sc_set_writable on ch) = sc_readable ch"
  "sc_writable (sc_set_readable on ch) = sc_writable ch"
  by (simp_all add: sc_readable_def sc_writable_def se_contains_add_self se_contains_remove_self
      se_contains_add_other se_contains_remove_other)

lemma sc_create_simps [simp]:
  "sc_watch sc_create = None" "sc_synced sc_create" "\<not> sc_writable sc_create" "\<not> sc_readable sc_create"
  by (simp_all add: sc_create_def sc_synced_def sc_writable_def sc_readable_def)

lemma sc_close_simps [simp]:
  "sc_events (sc_close ch) = sc_events ch" "sc_watch (sc_close ch) = sc_watch ch"
  "sc_synced (sc_close ch) = sc_synced ch" "sc_writable (sc_close ch) = sc_writable ch"
  by (simp_all add: sc_close_def sc_synced_def sc_writable_def)

text \<open>
  A step relation or preorder that all callbacks respect holds across a dispatch.
\<close>

locale callback_contract =
  fixes R :: "'s \<Rightarrow> 's \<Rightarrow> bool"
  assumes R_refl: "R s s"
    and R_trans: "R s t \<Longrightarrow> R t u \<Longrightarrow> R s u"
begin

lemma R_run_cb: "(\<And>f s. cb = Some f \<Longrightarrow> R s (f s)) \<Longrightarrow> R s (run_cb cb s)"
  by (cases cb) (auto simp: run_cb_def R_refl)

lemma R_step: "R s t \<Longrightarrow> (\<And>t. R t (f t)) \<Longrightarrow> R s (if b then f t else t)"
  by (auto intro: R_trans)

lemma R_handle_events:
  assumes "\<And>s. R s (run_cb (cb_close cb) s)" and "\<And>s. R s (run_cb (cb_error cb) s)"
    and "\<And>s. R s (run_cb (cb_read cb) s)" and "\<And>s. R s (run_cb (cb_write cb) s)"
    and "\<And>s. R s (close_fd s)"
  shows "R s (sc_handle_events cb close_fd events s)"
  unfolding sc_handle_events_def Let_def
  by (intro R_step R_refl assms)

end

end
