(* ===== verification/Tcp_Connection.thy ===== *)
theory Tcp_Connection
  imports Net_Environment Socket_Channel
begin

text \<open>
  include/pedronet/tcp\_connection.h and src/tcp\_connection.cc: the life of one TCP connection
  on its event loop.

  The parameters: \<open>B\<close> the buffer, \<open>sys\<close> the operating system, \<open>H e c\<close> what the user's
  \<open>ChannelHandler\<close> does with the connection when the callback \<open>e\<close> is called (below it is
  made of calls of the connection's own interface).  \<open>in_loop\<close> tells whether the calling
  thread is the connection's loop thread: \<open>EventLoop::Run\<close> then runs the task at once, and
  queues it otherwise.

  Histories, which the code does not have: \<open>cn_trace\<close> the handler callbacks called, \<open>cn_wire\<close>
  the bytes the kernel took, \<open>cn_sent\<close> the bytes the user gave (the whole argument of every
  \<open>handleSend\<close> that finds the connection open, and what is appended to the output buffer from
  outside; what is written or queued of them does not enter into it),
  \<open>cn_fin\<close> whether the write end was closed, \<open>cn_sys\<close> the number of system calls made,
  \<open>cn_received\<close> the bytes read.  \<open>cn_memory\<close> belongs to the handler object, not the connection.

  \<open>cn_tasks\<close> are the tasks of this connection in the loop's queue, in the order in which they were
  added.  The steps below run them in that order, as a loop does over EventBlockingQueue or
  EventDoubleBufferQueue; over the default EventLockFreeQueue tasks of several threads can change
  places, and theory Tcp\_Connection\_Races has the steps that run them in any order.
\<close>

section \<open>State\<close>

datatype conn_state = Connecting | Connected | Disconnecting | Disconnected

datatype conn_event = OnConnect | OnRead | OnWriteComplete | OnError int | OnClose

datatype conn_task =
  TaskAdd | TaskSend "byte list" | TaskClose | TaskForceClose | TaskShutdown | TaskForceShutdown

text \<open>
  The members of a user's handler that outlive a call: two counters (\<open>size_t\<close>), the messages it
  has set aside with a timer that will send them, what it has reported to others.
\<close>

record handler_memory =
  hm_messages :: u64
  hm_bytes :: u64
  hm_delayed :: "(usec \<times> byte list) list"
  hm_reported :: "(u64 \<times> u64) list"

definition fresh_memory :: handler_memory where
  "fresh_memory = \<lparr>hm_messages = 0, hm_bytes = 0, hm_delayed = [], hm_reported = []\<rparr>"

record 'b tcp_conn =
  cn_state :: conn_state
  cn_output :: 'b
  cn_input :: 'b
  cn_channel :: socket_channel
  cn_context :: bool
  cn_latch :: nat
  cn_tasks :: "conn_task list"
  cn_trace :: "conn_event list"
  cn_wire :: "byte list"
  cn_sent :: "byte list"
  cn_fin :: bool
  cn_sys :: nat
  cn_received :: "byte list"
  cn_memory :: handler_memory

type_synonym 'b conn_hook = "conn_event \<Rightarrow> 'b tcp_conn \<Rightarrow> 'b tcp_conn"

definition conn_create :: "'b buffer_ops \<Rightarrow> 'b tcp_conn" where
  "conn_create B =
     \<lparr>cn_state = Connecting, cn_output = bf_empty B, cn_input = bf_empty B, cn_channel = sc_create,
      cn_context = False, cn_latch = 1, cn_tasks = [], cn_trace = [], cn_wire = [], cn_sent = [],
      cn_fin = False, cn_sys = 0, cn_received = [], cn_memory = fresh_memory\<rparr>"

text \<open>What is waiting in the output buffer.\<close>

definition cn_pending :: "'b buffer_ops \<Rightarrow> 'b tcp_conn \<Rightarrow> byte list" where
  "cn_pending B c = bf_bytes B (cn_output c)"

section \<open>System calls and callbacks\<close>

definition conn_notify :: "'b conn_hook \<Rightarrow> conn_event \<Rightarrow> 'b tcp_conn \<Rightarrow> 'b tcp_conn" where
  "conn_notify H e c = H e (c\<lparr>cn_trace := cn_trace c @ [e]\<rparr>)"

definition conn_get_error :: "net_os \<Rightarrow> 'b tcp_conn \<Rightarrow> int \<times> 'b tcp_conn" where
  "conn_get_error sys c = (os_so_error sys (cn_sys c), c\<lparr>cn_sys := Suc (cn_sys c)\<rparr>)"

text \<open>\<open>channel_->Write\<close>: a negative result takes nothing.\<close>

definition conn_write :: "net_os \<Rightarrow> byte list \<Rightarrow> 'b tcp_conn \<Rightarrow> int \<times> 'b tcp_conn" where
  "conn_write sys data c =
     (let w = os_write sys (cn_sys c) data
      in (w, c\<lparr>cn_sys := Suc (cn_sys c), cn_wire := cn_wire c @ take (nat w) data\<rparr>))"

definition conn_set_writable :: "bool \<Rightarrow> 'b tcp_conn \<Rightarrow> 'b tcp_conn" where
  "conn_set_writable on c = c\<lparr>cn_channel := sc_set_writable on (cn_channel c)\<rparr>"

definition conn_set_readable :: "bool \<Rightarrow> 'b tcp_conn \<Rightarrow> 'b tcp_conn" where
  "conn_set_readable on c = c\<lparr>cn_channel := sc_set_readable on (cn_channel c)\<rparr>"

definition conn_close_write :: "'b tcp_conn \<Rightarrow> 'b tcp_conn" where
  "conn_close_write c = c\<lparr>cn_fin := True\<rparr>"

text \<open>\<open>EventLoop::Run\<close>.\<close>

definition conn_run ::
  "bool \<Rightarrow> ('b tcp_conn \<Rightarrow> 'b tcp_conn) \<Rightarrow> conn_task \<Rightarrow> 'b tcp_conn \<Rightarrow> 'b tcp_conn" where
  "conn_run in_loop body task c = (if in_loop then body c else c\<lparr>cn_tasks := cn_tasks c @ [task]\<rparr>)"

section \<open>Closing\<close>

definition conn_handle_remove :: "'b conn_hook \<Rightarrow> 'b tcp_conn \<Rightarrow> 'b tcp_conn" where
  "conn_handle_remove H c =
     (if cn_state c \<noteq> Disconnected then c
      else let c1 = conn_notify H OnClose c
           in c1\<lparr>cn_latch := cn_latch c1 - 1, cn_context := False\<rparr>)"

text \<open>\<open>EventLoop::Remove(channel_, handleRemove)\<close> on the loop thread.\<close>

definition conn_remove :: "'b conn_hook \<Rightarrow> 'b tcp_conn \<Rightarrow> 'b tcp_conn" where
  "conn_remove H c =
     (if sc_watch (cn_channel c) \<noteq> None
      then conn_handle_remove H (c\<lparr>cn_channel := (cn_channel c)\<lparr>sc_watch := None\<rparr>\<rparr>)
      else c)"

definition conn_handle_close :: "'b conn_hook \<Rightarrow> 'b tcp_conn \<Rightarrow> 'b tcp_conn" where
  "conn_handle_close H c =
     (if cn_state c = Disconnected then c else conn_remove H (c\<lparr>cn_state := Disconnected\<rparr>))"

definition conn_force_close :: "bool \<Rightarrow> 'b conn_hook \<Rightarrow> 'b tcp_conn \<Rightarrow> 'b tcp_conn" where
  "conn_force_close in_loop H c =
     (if cn_state c = Disconnected then c
      else conn_run in_loop (conn_remove H) TaskForceClose (c\<lparr>cn_state := Disconnected\<rparr>))"

definition conn_close_body :: "'b buffer_ops \<Rightarrow> 'b conn_hook \<Rightarrow> 'b tcp_conn \<Rightarrow> 'b tcp_conn" where
  "conn_close_body B H c =
     (if bf_readable_bytes B (cn_output c) = 0 then conn_remove H c else c)"

definition conn_close ::
  "bool \<Rightarrow> 'b buffer_ops \<Rightarrow> 'b conn_hook \<Rightarrow> 'b tcp_conn \<Rightarrow> 'b tcp_conn" where
  "conn_close in_loop B H c =
     (if cn_state c \<noteq> Connected then c
      else conn_run in_loop (conn_close_body B H) TaskClose (c\<lparr>cn_state := Disconnected\<rparr>))"

definition conn_shutdown_body :: "'b buffer_ops \<Rightarrow> 'b tcp_conn \<Rightarrow> 'b tcp_conn" where
  "conn_shutdown_body B c =
     (if bf_readable_bytes B (cn_output c) = 0 then conn_close_write (conn_set_writable False c) else c)"

definition conn_shutdown :: "bool \<Rightarrow> 'b buffer_ops \<Rightarrow> 'b tcp_conn \<Rightarrow> 'b tcp_conn" where
  "conn_shutdown in_loop B c =
     (if cn_state c \<noteq> Connected then c
      else conn_run in_loop (conn_shutdown_body B) TaskShutdown (c\<lparr>cn_state := Disconnecting\<rparr>))"

definition conn_force_shutdown_body :: "'b tcp_conn \<Rightarrow> 'b tcp_conn" where
  "conn_force_shutdown_body c = conn_close_write (conn_set_writable False c)"

definition conn_force_shutdown_store :: "bool \<Rightarrow> 'b tcp_conn \<Rightarrow> 'b tcp_conn" where
  "conn_force_shutdown_store in_loop c =
     conn_run in_loop conn_force_shutdown_body TaskForceShutdown (c\<lparr>cn_state := Disconnecting\<rparr>)"

text \<open>The test of \<open>ForceShutdown\<close> and its store are two separate accesses of \<open>state_\<close>.\<close>

definition conn_force_shutdown :: "bool \<Rightarrow> 'b tcp_conn \<Rightarrow> 'b tcp_conn" where
  "conn_force_shutdown in_loop c =
     (if cn_state c = Disconnected then c else conn_force_shutdown_store in_loop c)"

section \<open>Errors, reading and writing\<close>

definition conn_handle_error :: "net_os \<Rightarrow> 'b conn_hook \<Rightarrow> int \<Rightarrow> 'b tcp_conn \<Rightarrow> 'b tcp_conn" where
  "conn_handle_error sys H err c =
     (if err = os_kOk sys then conn_force_close True H c else conn_notify H (OnError err) c)"

definition conn_handle_read ::
  "'b buffer_ops \<Rightarrow> net_os \<Rightarrow> 'b conn_hook \<Rightarrow> 'b tcp_conn \<Rightarrow> 'b tcp_conn" where
  "conn_handle_read B sys H c =
     (let c1 = c\<lparr>cn_sys := Suc (cn_sys c)\<rparr>
      in case os_read sys (cn_sys c) of
           Inl err \<Rightarrow>
             if err \<noteq> EWOULDBLOCK \<and> err \<noteq> EAGAIN then conn_handle_error sys H err c1 else c1
         | Inr [] \<Rightarrow> conn_handle_close H c1
         | Inr bs \<Rightarrow>
             conn_notify H OnRead
               (c1\<lparr>cn_input := bf_append_file B bs (cn_input c1), cn_received := cn_received c1 @ bs\<rparr>))"

text \<open>The second half of \<open>handleWrite\<close>, when the output buffer may have run empty.\<close>

definition conn_write_done :: "'b buffer_ops \<Rightarrow> 'b conn_hook \<Rightarrow> 'b tcp_conn \<Rightarrow> 'b tcp_conn" where
  "conn_write_done B H c =
     (if bf_readable_bytes B (cn_output c) = 0 then
        let c1 = conn_notify H OnWriteComplete (conn_set_writable False c)
        in if cn_state c1 = Disconnecting then conn_close_write c1 else c1
      else c)"

definition conn_handle_write ::
  "'b buffer_ops \<Rightarrow> net_os \<Rightarrow> 'b conn_hook \<Rightarrow> 'b tcp_conn \<Rightarrow> 'b tcp_conn" where
  "conn_handle_write B sys H c =
     (if \<not> sc_writable (cn_channel c) then c
      else if bf_readable_bytes B (cn_output c) \<noteq> 0 then
        let (n, c1) = conn_write sys (bf_bytes B (cn_output c)) c
        in if n < 0 then
             let (err, c2) = conn_get_error sys c1 in conn_handle_error sys H err c2
           else conn_write_done B H (c1\<lparr>cn_output := bf_retrieve B (nat n) (cn_output c1)\<rparr>)
      else conn_write_done B H c)"

text \<open>The end of \<open>handleSend\<close>: what was not written goes to the output buffer.\<close>

definition conn_enqueue :: "'b buffer_ops \<Rightarrow> byte list \<Rightarrow> 'b tcp_conn \<Rightarrow> 'b tcp_conn" where
  "conn_enqueue B data c =
     (if data = [] then c
      else
        let w = bf_writable_bytes B (cn_output c);
            out = (if w < length data then bf_ensure_writable B (length data) (cn_output c) else cn_output c)
        in conn_set_writable True (c\<lparr>cn_output := bf_append B data out\<rparr>))"

text \<open>
  The history of what the user gave: all of \<open>data\<close>, whatever then becomes of it.
\<close>

definition conn_accept :: "byte list \<Rightarrow> 'b tcp_conn \<Rightarrow> 'b tcp_conn" where
  "conn_accept data c = c\<lparr>cn_sent := cn_sent c @ data\<rparr>"

text \<open>\<open>rest\<close> is \<open>buffer\<close> after the direct write.\<close>

definition conn_handle_send ::
  "'b buffer_ops \<Rightarrow> net_os \<Rightarrow> 'b conn_hook \<Rightarrow> byte list \<Rightarrow> 'b tcp_conn \<Rightarrow> 'b tcp_conn" where
  "conn_handle_send B sys H data c =
     (if cn_state c \<noteq> Connected then c
      else
        let (rest, c1) =
              (if bf_readable_bytes B (cn_output c) = 0 \<and> data \<noteq> [] then
                 let (w, c1) = conn_write sys data c
                 in if w < 0 then
                      let (err, c2) = conn_get_error sys c1
                      in (data, if err \<noteq> EWOULDBLOCK \<and> err \<noteq> EAGAIN then conn_handle_error sys H err c2 else c2)
                    else (drop (nat w) data, c1)
               else (data, c))
        in conn_enqueue B rest (conn_accept data c1))"

section \<open>The interface\<close>

definition conn_send_view ::
  "bool \<Rightarrow> 'b buffer_ops \<Rightarrow> net_os \<Rightarrow> 'b conn_hook \<Rightarrow> byte list \<Rightarrow> 'b tcp_conn \<Rightarrow> 'b tcp_conn" where
  "conn_send_view in_loop B sys H data c =
     (if in_loop then conn_handle_send B sys H data c
      else conn_run in_loop (conn_handle_send B sys H data) (TaskSend data) c)"

definition conn_send_string ::
  "bool \<Rightarrow> 'b buffer_ops \<Rightarrow> net_os \<Rightarrow> 'b conn_hook \<Rightarrow> byte list \<Rightarrow> 'b tcp_conn \<Rightarrow> 'b tcp_conn" where
  "conn_send_string in_loop B sys H data c =
     conn_run in_loop (conn_handle_send B sys H data) (TaskSend data) c"

text \<open>
  \<open>Send(ArrayBuffer*)\<close> with a buffer of the caller, which is reset; off the loop thread the
  task calls \<open>Send(string)\<close>, which runs at once there.
\<close>

definition conn_send_buffer ::
  "bool \<Rightarrow> 'b buffer_ops \<Rightarrow> net_os \<Rightarrow> 'b conn_hook \<Rightarrow> 'b \<Rightarrow> 'b tcp_conn \<Rightarrow> 'b \<times> 'b tcp_conn" where
  "conn_send_buffer in_loop B sys H buf c =
     (if in_loop then
        let c1 = conn_handle_send B sys H (bf_bytes B buf) c in (bf_reset B buf, c1)
      else
        let clone = bf_bytes B buf
        in (bf_reset B buf, c\<lparr>cn_tasks := cn_tasks c @ [TaskSend clone]\<rparr>))"

text \<open>The same with the connection's own output buffer.\<close>

definition conn_send_own ::
  "bool \<Rightarrow> 'b buffer_ops \<Rightarrow> net_os \<Rightarrow> 'b conn_hook \<Rightarrow> 'b tcp_conn \<Rightarrow> 'b tcp_conn" where
  "conn_send_own in_loop B sys H c =
     (if in_loop then
        if bf_readable_bytes B (cn_output c) \<noteq> 0
        then conn_handle_write B sys H (conn_set_writable True c) else c
      else
        let clone = bf_bytes B (cn_output c)
        in c\<lparr>cn_output := bf_reset B (cn_output c), cn_tasks := cn_tasks c @ [TaskSend clone]\<rparr>)"

section \<open>Registration\<close>

text \<open>\<open>EventLoop::Add\<close> on the loop thread, with the callback that \<open>Start\<close> gives it.\<close>

definition conn_add :: "'b conn_hook \<Rightarrow> 'b tcp_conn \<Rightarrow> 'b tcp_conn" where
  "conn_add H c =
     (if sc_watch (cn_channel c) \<noteq> None then c
      else
        let c1 = c\<lparr>cn_channel := (cn_channel c)\<lparr>sc_watch := Some kNoneEvent\<rparr>\<rparr>
        in if cn_state c1 \<noteq> Connecting then c1
           else conn_set_readable True (conn_notify H OnConnect (c1\<lparr>cn_state := Connected\<rparr>)))"

definition conn_start :: "bool \<Rightarrow> 'b conn_hook \<Rightarrow> 'b tcp_conn \<Rightarrow> 'b tcp_conn" where
  "conn_start in_loop H c = conn_run in_loop (conn_add H) TaskAdd (c\<lparr>cn_context := True\<rparr>)"

text \<open>
  The callbacks that \<open>Start\<close> installs, and what the loop does with an event that the selector
  reports for this channel: nothing if it is not registered any more.
\<close>

definition conn_callbacks ::
  "'b buffer_ops \<Rightarrow> net_os \<Rightarrow> 'b conn_hook \<Rightarrow> 'b tcp_conn socket_callbacks" where
  "conn_callbacks B sys H =
     \<lparr>cb_close = Some (conn_handle_close H),
      cb_error = Some (\<lambda>c. let (err, c1) = conn_get_error sys c in conn_handle_error sys H err c1),
      cb_read = Some (conn_handle_read B sys H),
      cb_write = Some (conn_handle_write B sys H)\<rparr>"

definition conn_io ::
  "'b buffer_ops \<Rightarrow> net_os \<Rightarrow> 'b conn_hook \<Rightarrow> receive_events \<Rightarrow> 'b tcp_conn \<Rightarrow> 'b tcp_conn" where
  "conn_io B sys H events c =
     (if sc_watch (cn_channel c) = None then c
      else sc_handle_events (conn_callbacks B sys H)
             (\<lambda>c. c\<lparr>cn_channel := sc_close (cn_channel c)\<rparr>) events c)"

fun conn_run_task ::
  "'b buffer_ops \<Rightarrow> net_os \<Rightarrow> 'b conn_hook \<Rightarrow> conn_task \<Rightarrow> 'b tcp_conn \<Rightarrow> 'b tcp_conn" where
  "conn_run_task B sys H TaskAdd c = conn_add H c"
| "conn_run_task B sys H (TaskSend data) c = conn_handle_send B sys H data c"
| "conn_run_task B sys H TaskClose c = conn_close_body B H c"
| "conn_run_task B sys H TaskForceClose c = conn_remove H c"
| "conn_run_task B sys H TaskShutdown c = conn_shutdown_body B c"
| "conn_run_task B sys H TaskForceShutdown c = conn_force_shutdown_body c"

section \<open>Handlers\<close>

text \<open>
  A handler decides, from the callback and the connection as it then is, which calls of the
  interface to make; they run on the loop thread.  \<open>CmdOutput\<close> is the use of
  \<open>ChannelContext::GetOutputBuffer\<close>: append bytes to the output buffer, then \<open>Send\<close> it; the
  context has no buffer to give before \<open>Start\<close> or after the close.  \<open>CmdConsume\<close> retrieves
  bytes from the input buffer, and \<open>CmdSendInput\<close> is \<open>Send(ArrayBuffer*)\<close> with the input buffer,
  which is reset afterwards.

  The last four are a handler's work on its own members: count the message in the input buffer;
  copy the input buffer for a timer of \<open>d\<close> microseconds and reset it; the lambda of such a
  timer, \<open>conn->Send(buf)\<close>; report the counters.

  A call can lead to another callback of the same handler, so the handler's effect is defined
  by the depth \<open>n\<close> of callbacks within callbacks; at depth 0 a callback does nothing.  Facts
  for all \<open>n\<close> cover every handler whose recursion ends.
\<close>

datatype conn_cmd =
  CmdSend "byte list" | CmdSendInput | CmdOutput "byte list" | CmdConsume nat | CmdClose | CmdForceClose |
  CmdShutdown | CmdForceShutdown | CmdCount | CmdSetAside usec | CmdSendAside nat | CmdReport

type_synonym 'b conn_handler = "conn_event \<Rightarrow> 'b tcp_conn \<Rightarrow> conn_cmd list"

definition conn_append_output :: "'b buffer_ops \<Rightarrow> byte list \<Rightarrow> 'b tcp_conn \<Rightarrow> 'b tcp_conn" where
  "conn_append_output B data c =
     c\<lparr>cn_output := bf_append B data (bf_ensure_writable B (length data) (cn_output c)),
       cn_sent := cn_sent c @ data\<rparr>"

definition handler_count :: "'b buffer_ops \<Rightarrow> 'b tcp_conn \<Rightarrow> 'b tcp_conn" where
  "handler_count B c =
     c\<lparr>cn_memory := (cn_memory c)\<lparr>hm_messages := hm_messages (cn_memory c) + 1,
       hm_bytes := hm_bytes (cn_memory c) + of_nat (bf_readable_bytes B (cn_input c))\<rparr>\<rparr>"

definition handler_set_aside :: "'b buffer_ops \<Rightarrow> usec \<Rightarrow> 'b tcp_conn \<Rightarrow> 'b tcp_conn" where
  "handler_set_aside B d c =
     c\<lparr>cn_memory := (cn_memory c)\<lparr>hm_delayed := hm_delayed (cn_memory c) @ [(d, bf_bytes B (cn_input c))]\<rparr>,
       cn_input := bf_reset B (cn_input c)\<rparr>"

definition handler_take_aside :: "nat \<Rightarrow> 'b tcp_conn \<Rightarrow> 'b tcp_conn" where
  "handler_take_aside i c =
     (let ds = hm_delayed (cn_memory c)
      in c\<lparr>cn_memory := (cn_memory c)\<lparr>hm_delayed := take i ds @ drop (Suc i) ds\<rparr>\<rparr>)"

definition handler_report :: "'b tcp_conn \<Rightarrow> 'b tcp_conn" where
  "handler_report c =
     c\<lparr>cn_memory := (cn_memory c)\<lparr>hm_reported := hm_reported (cn_memory c)
       @ [(hm_messages (cn_memory c), hm_bytes (cn_memory c))]\<rparr>\<rparr>"

lemmas handler_defs = handler_count_def handler_set_aside_def handler_take_aside_def handler_report_def

fun conn_exec ::
  "bool \<Rightarrow> 'b buffer_ops \<Rightarrow> net_os \<Rightarrow> 'b conn_hook \<Rightarrow> conn_cmd \<Rightarrow> 'b tcp_conn \<Rightarrow> 'b tcp_conn" where
  "conn_exec in_loop B sys H (CmdSend data) c = conn_send_view in_loop B sys H data c"
| "conn_exec in_loop B sys H CmdSendInput c =
     (if in_loop \<and> cn_context c then
        let c1 = conn_handle_send B sys H (bf_bytes B (cn_input c)) c
        in c1\<lparr>cn_input := bf_reset B (cn_input c1)\<rparr>
      else c)"
| "conn_exec in_loop B sys H (CmdOutput data) c =
     (if in_loop \<and> cn_context c then conn_send_own in_loop B sys H (conn_append_output B data c) else c)"
| "conn_exec in_loop B sys H (CmdConsume n) c =
     (if in_loop \<and> cn_context c then c\<lparr>cn_input := bf_retrieve B n (cn_input c)\<rparr> else c)"
| "conn_exec in_loop B sys H CmdClose c = conn_close in_loop B H c"
| "conn_exec in_loop B sys H CmdForceClose c = conn_force_close in_loop H c"
| "conn_exec in_loop B sys H CmdShutdown c = conn_shutdown in_loop B c"
| "conn_exec in_loop B sys H CmdForceShutdown c = conn_force_shutdown in_loop c"
| "conn_exec in_loop B sys H CmdCount c =
     (if in_loop \<and> cn_context c then handler_count B c else c)"
| "conn_exec in_loop B sys H (CmdSetAside d) c =
     (if in_loop \<and> cn_context c then handler_set_aside B d c else c)"
| "conn_exec in_loop B sys H (CmdSendAside i) c =
     (if in_loop \<and> i < length (hm_delayed (cn_memory c))
      then conn_send_string in_loop B sys H (snd (hm_delayed (cn_memory c) ! i)) (handler_take_aside i c)
      else c)"
| "conn_exec in_loop B sys H CmdReport c = (if in_loop then handler_report c else c)"

primrec conn_hooks ::
  "'b buffer_ops \<Rightarrow> net_os \<Rightarrow> 'b conn_handler \<Rightarrow> nat \<Rightarrow> 'b conn_hook" where
  "conn_hooks B sys handler 0 e c = c"
| "conn_hooks B sys handler (Suc n) e c =
     fold (conn_exec True B sys (conn_hooks B sys handler n)) (handler e c) c"

section \<open>Histories of a connection\<close>

text \<open>
  What can happen to a connection after \<open>Start\<close>: the loop runs the next of its tasks or
  handles an event of the channel, or code outside the handler makes a call, on another thread
  or on the loop thread (a timer, a task, the handler of another connection).  Only a
  registered connection's output buffer is assumed to be used from outside.  Each is one step, also
  the test and the store of another thread's \<open>ForceShutdown\<close>, which theory Tcp\_Connection\_Races
  takes apart.
\<close>

inductive conn_step ::
  "'b buffer_ops \<Rightarrow> net_os \<Rightarrow> 'b conn_hook \<Rightarrow> 'b tcp_conn \<Rightarrow> 'b tcp_conn \<Rightarrow> bool"
  for B sys H
where
  cs_task: "cn_tasks c = t # ts \<Longrightarrow> conn_step B sys H c (conn_run_task B sys H t (c\<lparr>cn_tasks := ts\<rparr>))"
| cs_io: "conn_step B sys H c (conn_io B sys H events c)"
| cs_thread: "conn_step B sys H c (conn_exec False B sys H cmd c)"
| cs_loop: "(\<forall>data. cmd = CmdOutput data \<longrightarrow> sc_watch (cn_channel c) \<noteq> None) \<Longrightarrow>
    conn_step B sys H c (conn_exec True B sys H cmd c)"

definition conn_initial ::
  "'b buffer_ops \<Rightarrow> 'b conn_hook \<Rightarrow> 'b tcp_conn \<Rightarrow> bool" where
  "conn_initial B H c \<longleftrightarrow> (\<exists>in_loop. c = conn_start in_loop H (conn_create B))"

end
