(* ===== verification/Tcp_Connection_Steps.thy ===== *)
theory Tcp_Connection_Steps
  imports Tcp_Connection
begin

text \<open>
  Every operation of a connection, with whatever its handler does in between, is a sequence of
  the elementary changes \<open>conn_micro\<close>.  A fact about all operations is thus a fact about these
  few changes: the locale \<open>connection_hooks\<close> proves it once for every preorder that contains
  them, and \<open>conn_hooks\<close>, the handlers of bounded depth, interpret it.
\<close>

section \<open>Elementary changes\<close>

inductive conn_micro :: "'b buffer_ops \<Rightarrow> net_os \<Rightarrow> 'b tcp_conn \<Rightarrow> 'b tcp_conn \<Rightarrow> bool"
  for B sys
where
  m_sys: "conn_micro B sys c (c\<lparr>cn_sys := k\<rparr>)"
| m_notify: "e \<noteq> OnClose \<Longrightarrow> e \<noteq> OnConnect \<Longrightarrow> conn_micro B sys c (c\<lparr>cn_trace := cn_trace c @ [e]\<rparr>)"
| m_connect: "cn_state c = Connecting \<Longrightarrow>
    conn_micro B sys c (c\<lparr>cn_state := Connected, cn_trace := cn_trace c @ [OnConnect]\<rparr>)"
| m_close: "cn_state c \<noteq> Disconnected \<Longrightarrow> conn_micro B sys c (c\<lparr>cn_state := Disconnected\<rparr>)"
| m_shutdown: "cn_state c \<noteq> Disconnected \<Longrightarrow> conn_micro B sys c (c\<lparr>cn_state := Disconnecting\<rparr>)"
| m_close_remove: "cn_state c \<noteq> Disconnected \<Longrightarrow> sc_watch (cn_channel c) \<noteq> None \<Longrightarrow>
    conn_micro B sys c (c\<lparr>cn_state := Disconnected, cn_channel := (cn_channel c)\<lparr>sc_watch := None\<rparr>,
      cn_trace := cn_trace c @ [OnClose]\<rparr>)"
| m_unlink: "conn_micro B sys c (c\<lparr>cn_latch := k, cn_context := False\<rparr>)"
| m_readable: "conn_micro B sys c (conn_set_readable True c)"
| m_idle: "cn_pending B c = [] \<Longrightarrow> conn_micro B sys c (conn_set_writable False c)"
| m_fin: "conn_micro B sys c (conn_close_write c)"
| m_force_fin: "conn_micro B sys c (conn_force_shutdown_body c)"
| m_send: "conn_micro B sys c (conn_enqueue B data (conn_accept data c))"
| m_send_rest: "cn_pending B c = [] \<Longrightarrow> conn_micro B sys c
    (conn_enqueue B (drop n data) (conn_accept data (c\<lparr>cn_sys := k, cn_wire := cn_wire c @ take n data\<rparr>)))"
| m_flush: "n = nat (os_write sys (cn_sys c) (cn_pending B c)) \<Longrightarrow> conn_micro B sys c
    (c\<lparr>cn_sys := k, cn_wire := cn_wire c @ take n (cn_pending B c), cn_output := bf_retrieve B n (cn_output c)\<rparr>)"
| m_output: "cn_pending B (conn_append_output B data c) \<noteq> [] \<Longrightarrow>
    conn_micro B sys c (conn_set_writable True (conn_append_output B data c))"
| m_output_none: "cn_pending B (conn_append_output B data c) = [] \<Longrightarrow>
    conn_micro B sys c (conn_append_output B data c)"
| m_input: "conn_micro B sys c (c\<lparr>cn_sys := k, cn_input := b, cn_received := r\<rparr>)"
| m_memory: "conn_micro B sys c (c\<lparr>cn_memory := m\<rparr>)"
| m_close_fd: "conn_micro B sys c (c\<lparr>cn_channel := sc_close (cn_channel c)\<rparr>)"

lemma conn_readable_zero [simp]: "bf_readable_bytes B (cn_output c) = 0 \<longleftrightarrow> cn_pending B c = []"
  by (simp add: bf_readable_bytes_def cn_pending_def)

section \<open>Every operation is a sequence of them\<close>

locale connection_hooks = callback_contract R
  for R :: "'b tcp_conn \<Rightarrow> 'b tcp_conn \<Rightarrow> bool" +
  fixes B :: "'b buffer_ops" and sys :: net_os and H :: "'b conn_hook"
  assumes micro: "conn_micro B sys c c' \<Longrightarrow> R c c'"
    and hook: "R c (H e c)"
begin

lemma R_notify: "e \<noteq> OnClose \<Longrightarrow> e \<noteq> OnConnect \<Longrightarrow> R c (conn_notify H e c)"
  unfolding conn_notify_def by (rule R_trans [OF micro [OF m_notify] hook])

text \<open>\<open>Remove\<close>, from the moment the selector has forgotten the channel and \<open>OnClose\<close> is called.\<close>

lemma R_removed:
  assumes "sc_watch (cn_channel c) \<noteq> None" and "cn_state c = Disconnected"
  shows "R (c\<lparr>cn_channel := (cn_channel c)\<lparr>sc_watch := None\<rparr>, cn_trace := cn_trace c @ [OnClose]\<rparr>) (conn_remove H c)"
proof -
  let ?c = "c\<lparr>cn_channel := (cn_channel c)\<lparr>sc_watch := None\<rparr>, cn_trace := cn_trace c @ [OnClose]\<rparr>"
  let ?d = "H OnClose ?c"
  have "R ?c ?d" by (rule hook)
  then have "R ?c (?d\<lparr>cn_latch := cn_latch ?d - 1, cn_context := False\<rparr>)"
    by (rule R_trans) (rule micro [OF m_unlink])
  with assms show ?thesis
    by (simp add: conn_remove_def conn_handle_remove_def conn_notify_def Let_def)
qed

lemma R_close_remove:
  assumes "cn_state c \<noteq> Disconnected"
  shows "R c (conn_remove H (c\<lparr>cn_state := Disconnected\<rparr>))"
proof (cases "sc_watch (cn_channel c) = None")
  case True
  then show ?thesis
    using micro [OF m_close [OF assms]] by (simp add: conn_remove_def)
next
  case False
  show ?thesis
    using R_trans [OF micro [OF m_close_remove [OF assms False]]] R_removed [of "c\<lparr>cn_state := Disconnected\<rparr>"] False
    by simp
qed

lemma R_handle_close: "R c (conn_handle_close H c)"
  unfolding conn_handle_close_def by (auto intro: R_refl R_close_remove)

lemma R_force_close: "R c (conn_force_close True H c)"
  unfolding conn_force_close_def conn_run_def by (auto intro: R_refl R_close_remove)

lemma R_close: "R c (conn_close True B H c)"
proof (cases "cn_state c = Connected")
  case True
  then have "R c (conn_remove H (c\<lparr>cn_state := Disconnected\<rparr>))" and "R c (c\<lparr>cn_state := Disconnected\<rparr>)"
    using R_close_remove [of c] micro [OF m_close, of c] by simp_all
  with True show ?thesis
    by (auto simp: conn_close_def conn_run_def conn_close_body_def)
qed (simp add: conn_close_def R_refl)

lemma R_shutdown_body: "R c (conn_shutdown_body B c)"
  unfolding conn_shutdown_body_def by (auto intro: R_refl R_trans [OF micro [OF m_idle] micro [OF m_fin]])

lemma R_shutdown: "R c (conn_shutdown True B c)"
  unfolding conn_shutdown_def conn_run_def
  by (auto intro: R_refl R_trans [OF micro [OF m_shutdown] R_shutdown_body])

lemma R_force_shutdown: "R c (conn_force_shutdown True c)"
  unfolding conn_force_shutdown_def conn_force_shutdown_store_def conn_run_def
  by (auto intro: R_refl R_trans [OF micro [OF m_shutdown] micro [OF m_force_fin]])

lemma R_handle_error: "R c (conn_handle_error sys H err c)"
  unfolding conn_handle_error_def by (auto intro: R_force_close R_notify)

lemma R_get_error: "conn_get_error sys c = (err, c') \<Longrightarrow> R c c'"
  by (auto simp: conn_get_error_def intro: micro m_sys)

lemma R_handle_read: "R c (conn_handle_read B sys H c)"
proof -
  have sys: "R c (c\<lparr>cn_sys := Suc (cn_sys c)\<rparr>)"
    by (rule micro) (rule m_sys)
  have input: "R c (c\<lparr>cn_sys := Suc (cn_sys c), cn_input := b, cn_received := r\<rparr>)" for b r
    by (rule micro) (rule m_input)
  show ?thesis
    unfolding conn_handle_read_def Let_def
    by (auto split: sum.split list.split
        intro: sys R_trans [OF sys R_handle_error] R_trans [OF sys R_handle_close] R_trans [OF input R_notify])
qed

lemma R_write_done: "R c (conn_write_done B H c)"
proof (cases "cn_pending B c = []")
  case True
  let ?c = "conn_notify H OnWriteComplete (conn_set_writable False c)"
  have "R c ?c"
    by (rule R_trans [OF micro [OF m_idle [OF True]] R_notify]) simp_all
  then have "R c (conn_close_write ?c)"
    by (rule R_trans) (rule micro [OF m_fin])
  with \<open>R c ?c\<close> True show ?thesis
    by (simp add: conn_write_done_def Let_def)
qed (simp add: conn_write_done_def R_refl)

lemma R_handle_write: "R c (conn_handle_write B sys H c)"
proof (cases "sc_writable (cn_channel c) \<and> cn_pending B c \<noteq> []")
  case False
  then show ?thesis
    by (auto simp: conn_handle_write_def intro: R_refl R_write_done)
next
  case True
  let ?n = "os_write sys (cn_sys c) (bf_bytes B (cn_output c))"
  let ?c = "c\<lparr>cn_sys := Suc (cn_sys c), cn_wire := cn_wire c @ take (nat ?n) (cn_pending B c)\<rparr>"
  show ?thesis
  proof (cases "?n < 0")
    case neg: True
    obtain err c2 where err: "conn_get_error sys (c\<lparr>cn_sys := Suc (cn_sys c)\<rparr>) = (err, c2)"
      by fastforce
    have "R c c2"
      by (rule R_trans [OF micro [OF m_sys] R_get_error [OF err]])
    with True neg err show ?thesis
      by (auto simp: conn_handle_write_def conn_write_def Let_def intro: R_trans R_handle_error)
  next
    case False
    have "R c (?c\<lparr>cn_output := bf_retrieve B (nat ?n) (cn_output c)\<rparr>)"
      by (rule micro, rule m_flush) (simp add: cn_pending_def)
    then have "R c (conn_write_done B H (?c\<lparr>cn_output := bf_retrieve B (nat ?n) (cn_output c)\<rparr>))"
      by (rule R_trans) (rule R_write_done)
    with True False show ?thesis
      by (simp add: conn_handle_write_def conn_write_def cn_pending_def Let_def)
  qed
qed

lemma R_send: "R c (conn_enqueue B data (conn_accept data c))"
  by (rule micro) (rule m_send)

lemma R_handle_send: "R c (conn_handle_send B sys H data c)"
proof (cases "cn_state c = Connected \<and> cn_pending B c = [] \<and> data \<noteq> []")
  case False
  then show ?thesis
    by (auto simp: conn_handle_send_def intro: R_refl R_send)
next
  case True
  let ?w = "os_write sys (cn_sys c) data"
  show ?thesis
  proof (cases "?w < 0")
    case neg: True
    obtain err c2 where err: "conn_get_error sys (c\<lparr>cn_sys := Suc (cn_sys c)\<rparr>) = (err, c2)"
      by fastforce
    have c2: "R c c2"
      by (rule R_trans [OF micro [OF m_sys] R_get_error [OF err]])
    have "R c (if err \<noteq> EWOULDBLOCK \<and> err \<noteq> EAGAIN then conn_handle_error sys H err c2 else c2)"
      using c2 R_trans [OF c2 R_handle_error] by simp
    with True neg err show ?thesis
      by (auto simp: conn_handle_send_def conn_write_def Let_def intro: R_trans R_send)
  next
    case False
    have "R c (conn_enqueue B (drop (nat ?w) data)
        (conn_accept data (c\<lparr>cn_sys := Suc (cn_sys c), cn_wire := cn_wire c @ take (nat ?w) data\<rparr>)))"
      using True by (intro micro m_send_rest) simp
    with True False show ?thesis
      by (simp add: conn_handle_send_def conn_write_def Let_def)
  qed
qed

lemma R_exec: "R c (conn_exec True B sys H cmd c)"
proof (cases cmd)
  case (CmdOutput data)
  let ?c = "conn_append_output B data c"
  have "R c (conn_send_own True B sys H ?c)"
  proof (cases "cn_pending B ?c = []")
    case True
    then show ?thesis
      by (simp add: conn_send_own_def micro [OF m_output_none])
  next
    case False
    then show ?thesis
      by (simp add: conn_send_own_def R_trans [OF micro [OF m_output [OF False]] R_handle_write])
  qed
  with CmdOutput show ?thesis by (simp add: R_refl)
next
  case (CmdConsume n)
  have "R c (c\<lparr>cn_sys := cn_sys c, cn_input := bf_retrieve B n (cn_input c), cn_received := cn_received c\<rparr>)"
    by (rule micro) (rule m_input)
  with CmdConsume show ?thesis by (simp add: R_refl)
next
  case CmdSendInput
  let ?c = "conn_handle_send B sys H (bf_bytes B (cn_input c)) c"
  have "R ?c (?c\<lparr>cn_sys := cn_sys ?c, cn_input := bf_reset B (cn_input ?c), cn_received := cn_received ?c\<rparr>)"
    by (rule micro) (rule m_input)
  then have "R c (?c\<lparr>cn_input := bf_reset B (cn_input ?c)\<rparr>)"
    using R_trans [OF R_handle_send] by simp
  with CmdSendInput show ?thesis by (simp add: R_refl Let_def)
next
  case CmdCount
  then show ?thesis by (simp add: handler_count_def R_refl micro [OF m_memory])
next
  case (CmdSetAside d)
  let ?c = "c\<lparr>cn_memory := cn_memory (handler_set_aside B d c)\<rparr>"
  have "R ?c (?c\<lparr>cn_sys := cn_sys ?c, cn_input := bf_reset B (cn_input ?c), cn_received := cn_received ?c\<rparr>)"
    by (rule micro) (rule m_input)
  then have "R c (?c\<lparr>cn_input := bf_reset B (cn_input ?c)\<rparr>)"
    using R_trans [OF micro [OF m_memory]] by simp
  with CmdSetAside show ?thesis by (simp add: handler_set_aside_def R_refl)
next
  case (CmdSendAside i)
  have "R c (handler_take_aside i c)"
    by (simp add: handler_take_aside_def Let_def micro [OF m_memory])
  with CmdSendAside show ?thesis
    by (simp add: conn_send_string_def conn_run_def R_refl R_trans [OF _ R_handle_send])
next
  case CmdReport
  then show ?thesis by (simp add: handler_report_def micro [OF m_memory])
qed (simp_all add: conn_send_view_def R_handle_send R_close R_force_close R_shutdown R_force_shutdown)

lemma R_callbacks:
  "R c (run_cb (cb_close (conn_callbacks B sys H)) c)"
  "R c (run_cb (cb_error (conn_callbacks B sys H)) c)"
  "R c (run_cb (cb_read (conn_callbacks B sys H)) c)"
  "R c (run_cb (cb_write (conn_callbacks B sys H)) c)"
  by (auto simp: run_cb_def conn_callbacks_def R_handle_close R_handle_read R_handle_write
      split: prod.split intro: R_trans [OF R_get_error R_handle_error])

lemma R_io: "R c (conn_io B sys H events c)"
  unfolding conn_io_def by (auto intro: R_refl R_handle_events R_callbacks micro m_close_fd)

lemma R_run_task:
  "task \<notin> {TaskAdd, TaskClose, TaskForceClose} \<Longrightarrow> R c (conn_run_task B sys H task c)"
  by (cases task) (simp_all add: R_handle_send R_shutdown_body micro [OF m_force_fin])

text \<open>\<open>Add\<close>, from the moment the selector has the channel.\<close>

lemma R_add:
  assumes "sc_watch (cn_channel c) = None"
  shows "R (c\<lparr>cn_channel := (cn_channel c)\<lparr>sc_watch := Some kNoneEvent\<rparr>\<rparr>) (conn_add H c)"
proof (cases "cn_state c = Connecting")
  case True
  let ?c = "c\<lparr>cn_channel := (cn_channel c)\<lparr>sc_watch := Some kNoneEvent\<rparr>\<rparr>"
  have "R ?c (?c\<lparr>cn_state := Connected, cn_trace := cn_trace c @ [OnConnect]\<rparr>)"
    using micro [OF m_connect, of ?c] True by simp
  then have "R ?c (conn_notify H OnConnect (?c\<lparr>cn_state := Connected\<rparr>))"
    by (simp add: conn_notify_def R_trans [OF _ hook])
  then have "R ?c (conn_set_readable True (conn_notify H OnConnect (?c\<lparr>cn_state := Connected\<rparr>)))"
    by (rule R_trans) (rule micro [OF m_readable])
  with assms True show ?thesis
    by (simp add: conn_add_def Let_def)
qed (use assms in \<open>simp add: conn_add_def R_refl\<close>)

end

section \<open>Handlers of bounded depth\<close>

lemma conn_hooks_contract:
  "connection_hooks (conn_micro B sys)\<^sup>*\<^sup>* B sys (conn_hooks B sys handler n)"
proof (induction n)
  case 0
  show ?case by unfold_locales auto
next
  case (Suc n)
  note exec = connection_hooks.R_exec [OF Suc]
  have "(conn_micro B sys)\<^sup>*\<^sup>* c (fold (conn_exec True B sys (conn_hooks B sys handler n)) cmds c)" for cmds c
  proof (induction cmds arbitrary: c)
    case (Cons cmd cmds)
    have "(conn_micro B sys)\<^sup>*\<^sup>* c (conn_exec True B sys (conn_hooks B sys handler n) cmd c)"
      by (rule exec)
    also have "(conn_micro B sys)\<^sup>*\<^sup>* \<dots> (fold (conn_exec True B sys (conn_hooks B sys handler n)) cmds \<dots>)"
      by (rule Cons.IH)
    finally show ?case by simp
  qed simp
  then show ?case by unfold_locales auto
qed

interpretation conn: connection_hooks "(conn_micro B sys)\<^sup>*\<^sup>*" B sys "conn_hooks B sys handler n"
  for B :: "'b buffer_ops" and sys and handler and n
  by (rule conn_hooks_contract)

text \<open>Invariants of the elementary changes are invariants of all operations.\<close>

lemma micro_invariant:
  assumes "(conn_micro B sys)\<^sup>*\<^sup>* c c'" and "P c"
    and "\<And>c c'. conn_micro B sys c c' \<Longrightarrow> P c \<Longrightarrow> P c'"
  shows "P c'"
  using assms(1,2) by (induction rule: rtranclp_induct) (auto intro: assms(3))

end
