(* ===== verification/Tcp_Connection_Invariants.thy ===== *)
theory Tcp_Connection_Invariants
  imports Tcp_Connection_Steps
begin

text \<open>
  What every history of a connection keeps: the byte stream, the write interest, the callbacks
  of the life cycle, and the direction in which the state moves.
\<close>

section \<open>The order of the states\<close>

instantiation conn_state :: linorder
begin

fun conn_rank :: "conn_state \<Rightarrow> nat" where
  "conn_rank Connecting = 0"
| "conn_rank Connected = 1"
| "conn_rank Disconnecting = 2"
| "conn_rank Disconnected = 3"

definition less_eq_conn_state :: "conn_state \<Rightarrow> conn_state \<Rightarrow> bool" where
  "s \<le> t \<longleftrightarrow> conn_rank s \<le> conn_rank t"

definition less_conn_state :: "conn_state \<Rightarrow> conn_state \<Rightarrow> bool" where
  "s < t \<longleftrightarrow> conn_rank s < conn_rank t"

instance
proof
  fix s t :: conn_state
  show "s \<le> t \<Longrightarrow> t \<le> s \<Longrightarrow> s = t"
    by (cases s; cases t) (auto simp: less_eq_conn_state_def)
qed (auto simp: less_eq_conn_state_def less_conn_state_def)

end

lemma conn_state_bounds [simp]: "Connecting \<le> s" "s \<le> Disconnected" "s \<noteq> Disconnected \<Longrightarrow> s \<le> Disconnecting"
  by (cases s; simp add: less_eq_conn_state_def)+

lemma Disconnected_le [simp]: "Disconnected \<le> s \<longleftrightarrow> s = Disconnected"
  by (simp add: antisym)

section \<open>Buffers and channels under the operations\<close>

lemma cn_pending_upd [simp]:
  "cn_pending B (c\<lparr>cn_state := s\<rparr>) = cn_pending B c"
  "cn_pending B (c\<lparr>cn_channel := ch\<rparr>) = cn_pending B c"
  "cn_pending B (c\<lparr>cn_trace := tr\<rparr>) = cn_pending B c"
  "cn_pending B (c\<lparr>cn_sys := k\<rparr>) = cn_pending B c"
  "cn_pending B (c\<lparr>cn_input := b\<rparr>) = cn_pending B c"
  "cn_pending B (c\<lparr>cn_memory := m\<rparr>) = cn_pending B c"
  "cn_pending B (c\<lparr>cn_received := xs\<rparr>) = cn_pending B c"
  "cn_pending B (c\<lparr>cn_wire := xs\<rparr>) = cn_pending B c"
  "cn_pending B (c\<lparr>cn_sent := xs\<rparr>) = cn_pending B c"
  "cn_pending B (c\<lparr>cn_fin := f\<rparr>) = cn_pending B c"
  "cn_pending B (c\<lparr>cn_latch := l\<rparr>) = cn_pending B c"
  "cn_pending B (c\<lparr>cn_context := x\<rparr>) = cn_pending B c"
  "cn_pending B (c\<lparr>cn_tasks := ts\<rparr>) = cn_pending B c"
  by (simp_all add: cn_pending_def)

lemma cn_pending_retrieve:
  assumes "buffer_ok B" and "n \<le> length (cn_pending B c)"
  shows "cn_pending B (c\<lparr>cn_output := bf_retrieve B n (cn_output c)\<rparr>) = drop n (cn_pending B c)"
  using assms by (simp add: cn_pending_def buffer_okD bf_readable_bytes_def)

lemma cn_pending_append_output:
  "buffer_ok B \<Longrightarrow> cn_pending B (conn_append_output B data c) = cn_pending B c @ data"
  by (simp add: cn_pending_def conn_append_output_def buffer_okD)

lemma cn_pending_set [simp]:
  "cn_pending B (conn_set_writable on c) = cn_pending B c"
  "cn_pending B (conn_set_readable on c) = cn_pending B c"
  by (simp_all add: conn_set_writable_def conn_set_readable_def)

lemma cn_pending_enqueue: "buffer_ok B \<Longrightarrow> cn_pending B (conn_enqueue B data c) = cn_pending B c @ data"
  by (auto simp: conn_enqueue_def Let_def cn_pending_def buffer_okD conn_set_writable_def)

lemma conn_enqueue_simps [simp]:
  "cn_sent (conn_enqueue B data c) = cn_sent c"
  "cn_wire (conn_enqueue B data c) = cn_wire c"
  "cn_trace (conn_enqueue B data c) = cn_trace c"
  "cn_state (conn_enqueue B data c) = cn_state c"
  "cn_fin (conn_enqueue B data c) = cn_fin c"
  "cn_tasks (conn_enqueue B data c) = cn_tasks c"
  "cn_channel (conn_enqueue B data c) = (if data = [] then cn_channel c else sc_set_writable True (cn_channel c))"
  by (simp_all add: conn_enqueue_def Let_def conn_set_writable_def)

lemma conn_accept_simps [simp]:
  "cn_sent (conn_accept data c) = cn_sent c @ data"
  "cn_wire (conn_accept data c) = cn_wire c"
  "cn_trace (conn_accept data c) = cn_trace c"
  "cn_state (conn_accept data c) = cn_state c"
  "cn_fin (conn_accept data c) = cn_fin c"
  "cn_tasks (conn_accept data c) = cn_tasks c"
  "cn_channel (conn_accept data c) = cn_channel c"
  "cn_output (conn_accept data c) = cn_output c"
  "cn_pending B (conn_accept data c) = cn_pending B c"
  by (simp_all add: conn_accept_def)

lemmas conn_small_defs = conn_set_writable_def conn_set_readable_def conn_close_write_def
  conn_force_shutdown_body_def conn_append_output_def

section \<open>The invariant of the elementary changes\<close>

text \<open>
  \<open>late\<close>: a ForceShutdown of another thread may have stored kDisconnecting over kDisconnected
  (theory Tcp\_Connection\_Races); after OnClose the state is then not known any more.
\<close>

definition conn_kept :: "bool \<Rightarrow> 'b buffer_ops \<Rightarrow> 'b tcp_conn \<Rightarrow> bool" where
  "conn_kept late B c \<longleftrightarrow>
     cn_wire c @ cn_pending B c = cn_sent c
   \<and> sc_synced (cn_channel c)
   \<and> (cn_pending B c \<noteq> [] \<longrightarrow> sc_writable (cn_channel c) \<or> cn_fin c)
   \<and> count_list (cn_trace c) OnClose \<le> 1
   \<and> (OnClose \<in> set (cn_trace c) \<longrightarrow> (late \<or> cn_state c = Disconnected) \<and> sc_watch (cn_channel c) = None)
   \<and> count_list (cn_trace c) OnConnect \<le> 1
   \<and> (cn_state c = Connecting \<longrightarrow> OnConnect \<notin> set (cn_trace c) \<and> OnClose \<notin> set (cn_trace c))"

abbreviation conn_good :: "'b buffer_ops \<Rightarrow> 'b tcp_conn \<Rightarrow> bool" where
  "conn_good B c \<equiv> conn_kept False B c"

lemmas conn_good_def = conn_kept_def

lemma count_list_snoc [simp]: "count_list (xs @ [x]) y = count_list xs y + (if x = y then 1 else 0)"
  by (induction xs) auto

lemma count_list_zero: "x \<notin> set xs \<Longrightarrow> count_list xs x = 0"
  by (simp add: count_list_0_iff)

lemma sc_synced_off [simp]: "sc_synced (ch\<lparr>sc_watch := None\<rparr>)" "sc_writable (ch\<lparr>sc_watch := w\<rparr>) = sc_writable ch"
  by (simp_all add: sc_synced_def sc_writable_def)

lemma micro_good:
  assumes ok: "buffer_ok B" "os_ok sys"
  shows "conn_micro B sys c c' \<Longrightarrow> conn_kept late B c \<Longrightarrow> conn_kept late B c'"
proof (induction rule: conn_micro.induct)
  case (m_flush n c k)
  have "n \<le> length (cn_pending B c)"
    using ok(2) m_flush(1) by (simp add: os_ok_def nat_le_iff)
  then have "cn_pending B (c\<lparr>cn_output := bf_retrieve B n (cn_output c)\<rparr>) = drop n (cn_pending B c)"
    by (rule cn_pending_retrieve [OF ok(1)])
  then have p: "cn_pending B (c\<lparr>cn_sys := k, cn_wire := cn_wire c @ take n (cn_pending B c),
      cn_output := bf_retrieve B n (cn_output c)\<rparr>) = drop n (cn_pending B c)"
    by (simp add: cn_pending_def)
  from m_flush(2) show ?case
    unfolding conn_good_def p by auto
next
  case (m_send c data)
  then show ?case
    unfolding conn_good_def cn_pending_enqueue [OF ok(1)] by auto
next
  case (m_send_rest c n data k)
  then show ?case
    unfolding conn_good_def cn_pending_enqueue [OF ok(1)] by auto
next
  case (m_output data c)
  then show ?case
    unfolding conn_good_def cn_pending_set cn_pending_append_output [OF ok(1)]
    by (auto simp: conn_set_writable_def conn_append_output_def)
next
  case (m_output_none data c)
  then show ?case
    unfolding conn_good_def cn_pending_append_output [OF ok(1)]
    by (auto simp: cn_pending_append_output [OF ok(1)]) (auto simp: conn_append_output_def)
qed (auto simp: conn_good_def conn_small_defs count_list_zero)

lemma micro_tasks: "conn_micro B sys c c' \<Longrightarrow> cn_tasks c' = cn_tasks c"
  by (induction rule: conn_micro.induct) (simp_all add: conn_small_defs)

text \<open>What only grows, or only moves forward.\<close>

definition conn_forward :: "'b tcp_conn \<Rightarrow> 'b tcp_conn \<Rightarrow> bool" where
  "conn_forward c c' \<longleftrightarrow>
     cn_state c \<le> cn_state c'
   \<and> (\<exists>xs. cn_wire c' = cn_wire c @ xs) \<and> (\<exists>xs. cn_sent c' = cn_sent c @ xs)
   \<and> (\<exists>es. cn_trace c' = cn_trace c @ es) \<and> (cn_fin c \<longrightarrow> cn_fin c')"

lemma conn_forward_refl [simp, intro]: "conn_forward c c"
  by (simp add: conn_forward_def)

lemma conn_forward_trans: "conn_forward c d \<Longrightarrow> conn_forward d e \<Longrightarrow> conn_forward c e"
  unfolding conn_forward_def by (metis append.assoc order.trans)

lemma micro_forward: "conn_micro B sys c c' \<Longrightarrow> conn_forward c c'"
  by (induction rule: conn_micro.induct) (simp_all add: conn_forward_def conn_small_defs)

lemma micros_good:
  assumes "buffer_ok B" and "os_ok sys" and "(conn_micro B sys)\<^sup>*\<^sup>* c c'" and "conn_kept late B c"
  shows "conn_kept late B c'"
  using assms(3,4) by (rule micro_invariant) (rule micro_good [OF assms(1,2)])

lemma micros_tasks: "(conn_micro B sys)\<^sup>*\<^sup>* c c' \<Longrightarrow> cn_tasks c' = cn_tasks c"
  by (erule micro_invariant [where P = "\<lambda>c'. cn_tasks c' = cn_tasks c"]) (auto dest: micro_tasks)

lemma micros_forward: "(conn_micro B sys)\<^sup>*\<^sup>* c c' \<Longrightarrow> conn_forward c c'"
  by (erule micro_invariant [where P = "conn_forward c"])
    (auto intro: conn_forward_trans micro_forward)

section \<open>The invariant of a connection\<close>

text \<open>
  Between \<open>Start\<close> and the task that registers the channel, which is there once, nothing has happened
  to it but a change of the state; from then on it is \<open>conn_good\<close>.
\<close>

definition conn_fresh :: "'b buffer_ops \<Rightarrow> 'b tcp_conn \<Rightarrow> bool" where
  "conn_fresh B c \<longleftrightarrow>
     count_list (cn_tasks c) TaskAdd = 1
   \<and> cn_channel c = sc_create \<and> cn_trace c = [] \<and> cn_wire c = [] \<and> cn_sent c = []
   \<and> cn_pending B c = [] \<and> cn_state c \<noteq> Connected"

definition conn_safe :: "bool \<Rightarrow> 'b buffer_ops \<Rightarrow> 'b tcp_conn \<Rightarrow> bool" where
  "conn_safe late B c \<longleftrightarrow> conn_fresh B c \<or> (TaskAdd \<notin> set (cn_tasks c) \<and> conn_kept late B c)"

abbreviation conn_inv :: "'b buffer_ops \<Rightarrow> 'b tcp_conn \<Rightarrow> bool" where
  "conn_inv B c \<equiv> conn_safe False B c"

lemmas conn_inv_def = conn_safe_def

lemma micros_inv:
  assumes "buffer_ok B" and "os_ok sys" and "(conn_micro B sys)\<^sup>*\<^sup>* c c'"
    and "TaskAdd \<notin> set (cn_tasks c)" and "conn_kept late B c"
  shows "conn_safe late B c'"
  using micros_good [OF assms(1-3,5)] micros_tasks [OF assms(3)] assms(4) by (simp add: conn_inv_def)

lemma conn_good_tasks [simp]: "conn_kept late B (c\<lparr>cn_tasks := ts\<rparr>) = conn_kept late B c"
  by (simp add: conn_good_def)

lemma sc_set_writable_create [simp]: "sc_set_writable False sc_create = sc_create"
  by (simp add: sc_set_writable_def sc_create_def se_remove_def kNoneEvent_def Let_def)

lemma conn_fresh_thread: "conn_fresh B c \<Longrightarrow> conn_fresh B (conn_exec False B sys H cmd c)"
  by (cases cmd) (auto simp: conn_fresh_def conn_send_view_def conn_run_def conn_close_def
      conn_force_close_def conn_shutdown_def conn_force_shutdown_def conn_force_shutdown_store_def)

lemma conn_fresh_loop:
  assumes "conn_fresh B c" and "\<And>data. cmd \<noteq> CmdOutput data"
  shows "conn_fresh B (conn_exec True B sys H cmd c)"
  using assms by (cases cmd) (auto simp: conn_fresh_def conn_send_view_def conn_run_def conn_close_def
      conn_force_close_def conn_shutdown_def conn_force_shutdown_def conn_force_shutdown_store_def conn_handle_send_def
      conn_remove_def conn_force_shutdown_body_def conn_close_write_def conn_set_writable_def
      conn_send_string_def handler_defs Let_def)

text \<open>
  A task that removes the channel finds it registered and the state final, or does nothing to
  its callbacks.
\<close>

lemma conn_remove_cases:
  fixes h :: "'b conn_handler"
  obtains (gone) "sc_watch (cn_channel c) = None" "conn_remove (conn_hooks B sys h n) c = c"
  | (early) "cn_state c \<noteq> Disconnected"
      "conn_remove (conn_hooks B sys h n) c = c\<lparr>cn_channel := (cn_channel c)\<lparr>sc_watch := None\<rparr>\<rparr>"
  | (now) "sc_watch (cn_channel c) \<noteq> None" "cn_state c = Disconnected" "(conn_micro B sys)\<^sup>*\<^sup>*
      (c\<lparr>cn_channel := (cn_channel c)\<lparr>sc_watch := None\<rparr>, cn_trace := cn_trace c @ [OnClose]\<rparr>)
      (conn_remove (conn_hooks B sys h n) c)"
proof (cases "sc_watch (cn_channel c) = None")
  case False
  then show ?thesis
    using early now conn.R_removed [OF False]
    by (cases "cn_state c = Disconnected") (auto simp: conn_remove_def conn_handle_remove_def)
qed (simp add: gone conn_remove_def)

lemma conn_remove_forward: "conn_forward c (conn_remove (conn_hooks B sys h n) c)"
proof (cases rule: conn_remove_cases [where c = c and B = B and sys = sys and h = h and n = n])
  case now
  have "conn_forward c (c\<lparr>cn_channel := (cn_channel c)\<lparr>sc_watch := None\<rparr>, cn_trace := cn_trace c @ [OnClose]\<rparr>)"
    by (simp add: conn_forward_def)
  then show ?thesis
    by (rule conn_forward_trans) (rule micros_forward [OF now(3)])
qed (simp_all add: conn_forward_def)

lemma conn_remove_inv:
  assumes ok: "buffer_ok B" "os_ok sys" and good: "conn_kept late B c" "TaskAdd \<notin> set (cn_tasks c)"
  shows "conn_safe late B (conn_remove (conn_hooks B sys h n) c)"
proof (cases rule: conn_remove_cases [where c = c and B = B and sys = sys and h = h and n = n])
  case now
  show ?thesis
    by (rule micros_inv [OF ok now(3)]) (use good now(1,2) in \<open>auto simp: conn_good_def count_list_zero\<close>)
qed (use good in \<open>auto simp: conn_inv_def conn_good_def\<close>)

lemma conn_good_thread:
  assumes "conn_kept late B c" and "TaskAdd \<notin> set (cn_tasks c)"
  shows "conn_kept late B (conn_exec False B sys H cmd c)" and "TaskAdd \<notin> set (cn_tasks (conn_exec False B sys H cmd c))"
  using assms by (cases cmd; auto simp: conn_good_def conn_send_view_def conn_run_def conn_close_def
      conn_force_close_def conn_shutdown_def conn_force_shutdown_def conn_force_shutdown_store_def)+

lemma conn_fresh_add:
  assumes ok: "buffer_ok B" "os_ok sys" and "conn_fresh B c" and "TaskAdd \<notin> set ts"
  shows "conn_safe late B (conn_add (conn_hooks B sys h n) (c\<lparr>cn_tasks := ts\<rparr>))"
proof -
  let ?c = "c\<lparr>cn_tasks := ts, cn_channel := (cn_channel c)\<lparr>sc_watch := Some kNoneEvent\<rparr>\<rparr>"
  have steps: "(conn_micro B sys)\<^sup>*\<^sup>* ?c (conn_add (conn_hooks B sys h n) (c\<lparr>cn_tasks := ts\<rparr>))"
    using conn.R_add [of "c\<lparr>cn_tasks := ts\<rparr>"] assms(3) by (simp add: conn_fresh_def)
  have "conn_kept late B ?c"
    using assms(3) by (auto simp: conn_fresh_def conn_good_def sc_synced_def sc_create_def)
  then show ?thesis
    using micros_good [OF ok steps] micros_tasks [OF steps] assms(4) by (auto simp: conn_inv_def)
qed

lemma conn_fresh_task:
  assumes "conn_fresh B c" and "t \<noteq> TaskAdd" and "count_list ts TaskAdd = 1"
  shows "conn_fresh B (conn_run_task B sys H t (c\<lparr>cn_tasks := ts\<rparr>))"
  using assms by (cases t) (auto simp: conn_fresh_def conn_handle_send_def conn_close_body_def conn_remove_def
      conn_shutdown_body_def conn_force_shutdown_body_def conn_close_write_def conn_set_writable_def)

text \<open>A task of the loop, wherever it stands among the queued ones.\<close>

lemma conn_task_inv:
  assumes ok: "buffer_ok B" "os_ok sys" and tasks: "cn_tasks c = us @ t # ts" and safe: "conn_safe late B c"
  shows "conn_safe late B (conn_run_task B sys (conn_hooks B sys h n) t (c\<lparr>cn_tasks := us @ ts\<rparr>))"
proof (cases "conn_fresh B c")
  case True
  show ?thesis
  proof (cases "t = TaskAdd")
    case add: True
    with True tasks have "TaskAdd \<notin> set (us @ ts)"
      by (simp add: conn_fresh_def count_list_0_iff)
    with conn_fresh_add [OF ok True, of "us @ ts" late h n] add show ?thesis by simp
  next
    case False
    with True tasks have "count_list (us @ ts) TaskAdd = 1"
      by (simp add: conn_fresh_def)
    from conn_fresh_task [OF True False this] show ?thesis
      by (simp add: conn_inv_def)
  qed
next
  case False
  with tasks safe have good: "conn_kept late B (c\<lparr>cn_tasks := us @ ts\<rparr>)" "t \<noteq> TaskAdd" "TaskAdd \<notin> set (us @ ts)"
    by (auto simp: conn_inv_def)
  show ?thesis
  proof (cases "t \<in> {TaskClose, TaskForceClose}")
    case True
    have "conn_safe late B (c\<lparr>cn_tasks := us @ ts\<rparr>)"
      using good by (simp add: conn_inv_def)
    with True show ?thesis
      using conn_remove_inv [OF ok good(1), where h = h and n = n] good(3) by (auto simp: conn_close_body_def)
  next
    case False
    with good(2) have steps: "(conn_micro B sys)\<^sup>*\<^sup>* (c\<lparr>cn_tasks := us @ ts\<rparr>)
        (conn_run_task B sys (conn_hooks B sys h n) t (c\<lparr>cn_tasks := us @ ts\<rparr>))"
      by (intro conn.R_run_task) simp
    show ?thesis
      by (rule micros_inv [OF ok steps]) (use good in simp_all)
  qed
qed

lemma conn_inv_step:
  assumes ok: "buffer_ok B" "os_ok sys"
  shows "conn_step B sys (conn_hooks B sys h n) c c' \<Longrightarrow> conn_safe late B c \<Longrightarrow> conn_safe late B c'"
proof (induction rule: conn_step.induct)
  case (cs_task c t ts)
  then show ?case
    using conn_task_inv [OF ok, of c "[]" t ts late h n] by simp
next
  case (cs_io c events)
  show ?case
  proof (cases "conn_fresh B c")
    case True
    with cs_io show ?thesis by (simp add: conn_fresh_def conn_io_def)
  next
    case False
    with cs_io show ?thesis
      by (intro micros_inv [OF ok conn.R_io]) (auto simp: conn_inv_def)
  qed
next
  case (cs_thread c cmd)
  then show ?case
    unfolding conn_inv_def by (meson conn_fresh_thread conn_good_thread)
next
  case (cs_loop cmd c)
  show ?case
  proof (cases "conn_fresh B c")
    case True
    then have "cmd \<noteq> CmdOutput data" for data
      using cs_loop by (auto simp: conn_fresh_def)
    with True show ?thesis by (simp add: conn_inv_def conn_fresh_loop)
  next
    case False
    with cs_loop show ?thesis
      by (intro micros_inv [OF ok conn.R_exec]) (auto simp: conn_inv_def)
  qed
qed

lemma conn_inv_initial:
  assumes ok: "buffer_ok B" "os_ok sys" and "conn_initial B (conn_hooks B sys h n) c"
  shows "conn_inv B c"
proof -
  let ?c = "(conn_create B)\<lparr>cn_context := True\<rparr>"
  have fresh: "conn_fresh B (?c\<lparr>cn_tasks := [TaskAdd]\<rparr>)"
    using ok(1) by (simp add: conn_fresh_def conn_create_def cn_pending_def buffer_okD)
  have none: "?c\<lparr>cn_tasks := []\<rparr> = ?c" "cn_tasks ?c = []"
    by (simp_all add: conn_create_def)
  from assms(3) obtain l where "c = conn_start l (conn_hooks B sys h n) (conn_create B)"
    by (auto simp: conn_initial_def)
  then consider "c = ?c\<lparr>cn_tasks := [TaskAdd]\<rparr>" | "c = conn_add (conn_hooks B sys h n) (?c\<lparr>cn_tasks := []\<rparr>)"
    using none by (cases l) (simp_all add: conn_start_def conn_run_def)
  then show ?thesis
    using fresh conn_fresh_add [OF ok fresh, where ts = "[]" and h = h and n = n and late = False] by cases (auto simp: conn_inv_def)
qed

lemma conn_system:
  assumes "buffer_ok B" and "os_ok sys"
  shows "invariant_system (conn_initial B (conn_hooks B sys h n)) (conn_step B sys (conn_hooks B sys h n)) (conn_inv B)"
  by unfold_locales (auto intro: conn_inv_initial conn_inv_step assms)

lemma conn_task_forward:
  "conn_forward (c\<lparr>cn_tasks := ts\<rparr>) (conn_run_task B sys (conn_hooks B sys h n) t (c\<lparr>cn_tasks := ts\<rparr>))"
proof (cases "t \<in> {TaskAdd, TaskClose, TaskForceClose}")
  case False
  then show ?thesis by (rule micros_forward [OF conn.R_run_task])
next
  case True
  let ?t = "c\<lparr>cn_tasks := ts\<rparr>"
  let ?c = "?t\<lparr>cn_channel := (cn_channel c)\<lparr>sc_watch := Some kNoneEvent\<rparr>\<rparr>"
  have "conn_forward ?c (conn_add (conn_hooks B sys h n) ?t)" if "sc_watch (cn_channel c) = None"
    using micros_forward [OF conn.R_add [of ?t]] that by simp
  moreover have "conn_forward ?t ?c"
    by (simp add: conn_forward_def)
  ultimately have "conn_forward ?t (conn_add (conn_hooks B sys h n) ?t)"
    by (cases "sc_watch (cn_channel c) = None") (auto simp: conn_add_def intro: conn_forward_trans)
  with True show ?thesis
    by (auto simp: conn_close_body_def conn_remove_forward)
qed

lemma conn_forward_step:
  "conn_step B sys (conn_hooks B sys h n) c c' \<Longrightarrow> conn_forward c c'"
proof (induction rule: conn_step.induct)
  case (cs_task c t ts)
  show ?case
    using conn_task_forward [where c = c and ts = ts and B = B and sys = sys and h = h and n = n and t = t] by (simp add: conn_forward_def)
next
  case (cs_io c events)
  show ?case by (rule micros_forward [OF conn.R_io])
next
  case (cs_thread c cmd)
  show ?case
    by (cases cmd) (auto simp: conn_forward_def conn_send_view_def conn_run_def conn_close_def
      conn_force_close_def conn_shutdown_def conn_force_shutdown_def conn_force_shutdown_store_def)
next
  case (cs_loop cmd c)
  show ?case by (rule micros_forward [OF conn.R_exec])
qed

text \<open>The weaker invariant, for the histories in which nothing is known of such stores.\<close>

lemma conn_safe_late: "conn_safe late B c \<Longrightarrow> conn_safe True B c"
  by (auto simp: conn_safe_def conn_kept_def)

end
