(* ===== verification/Tcp_Connection_Races.thy ===== *)
theory Tcp_Connection_Races
  imports Tcp_Connection_Invariants
begin

text \<open>
  The accesses of \<open>state_\<close> that other steps can fall between, in src/tcp\_connection.cc.
  \<open>ForceShutdown\<close> of another thread tests the state and stores kDisconnecting without an exchange:
  any number of threads can be past the test (\<open>cr_forcing\<close>) when the connection moves on.  A
  close on the loop thread (\<open>handleClose\<close>, \<open>ForceClose\<close>) stores kDisconnected first and lets
  \<open>handleRemove\<close> test the state later; between the two (\<open>cr_closing\<close>) the loop thread does nothing
  else, but the other threads go on.  \<open>cr_late\<close>: a store of \<open>ForceShutdown\<close> has found kDisconnected.

  The tasks of the loop, a list in \<open>cn_tasks\<close>, run in any order here: the default queue of a loop
  (EventLockFreeQueue) keeps no order between producers.  Everything else is a step of theory
  Tcp\_Connection, in which an operation of the loop thread with its callbacks is not interrupted.
\<close>

section \<open>The finer steps\<close>

record 'b conn_race =
  cr_conn :: "'b tcp_conn"
  cr_forcing :: nat
  cr_closing :: bool
  cr_late :: bool

definition cr_start :: "'b tcp_conn \<Rightarrow> 'b conn_race" where
  "cr_start c = \<lparr>cr_conn = c, cr_forcing = 0, cr_closing = False, cr_late = False\<rparr>"

definition cr_initial :: "'b buffer_ops \<Rightarrow> 'b conn_hook \<Rightarrow> 'b conn_race \<Rightarrow> bool" where
  "cr_initial B H r \<longleftrightarrow> (\<exists>c. conn_initial B H c \<and> r = cr_start c)"

definition cr_force_store :: "'b conn_race \<Rightarrow> 'b conn_race" where
  "cr_force_store r =
     r\<lparr>cr_conn := conn_force_shutdown_store False (cr_conn r), cr_forcing := cr_forcing r - 1,
       cr_late := cr_late r \<or> cn_state (cr_conn r) = Disconnected\<rparr>"

definition cr_close_store :: "'b conn_race \<Rightarrow> 'b conn_race" where
  "cr_close_store r = r\<lparr>cr_conn := (cr_conn r)\<lparr>cn_state := Disconnected\<rparr>, cr_closing := True\<rparr>"

definition cr_close_remove :: "'b conn_hook \<Rightarrow> 'b conn_race \<Rightarrow> 'b conn_race" where
  "cr_close_remove H r = r\<lparr>cr_conn := conn_remove H (cr_conn r), cr_closing := False\<rparr>"

inductive cr_step ::
  "'b buffer_ops \<Rightarrow> net_os \<Rightarrow> 'b conn_hook \<Rightarrow> 'b conn_race \<Rightarrow> 'b conn_race \<Rightarrow> bool"
  for B sys H
where
  cr_step: "\<not> cr_closing r \<Longrightarrow> conn_step B sys H (cr_conn r) c \<Longrightarrow> cr_step B sys H r (r\<lparr>cr_conn := c\<rparr>)"
| cr_task: "\<not> cr_closing r \<Longrightarrow> cn_tasks (cr_conn r) = us @ t # ts \<Longrightarrow>
    cr_step B sys H r (r\<lparr>cr_conn := conn_run_task B sys H t ((cr_conn r)\<lparr>cn_tasks := us @ ts\<rparr>)\<rparr>)"
| cr_thread: "cr_step B sys H r (r\<lparr>cr_conn := conn_exec False B sys H cmd (cr_conn r)\<rparr>)"
| cr_force_test: "cn_state (cr_conn r) \<noteq> Disconnected \<Longrightarrow>
    cr_step B sys H r (r\<lparr>cr_forcing := Suc (cr_forcing r)\<rparr>)"
| cr_force_store: "0 < cr_forcing r \<Longrightarrow> cr_step B sys H r (cr_force_store r)"
| cr_close_store: "\<not> cr_closing r \<Longrightarrow> cn_state (cr_conn r) \<noteq> Disconnected \<Longrightarrow>
    cr_step B sys H r (cr_close_store r)"
| cr_close_remove: "cr_closing r \<Longrightarrow> cr_step B sys H r (cr_close_remove H r)"

text \<open>Two halves with nothing in between are the call as theory Tcp\_Connection has it.\<close>

lemma force_shutdown_halves:
  assumes "cn_state (cr_conn r) \<noteq> Disconnected"
  shows "cr_conn (cr_force_store (r\<lparr>cr_forcing := Suc (cr_forcing r)\<rparr>)) = conn_force_shutdown False (cr_conn r)"
  using assms by (simp add: cr_force_store_def conn_force_shutdown_def)

lemma close_halves:
  assumes "cn_state (cr_conn r) \<noteq> Disconnected"
  shows "cr_conn (cr_close_remove H (cr_close_store r)) = conn_handle_close H (cr_conn r)"
    and "cr_conn (cr_close_remove H (cr_close_store r)) = conn_force_close True H (cr_conn r)"
  using assms
  by (simp_all add: cr_close_remove_def cr_close_store_def conn_handle_close_def conn_force_close_def conn_run_def)

text \<open>So every history of theory Tcp\_Connection is one of these.\<close>

lemma race_of_history:
  assumes "reachable (conn_initial B H) (conn_step B sys H) c"
  shows "reachable (cr_initial B H) (cr_step B sys H) (cr_start c)"
  using assms
proof (induction rule: reachable.induct)
  case (start c)
  then show ?case by (intro reachable.start) (auto simp: cr_initial_def)
next
  case (next_step c d)
  have "cr_step B sys H (cr_start c) ((cr_start c)\<lparr>cr_conn := d\<rparr>)"
    using next_step.hyps(2) by (intro cr_step.cr_step) (simp_all add: cr_start_def)
  then show ?case
    using next_step.IH by (auto simp: cr_start_def intro: reachable.next_step)
qed

section \<open>The invariant\<close>

definition race_inv :: "'b buffer_ops \<Rightarrow> 'b conn_race \<Rightarrow> bool" where
  "race_inv B r \<longleftrightarrow> conn_safe (cr_late r) B (cr_conn r)"

lemma fresh_state:
  "conn_fresh B c \<Longrightarrow> s \<noteq> Connected \<Longrightarrow> task \<noteq> TaskAdd \<Longrightarrow> conn_fresh B (c\<lparr>cn_state := s, cn_tasks := cn_tasks c @ [task]\<rparr>)"
  "conn_fresh B c \<Longrightarrow> s \<noteq> Connected \<Longrightarrow> conn_fresh B (c\<lparr>cn_state := s\<rparr>)"
  by (auto simp: conn_fresh_def)

lemma safe_force_store:
  assumes "conn_safe late B c"
  shows "conn_safe (late \<or> cn_state c = Disconnected) B (conn_force_shutdown_store False c)"
proof (cases "conn_fresh B c")
  case True
  then show ?thesis
    by (simp add: conn_safe_def conn_force_shutdown_store_def conn_run_def fresh_state)
next
  case False
  with assms show ?thesis
    by (auto simp: conn_safe_def conn_kept_def conn_force_shutdown_store_def conn_run_def)
qed

lemma safe_close_store: "conn_safe late B c \<Longrightarrow> conn_safe late B (c\<lparr>cn_state := Disconnected\<rparr>)"
  by (auto simp: conn_safe_def conn_kept_def fresh_state)

lemma safe_remove:
  assumes "buffer_ok B" and "os_ok sys" and "conn_safe late B c"
  shows "conn_safe late B (conn_remove (conn_hooks B sys h n) c)"
proof (cases "conn_fresh B c")
  case True
  then have "conn_remove (conn_hooks B sys h n) c = c"
    by (simp add: conn_fresh_def conn_remove_def)
  with assms(3) show ?thesis by simp
next
  case False
  with assms show ?thesis
    by (intro conn_remove_inv) (auto simp: conn_safe_def)
qed

lemma race_inv_step:
  assumes "buffer_ok B" and "os_ok sys" and "cr_step B sys (conn_hooks B sys h n) r r'" and "race_inv B r"
  shows "race_inv B r'"
  using assms(3,4)
proof (induction rule: cr_step.induct)
  case (cr_step r c)
  then show ?case
    using conn_inv_step [OF assms(1,2)] by (simp add: race_inv_def)
next
  case (cr_task r us t ts)
  then show ?case
    using conn_task_inv [OF assms(1,2)] by (simp add: race_inv_def)
next
  case (cr_thread r cmd)
  then show ?case
    using conn_inv_step [OF assms(1,2) cs_thread] by (simp add: race_inv_def)
next
  case (cr_force_test r)
  then show ?case by (simp add: race_inv_def)
next
  case (cr_force_store r)
  then show ?case by (simp add: race_inv_def cr_force_store_def safe_force_store)
next
  case (cr_close_store r)
  then show ?case by (simp add: race_inv_def cr_close_store_def safe_close_store)
next
  case (cr_close_remove r)
  then show ?case by (simp add: race_inv_def cr_close_remove_def safe_remove [OF assms(1,2)])
qed

lemma race_system:
  assumes "buffer_ok B" and "os_ok sys"
  shows "invariant_system (cr_initial B (conn_hooks B sys h n)) (cr_step B sys (conn_hooks B sys h n)) (race_inv B)"
proof
  show "race_inv B r" if "cr_initial B (conn_hooks B sys h n) r" for r
    using that conn_inv_initial [OF assms] by (auto simp: cr_initial_def race_inv_def cr_start_def)
qed (rule race_inv_step [OF assms])

section \<open>Without the bookkeeping\<close>

text \<open>
  For theories that put many connections together: the tasks in any order, and a store of another
  thread's ForceShutdown at any moment between two operations, since its test may lie as far back
  as the time when the connection was new.
\<close>

inductive conn_any_step ::
  "'b buffer_ops \<Rightarrow> net_os \<Rightarrow> 'b conn_hook \<Rightarrow> 'b tcp_conn \<Rightarrow> 'b tcp_conn \<Rightarrow> bool"
  for B sys H
where
  ca_step: "conn_step B sys H c c' \<Longrightarrow> conn_any_step B sys H c c'"
| ca_task: "cn_tasks c = us @ t # ts \<Longrightarrow>
    conn_any_step B sys H c (conn_run_task B sys H t (c\<lparr>cn_tasks := us @ ts\<rparr>))"
| ca_store: "conn_any_step B sys H c (conn_force_shutdown_store False c)"

lemma conn_any_inv:
  assumes "buffer_ok B" and "os_ok sys" and "conn_any_step B sys (conn_hooks B sys h n) c c'" and "conn_safe True B c"
  shows "conn_safe True B c'"
  using assms(3)
proof cases
  case ca_step
  then show ?thesis
    using conn_inv_step [OF assms(1,2)] assms(4) by blast
next
  case (ca_task us t ts)
  then show ?thesis
    using conn_task_inv [OF assms(1,2)] assms(4) by blast
next
  case ca_store
  then show ?thesis
    using safe_force_store [OF assms(4)] by simp
qed

end
