(* ===== verification/Tcp_Connection_Properties.thy ===== *)
theory Tcp_Connection_Properties
  imports Tcp_Connection_Races
begin

text \<open>
  The promises of a connection, for every handler, every behaviour of the kernel and the peer,
  and every order of events, tasks and calls; and the histories in which one of its promises
  is broken.
\<close>

section \<open>Inputs for the witnesses\<close>

text \<open>A kernel that takes at most two bytes a write, and one whose buffer is full.\<close>

definition slow_os :: net_os where
  "slow_os = \<lparr>os_write = \<lambda>k bs. int (min 2 (length bs)), os_read = \<lambda>k. Inr [9], os_so_error = \<lambda>k. 104, os_kOk = 0\<rparr>"

definition full_os :: net_os where
  "full_os = \<lparr>os_write = \<lambda>k bs. -1, os_read = \<lambda>k. Inl EAGAIN, os_so_error = \<lambda>k. 0, os_kOk = 0\<rparr>"

lemma slow_os_ok [simp]: "os_ok slow_os" by (simp add: os_ok_def slow_os_def)

text \<open>The callbacks of \<open>ChannelHandlerAdaptor\<close>, which a user's handler overrides.\<close>

definition quiet :: "'b conn_handler" where
  "quiet e c = []"

lemma quiet_hooks [simp]: "conn_hooks B sys quiet n e c = c"
  by (cases n) (simp_all add: quiet_def)

text \<open>A registered connection, after \<open>Start\<close> on the loop thread.\<close>

definition open_conn :: "(byte list \<times> nat) tcp_conn" where
  "open_conn = conn_start True (conn_hooks list_buffer slow_os quiet 0) (conn_create list_buffer)"

lemma open_conn_simps [simp]:
  "cn_state open_conn = Connected" "cn_pending list_buffer open_conn = []" "cn_tasks open_conn = []"
  "cn_trace open_conn = [OnConnect]" "cn_wire open_conn = []" "cn_sent open_conn = []" "cn_context open_conn"
  "\<not> cn_fin open_conn" "cn_sys open_conn = 0" "cn_output open_conn = ([], 0)" "cn_input open_conn = ([], 0)"
  by (simp_all add: open_conn_def conn_start_def conn_run_def conn_add_def conn_create_def conn_notify_def
      conn_set_readable_def cn_pending_def list_buffer_def)

lemma open_conn_channel [simp]:
  "sc_watch (cn_channel open_conn) \<noteq> None" "\<not> sc_writable (cn_channel open_conn)" "sc_synced (cn_channel open_conn)"
  "sc_watch (cn_channel open_conn) = Some kReadEvent" "sc_events (cn_channel open_conn) = kReadEvent"
  by (simp_all add: open_conn_def conn_start_def conn_run_def conn_add_def conn_create_def conn_notify_def
      conn_set_readable_def sc_set_readable_def sc_create_def sc_update_def sc_writable_def sc_synced_def se_ops
      poll_defs Let_def)

lemma open_conn_reachable:
  "reachable (conn_initial list_buffer (conn_hooks list_buffer slow_os quiet 0))
     (conn_step list_buffer slow_os (conn_hooks list_buffer slow_os quiet 0)) open_conn"
  by (rule reachable.start) (auto simp: conn_initial_def open_conn_def)

section \<open>The byte stream\<close>

text \<open>
  handleSend takes over exactly the bytes it is given when the connection is connected, as
  one piece and after everything taken over before (with a failed write, after what the error
  callback itself sent), and takes nothing and does nothing when it is not.
\<close>

theorem conn_send_accepts:
  "(cn_state c \<noteq> Connected \<longrightarrow> conn_handle_send B sys (conn_hooks B sys h n) data c = c)
   \<and> (cn_state c = Connected \<longrightarrow> (\<exists>xs. cn_sent (conn_handle_send B sys (conn_hooks B sys h n) data c) = cn_sent c @ xs @ data
        \<and> (cn_pending B c \<noteq> [] \<or> 0 \<le> os_write sys (cn_sys c) data \<longrightarrow> xs = [])))"
proof (intro conjI impI)
  assume conn: "cn_state c = Connected"
  let ?H = "conn_hooks B sys h n"
  let ?w = "os_write sys (cn_sys c) data"
  show "\<exists>xs. cn_sent (conn_handle_send B sys ?H data c) = cn_sent c @ xs @ data
      \<and> (cn_pending B c \<noteq> [] \<or> 0 \<le> ?w \<longrightarrow> xs = [])"
  proof (cases "cn_pending B c = [] \<and> data \<noteq> []")
    case False
    with conn show ?thesis
      by (intro exI [of _ "[]"]) (auto simp: conn_handle_send_def)
  next
    case True
    show ?thesis
    proof (cases "?w < 0")
      case False
      with conn True show ?thesis
        by (intro exI [of _ "[]"]) (simp add: conn_handle_send_def conn_write_def Let_def)
    next
      case neg: True
      let ?c = "c\<lparr>cn_sys := Suc (Suc (cn_sys c))\<rparr>"
      have "conn_forward ?c (conn_handle_error sys ?H err ?c)" for err
        by (rule micros_forward [OF conn.R_handle_error])
      then have "\<exists>xs. cn_sent (conn_handle_error sys ?H err ?c) = cn_sent c @ xs" for err
        by (simp add: conn_forward_def)
      with conn True neg show ?thesis
        by (auto simp: conn_handle_send_def conn_write_def conn_get_error_def Let_def)
    qed
  qed
qed (simp add: conn_handle_send_def)

theorem conn_send_accepts_witness:
  "cn_sent (conn_handle_send list_buffer slow_os (conn_hooks list_buffer slow_os quiet 0) [1, 2, 3] open_conn) = [1, 2, 3]"
  using conn_send_accepts [of open_conn list_buffer slow_os quiet 0 "[1, 2, 3]"] by (auto simp: slow_os_def)

text \<open>
  C1. In every history of a connection, also when other threads' ForceShutdown falls between its
  steps: the bytes the kernel took, followed by those in the output buffer, are exactly the bytes the
  user gave, in order, none lost and none twice (a call of Send counts with its whole argument
  when it finds the connection connected, whatever the kernel takes of it; data that an error
  callback sends within it goes first); whenever the output buffer is not empty the connection
  watches for writability, unless its write end is closed; and what the selector watches is what
  the channel says.
\<close>

theorem conn_stream_intact:
  assumes "buffer_ok B" and "os_ok sys" and "H = conn_hooks B sys h n"
    and "reachable (cr_initial B H) (cr_step B sys H) r" and "c = cr_conn r"
  shows "cn_wire c @ cn_pending B c = cn_sent c
    \<and> (\<forall>data. if cn_state c = Connected
         then \<exists>xs. cn_sent (conn_handle_send B sys H data c) = cn_sent c @ xs @ data
         else cn_sent (conn_handle_send B sys H data c) = cn_sent c)
    \<and> (cn_pending B c = [] \<or> sc_writable (cn_channel c) \<or> cn_fin c)
    \<and> (sc_watch (cn_channel c) = None \<or> sc_watch (cn_channel c) = Some (sc_events (cn_channel c)))"
proof -
  have "race_inv B r"
    using invariant_system.inv_reachable [OF race_system [OF assms(1,2)]] assms(3,4) by blast
  then have "cn_wire c @ cn_pending B c = cn_sent c"
    and "cn_pending B c = [] \<or> sc_writable (cn_channel c) \<or> cn_fin c" and "sc_synced (cn_channel c)"
    by (auto simp: assms(5) race_inv_def conn_safe_def conn_fresh_def conn_kept_def)
  moreover have "if cn_state c = Connected
      then \<exists>xs. cn_sent (conn_handle_send B sys H data c) = cn_sent c @ xs @ data
      else cn_sent (conn_handle_send B sys H data c) = cn_sent c" for data
    using conn_send_accepts [of c B sys h n data] assms(3) by auto
  ultimately show ?thesis
    by (auto simp: sc_synced_def)
qed

theorem conn_stream_intact_witness:
  "\<exists>c. cn_sent c = [1, 2, 3] \<and> cn_wire c = [1, 2] \<and> cn_pending list_buffer c = [3] \<and> sc_writable (cn_channel c)"
proof -
  let ?H = "conn_hooks list_buffer slow_os quiet 0"
  let ?c = "conn_exec True list_buffer slow_os ?H (CmdSend [1, 2, 3]) open_conn"
  have eqs: "cn_sent ?c = [1, 2, 3]" "cn_wire ?c = [1, 2]" "cn_fin ?c = False"
    by (simp_all add: conn_send_view_def conn_handle_send_def conn_write_def slow_os_def Let_def)
  have "reachable (conn_initial list_buffer ?H) (conn_step list_buffer slow_os ?H) ?c"
    by (rule reachable.next_step [OF open_conn_reachable], rule cs_loop) simp
  note r = race_of_history [OF this]
  have "cr_conn (cr_start ?c) = ?c"
    by (simp add: cr_start_def)
  with conn_stream_intact [OF list_buffer_ok slow_os_ok refl r refl] eqs show ?thesis
    by (intro exI [of _ ?c]) auto
qed

section \<open>The life cycle\<close>

text \<open>
  C2. In every history of a connection, with any number of other threads between the test and the
  store of their ForceShutdown: OnConnect and OnClose have each been called at most once, and once
  OnClose has been called the channel is not registered, and the connection is disconnected unless
  such a store has fallen on a connection that already was.  (Such a store leaves a closed connection
  in kDisconnecting; the operations of the loop thread are not interrupted otherwise, except that
  other threads can come between the two halves of handleClose and ForceClose.)
\<close>

theorem conn_callbacks_once:
  assumes "buffer_ok B" and "os_ok sys" and "H = conn_hooks B sys h n"
    and "reachable (cr_initial B H) (cr_step B sys H) r" and "c = cr_conn r"
  shows "count_list (cn_trace c) OnConnect \<le> 1 \<and> count_list (cn_trace c) OnClose \<le> 1
    \<and> (OnClose \<in> set (cn_trace c) \<longrightarrow>
         sc_watch (cn_channel c) = None \<and> (cn_state c = Disconnected \<or> cr_late r))"
proof -
  have "race_inv B r"
    using invariant_system.inv_reachable [OF race_system [OF assms(1,2)]] assms(3,4) by blast
  then show ?thesis
    by (auto simp: assms(5) race_inv_def conn_safe_def conn_fresh_def conn_kept_def)
qed

text \<open>ForceShutdown of another thread passes its test, the loop thread closes, then comes the store.\<close>

definition late_race :: "(byte list \<times> nat) conn_race" where
  "late_race = cr_force_store (cr_close_remove (conn_hooks list_buffer slow_os quiet 0)
     (cr_close_store ((cr_start open_conn)\<lparr>cr_forcing := 1\<rparr>)))"

lemma late_race_simps:
  "cn_trace (cr_conn late_race) = [OnConnect, OnClose]" "cn_state (cr_conn late_race) = Disconnecting"
  "cr_late late_race" "sc_watch (cn_channel (cr_conn late_race)) = None"
  by (simp_all add: late_race_def cr_force_store_def cr_close_remove_def cr_close_store_def cr_start_def
      conn_force_shutdown_store_def conn_run_def conn_remove_def conn_handle_remove_def conn_notify_def Let_def)

lemma late_race_reachable:
  "reachable (cr_initial list_buffer (conn_hooks list_buffer slow_os quiet 0))
     (cr_step list_buffer slow_os (conn_hooks list_buffer slow_os quiet 0)) late_race"
proof -
  let ?H = "conn_hooks list_buffer slow_os quiet 0"
  let ?step = "cr_step list_buffer slow_os ?H"
  let ?r = "(cr_start open_conn)\<lparr>cr_forcing := 1\<rparr>"
  have "?step (cr_start open_conn) ?r"
    using cr_force_test [of "cr_start open_conn" list_buffer slow_os ?H] by (simp add: cr_start_def)
  moreover have "?step ?r (cr_close_store ?r)"
    by (rule cr_step.cr_close_store) (simp_all add: cr_start_def)
  moreover have "?step (cr_close_store ?r) (cr_close_remove ?H (cr_close_store ?r))"
    by (rule cr_step.cr_close_remove) (simp add: cr_close_store_def)
  moreover have "?step (cr_close_remove ?H (cr_close_store ?r)) late_race"
    unfolding late_race_def
    by (rule cr_step.cr_force_store) (simp add: cr_start_def cr_close_store_def cr_close_remove_def)
  ultimately show ?thesis
    using race_of_history [OF open_conn_reachable] by (blast intro: reachable.next_step)
qed

theorem conn_callbacks_once_witness:
  "count_list (cn_trace (cr_conn late_race)) OnClose \<le> 1 \<and> cn_state (cr_conn late_race) = Disconnecting
   \<and> sc_watch (cn_channel (cr_conn late_race)) = None \<and> OnClose \<in> set (cn_trace (cr_conn late_race))"
  using conn_callbacks_once [OF list_buffer_ok slow_os_ok refl late_race_reachable refl] late_race_simps by simp

text \<open>
  In a step of theory Tcp\_Connection, with ForceShutdown in one piece, the state of a connection
  only moves forward (connecting, connected, disconnecting, disconnected), and what it has written,
  accepted and called back is never taken back.
\<close>

theorem conn_moves_forward:
  assumes "conn_step B sys (conn_hooks B sys h n) c c'"
  shows "cn_state c \<le> cn_state c' \<and> (\<exists>xs. cn_wire c' = cn_wire c @ xs) \<and> (\<exists>xs. cn_sent c' = cn_sent c @ xs)
    \<and> (\<exists>es. cn_trace c' = cn_trace c @ es) \<and> (cn_fin c \<longrightarrow> cn_fin c')"
  using conn_forward_step [OF assms] by (simp add: conn_forward_def)

theorem conn_moves_forward_witness:
  "Connected \<le> cn_state (conn_exec False list_buffer slow_os (conn_hooks list_buffer slow_os quiet 0) CmdShutdown open_conn)"
  using conn_moves_forward [OF cs_thread [of list_buffer slow_os "conn_hooks list_buffer slow_os quiet 0" open_conn CmdShutdown]]
  by simp

end
