(* ===== verification/Tcp_Connection_Closing.thy ===== *)
theory Tcp_Connection_Closing
  imports Tcp_Connection_Properties
begin

text \<open>
  How a connection ends: what \<open>Shutdown\<close> and \<open>Close\<close> do with output that is still waiting,
  what a full socket buffer leads to, which callbacks come after \<open>OnClose\<close>, and the race
  between \<open>ForceShutdown\<close> on another thread and the close on the loop thread.
\<close>

section \<open>Shutdown\<close>

text \<open>A handler that makes no calls in OnWriteComplete, whatever it does elsewhere.\<close>

lemma hooks_write_complete:
  "(\<And>x. h OnWriteComplete x = []) \<Longrightarrow> conn_hooks B sys h n OnWriteComplete c = c"
  by (cases n) simp_all

text \<open>One write event of a connection with waiting output: what is left decides.\<close>

lemma conn_handle_write_flush:
  assumes "buffer_ok B" and "\<And>x. h OnWriteComplete x = []"
    and "cn_state c = Disconnecting" and "sc_writable (cn_channel c)" and "cn_pending B c \<noteq> []"
    and n: "os_write sys (cn_sys c) (cn_pending B c) = int m" "m \<le> length (cn_pending B c)"
    and d: "d = conn_handle_write B sys (conn_hooks B sys h n) c"
  shows "cn_wire d = cn_wire c @ take m (cn_pending B c)" and "cn_pending B d = drop m (cn_pending B c)"
    and "cn_fin d = (cn_fin c \<or> drop m (cn_pending B c) = [])"
    and "drop m (cn_pending B c) \<noteq> [] \<Longrightarrow> cn_state d = Disconnecting \<and> sc_writable (cn_channel d)"
proof -
  let ?d = "c\<lparr>cn_sys := Suc (cn_sys c), cn_wire := cn_wire c @ take m (cn_pending B c),
      cn_output := bf_retrieve B m (cn_output c)\<rparr>"
  have pending: "cn_pending B ?d = drop m (cn_pending B c)"
    using cn_pending_retrieve [OF assms(1) n(2)] by (simp add: cn_pending_def)
  have "d = conn_write_done B (conn_hooks B sys h n) ?d"
    using assms(4,5) n d by (simp add: conn_handle_write_def conn_write_def Let_def cn_pending_def)
  then have "d = (if drop m (cn_pending B c) = []
      then conn_close_write (conn_set_writable False ?d\<lparr>cn_trace := cn_trace c @ [OnWriteComplete]\<rparr>) else ?d)"
    using pending assms(3) hooks_write_complete [where h = h, OF assms(2)]
    by (simp add: conn_write_done_def conn_notify_def conn_set_writable_def cn_pending_def bf_readable_bytes_def Let_def)
  then show "cn_wire d = cn_wire c @ take m (cn_pending B c)" and "cn_pending B d = drop m (cn_pending B c)"
    and "cn_fin d = (cn_fin c \<or> drop m (cn_pending B c) = [])"
    and "drop m (cn_pending B c) \<noteq> [] \<Longrightarrow> cn_state d = Disconnecting \<and> sc_writable (cn_channel d)"
    using pending assms(3,4) by (auto simp: conn_close_write_def conn_set_writable_def cn_pending_def)
qed

text \<open>The state after some write events, in terms of what is still waiting then.\<close>

definition flushing :: "'b buffer_ops \<Rightarrow> 'b tcp_conn \<Rightarrow> 'b tcp_conn \<Rightarrow> bool" where
  "flushing B c e \<longleftrightarrow>
     cn_wire e @ cn_pending B e = cn_wire c @ cn_pending B c \<and> (cn_fin e \<longleftrightarrow> cn_fin c \<or> cn_pending B e = [])"

lemma conn_flush_ends:
  assumes ok: "buffer_ok B" and h: "\<And>x. h OnWriteComplete x = []"
    and progress: "\<And>k bs. bs \<noteq> [] \<Longrightarrow> 0 < os_write sys k bs \<and> os_write sys k bs \<le> int (length bs)"
  shows "cn_state c = Disconnecting \<Longrightarrow> sc_writable (cn_channel c) \<Longrightarrow> cn_pending B c \<noteq> [] \<Longrightarrow>
    \<exists>k \<le> length (cn_pending B c). cn_pending B ((conn_handle_write B sys (conn_hooks B sys h n) ^^ k) c) = []
      \<and> (\<forall>j \<le> k. flushing B c ((conn_handle_write B sys (conn_hooks B sys h n) ^^ j) c))"
proof (induction "length (cn_pending B c)" arbitrary: c rule: less_induct)
  case less
  let ?w = "conn_handle_write B sys (conn_hooks B sys h n)"
  obtain m where m: "os_write sys (cn_sys c) (cn_pending B c) = int m" "0 < m" "m \<le> length (cn_pending B c)"
    using progress [OF less.prems(3), of "cn_sys c"] by (metis int_eq_iff nat_le_iff of_nat_0_less_iff order_less_imp_le)
  note step = conn_handle_write_flush [where h = h and n = n and sys = sys, OF ok h less.prems m(1,3) refl]
  have now: "flushing B c c" "flushing B c (?w c)"
    using less.prems(3) step(1-3) by (auto simp: flushing_def)
  show ?case
  proof (cases "drop m (cn_pending B c) = []")
    case True
    then have "cn_pending B (?w c) = []"
      using step(2) by simp
    with now less.prems(3) show ?thesis
      by (intro exI [of _ 1]) (auto simp: Suc_le_eq le_Suc_eq)
  next
    case False
    have "length (cn_pending B (?w c)) < length (cn_pending B c)"
      using step(2) m(2,3) by simp
    from less.hyps [OF this] step(2,4) False obtain k where k: "k \<le> length (drop m (cn_pending B c))"
        "cn_pending B ((?w ^^ k) (?w c)) = []" "\<And>j. j \<le> k \<Longrightarrow> flushing B (?w c) ((?w ^^ j) (?w c))"
      by auto
    have "flushing B c ((?w ^^ Suc j) c)" if "j \<le> k" for j
      using k(3) [OF that] now(2) step(2) False by (auto simp: flushing_def funpow_Suc_right simp del: funpow.simps)
    then have "flushing B c ((?w ^^ j) c)" if "j \<le> Suc k" for j
      using that now(1) by (cases j) (simp_all del: funpow.simps)
    with k(1,2) m(2,3) show ?thesis
      by (intro exI [of _ "Suc k"]) (auto simp: funpow_Suc_right simp del: funpow.simps)
  qed
qed

text \<open>
  C27. Graceful shutdown, for every handler that makes no calls in OnWriteComplete: after Shutdown
  on the loop thread of a connected connection with waiting output, as long as each write event
  finds room for at least one byte, at most as many write events as there are waiting bytes bring
  all of them to the kernel, in order; and after each of these events, as at the start, the write
  end is closed exactly if nothing is waiting any more (or it was closed before Shutdown).  With no
  waiting output Shutdown closes the write end at once.
\<close>

theorem conn_shutdown_flushes:
  assumes "buffer_ok B" and "cn_state c = Connected" and "sc_writable (cn_channel c) \<or> cn_pending B c = []"
    and "\<And>k bs. bs \<noteq> [] \<Longrightarrow> 0 < os_write sys k bs \<and> os_write sys k bs \<le> int (length bs)"
    and "\<And>x. h OnWriteComplete x = []"
    and "after = (\<lambda>j. (conn_handle_write B sys (conn_hooks B sys h n) ^^ j) (conn_shutdown True B c))"
  shows "\<exists>k \<le> length (cn_pending B c).
      cn_wire (after k) = cn_wire c @ cn_pending B c \<and> cn_pending B (after k) = [] \<and> cn_fin (after k)
    \<and> (\<forall>j \<le> k. cn_wire (after j) @ cn_pending B (after j) = cn_wire c @ cn_pending B c
         \<and> (cn_fin (after j) \<longleftrightarrow> cn_fin c \<or> cn_pending B (after j) = []))"
proof (cases "cn_pending B c = []")
  case True
  with assms(2) show ?thesis
    unfolding assms(6) by (intro exI [of _ 0])
      (simp add: conn_shutdown_def conn_run_def conn_shutdown_body_def conn_close_write_def conn_set_writable_def)
next
  case False
  with assms(2) have "conn_shutdown True B c = c\<lparr>cn_state := Disconnecting\<rparr>"
    by (simp add: conn_shutdown_def conn_run_def conn_shutdown_body_def)
  then obtain k where k: "k \<le> length (cn_pending B c)" "cn_pending B (after k) = []"
      "\<And>j. j \<le> k \<Longrightarrow> flushing B c (after j)"
    using conn_flush_ends [where h = h, OF assms(1,5,4), of "c\<lparr>cn_state := Disconnecting\<rparr>" n] assms(3) False
    unfolding assms(6) by (auto simp: flushing_def)
  with k(3) [of k] show ?thesis
    by (intro exI [of _ k]) (auto simp: flushing_def)
qed

text \<open>Three bytes are waiting, of which the kernel takes two.\<close>

definition waiting_conn :: "(byte list \<times> nat) tcp_conn" where
  "waiting_conn = conn_set_writable True (open_conn\<lparr>cn_output := ([1, 2, 3], 0)\<rparr>)"

lemma waiting_conn_simps:
  "cn_state waiting_conn = Connected" "sc_writable (cn_channel waiting_conn)"
  "cn_pending list_buffer waiting_conn = [1, 2, 3]" "cn_wire waiting_conn = []" "\<not> cn_fin waiting_conn"
  by (simp_all add: waiting_conn_def conn_set_writable_def cn_pending_def)

theorem conn_shutdown_flushes_witness:
  "\<exists>after k. after = (\<lambda>j. (conn_handle_write list_buffer slow_os (conn_hooks list_buffer slow_os quiet 0) ^^ j)
      (conn_shutdown True list_buffer waiting_conn))
    \<and> k \<le> 3 \<and> cn_wire (after k) = [1, 2, 3] \<and> cn_fin (after k) \<and> \<not> cn_fin (after 0)"
proof -
  define after where "after = (\<lambda>j. (conn_handle_write list_buffer slow_os (conn_hooks list_buffer slow_os quiet 0) ^^ j)
      (conn_shutdown True list_buffer waiting_conn))"
  have "cn_pending list_buffer (after 0) = [1, 2, 3]"
    unfolding after_def by (simp add: waiting_conn_def conn_shutdown_def conn_run_def conn_shutdown_body_def
        conn_set_writable_def cn_pending_def)
  moreover have "\<exists>k \<le> length (cn_pending list_buffer waiting_conn).
      cn_wire (after k) = cn_wire waiting_conn @ cn_pending list_buffer waiting_conn
    \<and> cn_pending list_buffer (after k) = [] \<and> cn_fin (after k)
    \<and> (\<forall>j \<le> k. cn_wire (after j) @ cn_pending list_buffer (after j) = cn_wire waiting_conn @ cn_pending list_buffer waiting_conn
         \<and> (cn_fin (after j) \<longleftrightarrow> cn_fin waiting_conn \<or> cn_pending list_buffer (after j) = []))"
    by (rule conn_shutdown_flushes [where h = quiet and n = 0 and sys = slow_os, OF list_buffer_ok waiting_conn_simps(1)])
      (auto simp: waiting_conn_simps after_def slow_os_def Suc_le_eq quiet_def)
  ultimately show ?thesis
    unfolding waiting_conn_simps(3,4) after_def [symmetric]
    using waiting_conn_simps(5) by (intro exI [of _ after]) (auto simp: numeral_3_eq_3)
qed

section \<open>Close\<close>

text \<open>
  A disconnected connection that is still registered and has no task left that would remove it.
\<close>

definition conn_orphan :: "'b tcp_conn \<Rightarrow> bool" where
  "conn_orphan c \<longleftrightarrow>
     cn_state c = Disconnected \<and> sc_watch (cn_channel c) \<noteq> None \<and> OnClose \<notin> set (cn_trace c)
   \<and> set (cn_tasks c) \<inter> {TaskAdd, TaskClose, TaskForceClose} = {}"

lemma micro_orphan: "conn_micro B sys c c' \<Longrightarrow> conn_orphan c \<Longrightarrow> conn_orphan c'"
  by (induction rule: conn_micro.induct) (simp_all add: conn_orphan_def conn_small_defs del: not_None_eq)

lemma micros_orphan: "(conn_micro B sys)\<^sup>*\<^sup>* c c' \<Longrightarrow> conn_orphan c \<Longrightarrow> conn_orphan c'"
  by (erule micro_invariant) (auto intro: micro_orphan)

lemma conn_orphan_step:
  "conn_step B sys (conn_hooks B sys h n) c c' \<Longrightarrow> conn_orphan c \<Longrightarrow> conn_orphan c'"
proof (induction rule: conn_step.induct)
  case (cs_task c t ts)
  then have "t \<notin> {TaskAdd, TaskClose, TaskForceClose}" and "conn_orphan (c\<lparr>cn_tasks := ts\<rparr>)"
    by (auto simp: conn_orphan_def)
  then show ?case
    by (intro micros_orphan [OF conn.R_run_task])
next
  case (cs_io c events)
  then show ?case by (intro micros_orphan [OF conn.R_io])
next
  case (cs_thread c cmd)
  then show ?case
    by (cases cmd) (auto simp: conn_orphan_def conn_send_view_def conn_run_def conn_close_def
      conn_force_close_def conn_shutdown_def conn_force_shutdown_def)
next
  case (cs_loop cmd c)
  then show ?case by (intro micros_orphan [OF conn.R_exec])
qed

text \<open>
  Close of a connected, registered connection on its loop thread: with an empty output
  buffer the channel is removed and OnClose called; with waiting output, whatever happens
  afterwards (the flush of the output, the peer's close, errors, ForceClose, other threads' calls,
  with ForceShutdown in one piece), the channel stays
  registered, OnClose is never called and ForceClose has no effect.
\<close>

theorem conn_close_strands:
  assumes "cn_state c = Connected" and "sc_watch (cn_channel c) \<noteq> None" and "OnClose \<notin> set (cn_trace c)"
    and "set (cn_tasks c) \<inter> {TaskAdd, TaskClose, TaskForceClose} = {}"
    and "(conn_step B sys (conn_hooks B sys h n))\<^sup>*\<^sup>* (conn_close True B (conn_hooks B sys h n) c) d"
  shows "(cn_pending B c = [] \<longrightarrow> OnClose \<in> set (cn_trace d))
    \<and> (cn_pending B c \<noteq> [] \<longrightarrow> OnClose \<notin> set (cn_trace d) \<and> sc_watch (cn_channel d) \<noteq> None
        \<and> cn_state d = Disconnected \<and> conn_force_close True (conn_hooks B sys h n) d = d)"
proof (intro conjI impI)
  let ?H = "conn_hooks B sys h n"
  assume "cn_pending B c \<noteq> []"
  with assms(1) have close: "conn_close True B ?H c = c\<lparr>cn_state := Disconnected\<rparr>"
    by (simp add: conn_close_def conn_run_def conn_close_body_def)
  have "conn_orphan d"
    using assms(5)
  proof (induction rule: rtranclp_induct)
    case base
    show ?case using close assms(2-4) by (simp add: conn_orphan_def)
  next
    case (step x y)
    then show ?case using conn_orphan_step by blast
  qed
  then show "OnClose \<notin> set (cn_trace d)" and "sc_watch (cn_channel d) \<noteq> None" and "cn_state d = Disconnected"
    and "conn_force_close True ?H d = d"
    by (simp_all add: conn_orphan_def conn_force_close_def)
next
  let ?H = "conn_hooks B sys h n"
  let ?c = "c\<lparr>cn_state := Disconnected, cn_channel := (cn_channel c)\<lparr>sc_watch := None\<rparr>, cn_trace := cn_trace c @ [OnClose]\<rparr>"
  assume "cn_pending B c = []"
  with assms(1) have "conn_close True B ?H c = conn_remove ?H (c\<lparr>cn_state := Disconnected\<rparr>)"
    by (simp add: conn_close_def conn_run_def conn_close_body_def)
  then have "conn_forward ?c (conn_close True B ?H c)"
    using micros_forward [OF conn.R_removed [of "c\<lparr>cn_state := Disconnected\<rparr>" B sys h n]] assms(2) by simp
  moreover have "conn_forward (conn_close True B ?H c) d"
    using assms(5) by (induction rule: rtranclp_induct) (auto intro: conn_forward_trans conn_forward_step)
  ultimately have "conn_forward ?c d"
    by (rule conn_forward_trans)
  then show "OnClose \<in> set (cn_trace d)"
    by (auto simp: conn_forward_def)
qed

theorem conn_close_strands_witness:
  "OnClose \<notin> set (cn_trace (conn_io list_buffer slow_os (conn_hooks list_buffer slow_os quiet 0) kHangUp
      (conn_close True list_buffer (conn_hooks list_buffer slow_os quiet 0) (open_conn\<lparr>cn_output := ([1], 0)\<rparr>))))"
proof -
  let ?H = "conn_hooks list_buffer slow_os quiet 0" and ?c = "open_conn\<lparr>cn_output := ([1], 0)\<rparr>"
  let ?d = "conn_io list_buffer slow_os ?H kHangUp (conn_close True list_buffer ?H ?c)"
  have "(conn_step list_buffer slow_os ?H)\<^sup>*\<^sup>* (conn_close True list_buffer ?H ?c) ?d"
    by (rule r_into_rtranclp) (rule cs_io)
  from conn_close_strands [OF _ _ _ _ this] show ?thesis
    by (simp add: cn_pending_def)
qed

section \<open>A full socket buffer\<close>

lemma conn_force_close_closes:
  assumes "cn_state c \<noteq> Disconnected" and "sc_watch (cn_channel c) \<noteq> None"
  shows "OnClose \<in> set (cn_trace (conn_force_close True (conn_hooks B sys h n) c))"
    and "cn_state (conn_force_close True (conn_hooks B sys h n) c) = Disconnected"
proof -
  let ?c = "c\<lparr>cn_state := Disconnected, cn_channel := (cn_channel c)\<lparr>sc_watch := None\<rparr>, cn_trace := cn_trace c @ [OnClose]\<rparr>"
  have "conn_forward ?c (conn_force_close True (conn_hooks B sys h n) c)"
    using micros_forward [OF conn.R_removed [of "c\<lparr>cn_state := Disconnected\<rparr>" B sys h n]] assms
    by (simp add: conn_force_close_def conn_run_def)
  then show "OnClose \<in> set (cn_trace (conn_force_close True (conn_hooks B sys h n) c))"
    and "cn_state (conn_force_close True (conn_hooks B sys h n) c) = Disconnected"
    by (auto simp: conn_forward_def)
qed

text \<open>
  C37. A write that would block closes the connection: the error is taken from the socket's
  pending error, not from errno, and a full buffer leaves that at kOk; so when the kernel has
  no room, Send of a connected connection with nothing waiting, and the flush of waiting output,
  both end in ForceClose and OnClose.  The bytes of Send are still put at the end of the output
  buffer, and the channel is set writable for them.
\<close>

theorem conn_full_buffer_closes:
  assumes "buffer_ok B" and "sc_watch (cn_channel c) \<noteq> None" and "os_kOk sys \<noteq> EAGAIN" and "os_kOk sys \<noteq> EWOULDBLOCK"
    and "os_so_error sys (Suc (cn_sys c)) = os_kOk sys"
  shows "(cn_state c = Connected \<and> cn_pending B c = [] \<and> data \<noteq> [] \<and> os_write sys (cn_sys c) data < 0 \<longrightarrow>
      cn_state (conn_handle_send B sys (conn_hooks B sys h n) data c) = Disconnected
      \<and> OnClose \<in> set (cn_trace (conn_handle_send B sys (conn_hooks B sys h n) data c))
      \<and> (\<exists>waiting. cn_pending B (conn_handle_send B sys (conn_hooks B sys h n) data c) = waiting @ data)
      \<and> sc_writable (cn_channel (conn_handle_send B sys (conn_hooks B sys h n) data c)))
    \<and> (cn_state c \<noteq> Disconnected \<and> sc_writable (cn_channel c) \<and> cn_pending B c \<noteq> []
        \<and> os_write sys (cn_sys c) (cn_pending B c) < 0 \<longrightarrow>
      cn_state (conn_handle_write B sys (conn_hooks B sys h n) c) = Disconnected
      \<and> OnClose \<in> set (cn_trace (conn_handle_write B sys (conn_hooks B sys h n) c)))"
proof (intro conjI impI)
  let ?H = "conn_hooks B sys h n" and ?c = "c\<lparr>cn_sys := Suc (Suc (cn_sys c))\<rparr>"
  have closed: "OnClose \<in> set (cn_trace (conn_force_close True ?H ?c))"
    "cn_state (conn_force_close True ?H ?c) = Disconnected" if "cn_state c \<noteq> Disconnected"
    using that assms(2) by (simp_all add: conn_force_close_closes)
  assume *: "cn_state c = Connected \<and> cn_pending B c = [] \<and> data \<noteq> [] \<and> os_write sys (cn_sys c) data < 0"
  then have "conn_handle_send B sys ?H data c = conn_enqueue B data (conn_accept data (conn_force_close True ?H ?c))"
    using assms(3-5) by (simp add: conn_handle_send_def conn_write_def conn_get_error_def conn_handle_error_def Let_def)
  then show "cn_state (conn_handle_send B sys ?H data c) = Disconnected"
    and "OnClose \<in> set (cn_trace (conn_handle_send B sys ?H data c))"
    and "\<exists>waiting. cn_pending B (conn_handle_send B sys ?H data c) = waiting @ data"
    and "sc_writable (cn_channel (conn_handle_send B sys ?H data c))"
    using closed * by (simp_all add: cn_pending_enqueue [OF assms(1)])
next
  let ?H = "conn_hooks B sys h n" and ?c = "c\<lparr>cn_sys := Suc (Suc (cn_sys c))\<rparr>"
  assume *: "cn_state c \<noteq> Disconnected \<and> sc_writable (cn_channel c) \<and> cn_pending B c \<noteq> []
      \<and> os_write sys (cn_sys c) (cn_pending B c) < 0"
  then have "conn_handle_write B sys ?H c = conn_force_close True ?H ?c"
    using assms(5) by (simp add: conn_handle_write_def conn_write_def conn_get_error_def conn_handle_error_def
        cn_pending_def Let_def)
  then show "cn_state (conn_handle_write B sys ?H c) = Disconnected"
    and "OnClose \<in> set (cn_trace (conn_handle_write B sys ?H c))"
    using * assms(2) by (simp_all add: conn_force_close_closes)
qed

theorem conn_full_buffer_closes_witness:
  "OnClose \<in> set (cn_trace (conn_handle_send list_buffer full_os (conn_hooks list_buffer full_os quiet 0) [1] open_conn))
    \<and> (\<exists>waiting. cn_pending list_buffer (conn_handle_send list_buffer full_os (conn_hooks list_buffer full_os quiet 0) [1] open_conn)
          = waiting @ [1])"
  using conn_full_buffer_closes [OF list_buffer_ok, of open_conn full_os "[1]" quiet 0]
  by (simp add: full_os_def EAGAIN_def EWOULDBLOCK_def)

section \<open>Calls made inside a callback\<close>

text \<open>
  A handler that, in OnWriteComplete, sends more data and then calls Shutdown loses what
  the kernel does not take at once: Shutdown alone would wait for the output to drain, but
  handleWrite, whose test of the output was made before the callback, then closes the write end
  with the data still waiting.
\<close>

theorem conn_shutdown_in_write_complete_truncates:
  assumes "buffer_ok B" and "cn_state c = Connected" and "sc_writable (cn_channel c)" and "cn_pending B c = []"
    and "\<And>x. h OnWriteComplete x = [CmdSend data, CmdShutdown]"
    and "0 \<le> os_write sys (cn_sys c) data" and "os_write sys (cn_sys c) data < int (length data)"
  shows "cn_fin (conn_handle_write B sys (conn_hooks B sys h (Suc n)) c)
    \<and> cn_pending B (conn_handle_write B sys (conn_hooks B sys h (Suc n)) c)
        = drop (nat (os_write sys (cn_sys c) data)) data
    \<and> cn_pending B (conn_handle_write B sys (conn_hooks B sys h (Suc n)) c) \<noteq> []"
proof -
  let ?w = "nat (os_write sys (cn_sys c) data)"
  let ?c1 = "(conn_set_writable False c)\<lparr>cn_trace := cn_trace c @ [OnWriteComplete]\<rparr>"
  let ?c2 = "conn_handle_send B sys (conn_hooks B sys h n) data ?c1"
  have c1: "cn_state ?c1 = Connected" "cn_pending B ?c1 = []" "cn_sys ?c1 = cn_sys c"
    using assms(2,4) by (simp_all add: conn_set_writable_def)
  have "data \<noteq> []" and rest: "drop ?w data \<noteq> []"
    using assms(6,7) by auto
  with c1 assms(6) have c2: "?c2 = conn_enqueue B (drop ?w data)
      (conn_accept data (?c1\<lparr>cn_sys := Suc (cn_sys c), cn_wire := cn_wire c @ take ?w data\<rparr>))"
    by (simp add: conn_handle_send_def conn_write_def Let_def conn_set_writable_def)
  have st2: "cn_state ?c2 = Connected" and p2: "cn_pending B ?c2 = drop ?w data"
    unfolding c2 using c1 assms(1) by (simp_all add: cn_pending_enqueue)
  have "conn_shutdown True B ?c2 = ?c2\<lparr>cn_state := Disconnecting\<rparr>"
    using st2 p2 rest by (simp add: conn_shutdown_def conn_run_def conn_shutdown_body_def)
  then have "conn_notify (conn_hooks B sys h (Suc n)) OnWriteComplete (conn_set_writable False c)
      = ?c2\<lparr>cn_state := Disconnecting\<rparr>"
    using assms(5) by (simp add: conn_notify_def conn_send_view_def conn_set_writable_def)
  then have "conn_handle_write B sys (conn_hooks B sys h (Suc n)) c = conn_close_write (?c2\<lparr>cn_state := Disconnecting\<rparr>)"
    using assms(3,4) by (simp add: conn_handle_write_def conn_write_done_def Let_def)
  then show ?thesis
    using p2 rest by (simp add: conn_close_write_def)
qed

definition greeter :: "'b conn_handler" where
  "greeter e c = (if e = OnWriteComplete then [CmdSend [1, 2, 3], CmdShutdown] else [])"

theorem conn_shutdown_in_write_complete_truncates_witness:
  "cn_pending list_buffer (conn_handle_write list_buffer slow_os (conn_hooks list_buffer slow_os greeter (Suc 0))
      (conn_set_writable True open_conn)) = [3]"
  using conn_shutdown_in_write_complete_truncates [OF list_buffer_ok, of "conn_set_writable True open_conn" greeter
      "[1, 2, 3]" slow_os 0]
  by (simp add: conn_set_writable_def greeter_def slow_os_def)

text \<open>
  Callbacks after OnClose: when an event carries an error and readable data and the handler
  calls ForceClose in OnError, the same dispatch goes on to read and calls OnRead after OnClose,
  with the context's connection already reset.
\<close>

theorem conn_reads_after_close:
  assumes "cn_state c \<noteq> Disconnected" and "sc_watch (cn_channel c) \<noteq> None"
    and "re_contains events kError" and "re_contains events kReadable" and "\<not> re_contains events kInvalid"
    and "\<not> re_contains events kWritable"
    and "os_so_error sys (cn_sys c) = err" and "err \<noteq> os_kOk sys" and "os_read sys (Suc (cn_sys c)) = Inr (b # bs)"
    and "\<And>e x. h e x = (if e = OnError err then [CmdForceClose] else [])"
  shows "cn_trace (conn_io B sys (conn_hooks B sys h (Suc (Suc n))) events c) = cn_trace c @ [OnError err, OnClose, OnRead]
    \<and> \<not> cn_context (conn_io B sys (conn_hooks B sys h (Suc (Suc n))) events c)"
  using assms by (simp add: conn_io_def sc_handle_events_def run_cb_def conn_callbacks_def re_one_of_def
      conn_get_error_def conn_handle_error_def conn_notify_def conn_force_close_def conn_run_def conn_remove_def
      conn_handle_remove_def conn_handle_read_def Let_def)

definition closer :: "'b conn_handler" where
  "closer e c = (if e = OnError 104 then [CmdForceClose] else [])"

theorem conn_reads_after_close_witness:
  "cn_trace (conn_io list_buffer slow_os (conn_hooks list_buffer slow_os closer (Suc (Suc 0)))
      (re_add kError kReadable) open_conn) = [OnConnect, OnError 104, OnClose, OnRead]"
  using conn_reads_after_close [of open_conn "re_add kError kReadable" slow_os 104 9 "[]" closer list_buffer 0]
  by (simp add: slow_os_def closer_def re_contains_def re_add_def re_consts poll_defs)

section \<open>ForceShutdown on another thread\<close>

definition conn_lost :: "'b tcp_conn \<Rightarrow> bool" where
  "conn_lost c \<longleftrightarrow> sc_watch (cn_channel c) = None \<and> OnClose \<notin> set (cn_trace c) \<and> TaskAdd \<notin> set (cn_tasks c)"

lemma micro_lost: "conn_micro B sys c c' \<Longrightarrow> conn_lost c \<Longrightarrow> conn_lost c'"
  by (induction rule: conn_micro.induct) (simp_all add: conn_lost_def conn_small_defs)

lemma micros_lost: "(conn_micro B sys)\<^sup>*\<^sup>* c c' \<Longrightarrow> conn_lost c \<Longrightarrow> conn_lost c'"
  by (erule micro_invariant) (auto intro: micro_lost)

lemma conn_lost_step: "conn_step B sys (conn_hooks B sys h n) c c' \<Longrightarrow> conn_lost c \<Longrightarrow> conn_lost c'"
proof (induction rule: conn_step.induct)
  case (cs_task c t ts)
  then have t: "t \<noteq> TaskAdd" and lost: "conn_lost (c\<lparr>cn_tasks := ts\<rparr>)"
    by (auto simp: conn_lost_def)
  show ?case
  proof (cases "t \<in> {TaskClose, TaskForceClose}")
    case True
    with lost show ?thesis
      by (auto simp: conn_close_body_def conn_remove_def conn_lost_def split: if_splits)
  next
    case False
    with t lost show ?thesis by (intro micros_lost [OF conn.R_run_task]) auto
  qed
next
  case (cs_io c events)
  then show ?case by (intro micros_lost [OF conn.R_io])
next
  case (cs_thread c cmd)
  then show ?case
    by (cases cmd) (auto simp: conn_lost_def conn_send_view_def conn_run_def conn_close_def
      conn_force_close_def conn_shutdown_def conn_force_shutdown_def conn_force_shutdown_store_def)
next
  case (cs_loop cmd c)
  then show ?case by (intro micros_lost [OF conn.R_exec])
qed

text \<open>
  The race of ForceShutdown: its test of the state and its store are separate. If another
  thread's store falls between the store of the loop thread's close and handleRemove, the
  channel is removed, but OnClose is not called then, nor after any later step.
\<close>

theorem conn_force_shutdown_race:
  assumes "sc_watch (cn_channel c) \<noteq> None" and "OnClose \<notin> set (cn_trace c)" and "TaskAdd \<notin> set (cn_tasks c)"
    and "(conn_step B sys (conn_hooks B sys h n))\<^sup>*\<^sup>*
      (conn_remove (conn_hooks B sys h n) (conn_force_shutdown_store False (c\<lparr>cn_state := Disconnected\<rparr>))) d"
  shows "OnClose \<notin> set (cn_trace d) \<and> sc_watch (cn_channel d) = None"
proof -
  have "conn_lost (conn_remove (conn_hooks B sys h n) (conn_force_shutdown_store False (c\<lparr>cn_state := Disconnected\<rparr>)))"
    using assms(1-3)
    by (simp add: conn_lost_def conn_force_shutdown_store_def conn_run_def conn_remove_def conn_handle_remove_def)
  with assms(4) have "conn_lost d"
    by (induction rule: rtranclp_induct) (auto intro: conn_lost_step)
  then show ?thesis by (simp add: conn_lost_def)
qed

theorem conn_force_shutdown_race_witness:
  "OnClose \<notin> set (cn_trace (conn_remove (conn_hooks list_buffer slow_os quiet 0)
      (conn_force_shutdown_store False (open_conn\<lparr>cn_state := Disconnected\<rparr>))))"
  using conn_force_shutdown_race [of open_conn list_buffer slow_os quiet 0, OF _ _ _ rtranclp.rtrancl_refl] by simp

end
