(* ===== verification/Selector.thy ===== *)
theory Selector
  imports Event_Flags
begin

text \<open>
  include/pedronet/selector/selector.h: the interface of the selectors, as a locale with the
  laws the event loop relies on, and the lemmas about a round of dispatch that follow from
  them.  A channel is its address; what \<open>GetFile().Descriptor()\<close> returns for it is the
  argument \<open>fd\<close> of the operations.  The epoll selector identifies channels by the address,
  the poll selector by the descriptor.
\<close>

type_synonym channel = nat

text \<open>\<open>PEDRONET_FATAL\<close> ends the program: an outcome of its own.\<close>

datatype selector_fatal = FatalEpollCtl int

text \<open>\<open>SelectChannel\<close>: the channel (none for a null pointer) and what happened to it.\<close>

type_synonym select_channel = "channel option \<times> receive_events"

section \<open>The round of dispatch in EventLoop::Loop\<close>

text \<open>
  \<open>get\<close> is \<open>Selector::Get\<close> in the world the handlers change, \<open>handle\<close> is
  \<open>Channel::HandleEvents\<close>, \<open>n\<close> the size read before the round.
\<close>

function dispatch ::
  "('w \<Rightarrow> nat \<Rightarrow> select_channel) \<Rightarrow> (channel \<Rightarrow> receive_events \<Rightarrow> 'w \<Rightarrow> 'w) \<Rightarrow> nat \<Rightarrow> nat \<Rightarrow> 'w \<Rightarrow> 'w" where
  "dispatch get handle i n w =
     (if i < n then
        (case get w i of
           (None, _) \<Rightarrow> dispatch get handle (i + 1) n w
         | (Some ch, ev) \<Rightarrow> dispatch get handle (i + 1) n (handle ch ev w))
      else w)"
  by pat_completeness auto
termination
  by (relation "measure (\<lambda>(get, handle, i, n, w). n - i)") auto

declare dispatch.simps [simp del]

section \<open>EventLoop::Add and EventLoop::Remove on the loop's own thread\<close>

text \<open>The result says with a boolean whether the callback is to run.\<close>

definition el_add ::
  "(channel \<Rightarrow> 's \<Rightarrow> bool) \<Rightarrow> (channel \<Rightarrow> select_events \<Rightarrow> 's \<Rightarrow> selector_fatal + 's) \<Rightarrow>
    channel \<Rightarrow> 's \<Rightarrow> selector_fatal + ('s \<times> bool)" where
  "el_add contain add ch s =
     (if \<not> contain ch s
      then (case add ch kNoneEvent s of Inl e \<Rightarrow> Inl e | Inr s' \<Rightarrow> Inr (s', True))
      else Inr (s, False))"

definition el_remove ::
  "(channel \<Rightarrow> 's \<Rightarrow> bool) \<Rightarrow> (channel \<Rightarrow> 's \<Rightarrow> selector_fatal + 's) \<Rightarrow>
    channel \<Rightarrow> 's \<Rightarrow> selector_fatal + ('s \<times> bool)" where
  "el_remove contain remove ch s =
     (if contain ch s
      then (case remove ch s of Inl e \<Rightarrow> Inl e | Inr s' \<Rightarrow> Inr (s', True))
      else Inr (s, False))"

section \<open>The interface\<close>

text \<open>
  \<open>keys s\<close>: what the selector has registered, by the key the implementation uses.
\<close>

locale selector =
  fixes key :: "channel \<Rightarrow> 'k"
    and keys :: "'s \<Rightarrow> 'k set"
    and add :: "channel \<Rightarrow> select_events \<Rightarrow> 's \<Rightarrow> selector_fatal + 's"
    and remove :: "channel \<Rightarrow> 's \<Rightarrow> selector_fatal + 's"
    and update :: "channel \<Rightarrow> select_events \<Rightarrow> 's \<Rightarrow> selector_fatal + 's"
    and contain :: "channel \<Rightarrow> 's \<Rightarrow> bool"
    and get :: "'s \<Rightarrow> nat \<Rightarrow> select_channel"
    and good :: "'s \<Rightarrow> bool"
  assumes contain_keys: "contain c s \<longleftrightarrow> key c \<in> keys s"
    and add_keys: "add c ev s = Inr s' \<Longrightarrow> keys s' = insert (key c) (keys s)"
    and remove_keys: "remove c s = Inr s' \<Longrightarrow> keys s' = keys s - {key c}"
    and update_keys: "update c ev s = Inr s' \<Longrightarrow> keys s' = keys s"
    and add_good: "good s \<Longrightarrow> add c ev s = Inr s' \<Longrightarrow> good s'"
    and remove_good: "good s \<Longrightarrow> remove c s = Inr s' \<Longrightarrow> good s'"
    and update_good: "good s \<Longrightarrow> update c ev s = Inr s' \<Longrightarrow> good s'"
    and get_registered: "good s \<Longrightarrow> get s i = (Some c, what) \<Longrightarrow> contain c s"
    and remove_absent: "\<not> contain c s \<Longrightarrow> remove c s = Inr s"
    and update_absent: "\<not> contain c s \<Longrightarrow> update c ev s = Inr s"
begin

lemma contain_add [simp]: "add c ev s = Inr s' \<Longrightarrow> contain d s' \<longleftrightarrow> key d = key c \<or> contain d s"
  by (simp add: contain_keys add_keys)

lemma contain_remove [simp]: "remove c s = Inr s' \<Longrightarrow> contain d s' \<longleftrightarrow> key d \<noteq> key c \<and> contain d s"
  by (auto simp: contain_keys remove_keys)

lemma contain_update [simp]: "update c ev s = Inr s' \<Longrightarrow> contain d s' \<longleftrightarrow> contain d s"
  by (simp add: contain_keys update_keys)

text \<open>Whatever \<open>Add\<close> and \<open>Remove\<close> do, their callback runs exactly when they changed something.\<close>

lemma el_add_once:
  assumes "el_add contain add c s = Inr (s', told)"
  shows "told \<longleftrightarrow> \<not> contain c s" and "contain c s'" and "\<not> told \<Longrightarrow> s' = s"
  using assms by (auto simp: el_add_def split: if_splits sum.splits)

lemma el_remove_once:
  assumes "el_remove contain remove c s = Inr (s', told)"
  shows "told \<longleftrightarrow> contain c s" and "\<not> contain c s'" and "\<not> told \<Longrightarrow> s' = s"
  using assms by (auto simp: el_remove_def split: if_splits sum.splits)

lemma el_add_good: "good s \<Longrightarrow> el_add contain add c s = Inr (s', r) \<Longrightarrow> good s'"
  by (auto simp: el_add_def intro: add_good split: if_splits sum.splits)

lemma el_remove_good: "good s \<Longrightarrow> el_remove contain remove c s = Inr (s', r) \<Longrightarrow> good s'"
  by (auto simp: el_remove_def intro: remove_good split: if_splits sum.splits)

text \<open>
  A handler is called only for a channel that is registered at that moment: the calls on
  other channels may be replaced by anything (\<open>other\<close>) without changing the round.
\<close>

lemma dispatch_registered:
  assumes "good (sel w)"
    and "\<And>ch ev w. good (sel w) \<Longrightarrow> good (sel (handle ch ev w))"
  shows "dispatch (\<lambda>w. get (sel w)) handle i n w =
    dispatch (\<lambda>w. get (sel w)) (\<lambda>ch ev w. if contain ch (sel w) then handle ch ev w else other ch ev w) i n w"
  using assms(1)
proof (induction "n - i" arbitrary: i w)
  case 0
  then show ?case
    by (simp add: dispatch.simps [of _ _ i])
next
  case (Suc k)
  then have i: "i < n" "k = n - (i + 1)"
    by auto
  have "contain ch (sel w)" if "get (sel w) i = (Some ch, ev)" for ch ev
    using Suc.prems that by (rule get_registered)
  with i Suc.hyps(1) [OF i(2)] Suc.prems assms(2) show ?case
    by (subst (1 2) dispatch.simps) (auto split: prod.splits option.splits)
qed

text \<open>A channel that is not registered, and that no handler registers, is not called at all.\<close>

lemma dispatch_skips:
  assumes "good (sel w)" and "\<not> contain c (sel w)"
    and "\<And>ch ev w. good (sel w) \<Longrightarrow> \<not> contain c (sel w) \<Longrightarrow>
           good (sel (handle ch ev w)) \<and> \<not> contain c (sel (handle ch ev w))"
  shows "dispatch (\<lambda>w. get (sel w)) handle i n w =
    dispatch (\<lambda>w. get (sel w)) (\<lambda>ch ev w. if ch = c then other ev w else handle ch ev w) i n w"
  using assms(1,2)
proof (induction "n - i" arbitrary: i w)
  case 0
  then show ?case
    by (simp add: dispatch.simps [of _ _ i])
next
  case (Suc k)
  then have i: "i < n" "k = n - (i + 1)"
    by auto
  have "ch \<noteq> c" if "get (sel w) i = (Some ch, ev)" for ch ev
    using Suc.prems get_registered [OF _ that] by blast
  with i Suc.hyps(1) [OF i(2)] Suc.prems assms(3) show ?case
    by (subst (1 2) dispatch.simps) (auto split: prod.splits option.splits)
qed

end

text \<open>
  A selector whose kernel watches for every registered channel the mask it was last given.
\<close>

locale watching_selector = selector key keys add remove update contain get good
  for key :: "channel \<Rightarrow> 'k" and keys :: "'s \<Rightarrow> 'k set"
    and add :: "channel \<Rightarrow> select_events \<Rightarrow> 's \<Rightarrow> selector_fatal + 's"
    and remove :: "channel \<Rightarrow> 's \<Rightarrow> selector_fatal + 's"
    and update :: "channel \<Rightarrow> select_events \<Rightarrow> 's \<Rightarrow> selector_fatal + 's"
    and contain :: "channel \<Rightarrow> 's \<Rightarrow> bool"
    and get :: "'s \<Rightarrow> nat \<Rightarrow> select_channel"
    and good :: "'s \<Rightarrow> bool" +
  fixes watch :: "'s \<Rightarrow> channel \<Rightarrow> select_events option"
  assumes watch_contain: "good s \<Longrightarrow> watch s c \<noteq> None \<longleftrightarrow> contain c s"
    and watch_add: "good s \<Longrightarrow> add c ev s = Inr s' \<Longrightarrow> watch s' c = Some ev"
    and watch_update: "good s \<Longrightarrow> contain c s \<Longrightarrow> update c ev s = Inr s' \<Longrightarrow> watch s' c = Some ev"
begin

text \<open>What a channel sees of the selector is the option that \<open>Socket_Channel\<close> keeps.\<close>

lemma update_as_option:
  assumes "good s" and "update c ev s = Inr s'"
  shows "watch s' c = (case watch s c of None \<Rightarrow> None | Some _ \<Rightarrow> Some ev)"
proof (cases "contain c s")
  case True
  with assms watch_contain [OF assms(1)] watch_update show ?thesis
    by (auto split: option.split)
next
  case False
  with assms watch_contain [OF assms(1)] update_absent [OF False] show ?thesis
    by (auto split: option.split)
qed

end

end
