(* ===== verification/Epoll_Selector.thy ===== *)
theory Epoll_Selector
  imports Selector
begin

text \<open>
  include/pedronet/selector/epoller.h and src/selector/epoller.cc: \<open>EpollSelector\<close>, with the
  interest set of its epoll instance.  \<open>epoll_ctl(2)\<close> is modelled for open descriptors:
  adding one that is watched fails with EEXIST, changing or deleting one that is not fails
  with ENOENT.  The selector is proved to be a \<open>watching_selector\<close>.
\<close>

section \<open>State\<close>

record epoll_event =
  ee_events :: u32
  ee_ptr :: channel

type_synonym interest_set = "int \<rightharpoonup> epoll_event"

record epoll_selector =
  ep_len :: nat
  ep_buf :: "epoll_event list"
  ep_channel :: "channel \<rightharpoonup> channel"
  ep_kernel :: interest_set

text \<open>A value-initialised event of the buffer.\<close>

definition ee_zero :: epoll_event where
  "ee_zero = \<lparr>ee_events = 0, ee_ptr = 0\<rparr>"

definition ep_create :: epoll_selector where
  "ep_create = \<lparr>ep_len = 0, ep_buf = replicate 256 ee_zero, ep_channel = Map.empty, ep_kernel = Map.empty\<rparr>"

section \<open>Operations\<close>

datatype ctl_op = EPOLL_CTL_ADD | EPOLL_CTL_MOD | EPOLL_CTL_DEL

definition EEXIST :: int where "EEXIST = 17"
definition ENOENT :: int where "ENOENT = 2"

fun epoll_ctl :: "ctl_op \<Rightarrow> int \<Rightarrow> epoll_event \<Rightarrow> interest_set \<Rightarrow> int + interest_set" where
  "epoll_ctl EPOLL_CTL_ADD cfd ev k = (if k cfd = None then Inr (k(cfd \<mapsto> ev)) else Inl EEXIST)"
| "epoll_ctl EPOLL_CTL_MOD cfd ev k = (if k cfd = None then Inl ENOENT else Inr (k(cfd \<mapsto> ev)))"
| "epoll_ctl EPOLL_CTL_DEL cfd ev k = (if k cfd = None then Inl ENOENT else Inr (k(cfd := None)))"

definition ep_internal_update ::
  "(channel \<Rightarrow> int) \<Rightarrow> channel \<Rightarrow> ctl_op \<Rightarrow> select_events \<Rightarrow> epoll_selector \<Rightarrow> selector_fatal + epoll_selector"
where
  "ep_internal_update fd ch op events s =
     (case epoll_ctl op (fd ch) \<lparr>ee_events = se_value events, ee_ptr = ch\<rparr> (ep_kernel s) of
        Inl errno \<Rightarrow> Inl (FatalEpollCtl errno)
      | Inr k \<Rightarrow> Inr (s\<lparr>ep_kernel := k\<rparr>))"

text \<open>\<open>emplace\<close> keeps an entry that is there.\<close>

definition ep_add ::
  "(channel \<Rightarrow> int) \<Rightarrow> channel \<Rightarrow> select_events \<Rightarrow> epoll_selector \<Rightarrow> selector_fatal + epoll_selector" where
  "ep_add fd ch events s =
     (let s1 = (case ep_channel s ch of
                  None \<Rightarrow> s\<lparr>ep_channel := (ep_channel s)(ch \<mapsto> ch)\<rparr> | Some _ \<Rightarrow> s)
      in ep_internal_update fd ch EPOLL_CTL_ADD events s1)"

definition ep_update ::
  "(channel \<Rightarrow> int) \<Rightarrow> channel \<Rightarrow> select_events \<Rightarrow> epoll_selector \<Rightarrow> selector_fatal + epoll_selector" where
  "ep_update fd ch events s =
     (case ep_channel s ch of
        None \<Rightarrow> Inr s
      | Some _ \<Rightarrow> ep_internal_update fd ch EPOLL_CTL_MOD events s)"

definition ep_remove ::
  "(channel \<Rightarrow> int) \<Rightarrow> channel \<Rightarrow> epoll_selector \<Rightarrow> selector_fatal + epoll_selector" where
  "ep_remove fd ch s =
     (case ep_channel s ch of
        None \<Rightarrow> Inr s
      | Some _ \<Rightarrow>
          (case ep_internal_update fd ch EPOLL_CTL_DEL kNoneEvent s of
             Inl e \<Rightarrow> Inl e
           | Inr s1 \<Rightarrow> Inr (s1\<lparr>ep_channel := (ep_channel s1)(ch := None)\<rparr>)))"

definition ep_contain :: "channel \<Rightarrow> epoll_selector \<Rightarrow> bool" where
  "ep_contain ch s \<longleftrightarrow> ep_channel s ch \<noteq> None"

text \<open>
  \<open>epoll_wait\<close> answers with an errno or writes the front of the buffer; the result is the
  error code, 0 for \<open>Error::Success()\<close>.
\<close>

definition ep_wait :: "int + epoll_event list \<Rightarrow> epoll_selector \<Rightarrow> int \<times> epoll_selector" where
  "ep_wait answer s =
     (let n = (case answer of Inl _ \<Rightarrow> -1 | Inr evs \<Rightarrow> int (length evs));
          written = (case answer of Inl _ \<Rightarrow> [] | Inr evs \<Rightarrow> evs);
          s1 = s\<lparr>ep_buf := written @ drop (length written) (ep_buf s), ep_len := nat (max 0 n)\<rparr>;
          s2 = (if ep_len s1 = length (ep_buf s1) \<and> ep_len s1 < 65536
                then s1\<lparr>ep_buf := ep_buf s1 @ replicate (length (ep_buf s1)) ee_zero\<rparr> else s1)
      in (if n < 0 then (case answer of Inl errno \<Rightarrow> errno | Inr _ \<Rightarrow> 0) else 0, s2))"

definition ep_size :: "epoll_selector \<Rightarrow> nat" where
  "ep_size s = ep_len s"

definition ep_get :: "epoll_selector \<Rightarrow> nat \<Rightarrow> select_channel" where
  "ep_get s index =
     (let ptr = ee_ptr (ep_buf s ! index)
      in case ep_channel s ptr of
           Some ch \<Rightarrow> (Some ch, ReceiveEvents (ee_events (ep_buf s ! index)))
         | None \<Rightarrow> (None, ReceiveEvents (ee_events (ep_buf s ! index))))"

section \<open>Well-formed states\<close>

text \<open>The interest set is the registration table: same channels, under their descriptors.\<close>

definition ep_registered :: "(channel \<Rightarrow> int) \<Rightarrow> epoll_selector \<Rightarrow> bool" where
  "ep_registered fd s \<longleftrightarrow>
     (\<forall>p c. ep_channel s p = Some c \<longrightarrow> c = p \<and> (\<exists>ev. ep_kernel s (fd p) = Some ev \<and> ee_ptr ev = p))
   \<and> (\<forall>f ev. ep_kernel s f = Some ev \<longrightarrow> fd (ee_ptr ev) = f \<and> ep_channel s (ee_ptr ev) \<noteq> None)"

text \<open>The sizes the buffer can have: 256, doubled up to 65536.\<close>

definition ep_sized :: "epoll_selector \<Rightarrow> bool" where
  "ep_sized s \<longleftrightarrow> length (ep_buf s) \<in> (\<lambda>k. 2 ^ k) ` {8..16} \<and> ep_len s \<le> length (ep_buf s)"

definition ep_good :: "(channel \<Rightarrow> int) \<Rightarrow> epoll_selector \<Rightarrow> bool" where
  "ep_good fd s \<longleftrightarrow> ep_registered fd s \<and> ep_sized s"

text \<open>What the kernel may answer: at most the room there is, only channels it watches.\<close>

definition ep_answer_ok :: "epoll_selector \<Rightarrow> int + epoll_event list \<Rightarrow> bool" where
  "ep_answer_ok s answer \<longleftrightarrow>
     (case answer of
        Inl errno \<Rightarrow> errno \<noteq> 0
      | Inr evs \<Rightarrow> length evs \<le> length (ep_buf s)
          \<and> list_all (\<lambda>e. \<exists>f k. ep_kernel s f = Some k \<and> ee_ptr e = ee_ptr k) evs)"

definition ep_watch :: "(channel \<Rightarrow> int) \<Rightarrow> epoll_selector \<Rightarrow> channel \<Rightarrow> select_events option" where
  "ep_watch fd s ch =
     (case ep_channel s ch of
        None \<Rightarrow> None
      | Some _ \<Rightarrow> map_option (\<lambda>ev. SelectEvents (ee_events ev)) (ep_kernel s (fd ch)))"

lemmas ep_ops = ep_add_def ep_update_def ep_remove_def ep_internal_update_def Let_def

lemma ep_ops_frame:
  "ep_add fd c ev s = Inr s' \<Longrightarrow> ep_buf s' = ep_buf s \<and> ep_len s' = ep_len s"
  "ep_update fd c ev s = Inr s' \<Longrightarrow> ep_buf s' = ep_buf s \<and> ep_len s' = ep_len s"
  "ep_remove fd c s = Inr s' \<Longrightarrow> ep_buf s' = ep_buf s \<and> ep_len s' = ep_len s"
  by (auto simp: ep_ops split: option.splits sum.splits if_splits)

lemma ep_ops_sized:
  "ep_sized s \<Longrightarrow> ep_add fd c ev s = Inr s' \<Longrightarrow> ep_sized s'"
  "ep_sized s \<Longrightarrow> ep_update fd c ev s = Inr s' \<Longrightarrow> ep_sized s'"
  "ep_sized s \<Longrightarrow> ep_remove fd c s = Inr s' \<Longrightarrow> ep_sized s'"
  by (auto simp: ep_sized_def dest: ep_ops_frame)

lemma ep_registeredD:
  assumes "ep_registered fd s"
  shows "ep_channel s p = Some c \<Longrightarrow> c = p"
    and "ep_channel s p = Some c \<Longrightarrow> \<exists>ev. ep_kernel s (fd p) = Some ev \<and> ee_ptr ev = p"
    and "ep_kernel s f = Some ev \<Longrightarrow> fd (ee_ptr ev) = f"
    and "ep_kernel s f = Some ev \<Longrightarrow> \<exists>c. ep_channel s (ee_ptr ev) = Some c"
  using assms unfolding ep_registered_def by blast+

lemma ep_registered_distinct:
  assumes "ep_registered fd s" and "ep_channel s p = Some d" and "p \<noteq> c"
    and "ep_kernel s (fd c) = None \<or> ep_channel s c = Some c"
  shows "fd p \<noteq> fd c"
proof
  assume same: "fd p = fd c"
  from assms(1,2) obtain ev where p: "ep_kernel s (fd p) = Some ev" "ee_ptr ev = p"
    using ep_registeredD(2) by blast
  with same assms(4) have "ep_channel s c = Some c"
    by auto
  then obtain ev' where "ep_kernel s (fd c) = Some ev'" "ee_ptr ev' = c"
    using ep_registeredD(2) assms(1) by blast
  with p same assms(3) show False
    by simp
qed

lemma ep_add_result:
  assumes "ep_registered fd s" and "ep_add fd c ev s = Inr s'"
  shows "ep_channel s c = None \<and> ep_kernel s (fd c) = None \<and>
    s' = s\<lparr>ep_channel := (ep_channel s)(c \<mapsto> c),
      ep_kernel := (ep_kernel s)(fd c \<mapsto> \<lparr>ee_events = se_value ev, ee_ptr = c\<rparr>)\<rparr>"
  using assms(2) ep_registeredD(2) [OF assms(1), of c]
  by (auto simp: ep_ops split: option.splits sum.splits if_splits)

lemma ep_update_result:
  assumes "ep_registered fd s" and "ep_channel s c \<noteq> None"
  shows "ep_update fd c ev s =
    Inr (s\<lparr>ep_kernel := (ep_kernel s)(fd c \<mapsto> \<lparr>ee_events = se_value ev, ee_ptr = c\<rparr>)\<rparr>)"
  using assms(2) ep_registeredD(2) [OF assms(1), of c]
  by (auto simp: ep_ops split: option.splits)

lemma ep_remove_result:
  assumes "ep_registered fd s" and "ep_channel s c \<noteq> None"
  shows "ep_remove fd c s =
    Inr (s\<lparr>ep_kernel := (ep_kernel s)(fd c := None), ep_channel := (ep_channel s)(c := None)\<rparr>)"
  using assms(2) ep_registeredD(2) [OF assms(1), of c]
  by (auto simp: ep_ops split: option.splits)

lemma ep_registered_set:
  assumes "ep_registered fd s" and "ep_kernel s (fd c) = None \<or> ep_channel s c = Some c"
  shows "ep_registered fd (s\<lparr>ep_channel := (ep_channel s)(c \<mapsto> c),
    ep_kernel := (ep_kernel s)(fd c \<mapsto> \<lparr>ee_events = e, ee_ptr = c\<rparr>)\<rparr>)"
proof -
  have "fd p \<noteq> fd c" if "ep_channel s p = Some d" "p \<noteq> c" for p d
    using that assms(2) by (rule ep_registered_distinct [OF assms(1)])
  then show ?thesis
    using assms(1) unfolding ep_registered_def by auto
qed

lemma ep_registered_drop:
  assumes "ep_registered fd s" and "ep_channel s c \<noteq> None"
  shows "ep_registered fd (s\<lparr>ep_kernel := (ep_kernel s)(fd c := None), ep_channel := (ep_channel s)(c := None)\<rparr>)"
proof -
  have "fd p \<noteq> fd c" if "ep_channel s p = Some d" "p \<noteq> c" for p d
    using assms(2) ep_registeredD(1) [OF assms(1)]
    by (intro ep_registered_distinct [OF assms(1) that]) auto
  then show ?thesis
    using assms(1) unfolding ep_registered_def by auto
qed

lemma ep_add_good:
  assumes "ep_good fd s" and "ep_add fd c ev s = Inr s'"
  shows "ep_good fd s'"
  using assms ep_add_result [of fd s c ev s'] ep_registered_set [of fd s c "se_value ev"]
    ep_ops_sized(1) [of s fd c ev s']
  by (auto simp: ep_good_def)

lemma ep_update_good:
  assumes "ep_good fd s" and "ep_update fd c ev s = Inr s'"
  shows "ep_good fd s'"
proof (cases "ep_channel s c")
  case None
  with assms show ?thesis
    by (simp add: ep_update_def)
next
  case (Some d)
  with assms(1) have d: "d = c"
    using ep_registeredD(1) by (auto simp: ep_good_def)
  with Some have "(ep_channel s)(c \<mapsto> c) = ep_channel s"
    by auto
  with assms Some d show ?thesis
    using ep_update_result [of fd s c ev] ep_registered_set [of fd s c "se_value ev"]
      ep_ops_sized(2) [of s fd c ev s']
    by (auto simp: ep_good_def)
qed

lemma ep_remove_good:
  assumes "ep_good fd s" and "ep_remove fd c s = Inr s'"
  shows "ep_good fd s'"
proof (cases "ep_channel s c")
  case None
  with assms show ?thesis
    by (simp add: ep_remove_def)
next
  case (Some d)
  with assms show ?thesis
    using ep_remove_result [of fd s c] ep_registered_drop [of fd s c]
      ep_ops_sized(3) [of s fd c s']
    by (auto simp: ep_good_def)
qed

lemma ep_create_good: "ep_good fd ep_create"
  by (simp add: ep_good_def ep_registered_def ep_sized_def ep_create_def image_iff bexI [of _ 8])

lemma ep_wait_frame [simp]:
  "ep_channel (snd (ep_wait a s)) = ep_channel s" "ep_kernel (snd (ep_wait a s)) = ep_kernel s"
  by (simp_all add: ep_wait_def Let_def)

lemma ep_wait_sized:
  assumes "ep_sized s" and "ep_answer_ok s a"
  shows "ep_sized (snd (ep_wait a s))"
proof -
  obtain k where k: "8 \<le> k" "k \<le> 16" "length (ep_buf s) = 2 ^ k"
    using assms(1) by (auto simp: ep_sized_def)
  have grown: "\<exists>j\<in>{8..16}. length (ep_buf s) * 2 = 2 ^ j" if "length (ep_buf s) < 65536"
  proof -
    from that k(3) have "(2::nat) ^ k < 2 ^ 16"
      by simp
    then have "k < 16"
      using power_less_imp_less_exp by (metis one_less_numeral_iff semiring_norm(76))
    with k show ?thesis
      by (intro bexI [of _ "Suc k"]) auto
  qed
  have len: "length (ep_buf s) \<in> (\<lambda>k. 2 ^ k) ` {8..16}"
    using assms(1) by (simp add: ep_sized_def)
  show ?thesis
    using assms(2) len grown
    by (auto simp: ep_sized_def ep_wait_def ep_answer_ok_def Let_def image_iff mult_2_right split: sum.splits)
qed

lemma ep_wait_good: "ep_good fd s \<Longrightarrow> ep_answer_ok s a \<Longrightarrow> ep_good fd (snd (ep_wait a s))"
  by (auto simp: ep_good_def intro: ep_wait_sized) (simp add: ep_registered_def)

section \<open>The selector contract\<close>

interpretation epoll: watching_selector "\<lambda>c. c" "\<lambda>s. dom (ep_channel s)"
  "ep_add fd" "ep_remove fd" "ep_update fd" ep_contain ep_get "ep_good fd" "ep_watch fd"
proof unfold_locales
  fix c d :: channel and s s' :: epoll_selector and ev :: select_events and i what
  show "ep_contain c s \<longleftrightarrow> c \<in> dom (ep_channel s)"
    by (auto simp: ep_contain_def)
  show "ep_add fd c ev s = Inr s' \<Longrightarrow> dom (ep_channel s') = insert c (dom (ep_channel s))"
    by (auto simp: ep_ops split: option.splits sum.splits)
  show "ep_remove fd c s = Inr s' \<Longrightarrow> dom (ep_channel s') = dom (ep_channel s) - {c}"
    by (auto simp: ep_ops split: option.splits sum.splits if_splits)
  show "ep_update fd c ev s = Inr s' \<Longrightarrow> dom (ep_channel s') = dom (ep_channel s)"
    by (auto simp: ep_ops split: option.splits sum.splits)
  show "ep_good fd s \<Longrightarrow> ep_get s i = (Some c, what) \<Longrightarrow> ep_contain c s"
    by (auto simp: ep_get_def ep_contain_def ep_good_def Let_def dest: ep_registeredD(1) split: option.splits)
  show "\<not> ep_contain c s \<Longrightarrow> ep_remove fd c s = Inr s" "\<not> ep_contain c s \<Longrightarrow> ep_update fd c ev s = Inr s"
    by (auto simp: ep_contain_def ep_remove_def ep_update_def)
  show "ep_good fd s \<Longrightarrow> (ep_watch fd s c \<noteq> None) = ep_contain c s"
    by (auto simp: ep_watch_def ep_contain_def ep_good_def dest: ep_registeredD(2) split: option.splits)
  show "ep_good fd s \<Longrightarrow> ep_add fd c ev s = Inr s' \<Longrightarrow> ep_watch fd s' c = Some ev"
    by (auto simp: ep_watch_def ep_good_def dest: ep_add_result)
  show "ep_good fd s \<Longrightarrow> ep_contain c s \<Longrightarrow> ep_update fd c ev s = Inr s' \<Longrightarrow> ep_watch fd s' c = Some ev"
    using ep_update_result [of fd s c ev] by (auto simp: ep_watch_def ep_good_def ep_contain_def)
qed (auto intro: ep_add_good ep_remove_good ep_update_good)

end
