(* ===== verification/Poll_Selector.thy ===== *)
theory Poll_Selector
  imports Selector
begin

text \<open>
  include/pedronet/selector/poller.h: \<open>Poller\<close>, the selector on \<open>poll(2)\<close>.  It keeps the
  array handed to the kernel and, per descriptor, the index of its entry; removed entries
  stay in the array until the next \<open>Wait\<close>.  \<open>poll\<close> answers with an errno or with a value of
  \<open>revents\<close> for every entry, and returns how many of these are not zero.  \<open>std::partition\<close>
  leaves the order of the two groups open, so it is a parameter constrained by what the
  standard promises.
\<close>

section \<open>State and operations\<close>

record pollfd =
  pf_fd :: int
  pf_events :: "16 word"
  pf_revents :: "16 word"

record poller =
  po_cleanable :: bool
  po_buf :: "pollfd list"
  po_ready :: nat
  po_channels :: "int \<rightharpoonup> nat \<times> channel"

definition po_create :: poller where
  "po_create = \<lparr>po_cleanable = False, po_buf = [], po_ready = 0, po_channels = Map.empty\<rparr>"

text \<open>\<open>CleanUp\<close>: one iteration of the loop, on the array, the table and \<open>head\<close>.\<close>

fun po_cleanup_step ::
  "nat \<Rightarrow> pollfd list \<times> (int \<rightharpoonup> nat \<times> channel) \<times> nat \<Rightarrow> pollfd list \<times> (int \<rightharpoonup> nat \<times> channel) \<times> nat"
where
  "po_cleanup_step i (buf, channels, head) =
     (let p = buf ! i
      in case channels (pf_fd p) of
           None \<Rightarrow> (buf, channels, head)
         | Some (_, ch) \<Rightarrow> (buf[head := p], channels(pf_fd p \<mapsto> (head, ch)), head + 1))"

definition po_cleanup :: "poller \<Rightarrow> poller" where
  "po_cleanup s =
     (case fold po_cleanup_step [0..<length (po_buf s)] (po_buf s, po_channels s, 0) of
        (buf, channels, head) \<Rightarrow> s\<lparr>po_buf := take head buf, po_channels := channels\<rparr>)"

definition po_add :: "(channel \<Rightarrow> int) \<Rightarrow> channel \<Rightarrow> select_events \<Rightarrow> poller \<Rightarrow> poller" where
  "po_add fd ch events s =
     (let buf = po_buf s @ [\<lparr>pf_fd = fd ch, pf_events = ucast (se_value events), pf_revents = 0\<rparr>]
      in s\<lparr>po_buf := buf, po_channels := (po_channels s)(fd ch \<mapsto> (length buf - 1, ch))\<rparr>)"

definition po_remove :: "(channel \<Rightarrow> int) \<Rightarrow> channel \<Rightarrow> poller \<Rightarrow> poller" where
  "po_remove fd ch s =
     (case po_channels s (fd ch) of
        None \<Rightarrow> s
      | Some _ \<Rightarrow> s\<lparr>po_channels := (po_channels s)(fd ch := None), po_cleanable := True\<rparr>)"

definition po_update :: "(channel \<Rightarrow> int) \<Rightarrow> channel \<Rightarrow> select_events \<Rightarrow> poller \<Rightarrow> poller" where
  "po_update fd ch events s =
     (case po_channels s (fd ch) of
        None \<Rightarrow> s
      | Some (i, _) \<Rightarrow>
          s\<lparr>po_buf := (po_buf s)[i := (po_buf s ! i)\<lparr>pf_events := ucast (se_value events)\<rparr>]\<rparr>)"

definition po_contain :: "(channel \<Rightarrow> int) \<Rightarrow> channel \<Rightarrow> poller \<Rightarrow> bool" where
  "po_contain fd ch s \<longleftrightarrow> po_channels s (fd ch) \<noteq> None"

definition pf_reported :: "pollfd \<Rightarrow> bool" where
  "pf_reported p \<longleftrightarrow> pf_revents p \<noteq> 0"

definition po_wait ::
  "((pollfd \<Rightarrow> bool) \<Rightarrow> pollfd list \<Rightarrow> pollfd list) \<Rightarrow> int + 16 word list \<Rightarrow> poller \<Rightarrow> int \<times> poller" where
  "po_wait std_partition answer s =
     (let s1 = (if po_cleanable s then po_cleanup s else s)\<lparr>po_ready := 0\<rparr>
      in case answer of
           Inl errno \<Rightarrow> (errno, s1)
         | Inr revents \<Rightarrow>
             let buf = map2 (\<lambda>p r. p\<lparr>pf_revents := r\<rparr>) (po_buf s1) revents;
                 n = length (filter pf_reported buf)
             in (0, s1\<lparr>po_ready := n, po_buf := std_partition pf_reported buf\<rparr>))"

definition po_size :: "poller \<Rightarrow> nat" where
  "po_size s = po_ready s"

definition po_get :: "poller \<Rightarrow> nat \<Rightarrow> select_channel" where
  "po_get s index =
     (let p = po_buf s ! index
      in case po_channels s (pf_fd p) of
           None \<Rightarrow> (None, ReceiveEvents 0)
         | Some (_, ch) \<Rightarrow> (Some ch, ReceiveEvents (scast (pf_revents p))))"

text \<open>What the standard promises of \<open>std::partition\<close>, and one implementation of it.\<close>

definition partition_ok :: "((pollfd \<Rightarrow> bool) \<Rightarrow> pollfd list \<Rightarrow> pollfd list) \<Rightarrow> bool" where
  "partition_ok part \<longleftrightarrow>
     (\<forall>P xs. mset (part P xs) = mset xs \<and>
        (\<exists>ys zs. part P xs = ys @ zs \<and> list_all P ys \<and> list_all (\<lambda>x. \<not> P x) zs))"

definition stable_partition :: "(pollfd \<Rightarrow> bool) \<Rightarrow> pollfd list \<Rightarrow> pollfd list" where
  "stable_partition P xs = filter P xs @ filter (\<lambda>x. \<not> P x) xs"

lemma stable_partition_ok: "partition_ok stable_partition"
proof -
  have "\<exists>ys zs. stable_partition P xs = ys @ zs \<and> list_all P ys \<and> list_all (\<lambda>x. \<not> P x) zs" for P xs
    unfolding stable_partition_def by (intro exI conjI, rule refl) (auto simp: list_all_iff)
  then show ?thesis
    by (simp add: partition_ok_def) (simp add: stable_partition_def)
qed

text \<open>The reported entries come first, in some order; there are as many as \<open>poll\<close> returned.\<close>

lemma partition_front:
  assumes "partition_ok part"
  shows "mset (take (length (filter P xs)) (part P xs)) = mset (filter P xs)"
proof -
  obtain ys zs where p: "part P xs = ys @ zs" "list_all P ys" "list_all (\<lambda>x. \<not> P x) zs"
    using assms unfolding partition_ok_def by meson
  have m: "mset (ys @ zs) = mset xs"
    using assms p(1) by (metis partition_ok_def)
  have "filter P ys = ys" "filter P zs = []"
    using p(2,3) by (auto simp: list_all_iff filter_empty_conv)
  then have "filter_mset P (mset (ys @ zs)) = mset ys"
    by (simp flip: mset_filter)
  with m have "mset (filter P xs) = mset ys"
    by (simp add: mset_filter)
  moreover from this have "length (filter P xs) = length ys"
    by (metis size_mset)
  ultimately show ?thesis
    by (simp add: p(1))
qed

section \<open>CleanUp\<close>

text \<open>Every registered descriptor has its index pointing at an entry of its own.\<close>

definition po_indexed :: "poller \<Rightarrow> bool" where
  "po_indexed s \<longleftrightarrow>
     (\<forall>f i c. po_channels s f = Some (i, c) \<longrightarrow> i < length (po_buf s) \<and> pf_fd (po_buf s ! i) = f)"

text \<open>Every registered descriptor has an entry, wherever it is.\<close>

definition po_listed :: "poller \<Rightarrow> bool" where
  "po_listed s \<longleftrightarrow>
     (\<forall>f i c. po_channels s f = Some (i, c) \<longrightarrow> i < length (po_buf s) \<and> f \<in> pf_fd ` set (po_buf s))"

definition po_keyed :: "(channel \<Rightarrow> int) \<Rightarrow> poller \<Rightarrow> bool" where
  "po_keyed fd s \<longleftrightarrow> (\<forall>f i c. po_channels s f = Some (i, c) \<longrightarrow> fd c = f)"

text \<open>The loop after \<open>i\<close> iterations.\<close>

definition cleanup_inv ::
  "pollfd list \<Rightarrow> (int \<rightharpoonup> nat \<times> channel) \<Rightarrow> nat \<Rightarrow>
    pollfd list \<times> (int \<rightharpoonup> nat \<times> channel) \<times> nat \<Rightarrow> bool" where
  "cleanup_inv buf0 ch0 i st \<longleftrightarrow>
     (case st of (buf, ch, head) \<Rightarrow>
        head \<le> i \<and> length buf = length buf0 \<and> drop i buf = drop i buf0 \<and>
        take head buf = filter (\<lambda>p. ch0 (pf_fd p) \<noteq> None) (take i buf0) \<and>
        (\<forall>f. map_option snd (ch f) = map_option snd (ch0 f)) \<and>
        (\<forall>f k c. ch f = Some (k, c) \<longrightarrow> f \<in> pf_fd ` set (take i buf0) \<longrightarrow> k < head \<and> pf_fd (buf ! k) = f))"

lemma cleanup_inv_step:
  assumes "cleanup_inv buf0 ch0 i st" and "i < length buf0"
  shows "cleanup_inv buf0 ch0 (Suc i) (po_cleanup_step i st)"
proof -
  obtain buf ch head where st: "st = (buf, ch, head)"
    by (cases st)
  have inv: "head \<le> i" "length buf = length buf0" "drop i buf = drop i buf0"
    "take head buf = filter (\<lambda>p. ch0 (pf_fd p) \<noteq> None) (take i buf0)"
    "\<And>f. map_option snd (ch f) = map_option snd (ch0 f)"
    "\<And>f k c. ch f = Some (k, c) \<Longrightarrow> f \<in> pf_fd ` set (take i buf0) \<Longrightarrow> k < head \<and> pf_fd (buf ! k) = f"
    using assms(1) by (auto simp: cleanup_inv_def st)
  have p: "buf ! i = buf0 ! i"
    using inv(2,3) assms(2) by (metis hd_drop_conv_nth)
  have rest: "drop (Suc i) buf = drop (Suc i) buf0"
    using inv(3) by (metis drop_Suc tl_drop)
  have known: "ch0 f = None \<longleftrightarrow> ch f = None" for f
    using inv(5) [of f] by (metis map_option_is_None)
  have tk: "take (Suc i) buf0 = take i buf0 @ [buf0 ! i]"
    using assms(2) by (rule take_Suc_conv_app_nth)
  show ?thesis
  proof (cases "ch (pf_fd (buf0 ! i))")
    case None
    then show ?thesis
      using inv rest known assms(2) by (auto simp: cleanup_inv_def st p tk)
  next
    case (Some kc)
    obtain k c where kc: "kc = (k, c)"
      by (cases kc)
    have head: "head < length buf"
      using inv(1,2) assms(2) by simp
    have step: "po_cleanup_step i st = (buf[head := buf0 ! i], ch(pf_fd (buf0 ! i) \<mapsto> (head, c)), Suc head)"
      by (simp add: st p Some kc Let_def)
    have reg: "ch0 (pf_fd (buf0 ! i)) \<noteq> None"
      using known Some by simp
    show ?thesis
      unfolding step cleanup_inv_def prod.case
    proof (intro conjI allI impI)
      show "take (Suc head) (buf[head := buf0 ! i]) = filter (\<lambda>p. ch0 (pf_fd p) \<noteq> None) (take (Suc i) buf0)"
        using head inv(4) reg by (simp add: take_Suc_conv_app_nth tk)
      show "drop (Suc i) (buf[head := buf0 ! i]) = drop (Suc i) buf0"
        using inv(1) rest by simp
      show "map_option snd ((ch(pf_fd (buf0 ! i) \<mapsto> (head, c))) f) = map_option snd (ch0 f)" for f
        using inv(5) [of f] Some kc by auto
    next
      fix f k' d
      assume "(ch(pf_fd (buf0 ! i) \<mapsto> (head, c))) f = Some (k', d)" "f \<in> pf_fd ` set (take (Suc i) buf0)"
      then show "k' < Suc head" "pf_fd (buf[head := buf0 ! i] ! k') = f"
        using inv(6) [of f k' d] head by (cases "f = pf_fd (buf0 ! i)"; auto simp: tk nth_list_update)+
    qed (use inv(1,2) in auto)
  qed
qed

lemma cleanup_inv_fold:
  "n \<le> length buf0 \<Longrightarrow> cleanup_inv buf0 ch0 n (fold po_cleanup_step [0..<n] (buf0, ch0, 0))"
proof (induction n)
  case 0
  show ?case
    by (simp add: cleanup_inv_def)
next
  case (Suc n)
  then show ?case
    by (simp add: cleanup_inv_step)
qed

lemma po_cleanup_result:
  fixes s
  defines "t \<equiv> po_cleanup s"
  shows "po_buf t = filter (\<lambda>p. po_channels s (pf_fd p) \<noteq> None) (po_buf s)"
    and "map_option snd (po_channels t f) = map_option snd (po_channels s f)"
    and "po_channels t f = Some (k, c) \<Longrightarrow> f \<in> pf_fd ` set (po_buf s) \<Longrightarrow>
      k < length (po_buf t) \<and> pf_fd (po_buf t ! k) = f"
    and "po_cleanable t = po_cleanable s" and "po_ready t = po_ready s"
proof -
  obtain buf ch head where r: "fold po_cleanup_step [0..<length (po_buf s)] (po_buf s, po_channels s, 0) = (buf, ch, head)"
    by (metis prod_cases3)
  have inv: "cleanup_inv (po_buf s) (po_channels s) (length (po_buf s)) (buf, ch, head)"
    using cleanup_inv_fold [of "length (po_buf s)" "po_buf s" "po_channels s"] r by simp
  have t: "t = s\<lparr>po_buf := take head buf, po_channels := ch\<rparr>"
    by (simp add: t_def po_cleanup_def r)
  show "po_buf t = filter (\<lambda>p. po_channels s (pf_fd p) \<noteq> None) (po_buf s)"
    "map_option snd (po_channels t f) = map_option snd (po_channels s f)"
    "po_cleanable t = po_cleanable s" "po_ready t = po_ready s"
    using inv by (simp_all add: t cleanup_inv_def)
  show "po_channels t f = Some (k, c) \<Longrightarrow> f \<in> pf_fd ` set (po_buf s) \<Longrightarrow>
      k < length (po_buf t) \<and> pf_fd (po_buf t ! k) = f"
  proof -
    assume "po_channels t f = Some (k, c)" and "f \<in> pf_fd ` set (po_buf s)"
    with inv have "k < head" and "pf_fd (buf ! k) = f" and "head \<le> length buf"
      by (auto simp: t cleanup_inv_def)
    then show ?thesis
      by (simp add: t)
  qed
qed

section \<open>What the operations keep\<close>

lemmas po_ops = po_add_def po_remove_def po_update_def Let_def

lemma po_update_buf [simp]:
  "length (po_buf (po_update fd c ev s)) = length (po_buf s)"
  "pf_fd (po_buf (po_update fd c ev s) ! i) = pf_fd (po_buf s ! i)"
  "po_channels (po_update fd c ev s) = po_channels s"
  by (auto simp: po_update_def nth_list_update split: option.split)
    (metis list_update_beyond not_le nth_list_update pollfd.select_convs(1) pollfd.surjective pollfd.update_convs(2))

lemma po_indexed_ops:
  "po_indexed po_create"
  "po_indexed s \<Longrightarrow> po_indexed (po_add fd c ev s)"
  "po_indexed s \<Longrightarrow> po_indexed (po_remove fd c s)"
  "po_indexed s \<Longrightarrow> po_indexed (po_update fd c ev s)"
  by (auto simp: po_indexed_def po_create_def po_add_def po_remove_def Let_def nth_append
      less_Suc_eq split: option.splits if_splits)

lemma po_indexed_listed: "po_indexed s \<Longrightarrow> po_listed s"
  by (fastforce simp: po_indexed_def po_listed_def)

lemma po_cleanup_indexed:
  assumes "po_listed s"
  shows "po_indexed (po_cleanup s)"
  unfolding po_indexed_def
proof (intro allI impI)
  fix f i c
  assume i: "po_channels (po_cleanup s) f = Some (i, c)"
  then have "po_channels s f \<noteq> None"
    using po_cleanup_result(2) [of s f] by (metis map_option_is_None option.distinct(1))
  with assms have "f \<in> pf_fd ` set (po_buf s)"
    by (auto simp: po_listed_def)
  with i show "i < length (po_buf (po_cleanup s)) \<and> pf_fd (po_buf (po_cleanup s) ! i) = f"
    by (rule po_cleanup_result(3))
qed

lemma po_keyed_ops:
  "po_keyed fd po_create"
  "po_keyed fd s \<Longrightarrow> po_keyed fd (po_add fd c ev s)"
  "po_keyed fd s \<Longrightarrow> po_keyed fd (po_remove fd c s)"
  "po_keyed fd s \<Longrightarrow> po_keyed fd (po_update fd c ev s)"
  by (auto simp: po_keyed_def po_create_def po_add_def po_remove_def Let_def
      split: option.splits if_splits)

interpretation poll: selector fd "\<lambda>s. dom (po_channels s)"
  "\<lambda>c ev s. Inr (po_add fd c ev s)" "\<lambda>c s. Inr (po_remove fd c s)" "\<lambda>c ev s. Inr (po_update fd c ev s)"
  "po_contain fd" po_get "po_keyed fd"
proof unfold_locales
  fix c :: channel and s and i what
  show "po_keyed fd s \<Longrightarrow> po_get s i = (Some c, what) \<Longrightarrow> po_contain fd c s"
    by (auto simp: po_keyed_def po_get_def po_contain_def Let_def split: option.splits)
qed (auto simp: po_contain_def po_ops po_keyed_def split: option.splits if_splits)

text \<open>
  An update goes to the entry of its channel as long as the indices are right, and changes no
  other.
\<close>

lemma po_update_direct:
  assumes "po_indexed s" and "po_contain fd c s"
  obtains i where "i < length (po_buf s)" and "pf_fd (po_buf s ! i) = fd c"
    and "po_buf (po_update fd c ev s) = (po_buf s)[i := (po_buf s ! i)\<lparr>pf_events := ucast (se_value ev)\<rparr>]"
proof -
  from assms(2) obtain i d where "po_channels s (fd c) = Some (i, d)"
    by (auto simp: po_contain_def)
  with assms(1) show ?thesis
    by (intro that [of i]) (auto simp: po_indexed_def po_update_def)
qed

text \<open>The result of a successful \<open>Wait\<close>.\<close>

definition po_swept :: "poller \<Rightarrow> poller" where
  "po_swept s = (if po_cleanable s then po_cleanup s else s)"

lemma po_wait_ok:
  assumes "partition_ok part" and "length revents = length (po_buf (po_swept s))"
  defines "buf \<equiv> map2 (\<lambda>p r. p\<lparr>pf_revents := r\<rparr>) (po_buf (po_swept s)) revents"
  shows "fst (po_wait part (Inr revents) s) = 0"
    and "po_size (snd (po_wait part (Inr revents) s)) = length (filter pf_reported buf)"
    and "po_channels (snd (po_wait part (Inr revents) s)) = po_channels (po_swept s)"
    and "po_buf (snd (po_wait part (Inr revents) s)) = part pf_reported buf"
    and "length (part pf_reported buf) = length buf"
proof -
  show "length (part pf_reported buf) = length buf"
    using assms(1) unfolding partition_ok_def by (metis size_mset)
qed (simp_all add: po_wait_def po_swept_def po_size_def buf_def Let_def)

end
