(* ===== verification/Selector_Properties.thy ===== *)
theory Selector_Properties
  imports Epoll_Selector Poll_Selector
begin

text \<open>
  The properties of the two selectors: the epoll selector implements a table of masks and
  reports what the kernel reported; the poll selector's \<open>CleanUp\<close> and \<open>Wait\<close>, and the two
  places where its table and its array part.
\<close>

section \<open>The epoll selector\<close>

text \<open>The operations the rest of the library performs, in any order.\<close>

datatype selector_op =
    SelAdd channel
  | SelRemove channel
  | SelUpdate channel select_events
  | SelWait "int + epoll_event list"

fun ep_step :: "(channel \<Rightarrow> int) \<Rightarrow> selector_op \<Rightarrow> epoll_selector \<Rightarrow> selector_fatal + epoll_selector" where
  "ep_step fd (SelAdd c) s = (case el_add ep_contain (ep_add fd) c s of Inl e \<Rightarrow> Inl e | Inr (s', _) \<Rightarrow> Inr s')"
| "ep_step fd (SelRemove c) s =
    (case el_remove ep_contain (ep_remove fd) c s of Inl e \<Rightarrow> Inl e | Inr (s', _) \<Rightarrow> Inr s')"
| "ep_step fd (SelUpdate c ev) s = ep_update fd c ev s"
| "ep_step fd (SelWait a) s = Inr (snd (ep_wait a s))"

fun ep_run :: "(channel \<Rightarrow> int) \<Rightarrow> selector_op list \<Rightarrow> epoll_selector \<Rightarrow> selector_fatal + epoll_selector" where
  "ep_run fd [] s = Inr s"
| "ep_run fd (x # xs) s = (case ep_step fd x s of Inl e \<Rightarrow> Inl e | Inr s' \<Rightarrow> ep_run fd xs s')"

text \<open>The answers of the kernel are possible ones.\<close>

fun ep_answers_ok :: "(channel \<Rightarrow> int) \<Rightarrow> selector_op list \<Rightarrow> epoll_selector \<Rightarrow> bool" where
  "ep_answers_ok fd [] s = True"
| "ep_answers_ok fd (x # xs) s =
    ((case x of SelWait a \<Rightarrow> ep_answer_ok s a | _ \<Rightarrow> True)
     \<and> (case ep_step fd x s of Inl e \<Rightarrow> True | Inr s' \<Rightarrow> ep_answers_ok fd xs s'))"

text \<open>The specification: a table from the registered channels to their masks.\<close>

fun mask_step :: "selector_op \<Rightarrow> (channel \<rightharpoonup> select_events) \<Rightarrow> (channel \<rightharpoonup> select_events)" where
  "mask_step (SelAdd c) m = (if m c = None then m(c \<mapsto> kNoneEvent) else m)"
| "mask_step (SelRemove c) m = m(c := None)"
| "mask_step (SelUpdate c ev) m = (if m c = None then m else m(c \<mapsto> ev))"
| "mask_step (SelWait a) m = m"

lemma ep_watch_None: "ep_good fd s \<Longrightarrow> ep_watch fd s c = None \<longleftrightarrow> ep_channel s c = None"
  using epoll.watch_contain [of fd s c] by (auto simp: ep_contain_def)

text \<open>An operation leaves the channels it is not about alone, also where descriptors are reused.\<close>

lemma ep_watch_apart:
  assumes "ep_good fd s" and "d \<noteq> c" and "ep_kernel s (fd c) = None \<or> ep_channel s c = Some c"
    and "ep_channel s' d = ep_channel s d" and "\<And>f. f \<noteq> fd c \<Longrightarrow> ep_kernel s' f = ep_kernel s f"
  shows "ep_watch fd s' d = ep_watch fd s d"
proof (cases "ep_channel s d")
  case (Some e)
  have "fd d \<noteq> fd c"
    using assms(1-3) Some ep_registered_distinct [where fd = fd and s = s and p = d and c = c]
    by (auto simp: ep_good_def)
  with assms(4,5) Some show ?thesis
    by (simp add: ep_watch_def)
qed (simp add: ep_watch_def assms(4))

lemma ep_watch_other:
  assumes good: "ep_good fd s" and other: "d \<noteq> c"
  shows "ep_add fd c ev s = Inr s' \<Longrightarrow> ep_watch fd s' d = ep_watch fd s d"
    and "ep_update fd c ev s = Inr s' \<Longrightarrow> ep_watch fd s' d = ep_watch fd s d"
    and "ep_remove fd c s = Inr s' \<Longrightarrow> ep_watch fd s' d = ep_watch fd s d"
proof -
  have reg: "ep_registered fd s"
    using good by (simp add: ep_good_def)
  have self: "ep_channel s c = Some c" if "ep_channel s c \<noteq> None"
    using that ep_registeredD(1) [OF reg, of c] by auto
  show "ep_watch fd s' d = ep_watch fd s d" if "ep_add fd c ev s = Inr s'"
    using ep_add_result [OF reg that] other by (intro ep_watch_apart [OF good other]) auto
  show "ep_watch fd s' d = ep_watch fd s d" if "ep_update fd c ev s = Inr s'"
  proof (cases "ep_channel s c = None")
    case True
    with that show ?thesis by (simp add: ep_update_def)
  next
    case False
    with that ep_update_result [OF reg False] self other show ?thesis
      by (intro ep_watch_apart [OF good other]) auto
  qed
  show "ep_watch fd s' d = ep_watch fd s d" if "ep_remove fd c s = Inr s'"
  proof (cases "ep_channel s c = None")
    case True
    with that show ?thesis by (simp add: ep_remove_def)
  next
    case False
    with that ep_remove_result [OF reg False] self other show ?thesis
      by (intro ep_watch_apart [OF good other]) auto
  qed
qed

lemma ep_watch_wait [simp]: "ep_watch fd (snd (ep_wait a s)) = ep_watch fd s"
  by (rule ext) (simp add: ep_watch_def split: option.split)

lemma ep_step_refines_at:
  assumes free: "\<And>c. x = SelAdd c \<Longrightarrow> ep_channel s c = None \<Longrightarrow> ep_kernel s (fd c) = None"
    and "ep_good fd s" and "case x of SelWait a \<Rightarrow> ep_answer_ok s a | _ \<Rightarrow> True"
  shows "\<exists>s'. ep_step fd x s = Inr s' \<and> ep_good fd s' \<and> ep_watch fd s' = mask_step x (ep_watch fd s)"
proof (cases x)
  case (SelAdd c)
  show ?thesis
  proof (cases "ep_channel s c")
    case None
    have "ep_kernel s (fd c) = None"
      using free SelAdd None by simp
    with None obtain s' where s': "ep_add fd c kNoneEvent s = Inr s'"
      by (auto simp: ep_ops)
    have "ep_watch fd s' = (ep_watch fd s)(c \<mapsto> kNoneEvent)"
      using epoll.watch_add [OF assms(2) s'] ep_watch_other(1) [OF assms(2) _ s'] by auto
    with s' None assms(2) show ?thesis
      by (auto simp: SelAdd el_add_def ep_contain_def ep_watch_None intro: ep_add_good)
  next
    case (Some d)
    with assms(2) show ?thesis
      by (auto simp: SelAdd el_add_def ep_contain_def ep_watch_None)
  qed
next
  case (SelRemove c)
  show ?thesis
  proof (cases "ep_channel s c")
    case None
    with assms(2) show ?thesis
      using ep_watch_None [OF assms(2), of c]
      by (auto simp: SelRemove el_remove_def ep_contain_def)
  next
    case (Some d)
    with assms(2) obtain s' where s': "ep_remove fd c s = Inr s'"
      using ep_remove_result [of fd s c] by (auto simp: ep_good_def)
    have "\<not> ep_contain c s'"
      using epoll.contain_remove [OF s', of c] by simp
    then have "ep_watch fd s' = (ep_watch fd s)(c := None)"
      using ep_watch_other(3) [OF assms(2) _ s'] by (auto simp: ep_watch_def ep_contain_def)
    with s' Some assms(2) show ?thesis
      by (auto simp: SelRemove el_remove_def ep_contain_def intro: ep_remove_good)
  qed
next
  case (SelUpdate c ev)
  show ?thesis
  proof (cases "ep_channel s c")
    case None
    with assms(2) show ?thesis
      by (auto simp: SelUpdate ep_update_def ep_watch_None)
  next
    case (Some d)
    with assms(2) obtain s' where s': "ep_update fd c ev s = Inr s'"
      using ep_update_result [of fd s c ev] by (auto simp: ep_good_def)
    have "ep_watch fd s' = (ep_watch fd s)(c \<mapsto> ev)"
      using epoll.watch_update [OF assms(2) _ s'] ep_watch_other(2) [OF assms(2) _ s'] Some
      by (auto simp: ep_contain_def)
    with s' Some assms(2) show ?thesis
      by (auto simp: SelUpdate ep_watch_None intro: ep_update_good)
  qed
next
  case (SelWait a)
  with assms show ?thesis
    by (auto intro: ep_wait_good)
qed

text \<open>With descriptors of their own there is never another channel in the way.\<close>

lemma ep_step_refines:
  assumes "inj fd" and "ep_good fd s" and "case x of SelWait a \<Rightarrow> ep_answer_ok s a | _ \<Rightarrow> True"
  shows "\<exists>s'. ep_step fd x s = Inr s' \<and> ep_good fd s' \<and> ep_watch fd s' = mask_step x (ep_watch fd s)"
proof (rule ep_step_refines_at [OF _ assms(2,3)])
  show "ep_kernel s (fd c) = None" if "ep_channel s c = None" for c
    using that assms(1,2) ep_registeredD(3,4) [of fd s "fd c"]
    by (cases "ep_kernel s (fd c)") (auto simp: ep_good_def inj_eq)
qed

lemma ep_run_refines:
  assumes "inj fd"
  shows "ep_good fd s \<Longrightarrow> ep_answers_ok fd xs s \<Longrightarrow>
    \<exists>s'. ep_run fd xs s = Inr s' \<and> ep_good fd s' \<and> ep_watch fd s' = fold mask_step xs (ep_watch fd s)"
proof (induction xs arbitrary: s)
  case (Cons x xs)
  then obtain s' where "ep_step fd x s = Inr s'" "ep_good fd s'" "ep_watch fd s' = mask_step x (ep_watch fd s)"
    using ep_step_refines [OF assms, of s x] by auto
  with Cons.prems(2) Cons.IH [of s'] show ?case
    by auto
qed simp

text \<open>
  C7. The epoll selector implements a table of masks.  Channels with descriptors of their own,
  any sequence of EventLoop::Add, EventLoop::Remove, Selector::Update and Selector::Wait with
  any answers of the kernel: no \<open>epoll_ctl\<close> fails (the fatal error never happens), the kernel
  watches exactly the channels that are registered, each with the mask it was given last (none
  of the masks of a channel that was removed and added again), and the event buffer has one of
  the sizes 256, 512, ..., 65536 with the reported events inside it.
\<close>

theorem epoll_refines_masks:
  assumes "inj fd" and "ep_answers_ok fd xs ep_create"
  shows "\<exists>s. ep_run fd xs ep_create = Inr s \<and> ep_watch fd s = fold mask_step xs Map.empty
    \<and> (\<exists>k\<in>{8..16}. length (ep_buf s) = 2 ^ k) \<and> ep_size s \<le> length (ep_buf s)"
proof -
  have "ep_watch fd ep_create = Map.empty"
    by (auto simp: ep_watch_def ep_create_def)
  then obtain s where "ep_run fd xs ep_create = Inr s" "ep_good fd s" "ep_watch fd s = fold mask_step xs Map.empty"
    using ep_run_refines [OF assms(1) ep_create_good assms(2)] by auto
  then show ?thesis
    by (auto simp: ep_good_def ep_sized_def ep_size_def image_iff)
qed

theorem epoll_refines_masks_witness:
  "\<exists>s. ep_run int [SelAdd 5, SelUpdate 5 kReadEvent, SelWait (Inr [\<lparr>ee_events = 1, ee_ptr = 5\<rparr>]), SelRemove 5]
      ep_create = Inr s
    \<and> ep_watch int s = fold mask_step
        [SelAdd 5, SelUpdate 5 kReadEvent, SelWait (Inr [\<lparr>ee_events = 1, ee_ptr = 5\<rparr>]), SelRemove 5] Map.empty
    \<and> (\<exists>k\<in>{8..16}. length (ep_buf s) = 2 ^ k) \<and> ep_size s \<le> length (ep_buf s)"
  by (rule epoll_refines_masks)
    (auto simp: el_add_def el_remove_def ep_ops ep_contain_def ep_create_def ep_answer_ok_def)

text \<open>What the handlers of a round may do: every operation but \<open>Wait\<close>.\<close>

definition handler_ops :: "selector_op list \<Rightarrow> bool" where
  "handler_ops xs \<longleftrightarrow> list_all (\<lambda>x. case x of SelWait _ \<Rightarrow> False | _ \<Rightarrow> True) xs"

lemma ep_step_frame:
  "ep_step fd x s = Inr s' \<Longrightarrow> (case x of SelWait _ \<Rightarrow> False | _ \<Rightarrow> True) \<Longrightarrow>
    ep_buf s' = ep_buf s \<and> ep_len s' = ep_len s"
  by (cases x) (auto simp: el_add_def el_remove_def dest: ep_ops_frame split: sum.splits if_splits)

lemma ep_run_frame:
  "ep_run fd xs s = Inr s' \<Longrightarrow> handler_ops xs \<Longrightarrow> ep_buf s' = ep_buf s \<and> ep_len s' = ep_len s"
  by (induction xs arbitrary: s)
    (auto simp: handler_ops_def dest: ep_step_frame split: sum.splits)

lemma ep_step_good: "ep_step fd x s = Inr s' \<Longrightarrow> (case x of SelWait _ \<Rightarrow> False | _ \<Rightarrow> True) \<Longrightarrow> ep_good fd s \<Longrightarrow> ep_good fd s'"
  by (cases x) (auto intro: epoll.el_add_good epoll.el_remove_good ep_update_good split: sum.splits)

lemma ep_run_good: "ep_run fd xs s = Inr s' \<Longrightarrow> handler_ops xs \<Longrightarrow> ep_good fd s \<Longrightarrow> ep_good fd s'"
proof (induction xs arbitrary: s)
  case (Cons x xs)
  then obtain s1 where "ep_step fd x s = Inr s1" "ep_run fd xs s1 = Inr s'"
    by (auto split: sum.splits)
  moreover from this Cons.prems have "ep_good fd s1"
    by (auto simp: handler_ops_def intro: ep_step_good)
  ultimately show ?case
    using Cons by (auto simp: handler_ops_def)
qed simp

text \<open>
  The events the kernel writes are the events the loop dispatches.  After a successful
  \<open>Wait\<close> the size is the number of reported events, and during the round, whatever the
  handlers have added, removed or updated so far, \<open>Get(i)\<close> gives the i-th event with the
  channel it was registered for, or with no channel when that channel is not registered any
  more; the growth of the buffer does not disturb them.
\<close>

theorem epoll_reports:
  assumes "ep_good fd s" and "ep_answer_ok s (Inr evs)"
    and "ep_run fd xs (snd (ep_wait (Inr evs) s)) = Inr t" and "handler_ops xs"
  shows "fst (ep_wait (Inr evs) s) = 0 \<and> ep_size t = length evs \<and>
    (\<forall>i < length evs. ep_get t i =
       (if ep_contain (ee_ptr (evs ! i)) t then Some (ee_ptr (evs ! i)) else None,
        ReceiveEvents (ee_events (evs ! i))))"
proof -
  let ?w = "snd (ep_wait (Inr evs) s)"
  have good: "ep_good fd t"
    using ep_run_good [OF assms(3,4)] ep_wait_good [OF assms(1,2)] .
  have t: "ep_buf t = ep_buf ?w" "ep_len t = ep_len ?w"
    using ep_run_frame [OF assms(3,4)] by auto
  have w: "ep_buf ?w ! i = evs ! i" if "i < length evs" for i
    using that by (simp add: ep_wait_def Let_def nth_append)
  have "ep_get t i = (if ep_contain (ee_ptr (evs ! i)) t then Some (ee_ptr (evs ! i)) else None,
      ReceiveEvents (ee_events (evs ! i)))" if "i < length evs" for i
    using w [OF that] good
    by (auto simp: ep_get_def t ep_contain_def Let_def ep_good_def dest: ep_registeredD(1) split: option.splits)
  moreover have "ep_len ?w = length evs"
    by (simp add: ep_wait_def Let_def)
  ultimately show ?thesis
    by (auto simp: ep_size_def t) (simp add: ep_wait_def Let_def)
qed

theorem epoll_reports_witness:
  "let s = ep_create\<lparr>ep_channel := [5 \<mapsto> 5], ep_kernel := [5 \<mapsto> \<lparr>ee_events = 1, ee_ptr = 5\<rparr>]\<rparr>;
       evs = [\<lparr>ee_events = 4, ee_ptr = 5\<rparr>]
   in fst (ep_wait (Inr evs) s) = 0 \<and> ep_size (snd (ep_wait (Inr evs) s)) = length evs \<and>
    (\<forall>i < length evs. ep_get (snd (ep_wait (Inr evs) s)) i =
       (if ep_contain (ee_ptr (evs ! i)) (snd (ep_wait (Inr evs) s)) then Some (ee_ptr (evs ! i)) else None,
        ReceiveEvents (ee_events (evs ! i))))"
  unfolding Let_def
  by (rule epoll_reports [where fd = int and xs = "[]"])
    (auto simp: ep_good_def ep_registered_def ep_sized_def ep_create_def ep_answer_ok_def
      handler_ops_def image_iff intro!: bexI [of _ 8] split: if_splits)

section \<open>The poll selector\<close>

text \<open>
  \<open>Poller::CleanUp\<close> compacts the array in place, one entry after the other, and does what
  filtering it would: the entries of registered descriptors, in order, unchanged.  The table
  keeps its descriptors and channels, and afterwards every index points at an entry of its own
  descriptor, wherever it pointed before.
\<close>

theorem poller_cleanup_filters:
  assumes "po_listed s"
  shows "po_buf (po_cleanup s) = filter (\<lambda>p. po_channels s (pf_fd p) \<noteq> None) (po_buf s)
    \<and> (\<forall>f. map_option snd (po_channels (po_cleanup s) f) = map_option snd (po_channels s f))
    \<and> po_indexed (po_cleanup s)"
  using po_cleanup_result(1,2) [of s] po_cleanup_indexed [OF assms] by blast

theorem poller_cleanup_filters_witness:
  "let s = po_remove int 1 (po_add int 2 kReadEvent (po_add int 1 kReadEvent po_create))
   in po_buf (po_cleanup s) = filter (\<lambda>p. po_channels s (pf_fd p) \<noteq> None) (po_buf s)
    \<and> (\<forall>f. map_option snd (po_channels (po_cleanup s) f) = map_option snd (po_channels s f))
    \<and> po_indexed (po_cleanup s)"
  unfolding Let_def
  by (rule poller_cleanup_filters) (intro po_indexed_listed po_indexed_ops)

text \<open>What an entry of the array makes the loop see.\<close>

definition pf_report :: "poller \<Rightarrow> pollfd \<Rightarrow> select_channel" where
  "pf_report s p =
     (case po_channels s (pf_fd p) of
        None \<Rightarrow> (None, ReceiveEvents 0)
      | Some (_, ch) \<Rightarrow> (Some ch, ReceiveEvents (scast (pf_revents p))))"

lemma po_get_report: "po_get s i = pf_report s (po_buf s ! i)"
  by (simp add: po_get_def pf_report_def Let_def)

text \<open>
  \<open>Poller::Wait\<close> reports every descriptor that has something to report, once per entry, and
  nothing else: with any order \<open>std::partition\<close> may leave, the \<open>Size()\<close> results of \<open>Get\<close> are
  the entries with a nonzero \<open>revents\<close>, as a multiset.
\<close>

theorem poller_reports:
  assumes "partition_ok part" and "length revents = length (po_buf (po_swept s))"
  shows "fst (po_wait part (Inr revents) s) = 0 \<and>
    mset (map (po_get (snd (po_wait part (Inr revents) s))) [0..<po_size (snd (po_wait part (Inr revents) s))]) =
    image_mset (pf_report (po_swept s))
      {# p \<in># mset (map2 (\<lambda>p r. p\<lparr>pf_revents := r\<rparr>) (po_buf (po_swept s)) revents). pf_reported p #}"
proof -
  let ?buf = "map2 (\<lambda>p r. p\<lparr>pf_revents := r\<rparr>) (po_buf (po_swept s)) revents"
  let ?t = "snd (po_wait part (Inr revents) s)" and ?n = "length (filter pf_reported ?buf)"
  note w = po_wait_ok [OF assms]
  have n: "?n \<le> length (part pf_reported ?buf)"
    using w(5) length_filter_le [of pf_reported ?buf] by linarith
  have "pf_report ?t = pf_report (po_swept s)"
    by (rule ext) (simp add: pf_report_def w(3))
  then have "map (po_get ?t) [0..<po_size ?t] = map (pf_report (po_swept s)) (take ?n (part pf_reported ?buf))"
    using map_nth_take [OF n] by (simp add: po_get_report [abs_def] w(2,4))
  then have "mset (map (po_get ?t) [0..<po_size ?t]) =
      image_mset (pf_report (po_swept s)) (mset (take ?n (part pf_reported ?buf)))"
    by simp
  with w(1) partition_front [OF assms(1), of pf_reported ?buf] show ?thesis
    by simp
qed

theorem poller_reports_witness:
  "let s = po_add int 2 kReadEvent (po_add int 1 kReadEvent po_create); part = stable_partition; revents = [0, 1]
   in fst (po_wait part (Inr revents) s) = 0 \<and>
    mset (map (po_get (snd (po_wait part (Inr revents) s))) [0..<po_size (snd (po_wait part (Inr revents) s))]) =
    image_mset (pf_report (po_swept s))
      {# p \<in># mset (map2 (\<lambda>p r. p\<lparr>pf_revents := r\<rparr>) (po_buf (po_swept s)) revents). pf_reported p #}"
  unfolding Let_def
  by (rule poller_reports)
    (simp_all add: stable_partition_ok po_swept_def po_add_def po_create_def)

lemma partition_two:
  assumes "partition_ok part" and "\<not> P x" and "P y"
  shows "part P [x, y] = [y, x]"
proof -
  obtain ys zs where p: "part P [x, y] = ys @ zs" "list_all P ys" "list_all (\<lambda>x. \<not> P x) zs"
    using assms(1) unfolding partition_ok_def by meson
  have m: "mset (ys @ zs) = mset [x, y]"
    using assms(1) p(1) by (metis partition_ok_def)
  have "filter P ys = ys" "filter P zs = []" "filter (\<lambda>x. \<not> P x) ys = []" "filter (\<lambda>x. \<not> P x) zs = zs"
    using p(2,3) by (auto simp: list_all_iff filter_empty_conv)
  with arg_cong [OF m, of "filter_mset P"] arg_cong [OF m, of "filter_mset (\<lambda>x. \<not> P x)"] assms(2,3)
  have "mset ys = {#y#}" "mset zs = {#x#}"
    by (simp_all flip: mset_filter)
  then show ?thesis
    using p(1) by simp
qed

text \<open>
  After \<open>Wait\<close> has moved entries, \<open>Poller::Update\<close> changes the mask of another channel.
  Channels a and b are added in this order and only b has something to report: whatever
  implementation of \<open>std::partition\<close> is used, b's entry is now the first and its index still
  the second, so the mask the handler of b sets (say, to ask for writability) goes to a's entry
  and b's entry keeps its old mask.
\<close>

theorem poller_update_misdirected:
  assumes "partition_ok part" and "fd a \<noteq> fd b" and "r \<noteq> 0"
    and "s = snd (po_wait part (Inr [0, r]) (po_add fd b eb (po_add fd a ea po_create)))"
  shows "po_get s 0 = (Some b, ReceiveEvents (scast r)) \<and>
    map (\<lambda>p. (pf_fd p, pf_events p)) (po_buf s) = [(fd b, ucast (se_value eb)), (fd a, ucast (se_value ea))] \<and>
    map (\<lambda>p. (pf_fd p, pf_events p)) (po_buf (po_update fd b ev s)) =
      [(fd b, ucast (se_value eb)), (fd a, ucast (se_value ev))]"
proof -
  let ?a = "\<lparr>pf_fd = fd a, pf_events = ucast (se_value ea), pf_revents = 0\<rparr>"
  let ?b = "\<lparr>pf_fd = fd b, pf_events = ucast (se_value eb), pf_revents = r\<rparr>"
  have "part pf_reported [?a, ?b] = [?b, ?a]"
    using assms(1,3) by (intro partition_two) (simp_all add: pf_reported_def)
  then have s: "po_buf s = [?b, ?a]" "po_channels s (fd b) = Some (1, b)"
    using assms(2) by (simp_all add: assms(4) po_wait_def po_add_def po_create_def Let_def)
  then show ?thesis
    by (simp add: po_get_report pf_report_def po_update_def)
qed

theorem poller_update_misdirected_witness:
  "let s = snd (po_wait stable_partition (Inr [0, 1])
      (po_add int 2 kReadEvent (po_add int 1 kReadEvent po_create)))
   in po_get s 0 = (Some 2, ReceiveEvents (scast (1 :: 16 word))) \<and>
    map (\<lambda>p. (pf_fd p, pf_events p)) (po_buf s) =
      [(int 2, ucast (se_value kReadEvent)), (int 1, ucast (se_value kReadEvent))] \<and>
    map (\<lambda>p. (pf_fd p, pf_events p)) (po_buf (po_update int 2 kWriteEvent s)) =
      [(int 2, ucast (se_value kReadEvent)), (int 1, ucast (se_value kWriteEvent))]"
  unfolding Let_def
  by (rule poller_update_misdirected [OF stable_partition_ok _ _ refl]) simp_all

text \<open>
  A descriptor number that is used again before the next \<open>Wait\<close> is polled twice.  Channel a
  is removed, and b, whose socket got the same descriptor, is added: \<open>CleanUp\<close> keeps the old
  entry, because its descriptor is registered again, and so b is also watched with the mask of
  a, for good, and its handler runs twice in a round in which both entries are reported.
\<close>

theorem poller_fd_reuse_duplicates:
  assumes "partition_ok part" and "fd a = fd b" and "r1 \<noteq> 0" and "r2 \<noteq> 0"
    and "s = po_add fd b eb (po_remove fd a (po_add fd a ea po_create))"
    and "t = snd (po_wait part (Inr [r1, r2]) s)"
  shows "map (\<lambda>p. (pf_fd p, pf_events p)) (po_buf (po_swept s)) =
      [(fd b, ucast (se_value ea)), (fd b, ucast (se_value eb))] \<and>
    po_size t = 2 \<and>
    mset [po_get t 0, po_get t 1] =
      {# (Some b, ReceiveEvents (scast r1)), (Some b, ReceiveEvents (scast r2)) #}"
proof -
  let ?a = "\<lparr>pf_fd = fd b, pf_events = ucast (se_value ea), pf_revents = 0\<rparr>"
  let ?b = "\<lparr>pf_fd = fd b, pf_events = ucast (se_value eb), pf_revents = 0\<rparr>"
  let ?buf = "[?a\<lparr>pf_revents := r1\<rparr>, ?b\<lparr>pf_revents := r2\<rparr>]"
  have sw: "po_buf (po_swept s) = [?a, ?b]" "po_channels (po_swept s) = [fd b \<mapsto> (1, b)]"
    using assms(2) by (simp_all add: assms(5) po_swept_def po_add_def po_remove_def po_create_def
        po_cleanup_def upt_rec numeral_2_eq_2)
  have len: "length [r1, r2] = length (po_buf (po_swept s))"
    by (simp add: sw)
  note w = po_wait_ok [OF assms(1) len, folded assms(6)]
  have rep: "filter pf_reported ?buf = ?buf"
    using assms(3,4) by (simp add: pf_reported_def)
  have buf: "length (po_buf t) = 2" "mset (po_buf t) = mset ?buf"
    using w(4,5) assms(1) by (simp_all add: sw partition_ok_def)
  then obtain x y where xy: "po_buf t = [x, y]"
    by (auto simp: length_Suc_conv numeral_2_eq_2)
  have "mset (map (pf_report t) (po_buf t)) = image_mset (pf_report t) (mset ?buf)"
    using buf(2) by simp
  moreover have "po_size t = 2"
    using w(2) rep by (simp add: sw)
  ultimately show ?thesis
    using w(3) by (simp add: sw xy po_get_report pf_report_def)
qed

theorem poller_fd_reuse_duplicates_witness:
  "let s = po_add (\<lambda>_. 7) 2 kReadEvent (po_remove (\<lambda>_. 7) 1 (po_add (\<lambda>_. 7) 1 kWriteEvent po_create));
       t = snd (po_wait stable_partition (Inr [4, 1]) s)
   in map (\<lambda>p. (pf_fd p, pf_events p)) (po_buf (po_swept s)) =
      [(7, ucast (se_value kWriteEvent)), (7, ucast (se_value kReadEvent))] \<and>
    po_size t = 2 \<and>
    mset [po_get t 0, po_get t 1] =
      {# (Some 2, ReceiveEvents (scast (4 :: 16 word))), (Some 2, ReceiveEvents (scast (1 :: 16 word))) #}"
  unfolding Let_def
  by (rule poller_fd_reuse_duplicates [OF stable_partition_ok _ _ _ refl refl]) simp_all

end
