(* ===== verification/Channel_Selector.thy ===== *)
theory Channel_Selector
  imports Selector_Properties Socket_Channel
begin

text \<open>
  The socket channels of one event loop over the selector they share: src/channel/socket\_channel.cc
  with the real \<open>Selector::Update\<close> behind it, for any number of channels.  The connection's theories
  see one channel as a record of its own (\<open>Socket_Channel\<close>), with a field for what the kernel
  watches; here that record is proved to be a view of the shared state, so what is proved over it
  holds for the channels of a loop that runs the epoll selector.
\<close>

section \<open>Channels that share a selector\<close>

text \<open>\<open>cw_events\<close>: the field \<open>events_\<close> of every channel; \<open>cw_sel\<close>: what \<open>selector_\<close> points at.\<close>

record 's channel_world =
  cw_events :: "channel \<Rightarrow> select_events"
  cw_sel :: 's

definition cw_create :: "epoll_selector channel_world" where
  "cw_create = \<lparr>cw_events = (\<lambda>_. kNoneEvent), cw_sel = ep_create\<rparr>"

definition cw_set_writable ::
  "(channel \<Rightarrow> select_events \<Rightarrow> 's \<Rightarrow> selector_fatal + 's) \<Rightarrow> channel \<Rightarrow> bool \<Rightarrow> 's channel_world \<Rightarrow>
     selector_fatal + 's channel_world" where
  "cw_set_writable update c on w =
     (let ev = cw_events w c;
          events = (if on then se_add ev kWriteEvent else se_remove ev kWriteEvent);
          w1 = w\<lparr>cw_events := (cw_events w)(c := events)\<rparr>
      in if se_differs ev events
         then (case update c events (cw_sel w1) of
                 Inl e \<Rightarrow> Inl e
               | Inr s \<Rightarrow> Inr (w1\<lparr>cw_sel := s\<rparr>))
         else Inr w1)"

definition cw_set_readable ::
  "(channel \<Rightarrow> select_events \<Rightarrow> 's \<Rightarrow> selector_fatal + 's) \<Rightarrow> channel \<Rightarrow> bool \<Rightarrow> 's channel_world \<Rightarrow>
     selector_fatal + 's channel_world" where
  "cw_set_readable update c on w =
     (let ev = cw_events w c;
          events = (if on then se_add ev kReadEvent else se_remove ev kReadEvent);
          w1 = w\<lparr>cw_events := (cw_events w)(c := events)\<rparr>
      in if se_differs ev events
         then (case update c events (cw_sel w1) of
                 Inl e \<Rightarrow> Inl e
               | Inr s \<Rightarrow> Inr (w1\<lparr>cw_sel := s\<rparr>))
         else Inr w1)"

section \<open>What happens on the loop's thread\<close>

datatype channel_op =
    ChanAdd channel
  | ChanRemove channel
  | ChanReadable channel bool
  | ChanWritable channel bool
  | ChanWait "int + epoll_event list"

fun cw_step ::
  "(channel \<Rightarrow> int) \<Rightarrow> channel_op \<Rightarrow> epoll_selector channel_world \<Rightarrow> selector_fatal + epoll_selector channel_world"
where
  "cw_step fd (ChanAdd c) w =
     (case el_add ep_contain (ep_add fd) c (cw_sel w) of
        Inl e \<Rightarrow> Inl e | Inr (s, _) \<Rightarrow> Inr (w\<lparr>cw_sel := s\<rparr>))"
| "cw_step fd (ChanRemove c) w =
     (case el_remove ep_contain (ep_remove fd) c (cw_sel w) of
        Inl e \<Rightarrow> Inl e | Inr (s, _) \<Rightarrow> Inr (w\<lparr>cw_sel := s\<rparr>))"
| "cw_step fd (ChanReadable c on) w = cw_set_readable (ep_update fd) c on w"
| "cw_step fd (ChanWritable c on) w = cw_set_writable (ep_update fd) c on w"
| "cw_step fd (ChanWait a) w = Inr (w\<lparr>cw_sel := snd (ep_wait a (cw_sel w))\<rparr>)"

fun cw_run ::
  "(channel \<Rightarrow> int) \<Rightarrow> channel_op list \<Rightarrow> epoll_selector channel_world \<Rightarrow> selector_fatal + epoll_selector channel_world"
where
  "cw_run fd [] w = Inr w"
| "cw_run fd (x # xs) w = (case cw_step fd x w of Inl e \<Rightarrow> Inl e | Inr w' \<Rightarrow> cw_run fd xs w')"

definition cw_answer_ok :: "channel_op \<Rightarrow> epoll_selector channel_world \<Rightarrow> bool" where
  "cw_answer_ok x w \<longleftrightarrow> (case x of ChanWait a \<Rightarrow> ep_answer_ok (cw_sel w) a | _ \<Rightarrow> True)"

fun cw_answers_ok :: "(channel \<Rightarrow> int) \<Rightarrow> channel_op list \<Rightarrow> epoll_selector channel_world \<Rightarrow> bool" where
  "cw_answers_ok fd [] w = True"
| "cw_answers_ok fd (x # xs) w =
     (cw_answer_ok x w \<and> (case cw_step fd x w of Inl e \<Rightarrow> True | Inr w' \<Rightarrow> cw_answers_ok fd xs w'))"

section \<open>One channel's view of it\<close>

definition cw_view :: "(channel \<Rightarrow> int) \<Rightarrow> epoll_selector channel_world \<Rightarrow> channel \<Rightarrow> socket_channel" where
  "cw_view fd w c = \<lparr>sc_events = cw_events w c, sc_watch = ep_watch fd (cw_sel w) c, sc_open = True\<rparr>"

text \<open>The specification: each operation as the operation of its channel alone.\<close>

fun sc_step :: "channel \<Rightarrow> channel_op \<Rightarrow> socket_channel \<Rightarrow> socket_channel" where
  "sc_step c (ChanAdd d) ch = (if d = c \<and> sc_watch ch = None then ch\<lparr>sc_watch := Some kNoneEvent\<rparr> else ch)"
| "sc_step c (ChanRemove d) ch = (if d = c then ch\<lparr>sc_watch := None\<rparr> else ch)"
| "sc_step c (ChanReadable d on) ch = (if d = c then sc_set_readable on ch else ch)"
| "sc_step c (ChanWritable d on) ch = (if d = c then sc_set_writable on ch else ch)"
| "sc_step c (ChanWait a) ch = ch"

lemma cw_update_view:
  assumes "ep_good fd (cw_sel w)"
  shows "\<exists>s. ep_update fd c ev (cw_sel w) = Inr s \<and> ep_good fd s
    \<and> cw_view fd (w\<lparr>cw_events := (cw_events w)(c := ev), cw_sel := s\<rparr>) =
      (cw_view fd w)(c := sc_update ((cw_view fd w c)\<lparr>sc_events := ev\<rparr>))"
proof -
  obtain s where s: "ep_update fd c ev (cw_sel w) = Inr s" "ep_good fd s"
      "ep_watch fd s = mask_step (SelUpdate c ev) (ep_watch fd (cw_sel w))"
    using ep_step_refines_at [OF _ assms, of "SelUpdate c ev"] by auto
  then show ?thesis
    by (auto simp: cw_view_def fun_eq_iff sc_update_def split: option.splits)
qed

lemma cw_set_view:
  assumes "ep_good fd (cw_sel w)"
  shows "\<exists>w'. cw_set_readable (ep_update fd) c on w = Inr w' \<and> ep_good fd (cw_sel w')
      \<and> cw_view fd w' = (cw_view fd w)(c := sc_set_readable on (cw_view fd w c))"
    and "\<exists>w'. cw_set_writable (ep_update fd) c on w = Inr w' \<and> ep_good fd (cw_sel w')
      \<and> cw_view fd w' = (cw_view fd w)(c := sc_set_writable on (cw_view fd w c))"
proof -
  have same: "cw_view fd (w\<lparr>cw_events := (cw_events w)(c := cw_events w c)\<rparr>) = cw_view fd w"
      "(cw_view fd w c)\<lparr>sc_events := cw_events w c\<rparr> = cw_view fd w c"
    by (simp_all add: cw_view_def fun_eq_iff)
  have ev: "sc_events (cw_view fd w c) = cw_events w c"
    by (simp add: cw_view_def)
  show "\<exists>w'. cw_set_readable (ep_update fd) c on w = Inr w' \<and> ep_good fd (cw_sel w')
      \<and> cw_view fd w' = (cw_view fd w)(c := sc_set_readable on (cw_view fd w c))"
    using cw_update_view [OF assms, of c "if on then se_add (cw_events w c) kReadEvent else se_remove (cw_events w c) kReadEvent"]
      same assms
    by (auto simp: cw_set_readable_def sc_set_readable_def Let_def ev)
  show "\<exists>w'. cw_set_writable (ep_update fd) c on w = Inr w' \<and> ep_good fd (cw_sel w')
      \<and> cw_view fd w' = (cw_view fd w)(c := sc_set_writable on (cw_view fd w c))"
    using cw_update_view [OF assms, of c "if on then se_add (cw_events w c) kWriteEvent else se_remove (cw_events w c) kWriteEvent"]
      same assms
    by (auto simp: cw_set_writable_def sc_set_writable_def Let_def ev)
qed

text \<open>
  A channel can be registered when its descriptor is not the one of another registered channel,
  which is all that a kernel that reuses the numbers of closed descriptors promises.
\<close>

definition cw_free :: "(channel \<Rightarrow> int) \<Rightarrow> channel_op \<Rightarrow> epoll_selector channel_world \<Rightarrow> bool" where
  "cw_free fd x w \<longleftrightarrow>
     (case x of ChanAdd c \<Rightarrow> \<forall>d. d \<noteq> c \<and> ep_watch fd (cw_sel w) d \<noteq> None \<longrightarrow> fd d \<noteq> fd c | _ \<Rightarrow> True)"

lemma cw_step_refines:
  assumes "cw_free fd x w" and "ep_good fd (cw_sel w)" and "cw_answer_ok x w"
  shows "\<exists>w'. cw_step fd x w = Inr w' \<and> ep_good fd (cw_sel w')
    \<and> (\<forall>c. cw_view fd w' c = sc_step c x (cw_view fd w c))"
proof (cases x)
  case (ChanAdd c)
  have free: "ep_kernel (cw_sel w) (fd c) = None" if none: "ep_channel (cw_sel w) c = None"
  proof (rule ccontr)
    assume "ep_kernel (cw_sel w) (fd c) \<noteq> None"
    then obtain ev where ev: "ep_kernel (cw_sel w) (fd c) = Some ev" by auto
    then have "fd (ee_ptr ev) = fd c" "ep_channel (cw_sel w) (ee_ptr ev) \<noteq> None"
      using assms(2) ep_registeredD(3,4) [of fd "cw_sel w" "fd c" ev] by (auto simp: ep_good_def)
    with assms(1,2) none ChanAdd show False
      by (cases "ee_ptr ev = c") (auto simp: cw_free_def ep_watch_None)
  qed
  have "\<exists>s'. ep_step fd (SelAdd c) (cw_sel w) = Inr s' \<and> ep_good fd s'
      \<and> ep_watch fd s' = mask_step (SelAdd c) (ep_watch fd (cw_sel w))"
    by (rule ep_step_refines_at [OF _ assms(2)]) (simp_all add: free)
  with ChanAdd show ?thesis
    by (auto simp: cw_view_def split: sum.splits prod.splits)
next
  case (ChanRemove c)
  with ep_step_refines_at [OF _ assms(2), of "SelRemove c"] show ?thesis
    by (auto simp: cw_view_def split: sum.splits prod.splits)
next
  case (ChanReadable c on)
  with cw_set_view(1) [OF assms(2), of c on] show ?thesis by auto
next
  case (ChanWritable c on)
  with cw_set_view(2) [OF assms(2), of c on] show ?thesis by auto
next
  case (ChanWait a)
  with assms(2,3) show ?thesis
    by (auto simp: cw_view_def cw_answer_ok_def intro: ep_wait_good)
qed

lemma cw_run_refines:
  assumes "inj fd"
  shows "ep_good fd (cw_sel w) \<Longrightarrow> cw_answers_ok fd xs w \<Longrightarrow>
    \<exists>w'. cw_run fd xs w = Inr w' \<and> ep_good fd (cw_sel w')
      \<and> (\<forall>c. cw_view fd w' c = fold (sc_step c) xs (cw_view fd w c))"
proof (induction xs arbitrary: w)
  case (Cons x xs)
  have "cw_free fd x w"
    using assms by (auto simp: cw_free_def inj_eq split: channel_op.split)
  with Cons obtain w' where w': "cw_step fd x w = Inr w'" "ep_good fd (cw_sel w')"
      "\<forall>c. cw_view fd w' c = sc_step c x (cw_view fd w c)"
    using cw_step_refines [of fd x w] by auto
  with Cons.prems(2) Cons.IH [of w'] show ?case
    by auto
qed simp

text \<open>
  C8. The channels of a loop do not disturb one another.  Any number of socket channels with
  descriptors of their own share an epoll selector and are registered, removed, and made readable
  or writable in any order, with any answers of the kernel in between: no \<open>epoll_ctl\<close> fails, and
  every channel, its mask and what the kernel watches for it, goes through exactly the steps its
  own calls make it go through, as if it were alone.
\<close>

theorem channels_refine:
  assumes "inj fd" and "cw_answers_ok fd xs cw_create"
  shows "\<exists>w. cw_run fd xs cw_create = Inr w \<and> (\<forall>c. cw_view fd w c = fold (sc_step c) xs sc_create)"
proof -
  have "cw_view fd cw_create c = sc_create" for c
    by (simp add: cw_view_def cw_create_def sc_create_def ep_watch_def ep_create_def)
  moreover have "ep_good fd (cw_sel cw_create)"
    by (simp add: cw_create_def ep_create_good)
  ultimately show ?thesis
    using cw_run_refines [OF assms(1) _ assms(2)] by auto
qed

theorem channels_refine_witness:
  "\<exists>w. cw_run int [ChanAdd 4, ChanReadable 4 True, ChanAdd 5, ChanWritable 5 True, ChanRemove 4] cw_create = Inr w
    \<and> (\<forall>c. cw_view int w c = fold (sc_step c)
        [ChanAdd 4, ChanReadable 4 True, ChanAdd 5, ChanWritable 5 True, ChanRemove 4] sc_create)"
  by (rule channels_refine)
    (auto simp: cw_answer_ok_def split: sum.splits)

end
