(* ===== verification/Connections_On_Epoll.thy ===== *)
theory Connections_On_Epoll
  imports Channel_Selector Tcp_Connection_Properties
begin

text \<open>
  The connections of one event loop on the epoll selector they share.  The theories of the
  connection see what the selector watches as a field of the connection's own channel; here any
  number of connections run, in any interleaving, over the real selector of src/selector/epoller.cc,
  and what was proved of each alone holds of them together.

  Connection \<open>i\<close> of the list has channel \<open>i\<close> and descriptor \<open>fd i\<close>.  A connection that is not
  registered and that no task refers to can be destroyed, which closes its descriptor, and the kernel
  may give the number to a later connection.
\<close>

section \<open>The channel operations behind a step of a connection\<close>

fun op_channel :: "channel \<Rightarrow> channel_op \<Rightarrow> bool" where
  "op_channel i (ChanAdd c) \<longleftrightarrow> c = i"
| "op_channel i (ChanRemove c) \<longleftrightarrow> c = i"
| "op_channel i (ChanReadable c on) \<longleftrightarrow> c = i"
| "op_channel i (ChanWritable c on) \<longleftrightarrow> c = i"
| "op_channel i (ChanWait a) \<longleftrightarrow> False"

text \<open>Channels that agree in their mask and in what the selector watches.\<close>

definition sc_same :: "socket_channel \<Rightarrow> socket_channel \<Rightarrow> bool" where
  "sc_same ch ch' \<longleftrightarrow> sc_events ch = sc_events ch' \<and> sc_watch ch = sc_watch ch'"

definition op_explains :: "channel \<Rightarrow> channel_op list \<Rightarrow> 'b tcp_conn \<Rightarrow> 'b tcp_conn \<Rightarrow> bool" where
  "op_explains i xs c c' \<longleftrightarrow>
     list_all (op_channel i) xs \<and> sc_same (cn_channel c') (fold (sc_step i) xs (cn_channel c))"

definition conn_ops :: "channel \<Rightarrow> 'b tcp_conn \<Rightarrow> 'b tcp_conn \<Rightarrow> bool" where
  "conn_ops i c c' \<longleftrightarrow> (\<exists>xs. op_explains i xs c c')"

lemma sc_same_refl [simp, intro]: "sc_same ch ch"
  by (simp add: sc_same_def)

lemma sc_same_step: "sc_same ch ch' \<Longrightarrow> sc_same (sc_step i x ch) (sc_step i x ch')"
  by (cases x) (auto simp: sc_same_def sc_set_readable_def sc_set_writable_def sc_update_def Let_def split: option.splits)

lemma sc_same_fold: "sc_same ch ch' \<Longrightarrow> sc_same (fold (sc_step i) xs ch) (fold (sc_step i) xs ch')"
  by (induction xs arbitrary: ch ch') (auto intro: sc_same_step)

lemma sc_same_trans: "sc_same a b \<Longrightarrow> sc_same b c \<Longrightarrow> sc_same a c"
  by (simp add: sc_same_def)

lemma conn_ops_trans:
  assumes "conn_ops i c d" and "conn_ops i d e"
  shows "conn_ops i c e"
proof -
  obtain xs ys where "op_explains i xs c d" "op_explains i ys d e"
    using assms by (auto simp: conn_ops_def)
  then have "op_explains i (xs @ ys) c e"
    unfolding op_explains_def by (auto intro: sc_same_trans sc_same_fold)
  then show ?thesis
    by (auto simp: conn_ops_def)
qed

lemma conn_ops_none: "sc_same (cn_channel c') (cn_channel c) \<Longrightarrow> conn_ops i c c'"
  unfolding conn_ops_def op_explains_def by (intro exI [of _ "[]"]) simp

lemma conn_ops_one: "op_channel i x \<Longrightarrow> sc_same (cn_channel c') (sc_step i x (cn_channel c)) \<Longrightarrow> conn_ops i c c'"
  unfolding conn_ops_def op_explains_def by (intro exI [of _ "[x]"]) simp

lemma conn_ops_remove: "cn_channel c' = (cn_channel c)\<lparr>sc_watch := None\<rparr> \<Longrightarrow> conn_ops i c c'"
  by (rule conn_ops_one [of i "ChanRemove i"]) simp_all

lemma conn_ops_writable: "cn_channel c' = sc_set_writable on (cn_channel c) \<Longrightarrow> conn_ops i c c'"
  by (rule conn_ops_one [of i "ChanWritable i on"]) simp_all

lemma micro_ops: "conn_micro B sys c c' \<Longrightarrow> conn_ops i c c'"
proof (induction rule: conn_micro.induct)
  case (m_readable c)
  show ?case
    by (rule conn_ops_one [of i "ChanReadable i True"]) (simp_all add: conn_set_readable_def)
next
  case (m_send c data)
  show ?case
    by (cases "data = []") (auto intro: conn_ops_none conn_ops_writable)
next
  case (m_send_rest c n data k)
  show ?case
    by (cases "drop n data = []") (auto intro: conn_ops_none conn_ops_writable)
next
  case (m_close_remove c)
  show ?case by (rule conn_ops_remove) simp
next
  case (m_idle c)
  show ?case by (rule conn_ops_writable) (simp add: conn_set_writable_def)
next
  case (m_force_fin c)
  show ?case by (rule conn_ops_writable) (simp add: conn_small_defs)
next
  case (m_output data c)
  show ?case by (rule conn_ops_writable) (simp add: conn_small_defs)
qed (auto intro!: conn_ops_none simp: sc_same_def conn_small_defs)

lemma micros_ops: "(conn_micro B sys)\<^sup>*\<^sup>* c c' \<Longrightarrow> conn_ops i c c'"
  by (induction rule: rtranclp_induct) (auto intro: conn_ops_none conn_ops_trans micro_ops)

lemma remove_ops: "conn_ops i c (conn_remove (conn_hooks B sys h n) c)"
proof (cases rule: conn_remove_cases [where c = c and B = B and sys = sys and h = h and n = n])
  case now
  show ?thesis
    by (rule conn_ops_trans [OF conn_ops_remove micros_ops [OF now(3)]]) simp
qed (auto intro: conn_ops_none conn_ops_remove)

lemma add_ops: "conn_ops i c (conn_add (conn_hooks B sys h n) c)"
proof (cases "sc_watch (cn_channel c) = None")
  case True
  let ?c = "c\<lparr>cn_channel := (cn_channel c)\<lparr>sc_watch := Some kNoneEvent\<rparr>\<rparr>"
  have "conn_ops i c ?c"
    by (rule conn_ops_one [of i "ChanAdd i"]) (simp_all add: True)
  then show ?thesis
    by (rule conn_ops_trans) (rule micros_ops [OF conn.R_add [OF True]])
qed (auto simp: conn_add_def intro: conn_ops_none)

lemma task_ops: "conn_ops i (c\<lparr>cn_tasks := ts\<rparr>) (conn_run_task B sys (conn_hooks B sys h n) t (c\<lparr>cn_tasks := ts\<rparr>))"
proof (cases "t \<in> {TaskAdd, TaskClose, TaskForceClose}")
  case False
  then show ?thesis by (rule micros_ops [OF conn.R_run_task])
next
  case True
  let ?t = "c\<lparr>cn_tasks := ts\<rparr>"
  show ?thesis
    using True add_ops [of i ?t] remove_ops [of i ?t] conn_ops_none [of ?t ?t i] by (auto simp: conn_close_body_def)
qed

lemma task_ops': "conn_ops i c (conn_run_task B sys (conn_hooks B sys h n) t (c\<lparr>cn_tasks := ts\<rparr>))"
  by (rule conn_ops_trans [OF conn_ops_none task_ops]) simp

lemma step_ops: "conn_step B sys (conn_hooks B sys h n) c c' \<Longrightarrow> conn_ops i c c'"
proof (induction rule: conn_step.induct)
  case (cs_task c t ts)
  show ?case by (rule task_ops')
next
  case (cs_io c events)
  show ?case by (rule micros_ops [OF conn.R_io])
next
  case (cs_thread c cmd)
  show ?case
    by (rule conn_ops_none, cases cmd) (auto simp: conn_send_view_def conn_run_def conn_close_def
      conn_force_close_def conn_shutdown_def conn_force_shutdown_def conn_force_shutdown_store_def)
next
  case (cs_loop cmd c)
  show ?case by (rule micros_ops [OF conn.R_exec])
qed

lemma any_ops: "conn_any_step B sys (conn_hooks B sys h n) c c' \<Longrightarrow> conn_ops i c c'"
proof (induction rule: conn_any_step.induct)
  case (ca_step c c')
  then show ?case by (rule step_ops)
next
  case (ca_task c us t ts)
  show ?case by (rule task_ops')
next
  case (ca_store c)
  show ?case by (rule conn_ops_none) (simp add: conn_force_shutdown_store_def conn_run_def)
qed

lemma start_ops: "conn_ops i (conn_create B) (conn_start in_loop (conn_hooks B sys h n) (conn_create B))"
proof (cases in_loop)
  case True
  then show ?thesis
    using conn_ops_trans [OF conn_ops_none add_ops, of "(conn_create B)\<lparr>cn_context := True\<rparr>" "conn_create B"]
    by (simp add: conn_start_def conn_run_def)
qed (auto simp: conn_start_def conn_run_def intro: conn_ops_none)

section \<open>The loop with its connections\<close>

record 'b conn_net =
  nt_conns :: "'b tcp_conn list"
  nt_gone :: "nat set"
  nt_world :: "epoll_selector channel_world"
  nt_fatal :: "selector_fatal option"

definition net_create :: "'b conn_net" where
  "net_create = \<lparr>nt_conns = [], nt_gone = {}, nt_world = cw_create, nt_fatal = None\<rparr>"

text \<open>The channel operations on the selector; a failing \<open>epoll_ctl\<close> ends the program.\<close>

definition net_select :: "(channel \<Rightarrow> int) \<Rightarrow> channel_op list \<Rightarrow> 'b conn_net \<Rightarrow> 'b conn_net" where
  "net_select fd xs s =
     (case cw_run fd xs (nt_world s) of Inl e \<Rightarrow> s\<lparr>nt_fatal := Some e\<rparr> | Inr w \<Rightarrow> s\<lparr>nt_world := w\<rparr>)"

text \<open>
  A new connection starts, with a descriptor that none of the connections has that still exist; a
  connection makes a step of its own, with the channel operations that it consists of; a connection
  is destroyed; or the loop waits.  A step does not close the descriptor of a connection: only
  POLLNVAL does that (\<open>sc_close\<close>), which epoll never reports.
\<close>

inductive net_step ::
  "(channel \<Rightarrow> int) \<Rightarrow> 'b buffer_ops \<Rightarrow> (nat \<Rightarrow> net_os) \<Rightarrow> (nat \<Rightarrow> 'b conn_hook) \<Rightarrow> 'b conn_net \<Rightarrow> 'b conn_net \<Rightarrow> bool"
  for fd B sys H
where
  nt_open: "i = length (nt_conns s) \<Longrightarrow> (\<forall>j<i. j \<notin> nt_gone s \<longrightarrow> fd j \<noteq> fd i) \<Longrightarrow>
    c = conn_start in_loop (H i) (conn_create B) \<Longrightarrow> op_explains i xs (conn_create B) c \<Longrightarrow>
    net_step fd B sys H s (net_select fd xs (s\<lparr>nt_conns := nt_conns s @ [c]\<rparr>))"
| nt_conn: "i < length (nt_conns s) \<Longrightarrow> i \<notin> nt_gone s \<Longrightarrow> conn_any_step B (sys i) (H i) (nt_conns s ! i) c \<Longrightarrow>
    sc_open (cn_channel c) \<Longrightarrow> op_explains i xs (nt_conns s ! i) c \<Longrightarrow>
    net_step fd B sys H s (net_select fd xs (s\<lparr>nt_conns := (nt_conns s)[i := c]\<rparr>))"
| nt_destroy: "i < length (nt_conns s) \<Longrightarrow> sc_watch (cn_channel (nt_conns s ! i)) = None \<Longrightarrow>
    cn_tasks (nt_conns s ! i) = [] \<Longrightarrow> net_step fd B sys H s (s\<lparr>nt_gone := insert i (nt_gone s)\<rparr>)"
| nt_wait: "ep_answer_ok (cw_sel (nt_world s)) a \<Longrightarrow> net_step fd B sys H s (net_select fd [ChanWait a] s)"

text \<open>The connections that exist have descriptors of their own; the destroyed ones are not registered.\<close>

definition net_apart :: "(channel \<Rightarrow> int) \<Rightarrow> 'b conn_net \<Rightarrow> bool" where
  "net_apart fd s \<longleftrightarrow>
     inj_on fd ({..<length (nt_conns s)} - nt_gone s) \<and> nt_gone s \<subseteq> {..<length (nt_conns s)}
   \<and> (\<forall>i \<in> nt_gone s. sc_watch (cn_channel (nt_conns s ! i)) = None)"

definition net_inv :: "(channel \<Rightarrow> int) \<Rightarrow> 'b buffer_ops \<Rightarrow> 'b conn_net \<Rightarrow> bool" where
  "net_inv fd B s \<longleftrightarrow>
     nt_fatal s = None \<and> ep_good fd (cw_sel (nt_world s)) \<and> net_apart fd s
   \<and> list_all (conn_safe True B) (nt_conns s)
   \<and> (\<forall>i < length (nt_conns s). sc_same (cn_channel (nt_conns s ! i)) (cw_view fd (nt_world s) i))
   \<and> (\<forall>i \<ge> length (nt_conns s). cw_view fd (nt_world s) i = sc_create)"

lemma op_answer: "op_channel i x \<Longrightarrow> cw_answer_ok x w"
  by (cases x) (simp_all add: cw_answer_ok_def)

lemma ops_answers: "list_all (op_channel i) xs \<Longrightarrow> cw_answers_ok fd xs w"
  by (induction xs arbitrary: w) (auto intro: op_answer split: sum.split)

lemma ops_elsewhere: "list_all (op_channel i) xs \<Longrightarrow> j \<noteq> i \<Longrightarrow> fold (sc_step j) xs ch = ch"
proof (induction xs arbitrary: ch)
  case (Cons x xs)
  then show ?case by (cases x) auto
qed simp

text \<open>The operations of one channel, when no registered channel has its descriptor.\<close>

lemma cw_run_channel:
  "list_all (op_channel i) xs \<Longrightarrow> ep_good fd (cw_sel w) \<Longrightarrow>
    (\<forall>d. d \<noteq> i \<and> ep_watch fd (cw_sel w) d \<noteq> None \<longrightarrow> fd d \<noteq> fd i) \<Longrightarrow>
    \<exists>w'. cw_run fd xs w = Inr w' \<and> ep_good fd (cw_sel w') \<and> (\<forall>c. cw_view fd w' c = fold (sc_step c) xs (cw_view fd w c))"
proof (induction xs arbitrary: w)
  case (Cons x xs)
  then have x: "op_channel i x" by simp
  have "cw_free fd x w"
    using x Cons.prems(3) by (cases x) (auto simp: cw_free_def)
  then obtain w' where w': "cw_step fd x w = Inr w'" "ep_good fd (cw_sel w')"
      "\<forall>c. cw_view fd w' c = sc_step c x (cw_view fd w c)"
    using cw_step_refines [OF _ Cons.prems(2) op_answer [OF x]] by blast
  have "cw_view fd w' d = cw_view fd w d" if "d \<noteq> i" for d
    using w'(3) ops_elsewhere [of i "[x]" d] x that by simp
  then have "ep_watch fd (cw_sel w') d = ep_watch fd (cw_sel w) d" if "d \<noteq> i" for d
    using that by (auto simp: cw_view_def)
  then have apart: "\<forall>d. d \<noteq> i \<and> ep_watch fd (cw_sel w') d \<noteq> None \<longrightarrow> fd d \<noteq> fd i"
    using Cons.prems(3) by metis
  have "list_all (op_channel i) xs"
    using Cons.prems(1) by simp
  from Cons.IH [OF this w'(2) apart] w' show ?case
    by auto
qed simp

text \<open>The operations of connection \<open>i\<close>: the selector moves along, and only its channel changes.\<close>

lemma net_select_moves:
  assumes "\<And>d. d \<noteq> i \<Longrightarrow> ep_watch fd (cw_sel (nt_world s)) d \<noteq> None \<Longrightarrow> fd d \<noteq> fd i"
    and "ep_good fd (cw_sel (nt_world s))" and "op_explains i xs c c'"
    and "sc_same (cn_channel c) (cw_view fd (nt_world s) i)"
  obtains w where "net_select fd xs s = s\<lparr>nt_world := w\<rparr>" and "ep_good fd (cw_sel w)"
    and "sc_same (cn_channel c') (cw_view fd w i)" and "\<And>j. j \<noteq> i \<Longrightarrow> cw_view fd w j = cw_view fd (nt_world s) j"
proof -
  have ops: "list_all (op_channel i) xs" "sc_same (cn_channel c') (fold (sc_step i) xs (cn_channel c))"
    using assms(3) by (simp_all add: op_explains_def)
  obtain w where w: "cw_run fd xs (nt_world s) = Inr w" "ep_good fd (cw_sel w)"
      "\<forall>j. cw_view fd w j = fold (sc_step j) xs (cw_view fd (nt_world s) j)"
    using cw_run_channel [OF ops(1) assms(2)] assms(1) by blast
  have "sc_same (cn_channel c') (cw_view fd w i)"
    using ops(2) sc_same_fold [OF assms(4)] w(3) by (auto intro: sc_same_trans)
  with w ops_elsewhere [OF ops(1)] that show ?thesis
    by (simp add: net_select_def)
qed

text \<open>A channel that the selector watches belongs to a connection that exists.\<close>

lemma net_inv_watched:
  assumes "net_inv fd B s" and "ep_watch fd (cw_sel (nt_world s)) d \<noteq> None"
  shows "d < length (nt_conns s)" and "d \<notin> nt_gone s"
proof -
  have watch: "ep_watch fd (cw_sel (nt_world s)) d = sc_watch (cw_view fd (nt_world s) d)"
    by (simp add: cw_view_def)
  have "cw_view fd (nt_world s) d = sc_create" if "length (nt_conns s) \<le> d"
    using assms(1) that by (simp add: net_inv_def)
  with assms(2) watch show lt: "d < length (nt_conns s)"
    by (metis not_less sc_create_simps(1))
  then have "sc_same (cn_channel (nt_conns s ! d)) (cw_view fd (nt_world s) d)"
    using assms(1) by (simp add: net_inv_def)
  with assms watch show "d \<notin> nt_gone s"
    by (auto simp: net_inv_def net_apart_def sc_same_def)
qed

lemma net_inv_others:
  assumes "net_inv fd B s" and "i < length (nt_conns s)" and "i \<notin> nt_gone s"
    and "d \<noteq> i" and "ep_watch fd (cw_sel (nt_world s)) d \<noteq> None"
  shows "fd d \<noteq> fd i"
proof -
  have "inj_on fd ({..<length (nt_conns s)} - nt_gone s)"
    using assms(1) by (simp add: net_inv_def net_apart_def)
  with assms(2-4) net_inv_watched [OF assms(1,5)] show ?thesis
    by (auto dest: inj_onD)
qed

lemma net_inv_initial: "net_inv fd B net_create"
proof -
  have "cw_view fd cw_create i = sc_create" for i
    by (simp add: cw_create_def cw_view_def sc_create_def ep_watch_def ep_create_def)
  then show ?thesis
    by (simp add: net_inv_def net_apart_def net_create_def cw_create_def ep_create_good)
qed

lemma net_inv_conn:
  assumes inv: "net_inv fd B s" and i: "i < length (nt_conns s)" "i \<notin> nt_gone s" and "conn_safe True B c"
    and "op_explains i xs (nt_conns s ! i) c"
  shows "net_inv fd B (net_select fd xs (s\<lparr>nt_conns := (nt_conns s)[i := c]\<rparr>))"
proof -
  let ?s = "s\<lparr>nt_conns := (nt_conns s)[i := c]\<rparr>"
  have good: "ep_good fd (cw_sel (nt_world ?s))" "sc_same (cn_channel (nt_conns s ! i)) (cw_view fd (nt_world ?s) i)"
    using inv i by (simp_all add: net_inv_def)
  have "fd d \<noteq> fd i" if "d \<noteq> i" "ep_watch fd (cw_sel (nt_world ?s)) d \<noteq> None" for d
    using net_inv_others [OF inv i that(1)] that(2) by simp
  then obtain w where "net_select fd xs ?s = ?s\<lparr>nt_world := w\<rparr>" "ep_good fd (cw_sel w)"
      "sc_same (cn_channel c) (cw_view fd w i)" "\<And>j. j \<noteq> i \<Longrightarrow> cw_view fd w j = cw_view fd (nt_world ?s) j"
    using net_select_moves [OF _ good(1) assms(5) good(2)] by blast
  moreover have "\<forall>j \<in> nt_gone s. sc_watch (cn_channel ((nt_conns s)[i := c] ! j)) = None"
    using inv i(2) by (metis net_inv_def net_apart_def nth_list_update_neq)
  then have "net_apart fd ?s"
    using inv by (simp add: net_inv_def net_apart_def)
  ultimately show ?thesis
    using inv i(1) assms(4) by (auto simp: net_inv_def net_apart_def nth_list_update list_all_length)
qed

lemma net_inv_open:
  assumes inv: "net_inv fd B s" and free: "\<forall>j < length (nt_conns s). j \<notin> nt_gone s \<longrightarrow> fd j \<noteq> fd (length (nt_conns s))"
    and "conn_safe True B c" and "op_explains (length (nt_conns s)) xs (conn_create B) c"
  shows "net_inv fd B (net_select fd xs (s\<lparr>nt_conns := nt_conns s @ [c]\<rparr>))"
proof -
  let ?s = "s\<lparr>nt_conns := nt_conns s @ [c]\<rparr>" and ?i = "length (nt_conns s)"
  have good: "ep_good fd (cw_sel (nt_world ?s))" "sc_same (cn_channel (conn_create B)) (cw_view fd (nt_world ?s) ?i)"
    using inv by (simp_all add: net_inv_def conn_create_def)
  have "fd d \<noteq> fd ?i" if "ep_watch fd (cw_sel (nt_world ?s)) d \<noteq> None" for d
    using net_inv_watched [OF inv, of d] that free by simp
  then obtain w where w: "net_select fd xs ?s = ?s\<lparr>nt_world := w\<rparr>" "ep_good fd (cw_sel w)"
      "sc_same (cn_channel c) (cw_view fd w ?i)" "\<And>j. j \<noteq> ?i \<Longrightarrow> cw_view fd w j = cw_view fd (nt_world ?s) j"
    using net_select_moves [OF _ good(1) assms(4) good(2)] by blast
  have gone: "nt_gone s \<subseteq> {..<?i}" "inj_on fd ({..<?i} - nt_gone s)"
    and off: "\<forall>i \<in> nt_gone s. sc_watch (cn_channel (nt_conns s ! i)) = None"
    using inv by (simp_all add: net_inv_def net_apart_def)
  then have "{..<Suc ?i} - nt_gone s = insert ?i ({..<?i} - nt_gone s)"
    by (auto simp: less_Suc_eq)
  then have "inj_on fd ({..<Suc ?i} - nt_gone s)"
    using gone(2) free by (auto simp: inj_on_insert)
  moreover have "\<forall>i \<in> nt_gone s. sc_watch (cn_channel ((nt_conns s @ [c]) ! i)) = None"
    using off gone(1) by (auto simp: nth_append)
  ultimately have "net_apart fd ?s"
    using gone(1) by (auto simp: net_apart_def)
  with w inv assms(3) show ?thesis
    by (auto simp: net_inv_def net_apart_def nth_append less_Suc_eq)
qed

lemma net_inv_step:
  assumes "buffer_ok B" and "\<And>i. os_ok (sys i)"
  shows "net_step fd B sys (\<lambda>i. conn_hooks B (sys i) (h i) n) s s' \<Longrightarrow> net_inv fd B s \<Longrightarrow> net_inv fd B s'"
proof (induction rule: net_step.induct)
  case (nt_open i s c in_loop xs)
  have "conn_safe True B c"
    by (rule conn_safe_late, rule conn_inv_initial [OF assms(1,2), where i1 = i and h = "h i" and n = n])
      (use nt_open(3) in \<open>auto simp: conn_initial_def\<close>)
  with nt_open show ?case
    using net_inv_open by blast
next
  case (nt_conn i s c xs)
  have "conn_safe True B (nt_conns s ! i)"
    using nt_conn by (simp add: net_inv_def list_all_length)
  with nt_conn(3) have "conn_safe True B c"
    using conn_any_inv [OF assms(1,2)] by blast
  with nt_conn show ?case
    using net_inv_conn by blast
next
  case (nt_destroy i s)
  then show ?case
    by (auto simp: net_inv_def net_apart_def intro: inj_on_subset)
next
  case (nt_wait s a)
  have view: "cw_view fd (nt_world s\<lparr>cw_sel := snd (ep_wait a (cw_sel (nt_world s)))\<rparr>) = cw_view fd (nt_world s)"
    by (simp add: cw_view_def fun_eq_iff)
  have "ep_good fd (snd (ep_wait a (cw_sel (nt_world s))))"
    using nt_wait by (simp add: net_inv_def ep_wait_good)
  with nt_wait view show ?case
    by (simp add: net_inv_def net_apart_def net_select_def)
qed

lemma net_system:
  assumes "buffer_ok B" and "\<And>i. os_ok (sys i)"
  shows "invariant_system (\<lambda>s. s = net_create) (net_step fd B sys (\<lambda>i. conn_hooks B (sys i) (h i) n)) (net_inv fd B)"
  by unfold_locales (auto intro: net_inv_initial net_inv_step [OF assms])

lemma conn_inv_writable:
  "conn_safe True B c \<Longrightarrow> sc_watch (cn_channel c) \<noteq> None \<Longrightarrow> cn_pending B c \<noteq> [] \<Longrightarrow> \<not> cn_fin c \<Longrightarrow>
    \<exists>ev. sc_watch (cn_channel c) = Some ev \<and> se_contains ev kWriteEvent"
  by (auto simp: conn_inv_def conn_fresh_def conn_good_def sc_synced_def sc_writable_def)

lemma net_select_simps [simp]:
  "nt_conns (net_select fd xs s) = nt_conns s" "nt_gone (net_select fd xs s) = nt_gone s"
  by (simp_all add: net_select_def split: sum.split)

lemma net_step_exists:
  assumes "i < length (nt_conns s)" and "i \<notin> nt_gone s"
    and "conn_any_step B (sys i) (conn_hooks B (sys i) (h i) n) (nt_conns s ! i) c" and "sc_open (cn_channel c)"
  shows "\<exists>s'. net_step fd B sys (\<lambda>i. conn_hooks B (sys i) (h i) n) s s' \<and> nt_conns s' = (nt_conns s)[i := c]
    \<and> nt_gone s' = nt_gone s"
proof -
  obtain xs where "op_explains i xs (nt_conns s ! i) c"
    using any_ops [OF assms(3), of i] by (auto simp: conn_ops_def)
  with assms have "net_step fd B sys (\<lambda>i. conn_hooks B (sys i) (h i) n) s
      (net_select fd xs (s\<lparr>nt_conns := (nt_conns s)[i := c]\<rparr>))"
    by (intro net_step.nt_conn)
  moreover have "nt_conns (net_select fd xs (s\<lparr>nt_conns := (nt_conns s)[i := c]\<rparr>)) = (nt_conns s)[i := c]"
    "nt_gone (net_select fd xs (s\<lparr>nt_conns := (nt_conns s)[i := c]\<rparr>)) = nt_gone s"
    by simp_all
  ultimately show ?thesis
    by blast
qed

text \<open>
  C3. Any number of connections on one epoll selector.  In every history of connections that are
  opened, run their tasks and events, are called from anywhere, are closed and destroyed, while the
  loop waits in between and descriptors of destroyed connections are used again for later ones: no
  \<open>epoll_ctl\<close> fails; for every connection the kernel watches exactly what the connection has
  asked for; one that is registered and has output waiting is watched for writability, unless its
  write end is closed; and nothing that an existing connection can do on its own is ever prevented
  by the others.  (The events are those epoll reports, without POLLNVAL, which alone would close the
  descriptor of a registered connection.  Tasks run in any order, ForceShutdown of another thread may
  store its state at any time, and an operation of the loop's thread is one step.)
\<close>

theorem conns_on_epoll:
  assumes "buffer_ok B" and "\<And>i. os_ok (sys i)"
    and "reachable (\<lambda>s. s = net_create) (net_step fd B sys (\<lambda>i. conn_hooks B (sys i) (h i) n)) s"
  shows "nt_fatal s = None \<and>
    (\<forall>i < length (nt_conns s).
       let c = nt_conns s ! i; watched = ep_watch fd (cw_sel (nt_world s)) i
       in watched = sc_watch (cn_channel c)
        \<and> (watched \<noteq> None \<and> cn_pending B c \<noteq> [] \<and> \<not> cn_fin c \<longrightarrow> (\<exists>ev. watched = Some ev \<and> se_contains ev kWriteEvent))
        \<and> (\<forall>c'. i \<notin> nt_gone s \<and> conn_any_step B (sys i) (conn_hooks B (sys i) (h i) n) c c' \<and> sc_open (cn_channel c') \<longrightarrow>
             (\<exists>s'. net_step fd B sys (\<lambda>i. conn_hooks B (sys i) (h i) n) s s' \<and> nt_conns s' = (nt_conns s)[i := c'])))"
proof -
  have inv: "net_inv fd B s"
    by (rule invariant_system.inv_reachable [OF net_system [OF assms(1,2)] assms(3)])
  have watch: "ep_watch fd (cw_sel (nt_world s)) i = sc_watch (cn_channel (nt_conns s ! i))" "conn_safe True B (nt_conns s ! i)"
    if "i < length (nt_conns s)" for i
    using inv that by (simp_all add: net_inv_def sc_same_def cw_view_def list_all_length)
  show ?thesis
    unfolding Let_def
  proof (intro conjI allI impI)
    show "nt_fatal s = None"
      using inv by (simp add: net_inv_def)
    fix i assume i: "i < length (nt_conns s)"
    show "ep_watch fd (cw_sel (nt_world s)) i = sc_watch (cn_channel (nt_conns s ! i))"
      using i by (rule watch)
    show "\<exists>ev. ep_watch fd (cw_sel (nt_world s)) i = Some ev \<and> se_contains ev kWriteEvent"
      if "ep_watch fd (cw_sel (nt_world s)) i \<noteq> None \<and> cn_pending B (nt_conns s ! i) \<noteq> [] \<and> \<not> cn_fin (nt_conns s ! i)"
      using that conn_inv_writable [OF watch(2) [OF i]] by (simp only: watch(1) [OF i]) blast
    show "\<exists>s'. net_step fd B sys (\<lambda>i. conn_hooks B (sys i) (h i) n) s s' \<and> nt_conns s' = (nt_conns s)[i := c']"
      if "i \<notin> nt_gone s \<and> conn_any_step B (sys i) (conn_hooks B (sys i) (h i) n) (nt_conns s ! i) c'
        \<and> sc_open (cn_channel c')" for c'
      using net_step_exists [OF i, of B sys h n c'] that by blast
  qed
qed

text \<open>
  Two connections on the loop's thread with the same descriptor: the first is closed and destroyed,
  then the second opens and sends three bytes, of which its kernel takes two.
\<close>

definition sending_conn :: "(byte list \<times> nat) tcp_conn" where
  "sending_conn = conn_exec True list_buffer slow_os (conn_hooks list_buffer slow_os quiet 0) (CmdSend [1, 2, 3]) open_conn"

definition closed_conn :: "(byte list \<times> nat) tcp_conn" where
  "closed_conn = conn_exec True list_buffer slow_os (conn_hooks list_buffer slow_os quiet 0) CmdForceClose open_conn"

lemma sending_conn_simps:
  "cn_pending list_buffer sending_conn = [3]" "sc_watch (cn_channel sending_conn) \<noteq> None" "\<not> cn_fin sending_conn"
  "sc_open (cn_channel sending_conn)"
  by (code_simp)+

lemma closed_conn_simps:
  "sc_watch (cn_channel closed_conn) = None" "cn_tasks closed_conn = []" "sc_open (cn_channel closed_conn)"
  by (code_simp)+

lemma net_opens:
  assumes "\<forall>j < length (nt_conns s). j \<notin> nt_gone s \<longrightarrow> fd j \<noteq> fd (length (nt_conns s))"
  shows "\<exists>s'. net_step fd list_buffer (\<lambda>_. slow_os) (\<lambda>_. conn_hooks list_buffer slow_os quiet 0) s s'
    \<and> nt_conns s' = nt_conns s @ [open_conn] \<and> nt_gone s' = nt_gone s"
proof -
  obtain xs where xs: "op_explains (length (nt_conns s)) xs (conn_create list_buffer) open_conn"
    using start_ops [of "length (nt_conns s)" list_buffer True slow_os quiet 0] by (auto simp: conn_ops_def open_conn_def)
  have "net_step fd list_buffer (\<lambda>_. slow_os) (\<lambda>_. conn_hooks list_buffer slow_os quiet 0) s
      (net_select fd xs (s\<lparr>nt_conns := nt_conns s @ [open_conn]\<rparr>))"
    by (rule nt_open [where in_loop = True, OF refl assms _ xs]) (simp add: open_conn_def)
  then show ?thesis
    by (intro exI [of _ "net_select fd xs (s\<lparr>nt_conns := nt_conns s @ [open_conn]\<rparr>)"]) simp
qed

lemma sending_net:
  obtains s where "reachable (\<lambda>s. s = net_create)
      (net_step (\<lambda>_. 7) list_buffer (\<lambda>_. slow_os) (\<lambda>i. conn_hooks list_buffer slow_os quiet 0)) s"
    and "nt_conns s = [closed_conn, sending_conn]"
proof -
  let ?step = "net_step (\<lambda>_. 7) list_buffer (\<lambda>_. slow_os) (\<lambda>i. conn_hooks list_buffer slow_os quiet 0)"
  have exec: "conn_any_step list_buffer slow_os (conn_hooks list_buffer slow_os quiet 0) open_conn closed_conn"
    "conn_any_step list_buffer slow_os (conn_hooks list_buffer slow_os quiet 0) open_conn sending_conn"
    unfolding closed_conn_def sending_conn_def by (rule ca_step, rule cs_loop, simp)+
  obtain s1 where s1: "?step net_create s1" "nt_conns s1 = [open_conn]" "nt_gone s1 = {}"
    using net_opens [of net_create "\<lambda>_. 7"] by (auto simp: net_create_def)
  then obtain s2 where s2: "?step s1 s2" "nt_conns s2 = [closed_conn]" "nt_gone s2 = {}"
    using net_step_exists [where i = 0 and s = s1 and B = list_buffer and sys = "\<lambda>_. slow_os" and h = "\<lambda>_. quiet"
        and n = 0 and c = closed_conn and fd = "\<lambda>_. 7"] exec(1) closed_conn_simps(3) by auto
  have s3: "?step s2 (s2\<lparr>nt_gone := {0}\<rparr>)"
    using nt_destroy [of 0 s2] s2 closed_conn_simps by simp
  obtain s4 where s4: "?step (s2\<lparr>nt_gone := {0}\<rparr>) s4" "nt_conns s4 = [closed_conn, open_conn]" "nt_gone s4 = {0}"
    using net_opens [of "s2\<lparr>nt_gone := {0}\<rparr>" "\<lambda>_. 7"] s2 by auto
  then obtain s5 where s5: "?step s4 s5" "nt_conns s5 = [closed_conn, sending_conn]"
    using net_step_exists [where i = 1 and s = s4 and B = list_buffer and sys = "\<lambda>_. slow_os" and h = "\<lambda>_. quiet"
        and n = 0 and c = sending_conn and fd = "\<lambda>_. 7"] exec(2) sending_conn_simps(4) by auto
  have "reachable (\<lambda>s. s = net_create) ?step net_create"
    by (rule reachable.start) simp
  from this s1(1) s2(1) s3 s4(1) s5(1) have "reachable (\<lambda>s. s = net_create) ?step s5"
    by (rule reachable.next_step [OF reachable.next_step [OF reachable.next_step [OF reachable.next_step
        [OF reachable.next_step]]]])
  with s5(2) that show thesis by blast
qed

theorem conns_on_epoll_witness:
  "\<exists>s :: (byte list \<times> nat) conn_net. nt_conns s = [closed_conn, sending_conn] \<and> nt_fatal s = None
    \<and> ep_watch (\<lambda>_. 7) (cw_sel (nt_world s)) 0 = None
    \<and> (\<exists>ev. ep_watch (\<lambda>_. 7) (cw_sel (nt_world s)) 1 = Some ev \<and> se_contains ev kWriteEvent)"
proof -
  obtain s where s: "reachable (\<lambda>s. s = net_create)
      (net_step (\<lambda>_. 7) list_buffer (\<lambda>_. slow_os) (\<lambda>i. conn_hooks list_buffer slow_os quiet 0)) s"
    "nt_conns s = [closed_conn, sending_conn]"
    by (rule sending_net)
  note r = conns_on_epoll [where h = "\<lambda>_. quiet" and sys = "\<lambda>_. slow_os", OF list_buffer_ok slow_os_ok s(1)]
  have at: "nt_conns s ! 0 = closed_conn" "nt_conns s ! 1 = sending_conn" "0 < length (nt_conns s)" "1 < length (nt_conns s)"
    using s(2) by simp_all
  from r have "nt_fatal s = None" by blast
  moreover have "ep_watch (\<lambda>_. 7) (cw_sel (nt_world s)) 0 = None"
    using conjunct2 [OF r, rule_format, OF at(3)] at(1) closed_conn_simps(1) by (simp add: Let_def)
  moreover have "\<exists>ev. ep_watch (\<lambda>_. 7) (cw_sel (nt_world s)) 1 = Some ev \<and> se_contains ev kWriteEvent"
    using conjunct2 [OF r, rule_format, OF at(4)] at(2) sending_conn_simps by (simp add: Let_def) metis
  ultimately show ?thesis
    using s(2) by blast
qed

end
