(* ===== verification/Event_Loop.thy ===== *)
theory Event_Loop
  imports Event_Queue Selector
begin

text \<open>
  include/pedronet/eventloop.h and src/eventloop.cc: the life of an event loop, as steps of the
  loop's thread (\<open>Loop\<close>) and of the threads that use it (\<open>Schedule\<close>, \<open>Close\<close>).  The event
  queue is the blocking queue of \<open>Event_Queue\<close> with its event channel; every read or write of
  \<open>state_\<close> and every operation of the queue is a step of its own.  \<open>EventLoop::Add\<close> and
  \<open>Remove\<close> on the loop's thread are \<open>el_add\<close> and \<open>el_remove\<close>, and a round is \<open>dispatch\<close>, of
  theory Selector.

  A handler or task \<open>n\<close> of the user is the list \<open>body n\<close> of the calls it makes on the loop.
\<close>

unbundle bit_operations_syntax

section \<open>State\<close>

definition kLooping :: u32 where "kLooping = push_bit 0 1"
definition kJoinable :: u32 where "kJoinable = push_bit 1 1"

lemmas loop_bits = kLooping_def kJoinable_def

datatype loop_call = CallSchedule nat | CallClose

datatype loop_task = UserTask nat | CloseTask

text \<open>What \<open>Wait\<close> reports: the event channel, or a channel with handler \<open>n\<close>.\<close>

datatype loop_report = ReportQueue | ReportOther nat

text \<open>
  Where the loop's thread is: before \<open>Loop\<close>, between the load and the exchange of its entry,
  at the test of \<open>while\<close>, in \<open>Wait\<close>, in a round with the reports still to handle, in
  \<open>EventQueue::Process\<close> within a round, out of \<open>Loop\<close>.
\<close>

datatype loop_pc =
    LoopIdle
  | LoopLoaded u32
  | LoopCheck
  | LoopWaiting
  | LoopRound "loop_report list"
  | LoopDrain "loop_report list"
  | LoopDone

record event_loop =
  el_state :: u32
  el_pc :: loop_pc
  el_current :: bool
  el_queue :: "loop_task blocking_queue"
  el_watched :: bool
  el_latch :: nat
  el_closing :: nat
  el_added :: "loop_task list"
  el_ran :: "loop_task list"

text \<open>
  \<open>el_watched\<close>: the event channel is in the selector; \<open>el_closing\<close>: the number of \<open>Close\<close>
  calls of other threads between their two statements; \<open>el_added\<close>, \<open>el_ran\<close>: the tasks
  scheduled and run so far, in order.
\<close>

definition el_create :: event_loop where
  "el_create = \<lparr>el_state = 0, el_pc = LoopIdle, el_current = False, el_queue = bq_create ec_create,
     el_watched = True, el_latch = 1, el_closing = 0, el_added = [], el_ran = []\<rparr>"

section \<open>Operations\<close>

definition el_schedule :: "loop_task \<Rightarrow> event_loop \<Rightarrow> event_loop" where
  "el_schedule t s = s\<lparr>el_queue := bq_add t (el_queue s), el_added := el_added s @ [t]\<rparr>"

text \<open>The two statements of \<open>Close\<close>.\<close>

definition el_close_flag :: "event_loop \<Rightarrow> event_loop" where
  "el_close_flag s = s\<lparr>el_state := el_state s AND NOT kLooping\<rparr>"

definition el_close :: "event_loop \<Rightarrow> event_loop" where
  "el_close s = el_schedule CloseTask (el_close_flag s)"

fun el_call :: "loop_call \<Rightarrow> event_loop \<Rightarrow> event_loop" where
  "el_call (CallSchedule n) s = el_schedule (UserTask n) s"
| "el_call CallClose s = el_close s"

definition el_body :: "(nat \<Rightarrow> loop_call list) \<Rightarrow> nat \<Rightarrow> event_loop \<Rightarrow> event_loop" where
  "el_body body n s = fold el_call (body n) s"

text \<open>A task: the user's, or the one \<open>Close\<close> schedules.\<close>

fun el_task :: "(nat \<Rightarrow> loop_call list) \<Rightarrow> loop_task \<Rightarrow> event_loop \<Rightarrow> event_loop" where
  "el_task body (UserTask n) s = el_body body n s"
| "el_task body CloseTask s = s\<lparr>el_watched := False, el_latch := el_latch s - 1\<rparr>"

definition el_join_returns :: "event_loop \<Rightarrow> bool" where
  "el_join_returns s \<longleftrightarrow> el_state s AND kJoinable = 0 \<or> el_latch s = 0"

definition el_looping :: "event_loop \<Rightarrow> bool" where
  "el_looping s \<longleftrightarrow> el_state s AND kLooping \<noteq> 0"

section \<open>Steps\<close>

text \<open>
  The entry of \<open>Loop\<close>; the \<open>while\<close>; \<open>Wait\<close> failing or reporting (the event channel only while
  it is registered and readable); the handling of a report, where the event channel reads its
  descriptor and processes the queue; other threads.
\<close>

inductive el_step :: "(nat \<Rightarrow> loop_call list) \<Rightarrow> event_loop \<Rightarrow> event_loop \<Rightarrow> bool"
  for body :: "nat \<Rightarrow> loop_call list"
where
  load: "el_pc s = LoopIdle \<Longrightarrow> el_step body s (s\<lparr>el_pc := LoopLoaded (el_state s)\<rparr>)"
| refuse: "el_pc s = LoopLoaded v \<Longrightarrow> v AND kLooping \<noteq> 0 \<Longrightarrow> el_step body s (s\<lparr>el_pc := LoopDone\<rparr>)"
| enter: "el_pc s = LoopLoaded v \<Longrightarrow> v AND kLooping = 0 \<Longrightarrow> el_state s = v \<Longrightarrow>
    el_step body s (s\<lparr>el_state := kLooping OR kJoinable, el_current := True, el_pc := LoopCheck\<rparr>)"
| again: "el_pc s = LoopLoaded v \<Longrightarrow> v AND kLooping = 0 \<Longrightarrow> el_state s \<noteq> v \<Longrightarrow>
    el_step body s (s\<lparr>el_pc := LoopIdle\<rparr>)"
| go: "el_pc s = LoopCheck \<Longrightarrow> el_looping s \<Longrightarrow> el_step body s (s\<lparr>el_pc := LoopWaiting\<rparr>)"
| leave: "el_pc s = LoopCheck \<Longrightarrow> \<not> el_looping s \<Longrightarrow>
    el_step body s (s\<lparr>el_pc := LoopDone, el_current := False\<rparr>)"
| wait_fails: "el_pc s = LoopWaiting \<Longrightarrow> el_step body s (s\<lparr>el_pc := LoopCheck\<rparr>)"
| wait_reports: "el_pc s = LoopWaiting \<Longrightarrow>
    (ReportQueue \<in> set rs \<Longrightarrow> el_watched s \<and> ec_readable (bq_channel (el_queue s))) \<Longrightarrow>
    count_list rs ReportQueue \<le> 1 \<Longrightarrow>
    el_step body s (s\<lparr>el_pc := LoopRound rs\<rparr>)"
| round_end: "el_pc s = LoopRound [] \<Longrightarrow> el_step body s (s\<lparr>el_pc := LoopCheck\<rparr>)"
| handle_other: "el_pc s = LoopRound (ReportOther n # rs) \<Longrightarrow>
    el_step body s ((el_body body n s)\<lparr>el_pc := LoopRound rs\<rparr>)"
| handle_queue: "el_pc s = LoopRound (ReportQueue # rs) \<Longrightarrow> el_watched s \<Longrightarrow>
    ec_read (bq_channel (el_queue s)) = Inr ch \<Longrightarrow>
    el_step body s (s\<lparr>el_queue := (el_queue s)\<lparr>bq_channel := ch\<rparr>, el_pc := LoopDrain rs\<rparr>)"
| handle_removed: "el_pc s = LoopRound (ReportQueue # rs) \<Longrightarrow> \<not> el_watched s \<Longrightarrow>
    el_step body s (s\<lparr>el_pc := LoopRound rs\<rparr>)"
| drain: "el_pc s = LoopDrain rs \<Longrightarrow> bq_pop (el_queue s) = Some (t, q) \<Longrightarrow>
    el_step body s (el_task body t (s\<lparr>el_queue := q, el_ran := el_ran s @ [t]\<rparr>))"
| drained: "el_pc s = LoopDrain rs \<Longrightarrow> bq_pop (el_queue s) = None \<Longrightarrow>
    el_step body s (s\<lparr>el_pc := LoopRound rs\<rparr>)"
| ext_schedule: "el_step body s (el_schedule (UserTask n) s)"
| ext_close_flag: "el_step body s ((el_close_flag s)\<lparr>el_closing := el_closing s + 1\<rparr>)"
| ext_close_task: "0 < el_closing s \<Longrightarrow>
    el_step body s ((el_schedule CloseTask s)\<lparr>el_closing := el_closing s - 1\<rparr>)"

definition el_initial :: "event_loop \<Rightarrow> bool" where
  "el_initial s \<longleftrightarrow> s = el_create"

section \<open>What the operations change\<close>

lemma el_schedule_simps [simp]:
  "el_state (el_schedule t s) = el_state s" "el_pc (el_schedule t s) = el_pc s"
  "el_current (el_schedule t s) = el_current s" "el_watched (el_schedule t s) = el_watched s"
  "el_latch (el_schedule t s) = el_latch s" "el_closing (el_schedule t s) = el_closing s"
  "el_added (el_schedule t s) = el_added s @ [t]" "el_ran (el_schedule t s) = el_ran s"
  "bq_queue (el_queue (el_schedule t s)) = bq_queue (el_queue s) @ [t]"
  by (simp_all add: el_schedule_def bq_add_def Let_def)

lemma el_schedule_readable:
  "bq_queue (el_queue s) = [] \<or> ec_readable (bq_channel (el_queue s)) \<Longrightarrow>
    ec_readable (bq_channel (el_queue (el_schedule t s)))"
  by (auto simp: el_schedule_def bq_add_def Let_def)

lemma el_close_flag_simps [simp]:
  "el_pc (el_close_flag s) = el_pc s" "el_current (el_close_flag s) = el_current s"
  "el_queue (el_close_flag s) = el_queue s" "el_watched (el_close_flag s) = el_watched s"
  "el_latch (el_close_flag s) = el_latch s" "el_closing (el_close_flag s) = el_closing s"
  "el_added (el_close_flag s) = el_added s" "el_ran (el_close_flag s) = el_ran s"
  by (simp_all add: el_close_flag_def)

lemma loop_bits_nonzero [simp]: "kLooping \<noteq> 0" "kJoinable \<noteq> 0"
  by (simp_all add: loop_bits)

lemma loop_mask [simp]:
  "(x AND NOT kLooping) AND kLooping = 0" "(x AND NOT kLooping) AND kJoinable = x AND kJoinable"
  "(kLooping OR kJoinable) AND kLooping \<noteq> 0" "(kLooping OR kJoinable) AND kJoinable \<noteq> 0"
proof -
  show "(x AND NOT kLooping) AND kLooping = 0"
    by (simp add: bit_eq_iff bit_and_iff bit_not_iff)
  have "NOT kLooping AND kJoinable = kJoinable"
    by (simp add: loop_bits)
  then show "(x AND NOT kLooping) AND kJoinable = x AND kJoinable"
    by (simp add: and.assoc)
  show "(kLooping OR kJoinable) AND kLooping \<noteq> 0" "(kLooping OR kJoinable) AND kJoinable \<noteq> 0"
    by (simp_all add: loop_bits)
qed

lemma el_flag_bits [simp]:
  "\<not> el_looping (el_close_flag s)"
  "el_state (el_close_flag s) AND kJoinable = el_state s AND kJoinable"
  by (simp_all add: el_looping_def el_close_flag_def)

text \<open>
  A preorder on states that \<open>Schedule\<close> and \<open>Close\<close> respect is respected by every callback.
\<close>

locale loop_calls =
  fixes R :: "event_loop \<Rightarrow> event_loop \<Rightarrow> bool"
  assumes refl: "R s s"
    and trans: "R s t \<Longrightarrow> R t u \<Longrightarrow> R s u"
    and schedule: "R s (el_schedule k s)"
    and close: "R s (el_close s)"
begin

lemma call: "R s (el_call c s)"
  by (cases c) (auto intro: schedule close)

lemma run_body: "R s (el_body body n s)"
proof -
  have "R s (fold el_call cs s)" for cs
    by (induction cs arbitrary: s) (auto intro: refl trans call)
  then show ?thesis
    by (simp add: el_body_def)
qed

end

text \<open>
  What callbacks may do: add tasks (never to a sleeping queue without waking it), clear the
  looping flag, and nothing else.
\<close>

definition el_frame :: "event_loop \<Rightarrow> loop_pc \<times> bool \<times> bool \<times> nat \<times> nat \<times> loop_task list \<times> u32" where
  "el_frame s = (el_pc s, el_current s, el_watched s, el_latch s, el_closing s, el_ran s, el_state s AND kJoinable)"

definition el_rings :: "event_loop \<Rightarrow> bool" where
  "el_rings s \<longleftrightarrow> bq_queue (el_queue s) = [] \<or> ec_readable (bq_channel (el_queue s))"

definition el_callback_moves :: "event_loop \<Rightarrow> event_loop \<Rightarrow> bool" where
  "el_callback_moves s t \<longleftrightarrow>
     el_frame t = el_frame s \<and> (el_looping t \<longrightarrow> el_looping s) \<and> (el_rings s \<longrightarrow> el_rings t) \<and>
     (ec_readable (bq_channel (el_queue s)) \<longrightarrow> ec_readable (bq_channel (el_queue t))) \<and>
     (\<exists>ts. el_added t = el_added s @ ts \<and> bq_queue (el_queue t) = bq_queue (el_queue s) @ ts)"

lemma el_callback_moves_trans:
  assumes "el_callback_moves s t" and "el_callback_moves t u"
  shows "el_callback_moves s u"
proof -
  from assms obtain ts us where "el_added t = el_added s @ ts" "bq_queue (el_queue t) = bq_queue (el_queue s) @ ts"
    "el_added u = el_added t @ us" "bq_queue (el_queue u) = bq_queue (el_queue t) @ us"
    unfolding el_callback_moves_def by blast
  then have "\<exists>vs. el_added u = el_added s @ vs \<and> bq_queue (el_queue u) = bq_queue (el_queue s) @ vs"
    by (intro exI [of _ "ts @ us"]) simp
  with assms show ?thesis
    unfolding el_callback_moves_def by metis
qed

lemma el_callback_moves_schedule: "el_callback_moves s (el_schedule k s)"
  using el_schedule_readable [of s k]
  by (auto simp: el_callback_moves_def el_looping_def el_frame_def el_rings_def)

lemma el_callback_moves_flag: "el_callback_moves s (el_close_flag s)"
  by (simp add: el_callback_moves_def el_frame_def el_rings_def)

interpretation callbacks: loop_calls el_callback_moves
proof
  fix s t u k
  show "el_callback_moves s s"
    by (simp add: el_callback_moves_def)
  show "el_callback_moves s t \<Longrightarrow> el_callback_moves t u \<Longrightarrow> el_callback_moves s u"
    by (rule el_callback_moves_trans)
  show "el_callback_moves s (el_schedule k s)"
    by (rule el_callback_moves_schedule)
  show "el_callback_moves s (el_close s)"
    unfolding el_close_def
    by (rule el_callback_moves_trans [OF el_callback_moves_flag el_callback_moves_schedule])
qed

text \<open>
  \<open>el_closes\<close>: how often \<open>Close\<close> has begun.  Nothing takes it back, and a callback that
  does not close the loop leaves \<open>state_\<close> alone.
\<close>

definition el_closes :: "event_loop \<Rightarrow> nat" where
  "el_closes s = el_closing s + count_list (el_added s) CloseTask"

definition el_closes_more :: "event_loop \<Rightarrow> event_loop \<Rightarrow> bool" where
  "el_closes_more s t \<longleftrightarrow> el_closes s \<le> el_closes t \<and> (el_closes t = el_closes s \<longrightarrow> el_state t = el_state s)"

interpretation closing: loop_calls el_closes_more
proof
  fix s k
  show "el_closes_more s (el_schedule k s)"
    by (cases k) (simp_all add: el_closes_more_def el_closes_def)
  show "el_closes_more s (el_close s)"
    by (simp add: el_closes_more_def el_closes_def el_close_def)
qed (auto simp: el_closes_more_def)

section \<open>The invariant\<close>

text \<open>
  Tasks run in the order they were added; a sleeping loop with tasks has its descriptor
  readable; the event channel is watched and the latch is up until the task of \<open>Close\<close> runs;
  the thread-local \<open>current\<close> is set exactly inside \<open>Loop\<close>, and then the loop can be joined.
\<close>

definition el_inside :: "loop_pc \<Rightarrow> bool" where
  "el_inside pc \<longleftrightarrow> (case pc of LoopIdle \<Rightarrow> False | LoopLoaded v \<Rightarrow> False | LoopDone \<Rightarrow> False | _ \<Rightarrow> True)"

definition el_draining :: "loop_pc \<Rightarrow> bool" where
  "el_draining pc \<longleftrightarrow> (case pc of LoopDrain rs \<Rightarrow> True | _ \<Rightarrow> False)"

fun el_reports :: "loop_pc \<Rightarrow> loop_report list" where
  "el_reports (LoopRound rs) = rs"
| "el_reports (LoopDrain rs) = rs"
| "el_reports pc = []"

definition el_inv :: "event_loop \<Rightarrow> bool" where
  "el_inv s \<longleftrightarrow>
     el_added s = el_ran s @ bq_queue (el_queue s) \<and>
     (\<not> el_draining (el_pc s) \<longrightarrow> el_rings s) \<and>
     (ReportQueue \<in> set (el_reports (el_pc s)) \<longrightarrow>
        \<not> el_draining (el_pc s) \<and> (el_watched s \<longrightarrow> ec_readable (bq_channel (el_queue s)))) \<and>
     count_list (el_reports (el_pc s)) ReportQueue \<le> 1 \<and>
     el_latch s = (if CloseTask \<in> set (el_ran s) then 0 else 1) \<and>
     (el_watched s \<longleftrightarrow> CloseTask \<notin> set (el_ran s)) \<and>
     (el_current s \<longleftrightarrow> el_inside (el_pc s)) \<and>
     (el_current s \<longrightarrow> el_state s AND kJoinable \<noteq> 0)"

lemmas el_pc_defs = el_inside_def el_draining_def

lemma el_inv_create: "el_inv el_create"
  by (simp add: el_inv_def el_create_def bq_create_def el_rings_def el_pc_defs)

end
