(* ===== verification/Event_Loop_Properties.thy ===== *)
theory Event_Loop_Properties
  imports Event_Loop
begin

text \<open>
  The invariant of the event loop and the properties of its life: order of the tasks, what a
  return of \<open>Join\<close> means, when closing works and the two ways in which it does not.
\<close>

section \<open>The invariant holds\<close>

lemma el_inv_moves:
  assumes "el_callback_moves s t" and "el_inv s"
  shows "el_inv t"
proof -
  from assms(1) obtain ts where ts: "el_added t = el_added s @ ts"
    "bq_queue (el_queue t) = bq_queue (el_queue s) @ ts"
    unfolding el_callback_moves_def by blast
  have f: "el_pc t = el_pc s" "el_current t = el_current s" "el_watched t = el_watched s"
    "el_latch t = el_latch s" "el_ran t = el_ran s" "el_state t AND kJoinable = el_state s AND kJoinable"
    "el_rings s \<longrightarrow> el_rings t"
    "ec_readable (bq_channel (el_queue s)) \<longrightarrow> ec_readable (bq_channel (el_queue t))"
    using assms(1) by (auto simp: el_callback_moves_def el_frame_def)
  show ?thesis
    using assms(2) unfolding el_inv_def ts f(1-6) using f(7,8) by simp
qed

lemma el_rings_fields [simp]:
  "el_rings (s\<lparr>el_pc := pc\<rparr>) = el_rings s" "el_rings (s\<lparr>el_current := c\<rparr>) = el_rings s"
  "el_rings (s\<lparr>el_closing := n\<rparr>) = el_rings s"
  by (simp_all add: el_rings_def)

text \<open>A change of the position within a round.\<close>

lemma el_inv_pc:
  assumes "el_inv s" and "el_inside pc = el_inside (el_pc s)" and "\<not> el_draining pc \<longrightarrow> el_rings s"
    and "ReportQueue \<in> set (el_reports pc) \<longrightarrow> \<not> el_draining pc \<and> (el_watched s \<longrightarrow> ec_readable (bq_channel (el_queue s)))"
    and "count_list (el_reports pc) ReportQueue \<le> 1"
  shows "el_inv (s\<lparr>el_pc := pc\<rparr>)"
  using assms unfolding el_inv_def by (simp add: el_rings_def)

lemma el_inv_step:
  assumes "el_inv s" and "el_step body s t"
  shows "el_inv t"
  using assms(2)
proof cases
  case (enter v)
  with assms(1) show ?thesis
    by (simp add: el_inv_def el_pc_defs el_rings_def)
next
  case leave
  with assms(1) show ?thesis
    by (simp add: el_inv_def el_pc_defs el_rings_def)
next
  case (handle_other n rs)
  let ?u = "el_body body n s"
  have u: "el_inv ?u" and pc: "el_pc ?u = LoopRound (ReportOther n # rs)"
    using el_inv_moves [OF callbacks.run_body assms(1)] callbacks.run_body [of s body n] handle_other
    by (simp_all add: el_callback_moves_def el_frame_def)
  show ?thesis
    unfolding handle_other(1) using u pc
    by (intro el_inv_pc) (auto simp: el_inv_def el_pc_defs)
next
  case (handle_queue rs ch)
  with assms(1) show ?thesis
    by (simp add: el_inv_def el_pc_defs) (metis count_list_0_iff)
next
  case (drain rs k q)
  have q: "bq_queue (el_queue s) = k # bq_queue q"
    using drain(3) by (auto simp: bq_pop_def split: list.splits)
  show ?thesis
  proof (cases k)
    case CloseTask
    with q drain assms(1) show ?thesis
      by (simp add: el_inv_def el_pc_defs)
  next
    case (UserTask n)
    have "el_inv (s\<lparr>el_queue := q, el_ran := el_ran s @ [k]\<rparr>)"
      using q drain(2) assms(1) UserTask by (simp add: el_inv_def el_pc_defs)
    with drain(1) UserTask el_inv_moves [OF callbacks.run_body] show ?thesis
      by simp
  qed
next
  case (drained rs)
  then have "bq_queue (el_queue s) = []"
    by (auto simp: bq_pop_def split: list.splits)
  with drained assms(1) show ?thesis
    by (auto intro!: el_inv_pc simp: el_inv_def el_pc_defs el_rings_def)
next
  case (ext_schedule n)
  with el_inv_moves [OF callbacks.schedule assms(1)] show ?thesis
    by simp
next
  case ext_close_flag
  have "el_inv (el_close_flag s)"
    using el_callback_moves_flag assms(1) by (rule el_inv_moves)
  with ext_close_flag show ?thesis
    by (simp add: el_inv_def el_rings_def)
next
  case ext_close_task
  have "el_inv (el_schedule CloseTask s)"
    using el_callback_moves_schedule assms(1) by (rule el_inv_moves)
  with ext_close_task show ?thesis
    by (simp add: el_inv_def el_rings_def)
qed (use assms(1) in \<open>auto intro!: el_inv_pc simp: el_inv_def el_pc_defs\<close>)

interpretation loop: invariant_system el_initial "el_step body" el_inv
proof
  show "el_initial s \<Longrightarrow> el_inv s" for s
    by (simp add: el_initial_def el_inv_create)
qed (rule el_inv_step)

section \<open>Order and Join\<close>

text \<open>
  C10. A loop over EventBlockingQueue runs its tasks in the order they were added, none twice, none
  left out (the default queue, EventLockFreeQueue, keeps no order between threads; for it see theory
  Queue\_Loop\_Properties): whatever threads, handlers and tasks do, what was added is what has run
  followed by what is queued;
  outside \<open>Process\<close> a queue that is not empty has made the event channel readable; and when
  the latch lets \<open>Join\<close> return, the task of a \<open>Close\<close> has run with every task that was
  scheduled before it.
\<close>

theorem loop_runs_in_order:
  assumes "reachable el_initial (el_step body) s"
  shows "el_added s = el_ran s @ bq_queue (el_queue s) \<and>
    (bq_queue (el_queue s) = [] \<or> el_draining (el_pc s) \<or> ec_readable (bq_channel (el_queue s))) \<and>
    (el_latch s = 0 \<longrightarrow> (\<exists>before after. el_added s = before @ CloseTask # after \<and>
       (\<exists>more. el_ran s = before @ CloseTask # more)))"
proof -
  have inv: "el_inv s"
    using assms by (rule loop.inv_reachable)
  then have added: "el_added s = el_ran s @ bq_queue (el_queue s)"
    by (simp add: el_inv_def)
  have "\<exists>before after. el_added s = before @ CloseTask # after \<and>
       (\<exists>more. el_ran s = before @ CloseTask # more)" if "el_latch s = 0"
  proof -
    from that inv have "CloseTask \<in> set (el_ran s)"
      by (auto simp: el_inv_def split: if_splits)
    then obtain before more where "el_ran s = before @ CloseTask # more"
      by (meson split_list)
    with added show ?thesis
      by (intro exI [of _ before] exI [of _ "more @ bq_queue (el_queue s)"]) simp
  qed
  with added inv show ?thesis
    by (auto simp: el_inv_def el_rings_def)
qed

theorem loop_runs_in_order_witness:
  "let s = el_schedule (UserTask 3) el_create
   in el_added s = el_ran s @ bq_queue (el_queue s) \<and>
    (bq_queue (el_queue s) = [] \<or> el_draining (el_pc s) \<or> ec_readable (bq_channel (el_queue s))) \<and>
    (el_latch s = 0 \<longrightarrow> (\<exists>before after. el_added s = before @ CloseTask # after \<and>
       (\<exists>more. el_ran s = before @ CloseTask # more)))"
  unfolding Let_def
  by (rule loop_runs_in_order [where body = "\<lambda>_. []"], rule reachable.next_step, rule reachable.start)
    (auto simp: el_initial_def intro: el_step.ext_schedule)

section \<open>Closing\<close>

text \<open>A loop that has left \<open>Loop\<close> with the latch up never lets \<open>Join\<close> return.\<close>

definition el_stuck :: "event_loop \<Rightarrow> bool" where
  "el_stuck s \<longleftrightarrow> el_pc s = LoopDone \<and> el_state s AND kJoinable \<noteq> 0 \<and> el_latch s \<noteq> 0"

definition el_join_hangs :: "(nat \<Rightarrow> loop_call list) \<Rightarrow> event_loop \<Rightarrow> bool" where
  "el_join_hangs body s \<longleftrightarrow> (\<forall>t. (el_step body)\<^sup>*\<^sup>* s t \<longrightarrow> \<not> el_join_returns t)"

lemma el_stuck_step: "el_stuck s \<Longrightarrow> el_step body s t \<Longrightarrow> el_stuck t"
  by (auto simp: el_stuck_def elim!: el_step.cases)

lemma el_stuck_hangs: "el_stuck s \<Longrightarrow> el_join_hangs body s"
proof -
  assume "el_stuck s"
  have "el_stuck t" if "(el_step body)\<^sup>*\<^sup>* s t" for t
    using that \<open>el_stuck s\<close> by (induction rule: rtranclp_induct) (auto intro: el_stuck_step)
  then show ?thesis
    by (auto simp: el_join_hangs_def el_stuck_def el_join_returns_def)
qed

text \<open>The loop in its first \<open>Wait\<close>, nothing scheduled.\<close>

definition el_waiting :: event_loop where
  "el_waiting = el_create\<lparr>el_state := kLooping OR kJoinable, el_current := True, el_pc := LoopWaiting\<rparr>"

lemma el_waiting_simps [simp]:
  "el_pc el_waiting = LoopWaiting" "el_state el_waiting = kLooping OR kJoinable" "el_latch el_waiting = 1"
  "el_queue el_waiting = bq_create ec_create" "el_added el_waiting = []" "el_ran el_waiting = []"
  "el_closing el_waiting = 0" "el_watched el_waiting" "el_looping el_waiting" "el_current el_waiting"
  by (simp_all add: el_waiting_def el_create_def el_looping_def)

lemma el_waiting_reachable: "reachable el_initial (el_step body) el_waiting"
proof -
  let ?s1 = "el_create\<lparr>el_pc := LoopLoaded (el_state el_create)\<rparr>"
  let ?s2 = "?s1\<lparr>el_state := kLooping OR kJoinable, el_current := True, el_pc := LoopCheck\<rparr>"
  have "reachable el_initial (el_step body) el_create"
    by (rule reachable.start) (simp add: el_initial_def)
  moreover have "el_step body el_create ?s1"
    by (rule el_step.load) (simp add: el_create_def)
  moreover have "el_step body ?s1 ?s2"
    by (rule el_step.enter) (simp_all add: el_create_def)
  moreover have "el_step body ?s2 (?s2\<lparr>el_pc := LoopWaiting\<rparr>)"
    by (rule el_step.go) (simp_all add: el_looping_def)
  ultimately have "reachable el_initial (el_step body) (?s2\<lparr>el_pc := LoopWaiting\<rparr>)"
    by (meson reachable.next_step)
  then show ?thesis
    by (simp add: el_waiting_def)
qed

text \<open>The two runs: \<open>Wait\<close> returning between the statements of \<open>Close\<close>, and a handler that closes.\<close>

lemma el_close_race:
  "\<exists>s. reachable el_initial (el_step body) s \<and> el_pc s = LoopDone \<and> el_closing s = 0 \<and>
      el_added s = [CloseTask] \<and> bq_queue (el_queue s) = [CloseTask] \<and> el_stuck s"
proof -
  let ?w1 = "(el_close_flag el_waiting)\<lparr>el_closing := el_closing el_waiting + 1\<rparr>"
  let ?w2 = "?w1\<lparr>el_pc := LoopCheck\<rparr>"
  let ?w3 = "?w2\<lparr>el_pc := LoopDone, el_current := False\<rparr>"
  let ?w4 = "(el_schedule CloseTask ?w3)\<lparr>el_closing := el_closing ?w3 - 1\<rparr>"
  have "el_step body el_waiting ?w1"
    by (rule el_step.ext_close_flag)
  moreover have "el_step body ?w1 ?w2"
    by (rule el_step.wait_fails) simp
  moreover have "el_step body ?w2 ?w3"
    by (rule el_step.leave) (simp_all add: el_looping_def el_close_flag_def)
  moreover have "el_step body ?w3 ?w4"
    by (rule el_step.ext_close_task) simp
  ultimately have "(el_step body)\<^sup>*\<^sup>* el_waiting ?w4"
    by (meson converse_rtranclp_into_rtranclp r_into_rtranclp)
  then have "reachable el_initial (el_step body) ?w4"
    using el_waiting_reachable by (rule reachable_rtranclp)
  moreover have "el_stuck ?w4"
    by (simp add: el_stuck_def el_close_flag_def)
  moreover have "bq_queue (el_queue ?w4) = [CloseTask]" "el_pc ?w4 = LoopDone" "el_closing ?w4 = 0"
    "el_added ?w4 = [CloseTask]"
    by (simp_all add: bq_create_def)
  ultimately show ?thesis
    by blast
qed

lemma el_close_in_handler:
  assumes "body n = [CallClose]"
  shows "\<exists>s. reachable el_initial (el_step body) s \<and> el_pc s = LoopDone \<and>
      el_added s = [CloseTask] \<and> bq_queue (el_queue s) = [CloseTask] \<and> el_stuck s"
proof -
  let ?w1 = "el_waiting\<lparr>el_pc := LoopRound [ReportOther n]\<rparr>"
  let ?w2 = "(el_body body n ?w1)\<lparr>el_pc := LoopRound []\<rparr>"
  let ?w3 = "?w2\<lparr>el_pc := LoopCheck\<rparr>"
  let ?w4 = "?w3\<lparr>el_pc := LoopDone, el_current := False\<rparr>"
  have "el_step body el_waiting ?w1"
    by (rule el_step.wait_reports) simp_all
  moreover have "el_step body ?w1 ?w2"
    by (rule el_step.handle_other) simp
  moreover have "el_step body ?w2 ?w3"
    by (rule el_step.round_end) simp
  moreover have "el_step body ?w3 ?w4"
    by (rule el_step.leave) (simp_all add: assms el_looping_def el_body_def el_close_def el_close_flag_def)
  ultimately have "(el_step body)\<^sup>*\<^sup>* el_waiting ?w4"
    by (meson converse_rtranclp_into_rtranclp r_into_rtranclp)
  then have "reachable el_initial (el_step body) ?w4"
    using el_waiting_reachable by (rule reachable_rtranclp)
  moreover have "el_stuck ?w4"
    by (simp add: assms el_stuck_def el_body_def el_close_def el_close_flag_def)
  moreover have "bq_queue (el_queue ?w4) = [CloseTask]" "el_pc ?w4 = LoopDone" "el_added ?w4 = [CloseTask]"
    by (simp_all add: assms bq_create_def el_body_def el_close_def)
  ultimately show ?thesis
    by blast
qed

text \<open>
  C30. \<open>Close\<close> can leave \<open>Join\<close>, and with it the destructor of the loop, waiting for ever.  It
  clears the looping flag before it schedules the task that releases the latch, and the loop
  leaves as soon as it sees the flag.  For the calls of other threads: there is a run in which
  \<open>Wait\<close> returns between the two statements of the only \<open>Close\<close>, and whatever happens
  afterwards, \<open>Join\<close> does not return.  The same for a \<open>Close\<close> made by a handler of the loop
  itself (handler 0 here), where no other thread takes part.
\<close>

theorem loop_close_hangs:
  "(\<exists>s. reachable el_initial (el_step body) s \<and> el_pc s = LoopDone \<and> el_closing s = 0 \<and>
      el_added s = [CloseTask] \<and> bq_queue (el_queue s) = [CloseTask] \<and> el_join_hangs body s) \<and>
   (\<exists>s. reachable el_initial (el_step (\<lambda>_. [CallClose])) s \<and> el_pc s = LoopDone \<and>
      el_added s = [CloseTask] \<and> bq_queue (el_queue s) = [CloseTask] \<and> el_join_hangs (\<lambda>_. [CallClose]) s)"
  using el_close_race [of body] el_close_in_handler [of "\<lambda>_. [CallClose]"] el_stuck_hangs by blast

text \<open>
  A run in which the kernel is prompt: \<open>Wait\<close> does not fail, and reports the event channel
  when it is watched and readable.
\<close>

definition el_prompt_step :: "(nat \<Rightarrow> loop_call list) \<Rightarrow> event_loop \<Rightarrow> event_loop \<Rightarrow> bool" where
  "el_prompt_step body s t \<longleftrightarrow> el_step body s t \<and>
     (el_pc s = LoopWaiting \<longrightarrow> el_pc t = LoopWaiting \<or>
        (\<exists>rs. el_pc t = LoopRound rs \<and>
           (el_watched s \<and> ec_readable (bq_channel (el_queue s)) \<longrightarrow> ReportQueue \<in> set rs)))"

text \<open>The task of \<open>Close\<close> has run, or the loop is on its way to it.\<close>

definition el_heads_for_close :: "event_loop \<Rightarrow> bool" where
  "el_heads_for_close s \<longleftrightarrow>
     CloseTask \<in> set (el_ran s) \<or>
     CloseTask \<in> set (bq_queue (el_queue s)) \<and>
     (case el_pc s of LoopWaiting \<Rightarrow> True | LoopRound rs \<Rightarrow> ReportQueue \<in> set rs
        | LoopDrain rs \<Rightarrow> True | _ \<Rightarrow> False)"

lemma el_heads_moves:
  "el_callback_moves s t \<Longrightarrow> el_heads_for_close s \<Longrightarrow> el_heads_for_close t"
  by (auto simp: el_heads_for_close_def el_callback_moves_def el_frame_def)

lemma el_heads_step:
  assumes "el_prompt_step body s t" and "el_inv s" and "el_heads_for_close s"
  shows "el_heads_for_close t"
proof -
  have step: "el_step body s t"
    using assms(1) by (simp add: el_prompt_step_def)
  then show ?thesis
  proof cases
    case wait_fails
    with assms(1,3) show ?thesis
      by (auto simp: el_prompt_step_def el_heads_for_close_def)
  next
    case (wait_reports rs)
    have "CloseTask \<in> set (el_ran s) \<or> (el_watched s \<and> ec_readable (bq_channel (el_queue s)))"
      using assms(2,3) wait_reports(2)
      by (auto simp: el_inv_def el_heads_for_close_def el_pc_defs el_rings_def)
    moreover have "el_watched s \<and> ec_readable (bq_channel (el_queue s)) \<longrightarrow> ReportQueue \<in> set rs"
      using assms(1) wait_reports(1,2) by (simp add: el_prompt_step_def)
    ultimately show ?thesis
      using assms(3) wait_reports(1,2) by (auto simp: el_heads_for_close_def)
  next
    case (handle_other n rs)
    have "el_heads_for_close (el_body body n s)" "el_pc (el_body body n s) = el_pc s"
      using el_heads_moves [OF callbacks.run_body assms(3)] callbacks.run_body [of s body n]
      by (simp_all add: el_callback_moves_def el_frame_def)
    with handle_other show ?thesis
      by (simp add: el_heads_for_close_def)
  next
    case (handle_removed rs)
    with assms(2) have "CloseTask \<in> set (el_ran s)"
      by (simp add: el_inv_def)
    with handle_removed show ?thesis
      by (simp add: el_heads_for_close_def)
  next
    case (drain rs k q)
    have q: "bq_queue (el_queue s) = k # bq_queue q"
      using drain(3) by (auto simp: bq_pop_def split: list.splits)
    let ?u = "s\<lparr>el_queue := q, el_ran := el_ran s @ [k]\<rparr>"
    have u: "el_heads_for_close ?u"
      using assms(3) q drain(2) by (auto simp: el_heads_for_close_def)
    show ?thesis
    proof (cases k)
      case CloseTask
      with drain(1) show ?thesis
        by (simp add: el_heads_for_close_def)
    next
      case (UserTask n)
      with drain(1) el_heads_moves [OF callbacks.run_body u] show ?thesis
        by simp
    qed
  next
    case (drained rs)
    with assms(3) show ?thesis
      by (auto simp: el_heads_for_close_def bq_pop_def split: list.splits)
  next
    case (ext_schedule n)
    with el_heads_moves [OF callbacks.schedule assms(3)] show ?thesis
      by simp
  next
    case ext_close_flag
    with el_heads_moves [OF el_callback_moves_flag assms(3)] show ?thesis
      by (simp add: el_heads_for_close_def)
  next
    case ext_close_task
    with assms(3) show ?thesis
      by (auto simp: el_heads_for_close_def)
  qed (use assms(3) in \<open>simp_all add: el_heads_for_close_def\<close>)
qed

text \<open>
  \<open>Close\<close> works when the loop sleeps in \<open>Wait\<close> while both of its statements run.  From a
  reachable state in \<open>Wait\<close> with the task of \<open>Close\<close> queued, in every run in which \<open>Wait\<close>
  reports the readable event channel, the loop has left \<open>Loop\<close> only if the task has run, and
  then \<open>Join\<close> returns.
\<close>

theorem loop_close_while_waiting:
  assumes "reachable el_initial (el_step body) s" and "el_pc s = LoopWaiting"
    and "CloseTask \<in> set (bq_queue (el_queue s))"
    and "(el_prompt_step body)\<^sup>*\<^sup>* s t" and "el_pc t = LoopDone"
  shows "CloseTask \<in> set (el_ran t) \<and> el_join_returns t"
proof -
  have "el_inv t \<and> el_heads_for_close t"
    using assms(4)
  proof (induction rule: rtranclp_induct)
    case base
    show ?case
      using loop.inv_reachable [OF assms(1)] assms(2,3) by (simp add: el_heads_for_close_def)
  next
    case (step t u)
    then show ?case
      using el_heads_step el_inv_step by (auto simp: el_prompt_step_def)
  qed
  with assms(5) have "CloseTask \<in> set (el_ran t)" "el_inv t"
    by (simp_all add: el_heads_for_close_def)
  then show ?thesis
    by (simp add: el_inv_def el_join_returns_def)
qed

theorem loop_close_while_waiting_witness:
  "\<exists>s t. reachable el_initial (el_step (\<lambda>_. [])) s \<and> el_pc s = LoopWaiting \<and>
     CloseTask \<in> set (bq_queue (el_queue s)) \<and> (el_prompt_step (\<lambda>_. []))\<^sup>*\<^sup>* s t \<and> el_pc t = LoopDone \<and>
     CloseTask \<in> set (el_ran t) \<and> el_join_returns t"
proof -
  let ?body = "\<lambda>_ :: nat. [] :: loop_call list"
  let ?w1 = "(el_close_flag el_waiting)\<lparr>el_closing := el_closing el_waiting + 1\<rparr>"
  let ?s = "(el_schedule CloseTask ?w1)\<lparr>el_closing := el_closing ?w1 - 1\<rparr>"
  let ?s1 = "?s\<lparr>el_pc := LoopRound [ReportQueue]\<rparr>"
  let ?ch = "(bq_channel (el_queue ?s1))\<lparr>ec_counter := 0\<rparr>"
  let ?s2 = "?s1\<lparr>el_queue := (el_queue ?s1)\<lparr>bq_channel := ?ch\<rparr>, el_pc := LoopDrain []\<rparr>"
  let ?q = "(el_queue ?s2)\<lparr>bq_queue := []\<rparr>"
  let ?s3 = "el_task ?body CloseTask (?s2\<lparr>el_queue := ?q, el_ran := el_ran ?s2 @ [CloseTask]\<rparr>)"
  let ?s4 = "?s3\<lparr>el_pc := LoopRound []\<rparr>"
  let ?s5 = "?s4\<lparr>el_pc := LoopCheck\<rparr>"
  let ?t = "?s5\<lparr>el_pc := LoopDone, el_current := False\<rparr>"
  have rings: "ec_counter (bq_channel (el_queue ?s)) = 1" "bq_queue (el_queue ?s) = [CloseTask]"
    by (simp_all add: el_schedule_def bq_add_def ec_wakeup_def EVENTFD_MAX_def bq_create_def ec_create_def Let_def)
  have "el_step ?body el_waiting ?w1"
    by (rule el_step.ext_close_flag)
  moreover have "el_step ?body ?w1 ?s"
    by (rule el_step.ext_close_task) simp
  ultimately have reach: "reachable el_initial (el_step ?body) ?s"
    by (meson el_waiting_reachable reachable.next_step)
  have "el_step ?body ?s ?s1"
    by (rule el_step.wait_reports) (use rings in \<open>simp_all add: ec_readable_def\<close>)
  then have "el_prompt_step ?body ?s ?s1"
    by (simp add: el_prompt_step_def)
  moreover have "el_step ?body ?s1 ?s2"
    by (rule el_step.handle_queue) (use rings in \<open>simp_all add: ec_read_def\<close>)
  then have "el_prompt_step ?body ?s1 ?s2"
    by (simp add: el_prompt_step_def)
  moreover have "el_step ?body ?s2 ?s3"
    by (rule el_step.drain [where rs = "[]"]) (use rings in \<open>simp_all add: bq_pop_def\<close>)
  then have "el_prompt_step ?body ?s2 ?s3"
    by (simp add: el_prompt_step_def)
  moreover have "el_step ?body ?s3 ?s4"
    by (rule el_step.drained [where rs = "[]"]) (simp_all add: bq_pop_def)
  then have "el_prompt_step ?body ?s3 ?s4"
    by (simp add: el_prompt_step_def)
  moreover have "el_step ?body ?s4 ?s5"
    by (rule el_step.round_end) simp
  then have "el_prompt_step ?body ?s4 ?s5"
    by (simp add: el_prompt_step_def)
  moreover have "el_step ?body ?s5 ?t"
    by (rule el_step.leave) (simp_all add: el_looping_def el_close_flag_def)
  then have "el_prompt_step ?body ?s5 ?t"
    by (simp add: el_prompt_step_def)
  ultimately have steps: "(el_prompt_step ?body)\<^sup>*\<^sup>* ?s ?t"
    by (meson converse_rtranclp_into_rtranclp r_into_rtranclp)
  have ends: "el_pc ?s = LoopWaiting" "CloseTask \<in> set (bq_queue (el_queue ?s))" "el_pc ?t = LoopDone"
    using rings by simp_all
  from loop_close_while_waiting [OF reach ends(1,2) steps ends(3)] reach ends steps show ?thesis
    by (intro exI [of _ ?s] exI [of _ ?t]) simp
qed

text \<open>
  \<open>Close\<close> before \<open>Loop\<close>: the flag it clears is not set yet, and \<open>Loop\<close> sets it.
\<close>

definition el_runs_on :: "(nat \<Rightarrow> loop_call list) \<Rightarrow> event_loop \<Rightarrow> bool" where
  "el_runs_on body s \<longleftrightarrow>
     (\<forall>t. (el_step body)\<^sup>*\<^sup>* s t \<and> el_closes t = el_closes s \<longrightarrow>
        el_looping t \<and> el_inside (el_pc t) \<and> el_ran t = el_ran s)"

definition el_deaf :: "event_loop \<Rightarrow> bool" where
  "el_deaf s \<longleftrightarrow> el_looping s \<and> el_inside (el_pc s) \<and> \<not> el_draining (el_pc s) \<and> \<not> el_watched s"

lemma el_deaf_step:
  assumes "el_step body s t"
  shows "el_closes s \<le> el_closes t \<and> (el_deaf s \<and> el_closes t = el_closes s \<longrightarrow> el_deaf t \<and> el_ran t = el_ran s)"
  using assms
proof cases
  case (handle_other n rs)
  have "el_closes_more s (el_body body n s)" "el_callback_moves s (el_body body n s)"
    by (rule closing.run_body, rule callbacks.run_body)
  with handle_other show ?thesis
    by (auto simp: el_closes_more_def el_callback_moves_def el_frame_def el_deaf_def el_closes_def
        el_looping_def el_pc_defs)
next
  case (drain rs k q)
  show ?thesis
  proof (cases k)
    case CloseTask
    with drain show ?thesis
      by (simp add: el_deaf_def el_pc_defs el_closes_def)
  next
    case (UserTask n)
    let ?u = "s\<lparr>el_queue := q, el_ran := el_ran s @ [k]\<rparr>"
    have "el_closes_more ?u (el_body body n ?u)"
      by (rule closing.run_body)
    with drain UserTask show ?thesis
      by (simp add: el_deaf_def el_pc_defs el_closes_def el_closes_more_def)
  qed
qed (auto simp: el_deaf_def el_closes_def el_pc_defs el_looping_def)

lemma el_deaf_runs_on:
  assumes "el_deaf s"
  shows "el_runs_on body s"
proof -
  have "el_closes s \<le> el_closes t \<and> (el_closes t = el_closes s \<longrightarrow> el_deaf t \<and> el_ran t = el_ran s)"
    if "(el_step body)\<^sup>*\<^sup>* s t" for t
    using that
  proof (induction rule: rtranclp_induct)
    case (step t u)
    then show ?case
      using el_deaf_step [OF step(2)] by auto
  qed (use assms in simp)
  then show ?thesis
    using assms unfolding el_runs_on_def el_deaf_def by blast
qed

text \<open>The state after a \<open>Close\<close> before \<open>Loop\<close>, the entry of \<open>Loop\<close> and its first round.\<close>

lemma el_closed_first:
  "\<exists>s. reachable el_initial (el_step body) s \<and> el_deaf s \<and> el_closes s = 1 \<and> el_closing s = 0 \<and>
     el_ran s = [CloseTask] \<and> el_latch s = 0"
proof -
  let ?s0 = el_create
  let ?s1 = "(el_close_flag ?s0)\<lparr>el_closing := el_closing ?s0 + 1\<rparr>"
  let ?s2 = "(el_schedule CloseTask ?s1)\<lparr>el_closing := el_closing ?s1 - 1\<rparr>"
  let ?s3 = "?s2\<lparr>el_pc := LoopLoaded (el_state ?s2)\<rparr>"
  let ?s4 = "?s3\<lparr>el_state := kLooping OR kJoinable, el_current := True, el_pc := LoopCheck\<rparr>"
  let ?s5 = "?s4\<lparr>el_pc := LoopWaiting\<rparr>"
  let ?s6 = "?s5\<lparr>el_pc := LoopRound [ReportQueue]\<rparr>"
  let ?ch = "(bq_channel (el_queue ?s6))\<lparr>ec_counter := 0\<rparr>"
  let ?q = "(el_queue ?s6)\<lparr>bq_channel := ?ch, bq_queue := []\<rparr>"
  let ?s7 = "?s6\<lparr>el_queue := (el_queue ?s6)\<lparr>bq_channel := ?ch\<rparr>, el_pc := LoopDrain []\<rparr>"
  let ?s8 = "el_task body CloseTask (?s7\<lparr>el_queue := ?q, el_ran := el_ran ?s7 @ [CloseTask]\<rparr>)"
  let ?s9 = "?s8\<lparr>el_pc := LoopRound []\<rparr>"
  have zero: "el_state (el_close_flag el_create) = 0"
    by (simp add: el_close_flag_def el_create_def)
  have rings: "ec_counter (bq_channel (el_queue ?s2)) = 1" "bq_queue (el_queue ?s2) = [CloseTask]"
    by (simp_all add: el_schedule_def bq_add_def ec_wakeup_def EVENTFD_MAX_def el_create_def bq_create_def ec_create_def Let_def)
  have "el_step body ?s0 ?s1"
    by (rule el_step.ext_close_flag)
  moreover have "el_step body ?s1 ?s2"
    by (rule el_step.ext_close_task) simp
  moreover have "el_step body ?s2 ?s3"
    by (rule el_step.load) (simp add: el_create_def)
  moreover have "el_step body ?s3 ?s4"
    by (rule el_step.enter) (simp_all add: zero)
  moreover have "el_step body ?s4 ?s5"
    by (rule el_step.go) (simp_all add: el_looping_def)
  moreover have "el_step body ?s5 ?s6"
    by (rule el_step.wait_reports) (use rings in \<open>simp_all add: ec_readable_def el_create_def\<close>)
  moreover have "el_step body ?s6 ?s7"
    by (rule el_step.handle_queue) (use rings in \<open>simp_all add: ec_read_def el_create_def\<close>)
  moreover have "el_step body ?s7 ?s8"
    by (rule el_step.drain [where rs = "[]"]) (use rings in \<open>simp_all add: bq_pop_def\<close>)
  moreover have "el_step body ?s8 ?s9"
    by (rule el_step.drained [where rs = "[]"]) (simp_all add: bq_pop_def)
  ultimately have "(el_step body)\<^sup>*\<^sup>* ?s0 ?s9"
    by (meson converse_rtranclp_into_rtranclp r_into_rtranclp)
  then have "reachable el_initial (el_step body) ?s9"
    by (rule reachable_rtranclp) (auto intro: reachable.start simp: el_initial_def)
  moreover have "el_deaf ?s9" "el_closes ?s9 = 1" "el_closing ?s9 = 0" "el_ran ?s9 = [CloseTask]" "el_latch ?s9 = 0"
    by (simp_all add: el_deaf_def el_looping_def el_pc_defs el_closes_def el_create_def)
  ultimately show ?thesis
    by blast
qed

text \<open>
  A \<open>Close\<close> that comes before \<open>Loop\<close> (a group that is closed right after it was created)
  does not stop the loop: \<open>Loop\<close> sets the flag that \<open>Close\<close> had cleared.  There is a run in
  which the task of \<open>Close\<close> has run, so that \<open>Join\<close> returns and the event channel is not
  watched any more, while the loop goes on: as long as nobody calls \<open>Close\<close> again it stays
  inside \<open>Loop\<close> with the flag set, and no task scheduled from then on is run.
\<close>

theorem loop_close_before_loop:
  "\<exists>s. reachable el_initial (el_step body) s \<and> el_closes s = 1 \<and> el_closing s = 0 \<and>
     el_ran s = [CloseTask] \<and> el_join_returns s \<and> el_runs_on body s"
  using el_closed_first [of body] el_deaf_runs_on by (auto simp: el_join_returns_def)

end
