(* ===== verification/Loop_Group.thy ===== *)
theory Loop_Group
  imports Timer_Heap Timer_Wheel
begin

text \<open>
  include/pedronet/eventloopgroup.h and src/eventloopgroup.cc: round robin over the loops, and
  the ids of the timers of a group, in which the id of a loop's timer and the number of the
  loop are packed.  \<open>EventLoop::ScheduleAfter\<close>, \<open>ScheduleEvery\<close> and \<open>ScheduleCancel\<close> are the
  timer queue's \<open>Add\<close> and \<open>Cancel\<close> (include/pedronet/eventloop.h); a queue is given by these
  two operations, its type is \<open>'l\<close>.  All counters are 64 bits wide.
\<close>

section \<open>State and operations\<close>

record ('l, 'c) timer_ops =
  tq_add :: "usec \<Rightarrow> usec \<Rightarrow> 'c \<Rightarrow> 'l \<Rightarrow> u64 \<times> 'l"
  tq_cancel :: "u64 \<Rightarrow> 'l \<Rightarrow> 'l"

record 'l loop_group =
  gr_loops :: "'l list"
  gr_next :: u64
  gr_size :: u64

definition gr_create :: "'l list \<Rightarrow> 'l loop_group" where
  "gr_create loops = \<lparr>gr_loops = loops, gr_next = 0, gr_size = of_nat (length loops)\<rparr>"

text \<open>The division by a zero size is undefined: None.\<close>

definition gr_take :: "'l loop_group \<Rightarrow> (nat \<times> 'l loop_group) option" where
  "gr_take g =
     (if gr_size g = 0 then None
      else Some (unat (gr_next g mod gr_size g), g\<lparr>gr_next := gr_next g + 1\<rparr>))"

definition gr_schedule_every ::
  "('l, 'c) timer_ops \<Rightarrow> usec \<Rightarrow> usec \<Rightarrow> 'c \<Rightarrow> 'l loop_group \<Rightarrow> (u64 \<times> 'l loop_group) option" where
  "gr_schedule_every T delay interval cb g =
     (case gr_take g of
        None \<Rightarrow> None
      | Some (loop_id, g1) \<Rightarrow>
          let (timer_id, loop) = tq_add T delay interval cb (gr_loops g1 ! loop_id)
          in Some (timer_id * of_nat (length (gr_loops g1)) + of_nat loop_id,
                   g1\<lparr>gr_loops := (gr_loops g1)[loop_id := loop]\<rparr>))"

definition gr_schedule_after ::
  "('l, 'c) timer_ops \<Rightarrow> usec \<Rightarrow> 'c \<Rightarrow> 'l loop_group \<Rightarrow> (u64 \<times> 'l loop_group) option" where
  "gr_schedule_after T delay cb g = gr_schedule_every T delay 0 cb g"

definition gr_schedule_cancel :: "('l, 'c) timer_ops \<Rightarrow> u64 \<Rightarrow> 'l loop_group \<Rightarrow> 'l loop_group option" where
  "gr_schedule_cancel T timer g =
     (if gr_loops g = [] then None
      else
        let n = of_nat (length (gr_loops g));
            loop_id = unat (timer mod n);
            timer_id = timer div n
        in Some (g\<lparr>gr_loops := (gr_loops g)[loop_id := tq_cancel T timer_id (gr_loops g ! loop_id)]\<rparr>))"

text \<open>\<open>Next\<close>, and \<open>Schedule\<close> by it; \<open>schedule\<close> is what \<open>EventLoop::Schedule\<close> does to the loop.\<close>

definition gr_next_loop :: "'l loop_group \<Rightarrow> ('l \<times> 'l loop_group) option" where
  "gr_next_loop g = map_option (\<lambda>(i, g1). (gr_loops g1 ! i, g1)) (gr_take g)"

definition gr_schedule :: "('l \<Rightarrow> 'l) \<Rightarrow> 'l loop_group \<Rightarrow> 'l loop_group option" where
  "gr_schedule schedule g =
     map_option (\<lambda>(i, g1). g1\<lparr>gr_loops := (gr_loops g1)[i := schedule (gr_loops g1 ! i)]\<rparr>) (gr_take g)"

section \<open>Facts\<close>

definition gr_ok :: "'l loop_group \<Rightarrow> bool" where
  "gr_ok g \<longleftrightarrow> gr_loops g \<noteq> [] \<and> length (gr_loops g) < 2 ^ 64 \<and> gr_size g = of_nat (length (gr_loops g))"

lemma gr_create_ok: "loops \<noteq> [] \<Longrightarrow> length loops < 2 ^ 64 \<Longrightarrow> gr_ok (gr_create loops)"
  by (simp add: gr_ok_def gr_create_def)

lemma unat_length: "gr_ok g \<Longrightarrow> unat (of_nat (length (gr_loops g)) :: u64) = length (gr_loops g)"
  by (simp add: gr_ok_def unat_of_nat take_bit_nat_eq_self_iff)

lemma gr_take_bound:
  assumes "gr_ok g" and "gr_take g = Some (i, g')"
  shows "i < length (gr_loops g)" and "i = unat (gr_next g) mod length (gr_loops g)"
    and "g' = g\<lparr>gr_next := gr_next g + 1\<rparr>"
proof -
  have "0 < length (gr_loops g)"
    using assms(1) by (simp add: gr_ok_def)
  then show "i < length (gr_loops g)" "i = unat (gr_next g) mod length (gr_loops g)"
    "g' = g\<lparr>gr_next := gr_next g + 1\<rparr>"
    using assms unat_length [OF assms(1)]
    by (auto simp: gr_take_def gr_ok_def unat_mod split: if_splits)
qed

text \<open>Packing and unpacking, while the packed id fits in 64 bits.\<close>

lemma unat_pack:
  fixes t n i :: u64
  assumes "unat t * unat n + unat i < 2 ^ 64"
  shows "unat (t * n + i) = unat t * unat n + unat i"
  using assms by (simp add: unat_word_ariths)

lemma pack_unpack:
  fixes t n i :: u64
  assumes "unat t * unat n + unat i < 2 ^ 64" and "i < n"
  shows "(t * n + i) mod n = i" and "(t * n + i) div n = t"
proof -
  have i: "unat i < unat n"
    using assms(2) by (simp add: word_less_nat_alt)
  have "unat ((t * n + i) mod n) = unat i"
    using i by (simp add: unat_mod unat_pack [OF assms(1)])
  then show "(t * n + i) mod n = i"
    by (simp add: word_unat_eq_iff)
  have "unat ((t * n + i) div n) = unat t"
    using i by (simp add: unat_div unat_pack [OF assms(1)])
  then show "(t * n + i) div n = t"
    by (simp add: word_unat_eq_iff)
qed

section \<open>The heap as the timer queue of a loop\<close>

definition heap_ops :: "chrono \<Rightarrow> (nat \<Rightarrow> usec) \<Rightarrow> ('c heap_queue, 'c) timer_ops" where
  "heap_ops K clk =
     \<lparr>tq_add = \<lambda>delay interval cb q. case hq_add K clk delay interval cb q of (i, q') \<Rightarrow> (of_nat i, q'),
      tq_cancel = \<lambda>i q. hq_cancel (unat i) q\<rparr>"

text \<open>
  The contract the group relies on: cancelling the id that \<open>add\<close> returned removes what was
  added, and only that.
\<close>

locale timer_service =
  fixes ops :: "('l, 'c) timer_ops"
    and good :: "'l \<Rightarrow> bool"
    and timers :: "'l \<Rightarrow> (u64 \<rightharpoonup> 'c)"
  assumes add_timers: "good q \<Longrightarrow> tq_add ops d i c q = (t, q') \<Longrightarrow> timers q t = None \<and> timers q' = (timers q)(t \<mapsto> c)"
    and cancel_timers: "good q \<Longrightarrow> timers (tq_cancel ops t q) = (timers q)(t := None)"
    and cancel_good: "good q \<Longrightarrow> good (tq_cancel ops t q)"
begin

lemma add_cancel: "good q \<Longrightarrow> good q' \<Longrightarrow> tq_add ops d i c q = (t, q') \<Longrightarrow> timers (tq_cancel ops t q') = timers q"
  using add_timers [of q d i c t q'] by (auto simp: cancel_timers)

text \<open>A timer of the group is found again under its packed id, on the loop that has it.\<close>

lemma cancel_reaches:
  assumes "gr_ok g" and "gr_schedule_every ops d i c g = Some (key, g')"
    and "tq_add ops d i c (gr_loops g ! k) = (t, q)" and "k = unat (gr_next g) mod length (gr_loops g)"
    and "unat t * length (gr_loops g) + k < 2 ^ 64"
  shows "gr_schedule_cancel ops key g' =
    Some (g'\<lparr>gr_loops := (gr_loops g)[k := tq_cancel ops t q]\<rparr>)"
proof -
  let ?n = "length (gr_loops g)"
  have n: "unat (of_nat ?n :: u64) = ?n"
    using assms(1) by (rule unat_length)
  obtain j g1 where taken: "gr_take g = Some (j, g1)"
    using assms(2) by (auto simp: gr_schedule_every_def split: option.splits)
  then have g1: "gr_take g = Some (k, g1)" "g1 = g\<lparr>gr_next := gr_next g + 1\<rparr>"
    using gr_take_bound(2,3) [OF assms(1) taken] assms(4) by simp_all
  have k: "k < ?n"
    using gr_take_bound(1) [OF assms(1) g1(1)] .
  have uk: "unat (of_nat k :: u64) = k"
    using k assms(1) by (simp add: gr_ok_def unat_of_nat take_bit_nat_eq_self_iff)
  have key: "key = t * of_nat ?n + of_nat k" and g': "g' = g1\<lparr>gr_loops := (gr_loops g)[k := q]\<rparr>"
    using assms(2,3) g1 by (simp_all add: gr_schedule_every_def Let_def)
  have less: "(of_nat k :: u64) < of_nat ?n"
    using k by (simp add: word_less_nat_alt uk n)
  have "unat t * unat (of_nat ?n :: u64) + unat (of_nat k :: u64) < 2 ^ 64"
    using assms(5) by (simp add: n uk)
  note pu = pack_unpack [OF this less]
  have loops: "gr_loops g' = (gr_loops g)[k := q]" "gr_loops g' \<noteq> []" "length (gr_loops g') = ?n"
    using assms(1) by (simp_all add: g' gr_ok_def)
  have "unat (key mod of_nat ?n) = k" "key div of_nat ?n = t"
    using pu uk by (simp_all only: key)
  then have "gr_schedule_cancel ops key g' =
      Some (g'\<lparr>gr_loops := (gr_loops g')[k := tq_cancel ops t (gr_loops g' ! k)]\<rparr>)"
    using loops(2) by (simp only: gr_schedule_cancel_def Let_def loops(3) if_False)
  then show ?thesis
    using k by (simp add: loops(1))
qed

end


text \<open>The heap provides it while its counter of ids has not wrapped.\<close>

definition heap_good :: "'c heap_queue \<Rightarrow> bool" where
  "heap_good q \<longleftrightarrow> hq_counter q + 1 < 2 ^ 64 \<and> (\<forall>i. hq_table q i \<noteq> None \<longrightarrow> i \<le> hq_counter q)"

definition heap_timers :: "'c heap_queue \<Rightarrow> (u64 \<rightharpoonup> 'c)" where
  "heap_timers q = (\<lambda>t. map_option he_callback (hq_table q (unat t)))"

lemma heap_add_result:
  assumes "heap_good q" and "tq_add (heap_ops K clk) d i c q = (t, q')"
  shows "unat t = hq_counter q + 1" and "hq_table q (unat t) = None"
    and "hq_table q' = (hq_table q)(unat t \<mapsto> \<lparr>he_id = unat t, he_callback = c, he_interval = i\<rparr>)"
    and "hq_counter q' = hq_counter q + 1"
proof -
  have id: "to_u64 (int (hq_counter q) + 1) = hq_counter q + 1"
    using assms(1) by (simp add: heap_good_def to_u64_id nat_add_distrib)
  have fresh: "hq_table q (Suc (hq_counter q)) = None"
    using assms(1) unfolding heap_good_def by (metis Suc_n_not_le_n)
  have u: "unat (of_nat (Suc (hq_counter q)) :: u64) = Suc (hq_counter q)"
    using assms(1) by (simp add: heap_good_def unat_of_nat take_bit_nat_eq_self_iff del: of_nat_Suc)
  have t: "t = of_nat (Suc (hq_counter q))" and q': "hq_table q' =
      (hq_table q)(Suc (hq_counter q) \<mapsto> \<lparr>he_id = Suc (hq_counter q), he_callback = c, he_interval = i\<rparr>)"
    using assms(2) id fresh
    by (auto simp: heap_ops_def hq_add_def hq_now_def hq_emplace_def hq_wakeup_at_def Let_def split: prod.splits if_splits)
  show "unat t = hq_counter q + 1" "hq_table q (unat t) = None"
    "hq_table q' = (hq_table q)(unat t \<mapsto> \<lparr>he_id = unat t, he_callback = c, he_interval = i\<rparr>)"
    by (simp_all only: t u q' fresh)
  show "hq_counter q' = hq_counter q + 1"
    using assms(2) by (auto simp: heap_ops_def hq_add_def hq_now_def hq_emplace_def hq_wakeup_at_def
        Let_def split: prod.splits option.splits)
qed

interpretation heap: timer_service "heap_ops K clk" heap_good heap_timers
proof
  fix q q' :: "'a heap_queue" and d i c t
  assume good: "heap_good q"
  show "heap_timers q t = None \<and> heap_timers q' = (heap_timers q)(t \<mapsto> c)"
    if "tq_add (heap_ops K clk) d i c q = (t, q')"
    using heap_add_result [OF good that] by (auto simp: heap_timers_def fun_eq_iff word_unat_eq_iff)
  show "heap_timers (tq_cancel (heap_ops K clk) t q) = (heap_timers q)(t := None)"
    by (auto simp: heap_timers_def heap_ops_def hq_cancel_def fun_eq_iff word_unat_eq_iff)
  show "heap_good (tq_cancel (heap_ops K clk) t q)"
    using good by (auto simp: heap_good_def heap_ops_def hq_cancel_def)
qed


section \<open>Round robin\<close>

text \<open>Taking a loop \<open>j\<close> times, as \<open>Next\<close> and the schedule operations do.\<close>

fun gr_takes :: "nat \<Rightarrow> 'l loop_group \<Rightarrow> (nat list \<times> 'l loop_group) option" where
  "gr_takes 0 g = Some ([], g)"
| "gr_takes (Suc j) g =
     (case gr_take g of
        None \<Rightarrow> None
      | Some (i, g1) \<Rightarrow> map_option (\<lambda>(is, g2). (i # is, g2)) (gr_takes j g1))"

text \<open>
  The loops of a group are used in turn: until the 64-bit counter wraps, the next \<open>j\<close> calls
  go to the loops counter, counter + 1, ..., each modulo the number of loops; none of the calls
  is out of range.
\<close>

theorem group_round_robin:
  assumes "gr_ok g" and "unat (gr_next g) + j < 2 ^ 64"
  shows "map_option fst (gr_takes j g) =
    Some (map (\<lambda>i. i mod length (gr_loops g)) [unat (gr_next g)..<unat (gr_next g) + j])"
  using assms
proof (induction j arbitrary: g)
  case (Suc j)
  let ?g1 = "g\<lparr>gr_next := gr_next g + 1\<rparr>"
  have n: "gr_size g \<noteq> 0"
    using Suc.prems(1) unat_length [OF Suc.prems(1)] by (auto simp: gr_ok_def)
  then obtain i where take: "gr_take g = Some (i, ?g1)"
    by (simp add: gr_take_def)
  have i: "i = unat (gr_next g) mod length (gr_loops g)"
    using gr_take_bound(2) [OF Suc.prems(1) take] .
  have after: "unat (gr_next g + 1) = Suc (unat (gr_next g))"
    using Suc.prems(2) by (simp add: unat_word_ariths)
  have "map_option fst (gr_takes j ?g1) =
      Some (map (\<lambda>i. i mod length (gr_loops g)) [unat (gr_next ?g1)..<unat (gr_next ?g1) + j])"
    using Suc.IH [of ?g1] Suc.prems after by (simp add: gr_ok_def)
  moreover have "[unat (gr_next g)..<unat (gr_next g) + Suc j] =
      unat (gr_next g) # [unat (gr_next ?g1)..<unat (gr_next ?g1) + j]"
    using after by (simp add: upt_rec)
  ultimately show ?case
    by (cases "gr_takes j ?g1") (auto simp: take i)
qed simp

theorem group_round_robin_witness:
  "let g = gr_create [(), ()] in map_option fst (gr_takes 3 g) =
    Some (map (\<lambda>i. i mod length (gr_loops g)) [unat (gr_next g)..<unat (gr_next g) + 3])"
  unfolding Let_def
  by (rule group_round_robin) (simp_all add: gr_ok_def gr_create_def)

section \<open>Cancelling\<close>

text \<open>
  C36. A timer scheduled through a group is cancelled through it: as long as the packed ids fit in
  64 bits, \<open>ScheduleCancel\<close> of the id that \<open>ScheduleEvery\<close> (or \<open>ScheduleAfter\<close>) returned finds
  the loop and the timer, and leaves every loop with the timers it had before.  The loops have
  the heap as their timer queue.
\<close>

theorem group_cancel_undoes:
  assumes "gr_ok g" and "list_all heap_good (gr_loops g)"
    and "list_all (\<lambda>q. (hq_counter q + 2) * length (gr_loops g) < 2 ^ 64) (gr_loops g)"
    and "gr_schedule_every (heap_ops K clk) delay interval cb g = Some (key, g')"
  shows "\<exists>g''. gr_schedule_cancel (heap_ops K clk) key g' = Some g'' \<and>
    map heap_timers (gr_loops g'') = map heap_timers (gr_loops g)"
proof -
  let ?n = "length (gr_loops g)" and ?k = "unat (gr_next g) mod length (gr_loops g)"
  let ?q = "gr_loops g ! ?k"
  have k: "?k < ?n"
    using assms(1) by (simp add: gr_ok_def)
  then have q: "heap_good ?q" and bound: "(hq_counter ?q + 2) * ?n < 2 ^ 64"
    using assms(2,3) by (simp_all add: list_all_length)
  obtain t q' where add: "tq_add (heap_ops K clk) delay interval cb ?q = (t, q')"
    by (cases "tq_add (heap_ops K clk) delay interval cb ?q")
  note r = heap_add_result [OF q add]
  have "hq_counter ?q + 2 \<le> (hq_counter ?q + 2) * ?n"
    using k by (cases ?n) auto
  then have q': "heap_good q'"
    using bound q r by (auto simp: heap_good_def)
  have "unat t * ?n + ?k < (unat t + 1) * ?n"
    using k by simp
  then have "unat t * ?n + ?k < 2 ^ 64"
    using bound r(1) by simp
  then have "gr_schedule_cancel (heap_ops K clk) key g' =
      Some (g'\<lparr>gr_loops := (gr_loops g)[?k := tq_cancel (heap_ops K clk) t q']\<rparr>)"
    by (rule heap.cancel_reaches [OF assms(1,4) add refl])
  moreover have "heap_timers (tq_cancel (heap_ops K clk) t q') = heap_timers ?q"
    using q q' add by (rule heap.add_cancel)
  ultimately show ?thesis
    using k by (simp add: map_update list_update_same_conv)
qed

theorem group_cancel_undoes_witness:
  "let g = gr_create [hq_create, hq_create :: unit heap_queue];
       (key, g') = the (gr_schedule_every (heap_ops usec_chrono (\<lambda>_. 0)) 5 0 () g)
   in \<exists>g''. gr_schedule_cancel (heap_ops usec_chrono (\<lambda>_. 0)) key g' = Some g'' \<and>
    map heap_timers (gr_loops g'') = map heap_timers (gr_loops g)"
proof -
  let ?g = "gr_create [hq_create, hq_create :: unit heap_queue]"
  have ok: "gr_ok ?g"
    by (simp add: gr_create_ok)
  have "gr_schedule_every (heap_ops usec_chrono (\<lambda>_. 0)) 5 0 () ?g \<noteq> None"
    by (simp add: gr_schedule_every_def gr_take_def gr_create_def Let_def split: prod.split)
  then obtain key g' where s: "gr_schedule_every (heap_ops usec_chrono (\<lambda>_. 0)) 5 0 () ?g = Some (key, g')"
    by auto
  have "list_all heap_good (gr_loops ?g)"
    "list_all (\<lambda>q. (hq_counter q + 2) * length (gr_loops ?g) < 2 ^ 64) (gr_loops ?g)"
    by (simp_all add: gr_create_def heap_good_def hq_create_def)
  from group_cancel_undoes [OF ok this s] show ?thesis
    by (simp add: s)
qed

end
