(* ===== verification/Loop_Parts.thy ===== *)
theory Loop_Parts
  imports Epoll_Selector Poll_Selector Event_Queue_Properties Loop_Group
begin

text \<open>
  The parts an event loop is put together from: the choices of include/pedronet/options.h, the
  factories (event\_queue\_factory.h, timer\_queue\_factory.h, selector\_factory.h), the calls
  through the abstract classes \<open>EventQueue\<close>, \<open>TimerQueue\<close> and \<open>Selector\<close>, and the constructor
  in src/eventloop.cc.  An object of an abstract class is a datatype of its implementations; a
  virtual call is a case distinction.  The contracts of the event queues and of the timer queues
  hold for whichever implementation the options choose.
\<close>

section \<open>Options\<close>

datatype event_queue_type = kBlockingQueue | kDoubleBufferQueue | kLockFreeQueue
datatype timer_queue_type = kHashWheel | kHeap
datatype selector_type = kEpoll | kPoll

record event_loop_options =
  eo_event_queue_type :: event_queue_type
  eo_timer_queue_type :: timer_queue_type
  eo_selector_type :: selector_type
  eo_select_timeout :: usec

definition default_loop_options :: "chrono \<Rightarrow> event_loop_options" where
  "default_loop_options K =
     \<lparr>eo_event_queue_type = kLockFreeQueue, eo_timer_queue_type = kHeap, eo_selector_type = kEpoll,
      eo_select_timeout = 10 * us_per_sec K\<rparr>"

section \<open>EventQueue\<close>

datatype ('c, 'k) event_queue_impl =
    BlockingQueue "'c blocking_queue"
  | DoubleBufferQueue "'c double_queue"
  | LockFreeQueue "'k lockfree_queue"

text \<open>\<open>k0\<close>: an empty \<open>moodycamel::ConcurrentQueue\<close>.\<close>

fun make_event_queue :: "'k \<Rightarrow> event_queue_type \<Rightarrow> event_channel \<Rightarrow> ('c, 'k) event_queue_impl" where
  "make_event_queue k0 kBlockingQueue ch = BlockingQueue (bq_create ch)"
| "make_event_queue k0 kDoubleBufferQueue ch = DoubleBufferQueue (dq_create ch)"
| "make_event_queue k0 kLockFreeQueue ch = LockFreeQueue (lq_create ch k0)"

fun eq_add :: "('c, 'k) concurrent_queue_ops \<Rightarrow> 'c \<Rightarrow> ('c, 'k) event_queue_impl \<Rightarrow> ('c, 'k) event_queue_impl" where
  "eq_add Q c (BlockingQueue q) = BlockingQueue (bq_add c q)"
| "eq_add Q c (DoubleBufferQueue q) = DoubleBufferQueue (dq_add c q)"
| "eq_add Q c (LockFreeQueue q) = LockFreeQueue (lq_add Q c q)"

fun eq_process ::
  "('c, 'k) concurrent_queue_ops \<Rightarrow> ('c \<Rightarrow> 'c list) \<Rightarrow> ('c, 'k) event_queue_impl \<Rightarrow>
     ('c list \<times> ('c, 'k) event_queue_impl) option" where
  "eq_process Q spawn (BlockingQueue q) = map_option (map_prod (\<lambda>rs. rs) BlockingQueue) (bq_process spawn q)"
| "eq_process Q spawn (DoubleBufferQueue q) = map_option (map_prod (\<lambda>rs. rs) DoubleBufferQueue) (dq_process spawn q)"
| "eq_process Q spawn (LockFreeQueue q) = map_option (map_prod (\<lambda>rs. rs) LockFreeQueue) (lq_process Q spawn q)"

text \<open>The event channel the queue was made with: the queue holds it by pointer.\<close>

fun eq_channel :: "('c, 'k) event_queue_impl \<Rightarrow> event_channel" where
  "eq_channel (BlockingQueue q) = bq_channel q"
| "eq_channel (DoubleBufferQueue q) = dq_channel q"
| "eq_channel (LockFreeQueue q) = lq_channel q"

fun eq_set_channel :: "event_channel \<Rightarrow> ('c, 'k) event_queue_impl \<Rightarrow> ('c, 'k) event_queue_impl" where
  "eq_set_channel ch (BlockingQueue q) = BlockingQueue (q\<lparr>bq_channel := ch\<rparr>)"
| "eq_set_channel ch (DoubleBufferQueue q) = DoubleBufferQueue (q\<lparr>dq_channel := ch\<rparr>)"
| "eq_set_channel ch (LockFreeQueue q) = LockFreeQueue (q\<lparr>lq_channel := ch\<rparr>)"

fun eq_pending :: "('c, 'k) concurrent_queue_ops \<Rightarrow> ('c, 'k) event_queue_impl \<Rightarrow> 'c multiset" where
  "eq_pending Q (BlockingQueue q) = mset (bq_queue q)"
| "eq_pending Q (DoubleBufferQueue q) = mset (dq_pending q)"
| "eq_pending Q (LockFreeQueue q) = cq_contents Q (lq_queue q)"

fun eq_inv :: "('c, 'k) concurrent_queue_ops \<Rightarrow> ('c, 'k) event_queue_impl \<Rightarrow> bool" where
  "eq_inv Q (BlockingQueue q) \<longleftrightarrow> True"
| "eq_inv Q (DoubleBufferQueue q) \<longleftrightarrow> dq_idle q"
| "eq_inv Q (LockFreeQueue q) \<longleftrightarrow> cq_ok Q \<and> lq_counted Q q"

interpretation any_queue: event_queue "eq_add Q" "eq_process Q" "eq_pending Q"
  "\<lambda>q. ec_readable (eq_channel q)" "eq_inv Q"
  for Q :: "('c, 'k) concurrent_queue_ops"
proof unfold_locales
  fix q q' :: "('c, 'k) event_queue_impl" and c and spawn :: "'c \<Rightarrow> 'c list" and rs
  assume inv: "eq_inv Q q"
  show "eq_inv Q (eq_add Q c q)"
    using inv by (cases q) (auto simp: dq.inv_add lq_counted_add)
  show "eq_pending Q (eq_add Q c q) = add_mset c (eq_pending Q q)"
    using inv by (cases q) auto
  show "eq_pending Q q = {#} \<or> ec_readable (eq_channel q) \<Longrightarrow> ec_readable (eq_channel (eq_add Q c q))"
    using inv by (cases q) (auto simp: bq_awake_add dq_awake_add lq_awake_add)
  assume run: "eq_process Q spawn q = Some (rs, q')"
  show "eq_inv Q q'"
    using inv run by (cases q) (auto dest: dq.inv_process lq_process_facts)
  show "mset rs + eq_pending Q q' = eq_pending Q q + (\<Sum>c\<in>#mset rs. mset (spawn c))"
    using inv run
    by (cases q) (auto dest: bq.process_accounts [OF TrueI] dq.process_accounts event_queue.process_accounts [OF lq_event_queue])
  show "eq_pending Q q \<subseteq># mset rs"
    using inv run
    by (cases q) (auto dest: bq.process_first [OF TrueI] dq.process_first event_queue.process_first [OF lq_event_queue])
next
  fix q :: "('c, 'k) event_queue_impl" and spawn :: "'c \<Rightarrow> 'c list"
  assume inv: "eq_inv Q q" and quiet: "\<And>c. c \<in># eq_pending Q q \<Longrightarrow> spawn c = []"
  show "\<exists>rs q'. eq_process Q spawn q = Some (rs, q') \<and> mset rs = eq_pending Q q \<and> eq_pending Q q' = {#}"
  proof (cases q)
    case (BlockingQueue b)
    with bq.process_quiet [of b spawn] quiet show ?thesis by fastforce
  next
    case (DoubleBufferQueue d)
    with dq.process_quiet [of d spawn] quiet inv show ?thesis by fastforce
  next
    case (LockFreeQueue l)
    with lq_process_quiet [of Q l spawn] quiet inv show ?thesis by fastforce
  qed
next
  fix q :: "('c, 'k) event_queue_impl" and spawn :: "'c \<Rightarrow> 'c list" and rank :: "'c \<Rightarrow> nat"
  assume inv: "eq_inv Q q" and dec: "\<And>c d. d \<in> set (spawn c) \<Longrightarrow> rank d < rank c"
  show "eq_process Q spawn q \<noteq> None"
    using inv bq_process_returns [of spawn rank, OF dec] dq.process_returns [OF _ dec]
      lq_process_returns [of Q spawn rank, OF _ dec]
    by (cases q) auto
qed

section \<open>TimerQueue\<close>

datatype 'c timer_queue_impl = HashWheel "'c wheel" | HeapQueue "'c heap_queue"

definition wheel_tick :: "chrono \<Rightarrow> usec" where
  "wheel_tick K = us_per_sec K div 10"

definition wheel_buckets :: nat where
  "wheel_buckets = 600"

fun make_timer_queue :: "chrono \<Rightarrow> (nat \<Rightarrow> usec) \<Rightarrow> timer_queue_type \<Rightarrow> 'c timer_queue_impl" where
  "make_timer_queue K clk kHashWheel = HashWheel (wh_create clk (wheel_tick K) wheel_buckets)"
| "make_timer_queue K clk kHeap = HeapQueue hq_create"

fun tqi_add ::
  "chrono \<Rightarrow> (nat \<Rightarrow> usec) \<Rightarrow> usec \<Rightarrow> usec \<Rightarrow> 'c \<Rightarrow> 'c timer_queue_impl \<Rightarrow> u64 \<times> 'c timer_queue_impl" where
  "tqi_add K clk d i c (HashWheel w) = (case wh_add K clk d i c w of (t, w') \<Rightarrow> (of_nat t, HashWheel w'))"
| "tqi_add K clk d i c (HeapQueue q) = (case hq_add K clk d i c q of (t, q') \<Rightarrow> (of_nat t, HeapQueue q'))"

fun tqi_cancel :: "u64 \<Rightarrow> 'c timer_queue_impl \<Rightarrow> 'c timer_queue_impl" where
  "tqi_cancel t (HashWheel w) = HashWheel (wh_cancel (unat t) w)"
| "tqi_cancel t (HeapQueue q) = HeapQueue (hq_cancel (unat t) q)"

text \<open>\<open>Process\<close> leaves the queue; what it fired is not part of the interface.\<close>

fun tqi_process ::
  "chrono \<Rightarrow> (nat \<Rightarrow> usec) \<Rightarrow> ('c \<Rightarrow> nat \<Rightarrow> 'c timer_cmd list) \<Rightarrow> 'c timer_queue_impl \<Rightarrow> 'c timer_queue_impl option"
where
  "tqi_process K clk env (HashWheel w) = map_option (\<lambda>r. HashWheel (snd r)) (wh_process K clk env w)"
| "tqi_process K clk env (HeapQueue q) = map_option (\<lambda>r. HeapQueue (snd r)) (hq_process K clk env q)"

definition tqi_ops :: "chrono \<Rightarrow> (nat \<Rightarrow> usec) \<Rightarrow> ('c timer_queue_impl, 'c) timer_ops" where
  "tqi_ops K clk = \<lparr>tq_add = tqi_add K clk, tq_cancel = tqi_cancel\<rparr>"

fun tqi_counter :: "'c timer_queue_impl \<Rightarrow> nat" where
  "tqi_counter (HashWheel w) = wh_counter w"
| "tqi_counter (HeapQueue q) = hq_counter q"

fun tqi_callback :: "'c timer_queue_impl \<Rightarrow> nat \<Rightarrow> 'c option" where
  "tqi_callback (HashWheel w) i = map_option we_callback (wh_table w i)"
| "tqi_callback (HeapQueue q) i = map_option he_callback (hq_table q i)"

definition tqi_good :: "'c timer_queue_impl \<Rightarrow> bool" where
  "tqi_good q \<longleftrightarrow> tqi_counter q + 1 < 2 ^ 64 \<and> (\<forall>i. tqi_callback q i \<noteq> None \<longrightarrow> i \<le> tqi_counter q)"

definition tqi_timers :: "'c timer_queue_impl \<Rightarrow> (u64 \<rightharpoonup> 'c)" where
  "tqi_timers q = (\<lambda>t. tqi_callback q (unat t))"

lemma tqi_add_result:
  assumes "tqi_good q" and "tqi_add K clk d i c q = (t, q')"
  shows "t = of_nat (Suc (tqi_counter q)) \<and> tqi_callback q (Suc (tqi_counter q)) = None
    \<and> tqi_callback q' = (tqi_callback q)(Suc (tqi_counter q) \<mapsto> c)"
proof -
  have fresh: "tqi_callback q (Suc (tqi_counter q)) = None"
    using assms(1) unfolding tqi_good_def by (metis Suc_n_not_le_n)
  have id: "to_u64 (int (tqi_counter q) + 1) = Suc (tqi_counter q)"
    using assms(1) by (simp add: tqi_good_def to_u64_id nat_add_distrib)
  show ?thesis
  proof (cases q)
    case (HashWheel w)
    with assms(2) id fresh show ?thesis
      by (auto simp: wh_add_def wh_now_def wh_wakeup_def wh_bucket_add_def Let_def fun_eq_iff)
  next
    case (HeapQueue h)
    with assms(2) id fresh show ?thesis
      by (auto simp: hq_add_def hq_now_def hq_emplace_def hq_wakeup_at_def Let_def fun_eq_iff)
  qed
qed

interpretation any_timer: timer_service "tqi_ops K clk" tqi_good tqi_timers
  for K clk
proof
  fix q q' :: "'c timer_queue_impl" and d i c t
  assume good: "tqi_good q"
  have callback: "tqi_callback (tqi_cancel t q) = (tqi_callback q)(unat t := None)"
    by (cases q) (auto simp: wh_cancel_def hq_cancel_def fun_eq_iff)
  have counter: "tqi_counter (tqi_cancel t q) = tqi_counter q"
    by (cases q) (auto simp: wh_cancel_def hq_cancel_def)
  show "tqi_timers (tq_cancel (tqi_ops K clk) t q) = (tqi_timers q)(t := None)"
    by (auto simp: tqi_ops_def tqi_timers_def callback fun_eq_iff word_unat_eq_iff)
  show "tqi_good (tq_cancel (tqi_ops K clk) t q)"
    using good by (auto simp: tqi_good_def tqi_ops_def callback counter)
  assume "tq_add (tqi_ops K clk) d i c q = (t, q')"
  then have r: "t = of_nat (Suc (tqi_counter q))" "tqi_callback q (Suc (tqi_counter q)) = None"
      "tqi_callback q' = (tqi_callback q)(Suc (tqi_counter q) \<mapsto> c)"
    using tqi_add_result [OF good] by (simp_all add: tqi_ops_def)
  have "unat (of_nat (Suc (tqi_counter q)) :: u64) = Suc (tqi_counter q)"
    using good by (simp add: tqi_good_def unat_of_nat take_bit_nat_eq_self_iff del: of_nat_Suc)
  then show "tqi_timers q t = None \<and> tqi_timers q' = (tqi_timers q)(t \<mapsto> c)"
    using r by (auto simp: tqi_timers_def fun_eq_iff word_unat_eq_iff)
qed

section \<open>Selector\<close>

datatype selector_impl = EpollImpl epoll_selector | PollImpl poller

fun make_selector :: "selector_type \<Rightarrow> selector_impl" where
  "make_selector kEpoll = EpollImpl ep_create"
| "make_selector kPoll = PollImpl po_create"

fun sel_add ::
  "(channel \<Rightarrow> int) \<Rightarrow> channel \<Rightarrow> select_events \<Rightarrow> selector_impl \<Rightarrow> selector_fatal + selector_impl" where
  "sel_add fd c ev (EpollImpl s) = map_sum (\<lambda>e. e) EpollImpl (ep_add fd c ev s)"
| "sel_add fd c ev (PollImpl s) = Inr (PollImpl (po_add fd c ev s))"

fun sel_remove :: "(channel \<Rightarrow> int) \<Rightarrow> channel \<Rightarrow> selector_impl \<Rightarrow> selector_fatal + selector_impl" where
  "sel_remove fd c (EpollImpl s) = map_sum (\<lambda>e. e) EpollImpl (ep_remove fd c s)"
| "sel_remove fd c (PollImpl s) = Inr (PollImpl (po_remove fd c s))"

fun sel_update ::
  "(channel \<Rightarrow> int) \<Rightarrow> channel \<Rightarrow> select_events \<Rightarrow> selector_impl \<Rightarrow> selector_fatal + selector_impl" where
  "sel_update fd c ev (EpollImpl s) = map_sum (\<lambda>e. e) EpollImpl (ep_update fd c ev s)"
| "sel_update fd c ev (PollImpl s) = Inr (PollImpl (po_update fd c ev s))"

fun sel_contain :: "(channel \<Rightarrow> int) \<Rightarrow> channel \<Rightarrow> selector_impl \<Rightarrow> bool" where
  "sel_contain fd c (EpollImpl s) \<longleftrightarrow> ep_contain c s"
| "sel_contain fd c (PollImpl s) \<longleftrightarrow> po_contain fd c s"

text \<open>The answer of \<open>epoll_wait\<close> or \<open>poll\<close>, whichever is called.\<close>

record wait_answer =
  wa_epoll :: "int + epoll_event list"
  wa_poll :: "int + 16 word list"

fun sel_wait ::
  "((pollfd \<Rightarrow> bool) \<Rightarrow> pollfd list \<Rightarrow> pollfd list) \<Rightarrow> wait_answer \<Rightarrow> selector_impl \<Rightarrow> int \<times> selector_impl" where
  "sel_wait std_partition a (EpollImpl s) = map_prod (\<lambda>e. e) EpollImpl (ep_wait (wa_epoll a) s)"
| "sel_wait std_partition a (PollImpl s) = map_prod (\<lambda>e. e) PollImpl (po_wait std_partition (wa_poll a) s)"

fun sel_size :: "selector_impl \<Rightarrow> nat" where
  "sel_size (EpollImpl s) = ep_size s"
| "sel_size (PollImpl s) = po_size s"

fun sel_get :: "selector_impl \<Rightarrow> nat \<Rightarrow> select_channel" where
  "sel_get (EpollImpl s) i = ep_get s i"
| "sel_get (PollImpl s) i = po_get s i"

section \<open>The constructor of EventLoop\<close>

record ('c, 'k) loop_object =
  lo_options :: event_loop_options
  lo_selector :: selector_impl
  lo_event_queue :: "('c, 'k) event_queue_impl"
  lo_timer_queue :: "'c timer_queue_impl"

text \<open>\<open>e\<close> and \<open>t\<close>: the addresses of the new event channel and timer channel.\<close>

definition lo_construct ::
  "(channel \<Rightarrow> int) \<Rightarrow> channel \<Rightarrow> channel \<Rightarrow> 'k \<Rightarrow> chrono \<Rightarrow> (nat \<Rightarrow> usec) \<Rightarrow> event_loop_options \<Rightarrow>
     selector_fatal + ('c, 'k) loop_object"
where
  "lo_construct fd e t k0 K clk options =
     (let w = \<lparr>lo_options = options, lo_selector = make_selector (eo_selector_type options),
               lo_event_queue = make_event_queue k0 (eo_event_queue_type options) ec_create,
               lo_timer_queue = make_timer_queue K clk (eo_timer_queue_type options)\<rparr>
      in case sel_add fd e kReadEvent (lo_selector w) of
           Inl x \<Rightarrow> Inl x
         | Inr s1 \<Rightarrow>
             (case sel_add fd t kReadEvent s1 of
                Inl x \<Rightarrow> Inl x
              | Inr s2 \<Rightarrow> Inr (w\<lparr>lo_selector := s2\<rparr>)))"

section \<open>One turn of the loop\<close>

definition lo_schedule ::
  "('c, 'k) concurrent_queue_ops \<Rightarrow> 'c \<Rightarrow> ('c, 'k) loop_object \<Rightarrow> ('c, 'k) loop_object" where
  "lo_schedule Q c w = w\<lparr>lo_event_queue := eq_add Q c (lo_event_queue w)\<rparr>"

text \<open>
  What has become of a round: going on, with the tasks run so far; ended by the fatal read of the
  event descriptor; or caught in a \<open>Process\<close> that does not return.
\<close>

datatype ('c, 'k) loop_round =
    RoundOk "'c list" "('c, 'k) loop_object"
  | RoundFatal fatal
  | RoundHangs

text \<open>\<open>HandleEvents\<close> of the event channel, whose callback is \<open>EventQueue::Process\<close>.\<close>

definition lo_handle_event ::
  "('c, 'k) concurrent_queue_ops \<Rightarrow> ('c \<Rightarrow> 'c list) \<Rightarrow> 'c list \<Rightarrow> ('c, 'k) loop_object \<Rightarrow> ('c, 'k) loop_round"
where
  "lo_handle_event Q spawn past w =
     (case ec_read (eq_channel (lo_event_queue w)) of
        Inl x \<Rightarrow> RoundFatal x
      | Inr ch \<Rightarrow>
          (case eq_process Q spawn (eq_set_channel ch (lo_event_queue w)) of
             None \<Rightarrow> RoundHangs
           | Some (rs, q) \<Rightarrow> RoundOk (past @ rs) (w\<lparr>lo_event_queue := q\<rparr>)))"

text \<open>\<open>HandleEvents\<close> of the timer channel, whose callback is \<open>TimerQueue::Process\<close>.\<close>

definition lo_handle_timer ::
  "chrono \<Rightarrow> (nat \<Rightarrow> usec) \<Rightarrow> ('c \<Rightarrow> nat \<Rightarrow> 'c timer_cmd list) \<Rightarrow> 'c list \<Rightarrow> ('c, 'k) loop_object \<Rightarrow> ('c, 'k) loop_round"
where
  "lo_handle_timer K clk env past w =
     (case tqi_process K clk env (lo_timer_queue w) of
        None \<Rightarrow> RoundHangs
      | Some q \<Rightarrow> RoundOk past (w\<lparr>lo_timer_queue := q\<rparr>))"

text \<open>The handlers of the other channels, and what the tasks add to the loop, are parameters.\<close>

record ('c, 'k) loop_env =
  le_queue :: "('c, 'k) concurrent_queue_ops"
  le_spawn :: "'c \<Rightarrow> 'c list"
  le_chrono :: chrono
  le_clock :: "nat \<Rightarrow> usec"
  le_timers :: "'c \<Rightarrow> nat \<Rightarrow> 'c timer_cmd list"
  le_other :: "channel \<Rightarrow> receive_events \<Rightarrow> ('c, 'k) loop_object \<Rightarrow> ('c, 'k) loop_object"

fun lo_handle ::
  "('c, 'k) loop_env \<Rightarrow> channel \<Rightarrow> channel \<Rightarrow> channel \<Rightarrow> receive_events \<Rightarrow> ('c, 'k) loop_round \<Rightarrow> ('c, 'k) loop_round"
where
  "lo_handle E e t ch ev (RoundOk past w) =
     (if ch = e then lo_handle_event (le_queue E) (le_spawn E) past w
      else if ch = t then lo_handle_timer (le_chrono E) (le_clock E) (le_timers E) past w
      else RoundOk past (le_other E ch ev w))"
| "lo_handle E e t ch ev r = r"

fun lo_get :: "('c, 'k) loop_round \<Rightarrow> nat \<Rightarrow> select_channel" where
  "lo_get (RoundOk past w) i = sel_get (lo_selector w) i"
| "lo_get r i = (None, ReceiveEvents 0)"

text \<open>The body of the \<open>while\<close> of \<open>EventLoop::Loop\<close>.\<close>

definition lo_turn ::
  "((pollfd \<Rightarrow> bool) \<Rightarrow> pollfd list \<Rightarrow> pollfd list) \<Rightarrow> ('c, 'k) loop_env \<Rightarrow> channel \<Rightarrow> channel \<Rightarrow> wait_answer \<Rightarrow>
     ('c, 'k) loop_object \<Rightarrow> ('c, 'k) loop_round"
where
  "lo_turn std_partition E e t a w =
     (let (err, s) = sel_wait std_partition a (lo_selector w);
          w1 = w\<lparr>lo_selector := s\<rparr>
      in if err \<noteq> 0 then RoundOk [] w1
         else dispatch lo_get (lo_handle E e t) 0 (sel_size s) (RoundOk [] w1))"

end
