(* ===== verification/Loop_Parts_Properties.thy ===== *)
theory Loop_Parts_Properties
  imports Loop_Parts
begin

text \<open>
  What the constructor of an event loop makes of its options, and a turn of the loop with every
  combination of selector and event queue: tasks scheduled from any thread, the wakeup, \<open>Wait\<close>,
  the dispatch and \<open>Process\<close>, composed the way src/eventloop.cc composes them.
\<close>

section \<open>Which implementation an object is\<close>

fun eq_type :: "('c, 'k) event_queue_impl \<Rightarrow> event_queue_type" where
  "eq_type (BlockingQueue q) = kBlockingQueue"
| "eq_type (DoubleBufferQueue q) = kDoubleBufferQueue"
| "eq_type (LockFreeQueue q) = kLockFreeQueue"

fun tqi_type :: "'c timer_queue_impl \<Rightarrow> timer_queue_type" where
  "tqi_type (HashWheel w) = kHashWheel"
| "tqi_type (HeapQueue q) = kHeap"

fun sel_type :: "selector_impl \<Rightarrow> selector_type" where
  "sel_type (EpollImpl s) = kEpoll"
| "sel_type (PollImpl s) = kPoll"

text \<open>The mask the kernel is given for a channel, by either system call.\<close>

fun sel_watch :: "(channel \<Rightarrow> int) \<Rightarrow> selector_impl \<Rightarrow> channel \<Rightarrow> select_events option" where
  "sel_watch fd (EpollImpl s) c = ep_watch fd s c"
| "sel_watch fd (PollImpl s) c =
     map_option (\<lambda>(i, _). SelectEvents (ucast (pf_events (po_buf s ! i)))) (po_channels s (fd c))"

fun sel_good :: "(channel \<Rightarrow> int) \<Rightarrow> selector_impl \<Rightarrow> bool" where
  "sel_good fd (EpollImpl s) \<longleftrightarrow> ep_good fd s"
| "sel_good fd (PollImpl s) \<longleftrightarrow> po_keyed fd s \<and> po_indexed s"

lemma read_mask_16 [simp]: "(ucast (ucast (se_value kReadEvent) :: 16 word) :: u32) = se_value kReadEvent"
  by (simp add: kReadEvent_def poll_defs)

lemma select_events_value [simp]: "SelectEvents (se_value e) = e"
  by (cases e) simp

lemma sel_construct:
  assumes "inj fd" and "e \<noteq> t"
  obtains s1 s2 where "sel_add fd e kReadEvent (make_selector ty) = Inr s1" and "sel_add fd t kReadEvent s1 = Inr s2"
    and "sel_type s2 = ty" and "sel_good fd s2"
    and "\<And>c. sel_watch fd s2 c = (if c = e \<or> c = t then Some kReadEvent else None)"
proof (cases ty)
  case kPoll
  let ?s = "PollImpl (po_add fd t kReadEvent (po_add fd e kReadEvent po_create))"
  have "sel_watch fd ?s c = (if c = e \<or> c = t then Some kReadEvent else None)" for c
    using assms by (auto simp: po_add_def po_create_def Let_def inj_eq)
  moreover have "sel_good fd ?s"
    by (auto simp: po_add_def po_create_def Let_def po_keyed_def po_indexed_def nth_Cons split: if_splits nat.splits)
  ultimately show ?thesis
    using kPoll by (intro that [of "PollImpl (po_add fd e kReadEvent po_create)" ?s]) auto
next
  case kEpoll
  have none: "ep_kernel ep_create (fd e) = None" "ep_channel ep_create e = None"
    by (simp_all add: ep_create_def)
  then obtain s1 where s1: "ep_add fd e kReadEvent ep_create = Inr s1"
    by (auto simp: ep_ops)
  note r1 = ep_add_result [OF _ s1]
  have good1: "ep_good fd s1"
    using ep_create_good s1 by (rule ep_add_good)
  have "ep_kernel s1 (fd t) = None" "ep_channel s1 t = None"
    using r1 ep_create_good [of fd] assms by (auto simp: ep_good_def ep_create_def inj_eq)
  then obtain s2 where s2: "ep_add fd t kReadEvent s1 = Inr s2"
    by (auto simp: ep_ops)
  have good2: "ep_good fd s2"
    using good1 s2 by (rule ep_add_good)
  have "ep_watch fd s2 c = (if c = e \<or> c = t then Some kReadEvent else None)" for c
    using ep_add_result [OF _ s2] r1 good1 ep_create_good [of fd] assms
    by (auto simp: ep_watch_def ep_good_def ep_create_def inj_eq split: option.splits)
  with s1 s2 good2 kEpoll show ?thesis
    by (intro that [of "EpollImpl s1" "EpollImpl s2"]) auto
qed

text \<open>The selector as the constructor leaves it.\<close>

definition sel_fresh :: "(channel \<Rightarrow> int) \<Rightarrow> channel \<Rightarrow> channel \<Rightarrow> selector_impl \<Rightarrow> bool" where
  "sel_fresh fd e t s \<longleftrightarrow>
     (\<exists>s1. sel_add fd e kReadEvent (make_selector (sel_type s)) = Inr s1 \<and> sel_add fd t kReadEvent s1 = Inr s)"

lemma lo_constructed:
  fixes Q :: "('c, 'k) concurrent_queue_ops"
  assumes "inj fd" and "e \<noteq> t" and "cq_ok Q" and "cq_contents Q k0 = {#}"
  shows "\<exists>w :: ('c, 'k) loop_object. lo_construct fd e t k0 K clk options = Inr w \<and> lo_options w = options
    \<and> sel_type (lo_selector w) = eo_selector_type options \<and> sel_good fd (lo_selector w)
    \<and> (\<forall>c. sel_watch fd (lo_selector w) c = (if c = e \<or> c = t then Some kReadEvent else None))
    \<and> eq_type (lo_event_queue w) = eo_event_queue_type options \<and> eq_inv Q (lo_event_queue w)
    \<and> eq_pending Q (lo_event_queue w) = {#} \<and> \<not> ec_readable (eq_channel (lo_event_queue w))
    \<and> tqi_type (lo_timer_queue w) = eo_timer_queue_type options
    \<and> tqi_good (lo_timer_queue w) \<and> tqi_timers (lo_timer_queue w) = Map.empty
    \<and> sel_fresh fd e t (lo_selector w)"
proof -
  obtain s1 s2 where s: "sel_add fd e kReadEvent (make_selector (eo_selector_type options)) = Inr s1"
    "sel_add fd t kReadEvent s1 = Inr s2" "sel_type s2 = eo_selector_type options" "sel_good fd s2"
    "\<And>c. sel_watch fd s2 c = (if c = e \<or> c = t then Some kReadEvent else None)"
    using sel_construct [OF assms(1,2)] by metis
  let ?q = "make_event_queue k0 (eo_event_queue_type options) ec_create :: ('c, 'k) event_queue_impl"
  let ?tq = "make_timer_queue K clk (eo_timer_queue_type options) :: 'c timer_queue_impl"
  have "eq_type ?q = eo_event_queue_type options \<and> eq_inv Q ?q \<and> eq_pending Q ?q = {#} \<and> \<not> ec_readable (eq_channel ?q)"
    using assms(3,4)
    by (cases "eo_event_queue_type options")
      (simp_all add: bq_create_def dq_create_def lq_create_def dq_idle_def lq_counted_def)
  moreover have "tqi_type ?tq = eo_timer_queue_type options \<and> tqi_good ?tq \<and> tqi_timers ?tq = Map.empty"
    by (cases "eo_timer_queue_type options")
      (simp_all add: wh_create_def hq_create_def tqi_good_def tqi_timers_def)
  ultimately show ?thesis
    using s by (simp add: lo_construct_def sel_fresh_def Let_def)
qed

text \<open>
  C28. The constructor of EventLoop builds what its options say: whatever the options, and with
  descriptors of their own for the two channels, construction succeeds with the selector, event
  queue and timer queue of the types asked for; exactly the event channel and the timer channel
  are registered, both for reading; nothing is queued and the event descriptor is not readable;
  no timer is set.  With the default options these are epoll, the heap and the lock free queue.
\<close>

theorem loop_construct:
  fixes Q :: "('c, 'k) concurrent_queue_ops"
  assumes "inj fd" and "e \<noteq> t" and "cq_ok Q" and "cq_contents Q k0 = {#}"
  shows "\<exists>w :: ('c, 'k) loop_object. lo_construct fd e t k0 K clk options = Inr w \<and> lo_options w = options
    \<and> sel_type (lo_selector w) = eo_selector_type options \<and> sel_good fd (lo_selector w)
    \<and> (\<forall>c. sel_watch fd (lo_selector w) c = (if c = e \<or> c = t then Some kReadEvent else None))
    \<and> eq_type (lo_event_queue w) = eo_event_queue_type options \<and> eq_inv Q (lo_event_queue w)
    \<and> eq_pending Q (lo_event_queue w) = {#} \<and> \<not> ec_readable (eq_channel (lo_event_queue w))
    \<and> tqi_type (lo_timer_queue w) = eo_timer_queue_type options
    \<and> tqi_good (lo_timer_queue w) \<and> tqi_timers (lo_timer_queue w) = Map.empty
    \<and> (options = default_loop_options K \<longrightarrow> sel_type (lo_selector w) = kEpoll
        \<and> eq_type (lo_event_queue w) = kLockFreeQueue \<and> tqi_type (lo_timer_queue w) = kHeap)"
proof -
  have defaults: "eo_selector_type (default_loop_options K) = kEpoll"
    "eo_event_queue_type (default_loop_options K) = kLockFreeQueue"
    "eo_timer_queue_type (default_loop_options K) = kHeap"
    by (simp_all add: default_loop_options_def)
  show ?thesis
    using lo_constructed [OF assms, of K clk options] defaults by metis
qed

theorem loop_construct_witness:
  "\<exists>w :: (nat, nat list) loop_object. lo_construct int 3 4 [] usec_chrono (\<lambda>_. 0) (default_loop_options usec_chrono) = Inr w
    \<and> lo_options w = default_loop_options usec_chrono
    \<and> sel_type (lo_selector w) = kEpoll \<and> eq_type (lo_event_queue w) = kLockFreeQueue
    \<and> tqi_type (lo_timer_queue w) = kHeap
    \<and> (\<forall>c. sel_watch int (lo_selector w) c = (if c = 3 \<or> c = 4 then Some kReadEvent else None))"
proof -
  have "cq_ok (list_queue_ops :: (nat, nat list) concurrent_queue_ops)"
    "cq_contents (list_queue_ops :: (nat, nat list) concurrent_queue_ops) [] = {#}"
    by auto
  from loop_construct [OF _ _ this, of int 3 4 usec_chrono "\<lambda>_. 0" "default_loop_options usec_chrono"]
  show ?thesis by auto
qed

section \<open>A turn of the loop\<close>

lemma lo_schedules_simps [simp]:
  "lo_selector (fold (lo_schedule Q) cs w) = lo_selector w"
  "lo_timer_queue (fold (lo_schedule Q) cs w) = lo_timer_queue w"
  "lo_event_queue (fold (lo_schedule Q) cs w) = fold (eq_add Q) cs (lo_event_queue w)"
  by (induction cs arbitrary: w) (auto simp: lo_schedule_def)

lemma eq_set_channel_simps [simp]:
  "eq_pending Q (eq_set_channel ch q) = eq_pending Q q"
  "eq_inv Q (eq_set_channel ch q) = eq_inv Q q"
  by (cases q; simp add: dq_idle_def lq_counted_def)+

text \<open>One report, of the event channel alone, by either system call.\<close>

definition event_answer :: "channel \<Rightarrow> wait_answer" where
  "event_answer e = \<lparr>wa_epoll = Inr [\<lparr>ee_events = POLLIN, ee_ptr = e\<rparr>], wa_poll = Inr [ucast POLLIN, 0]\<rparr>"

lemma ep_report_one:
  assumes "ep_good fd s" and "ep_contain e s"
  shows "fst (ep_wait (Inr [\<lparr>ee_events = POLLIN, ee_ptr = e\<rparr>]) s) = 0"
    and "ep_size (snd (ep_wait (Inr [\<lparr>ee_events = POLLIN, ee_ptr = e\<rparr>]) s)) = 1"
    and "ep_get (snd (ep_wait (Inr [\<lparr>ee_events = POLLIN, ee_ptr = e\<rparr>]) s)) 0 = (Some e, ReceiveEvents POLLIN)"
  using assms
  by (auto simp: ep_wait_def ep_size_def ep_get_def ep_contain_def ep_good_def Let_def dest: ep_registeredD(1))

lemma po_report_one:
  assumes "partition_ok part" and "fd e \<noteq> fd t"
    and "s = po_add fd t kReadEvent (po_add fd e kReadEvent po_create)"
  shows "fst (po_wait part (Inr [ucast POLLIN, 0]) s) = 0"
    and "po_size (snd (po_wait part (Inr [ucast POLLIN, 0]) s)) = 1"
    and "po_get (snd (po_wait part (Inr [ucast POLLIN, 0]) s)) 0 = (Some e, ReceiveEvents POLLIN)"
proof -
  let ?a = "\<lparr>pf_fd = fd e, pf_events = ucast (se_value kReadEvent), pf_revents = ucast POLLIN\<rparr>"
  let ?b = "\<lparr>pf_fd = fd t, pf_events = ucast (se_value kReadEvent), pf_revents = 0\<rparr>"
  have buf: "map2 (\<lambda>p r. p\<lparr>pf_revents := r\<rparr>) (po_buf (po_swept s)) [ucast POLLIN, 0] = [?a, ?b]"
    by (simp add: assms(3) po_swept_def po_add_def po_create_def Let_def)
  have rep: "filter pf_reported [?a, ?b] = [?a]"
    by (simp add: pf_reported_def POLLIN_def)
  have len: "length [ucast POLLIN, 0] = length (po_buf (po_swept s))"
    by (simp add: assms(3) po_swept_def po_add_def po_create_def Let_def)
  note w = po_wait_ok [OF assms(1) len, unfolded buf]
  obtain p ps where p: "part pf_reported [?a, ?b] = p # ps"
    using w(5) by (cases "part pf_reported [?a, ?b]") auto
  have "mset (take 1 (part pf_reported [?a, ?b])) = mset [?a]"
    using partition_front [OF assms(1), of pf_reported "[?a, ?b]"] by (simp only: rep) simp
  then have "p = ?a"
    by (simp add: p)
  moreover have "po_channels (po_swept s) (fd e) = Some (0, e)"
    using assms(2) by (simp add: assms(3) po_swept_def po_add_def po_create_def Let_def)
  ultimately show "po_get (snd (po_wait part (Inr [ucast POLLIN, 0]) s)) 0 = (Some e, ReceiveEvents POLLIN)"
    using w(3,4) p by (simp add: po_get_def POLLIN_def)
  show "fst (po_wait part (Inr [ucast POLLIN, 0]) s) = 0" "po_size (snd (po_wait part (Inr [ucast POLLIN, 0]) s)) = 1"
    using w(1,2) unfolding rep by simp_all
qed

lemma sel_report_one:
  assumes "inj fd" and "e \<noteq> t" and "partition_ok part" and "sel_fresh fd e t s" and "sel_good fd s"
    and "sel_watch fd s e \<noteq> None"
  obtains s' where "sel_wait part (event_answer e) s = (0, s')" and "sel_size s' = 1"
    and "sel_get s' 0 = (Some e, ReceiveEvents POLLIN)"
proof (cases s)
  case (EpollImpl p)
  let ?r = "ep_wait (Inr [\<lparr>ee_events = POLLIN, ee_ptr = e\<rparr>]) p"
  from EpollImpl assms(5,6) have "ep_good fd p" "ep_contain e p"
    using epoll.watch_contain [of fd p e] by auto
  note r = ep_report_one [OF this]
  have "sel_wait part (event_answer e) s = (fst ?r, EpollImpl (snd ?r))"
    by (simp add: EpollImpl event_answer_def map_prod_def case_prod_beta)
  with r show ?thesis
    by (intro that [of "EpollImpl (snd ?r)"]) simp_all
next
  case (PollImpl p)
  let ?r = "po_wait part (Inr [ucast POLLIN, 0]) p"
  from PollImpl assms(4) have p: "p = po_add fd t kReadEvent (po_add fd e kReadEvent po_create)"
    by (auto simp: sel_fresh_def)
  have "fd e \<noteq> fd t"
    using assms(1,2) by (simp add: inj_eq)
  note r = po_report_one [OF assms(3) this p]
  have "sel_wait part (event_answer e) s = (fst ?r, PollImpl (snd ?r))"
    by (simp only: PollImpl event_answer_def sel_wait.simps wait_answer.simps map_prod_def case_prod_beta)
  with r show ?thesis
    by (intro that [of "PollImpl (snd ?r)"]) simp_all
qed

lemma lo_handle_event_runs:
  assumes "eq_inv Q q" and "eq_pending Q q = {#}" and "cs \<noteq> []" and "\<And>c. c \<in> set cs \<Longrightarrow> spawn c = []"
    and "lo_event_queue w = fold (eq_add Q) cs q"
  shows "ec_readable (eq_channel (lo_event_queue w)) \<and> (\<exists>rs q'.
    lo_handle_event Q spawn [] w = RoundOk rs (w\<lparr>lo_event_queue := q'\<rparr>) \<and> mset rs = mset cs
      \<and> eq_pending Q q' = {#} \<and> eq_inv Q q')"
proof -
  let ?q = "fold (eq_add Q) cs q"
  have inv: "eq_inv Q ?q" and pending: "eq_pending Q ?q = mset cs"
    using any_queue.inv_add_all [OF assms(1), of cs] any_queue.pending_add_all [OF assms(1), of cs] assms(2)
    by (simp_all add: any_queue.add_all_def)
  have readable: "ec_readable (eq_channel ?q)"
    using any_queue.awake_add_all [OF assms(1) disjI1 [OF assms(2)] assms(3)] by (simp add: any_queue.add_all_def)
  then obtain ch where ch: "ec_read (eq_channel ?q) = Inr ch"
    by (auto simp: ec_read_readable)
  have inv': "eq_inv Q (eq_set_channel ch ?q)"
    using inv by simp
  obtain rs q' where run: "eq_process Q spawn (eq_set_channel ch ?q) = Some (rs, q')" "mset rs = mset cs"
    "eq_pending Q q' = {#}"
    using any_queue.process_quiet [OF inv', of spawn] pending assms(4) by auto
  moreover have "eq_inv Q q'"
    using inv' run(1) by (rule any_queue.inv_process)
  moreover have "lo_handle_event Q spawn [] w = RoundOk rs (w\<lparr>lo_event_queue := q'\<rparr>)"
    using ch run(1) assms(5) by (simp add: lo_handle_event_def)
  moreover have "ec_readable (eq_channel (lo_event_queue w))"
    using readable by (simp only: assms(5))
  ultimately show ?thesis
    using run(2,3) by blast
qed

text \<open>
  C9. From Schedule to the task, with every selector and every event queue.  A loop is constructed
  with any options, and any threads schedule tasks (which schedule nothing themselves): the event
  descriptor is readable, and when Wait reports it the turn of the loop reads it and runs exactly
  these tasks, each as often as it was scheduled; afterwards the queue is empty.
\<close>

theorem loop_turn_runs:
  fixes w :: "('c, 'k) loop_object"
  assumes "inj fd" and "e \<noteq> t" and "partition_ok part" and "cq_ok (le_queue E)" and "cq_contents (le_queue E) k0 = {#}"
    and "lo_construct fd e t k0 (le_chrono E) (le_clock E) options = Inr w"
    and "cs \<noteq> []" and "\<And>c. c \<in> set cs \<Longrightarrow> le_spawn E c = []"
  shows "ec_readable (eq_channel (lo_event_queue (fold (lo_schedule (le_queue E)) cs w))) \<and>
    (\<exists>rs w'. lo_turn part E e t (event_answer e) (fold (lo_schedule (le_queue E)) cs w) = RoundOk rs w'
       \<and> mset rs = mset cs \<and> eq_pending (le_queue E) (lo_event_queue w') = {#}
       \<and> eq_inv (le_queue E) (lo_event_queue w'))"
proof -
  have w: "sel_fresh fd e t (lo_selector w)" "sel_good fd (lo_selector w)" "sel_watch fd (lo_selector w) e \<noteq> None"
    "eq_inv (le_queue E) (lo_event_queue w)" "eq_pending (le_queue E) (lo_event_queue w) = {#}"
    using lo_constructed [OF assms(1,2,4,5), of "le_chrono E" "le_clock E" options] assms(6) by auto
  obtain s where s: "sel_wait part (event_answer e) (lo_selector w) = (0, s)" "sel_size s = 1"
    "sel_get s 0 = (Some e, ReceiveEvents POLLIN)"
    using sel_report_one [OF assms(1-3) w(1-3)] .
  let ?w = "(fold (lo_schedule (le_queue E)) cs w)\<lparr>lo_selector := s\<rparr>"
  have h: "ec_readable (eq_channel (lo_event_queue ?w)) \<and> (\<exists>rs q'.
    lo_handle_event (le_queue E) (le_spawn E) [] ?w = RoundOk rs (?w\<lparr>lo_event_queue := q'\<rparr>) \<and> mset rs = mset cs
      \<and> eq_pending (le_queue E) q' = {#} \<and> eq_inv (le_queue E) q')"
    by (rule lo_handle_event_runs [OF w(4,5) assms(7)]) (simp_all add: assms(8))
  have "lo_turn part E e t (event_answer e) (fold (lo_schedule (le_queue E)) cs w) =
      lo_handle_event (le_queue E) (le_spawn E) [] ?w"
    using s by (simp add: lo_turn_def dispatch.simps)
  with h show ?thesis
    by auto
qed

theorem loop_turn_runs_witness:
  "\<exists>w. lo_construct int 3 4 [] usec_chrono (\<lambda>_. 0)
      \<lparr>eo_event_queue_type = kDoubleBufferQueue, eo_timer_queue_type = kHashWheel, eo_selector_type = kPoll,
       eo_select_timeout = 7\<rparr> = Inr w
    \<and> (\<exists>rs w'. lo_turn stable_partition
        \<lparr>le_queue = list_queue_ops, le_spawn = (\<lambda>_. []), le_chrono = usec_chrono, le_clock = (\<lambda>_. 0),
         le_timers = (\<lambda>_ _. []), le_other = (\<lambda>_ _ w. w)\<rparr>
        3 4 (event_answer 3) (fold (lo_schedule list_queue_ops) [8, 9, 8 :: nat] w) = RoundOk rs w'
      \<and> mset rs = {#8, 9, 8#})"
proof -
  let ?E = "\<lparr>le_queue = list_queue_ops :: (nat, nat list) concurrent_queue_ops, le_spawn = (\<lambda>_. []),
    le_chrono = usec_chrono, le_clock = (\<lambda>_. 0), le_timers = (\<lambda>_ _. []), le_other = (\<lambda>_ _ w. w)\<rparr>"
  let ?o = "\<lparr>eo_event_queue_type = kDoubleBufferQueue, eo_timer_queue_type = kHashWheel, eo_selector_type = kPoll,
    eo_select_timeout = 7\<rparr>"
  obtain w :: "(nat, nat list) loop_object" where w: "lo_construct int 3 4 [] usec_chrono (\<lambda>_. 0) ?o = Inr w"
    by (simp add: lo_construct_def Let_def)
  have "ec_readable (eq_channel (lo_event_queue (fold (lo_schedule (le_queue ?E)) [8, 9, 8] w))) \<and>
    (\<exists>rs w'. lo_turn stable_partition ?E 3 4 (event_answer 3) (fold (lo_schedule (le_queue ?E)) [8, 9, 8] w) = RoundOk rs w'
       \<and> mset rs = mset [8, 9, 8] \<and> eq_pending (le_queue ?E) (lo_event_queue w') = {#}
       \<and> eq_inv (le_queue ?E) (lo_event_queue w'))"
    by (rule loop_turn_runs [of int 3 4 stable_partition ?E "[]" ?o w]) (use w in \<open>auto intro: stable_partition_ok\<close>)
  with w show ?thesis
    by auto
qed

end
