(* ===== verification/Loop_Calls.thy ===== *)
theory Loop_Calls
  imports Loop_Parts
begin

text \<open>
  \<open>EventLoop::Add\<close> and \<open>EventLoop::Remove\<close> (src/eventloop.cc) as any thread may call them: on
  the loop's own thread they act at once, on another they schedule themselves.  The callbacks
  are values of the type \<open>'c\<close>; the queue holds closures, which are callbacks of the user or
  deferred calls.  The theory shows that deferring does not change what the calls do.
\<close>

section \<open>Operations\<close>

datatype 'c loop_job = JobUser 'c | JobAdd channel "'c option" | JobRemove channel "'c option"

type_synonym ('c, 'k) job_loop = "('c loop_job, 'k) loop_object"

fun some_list :: "'c option \<Rightarrow> 'c list" where
  "some_list None = []"
| "some_list (Some c) = [c]"

text \<open>The result: the loop afterwards and the callbacks that ran.\<close>

definition lo_add ::
  "('c loop_job, 'k) concurrent_queue_ops \<Rightarrow> (channel \<Rightarrow> int) \<Rightarrow> bool \<Rightarrow> channel \<Rightarrow> 'c option \<Rightarrow>
     ('c, 'k) job_loop \<Rightarrow> selector_fatal + (('c, 'k) job_loop \<times> 'c list)"
where
  "lo_add Q fd on_loop ch callback w =
     (if \<not> on_loop then Inr (lo_schedule Q (JobAdd ch callback) w, [])
      else case el_add (sel_contain fd) (sel_add fd) ch (lo_selector w) of
             Inl e \<Rightarrow> Inl e
           | Inr (s, told) \<Rightarrow> Inr (w\<lparr>lo_selector := s\<rparr>, if told then some_list callback else []))"

definition lo_remove ::
  "('c loop_job, 'k) concurrent_queue_ops \<Rightarrow> (channel \<Rightarrow> int) \<Rightarrow> bool \<Rightarrow> channel \<Rightarrow> 'c option \<Rightarrow>
     ('c, 'k) job_loop \<Rightarrow> selector_fatal + (('c, 'k) job_loop \<times> 'c list)"
where
  "lo_remove Q fd on_loop ch callback w =
     (if \<not> on_loop then Inr (lo_schedule Q (JobRemove ch callback) w, [])
      else case el_remove (sel_contain fd) (sel_remove fd) ch (lo_selector w) of
             Inl e \<Rightarrow> Inl e
           | Inr (s, told) \<Rightarrow> Inr (w\<lparr>lo_selector := s\<rparr>, if told then some_list callback else []))"

text \<open>A closure of the queue, run on the loop.\<close>

fun lo_job ::
  "('c loop_job, 'k) concurrent_queue_ops \<Rightarrow> (channel \<Rightarrow> int) \<Rightarrow> 'c loop_job \<Rightarrow>
     ('c, 'k) job_loop \<Rightarrow> selector_fatal + (('c, 'k) job_loop \<times> 'c list)"
where
  "lo_job Q fd (JobUser c) w = Inr (w, [c])"
| "lo_job Q fd (JobAdd ch callback) w = lo_add Q fd True ch callback w"
| "lo_job Q fd (JobRemove ch callback) w = lo_remove Q fd True ch callback w"

text \<open>A sequence of closures, and a sequence of calls made by one thread.\<close>

fun lo_jobs ::
  "('c loop_job, 'k) concurrent_queue_ops \<Rightarrow> (channel \<Rightarrow> int) \<Rightarrow> 'c loop_job list \<Rightarrow>
     ('c, 'k) job_loop \<Rightarrow> selector_fatal + (('c, 'k) job_loop \<times> 'c list)"
where
  "lo_jobs Q fd [] w = Inr (w, [])"
| "lo_jobs Q fd (j # js) w =
     (case lo_job Q fd j w of
        Inl e \<Rightarrow> Inl e
      | Inr (w1, cs) \<Rightarrow> map_sum (\<lambda>e. e) (map_prod (\<lambda>w. w) ((@) cs)) (lo_jobs Q fd js w1))"

fun lo_calls ::
  "('c loop_job, 'k) concurrent_queue_ops \<Rightarrow> (channel \<Rightarrow> int) \<Rightarrow> bool \<Rightarrow> 'c loop_job list \<Rightarrow>
     ('c, 'k) job_loop \<Rightarrow> selector_fatal + (('c, 'k) job_loop \<times> 'c list)"
where
  "lo_calls Q fd on_loop [] w = Inr (w, [])"
| "lo_calls Q fd on_loop (j # js) w =
     (case (case j of JobUser c \<Rightarrow> Inr (lo_schedule Q (JobUser c) w, [])
                    | JobAdd ch callback \<Rightarrow> lo_add Q fd on_loop ch callback w
                    | JobRemove ch callback \<Rightarrow> lo_remove Q fd on_loop ch callback w) of
        Inl e \<Rightarrow> Inl e
      | Inr (w1, cs) \<Rightarrow> map_sum (\<lambda>e. e) (map_prod (\<lambda>w. w) ((@) cs)) (lo_calls Q fd on_loop js w1))"

section \<open>Deferring changes nothing\<close>

text \<open>The queues that run closures in the order they were added.\<close>

fun eq_order :: "('c, 'k) event_queue_impl \<Rightarrow> 'c list option" where
  "eq_order (BlockingQueue q) = Some (bq_queue q)"
| "eq_order (DoubleBufferQueue q) = Some (dq_pending q)"
| "eq_order (LockFreeQueue q) = None"

lemma eq_order_add: "eq_order (eq_add Q c q) = map_option (\<lambda>cs. cs @ [c]) (eq_order q)"
  by (cases q) simp_all

lemma eq_order_process:
  fixes q :: "('c, 'k) event_queue_impl"
  assumes "eq_order q = Some cs" and "eq_inv Q q"
  obtains q' where "eq_process Q (\<lambda>_. []) q = Some (cs, q')"
proof (cases q)
  case (BlockingQueue b)
  have "bq_process (\<lambda>_. []) b \<noteq> None"
    by (rule bq_process_returns [where rank = "\<lambda>_. 0"]) simp
  then obtain rs b' where run: "bq_process (\<lambda>_. []) b = Some (rs, b')"
    by auto
  moreover have "concat (map (\<lambda>_. []) rs) = ([] :: 'c list)"
    by simp
  ultimately have "rs = bq_queue b"
    using bq_process_fifo(1) [OF run] by (metis append_Nil2)
  with run BlockingQueue assms(1) that show ?thesis
    by simp
next
  case (DoubleBufferQueue d)
  then have "dq_idle d"
    using assms(2) by simp
  then obtain d' where "dq_process (\<lambda>_. []) d = Some (dq_pending d, d')"
    by (rule dq_process_eq)
  with DoubleBufferQueue assms(1) that show ?thesis
    by simp
qed (use assms in simp)

lemma lo_calls_off:
  assumes "eq_inv Q (lo_event_queue w)" and "eq_order (lo_event_queue w) = Some cs"
  shows "\<exists>q. lo_calls Q fd False js w = Inr (w\<lparr>lo_event_queue := q\<rparr>, []) \<and> eq_inv Q q \<and> eq_order q = Some (cs @ js)"
  using assms
proof (induction js arbitrary: w cs)
  case (Cons j js)
  let ?w = "lo_schedule Q j w"
  have "eq_inv Q (lo_event_queue ?w)" "eq_order (lo_event_queue ?w) = Some (cs @ [j])"
    using Cons.prems by (simp_all add: lo_schedule_def eq_order_add any_queue.inv_add)
  from Cons.IH [OF this] obtain q where q: "lo_calls Q fd False js ?w = Inr (?w\<lparr>lo_event_queue := q\<rparr>, [])"
    "eq_inv Q q" "eq_order q = Some (cs @ j # js)"
    by auto
  then have "lo_calls Q fd False (j # js) w = Inr (w\<lparr>lo_event_queue := q\<rparr>, [])"
    by (cases j) (simp_all add: lo_add_def lo_remove_def lo_schedule_def)
  with q show ?case by auto
next
  case Nil
  then show ?case
    by (intro exI [of _ "lo_event_queue w"]) simp
qed

text \<open>What a job does to the selector and which callbacks it runs do not depend on the queue.\<close>

definition lo_effect :: "selector_fatal + (('c, 'k) job_loop \<times> 'c list) \<Rightarrow> selector_fatal + (selector_impl \<times> 'c list)" where
  "lo_effect r = map_sum (\<lambda>e. e) (map_prod lo_selector (\<lambda>cs. cs)) r"

lemma lo_job_queue:
  "lo_job Q fd j (w\<lparr>lo_event_queue := q\<rparr>) =
    map_sum (\<lambda>e. e) (map_prod (\<lambda>w. w\<lparr>lo_event_queue := q\<rparr>) (\<lambda>cs. cs)) (lo_job Q fd j w)"
  by (cases j) (auto simp: lo_add_def lo_remove_def split: sum.split prod.split)

lemma lo_jobs_queue: "lo_effect (lo_jobs Q fd js (w\<lparr>lo_event_queue := q\<rparr>)) = lo_effect (lo_jobs Q fd js w)"
proof (induction js arbitrary: w)
  case (Cons j js)
  show ?case
  proof (cases "lo_job Q fd j w")
    case (Inr p)
    obtain w1 cs where p: "p = (w1, cs)" by fastforce
    have "lo_effect (map_sum (\<lambda>e. e) (map_prod (\<lambda>w. w) ((@) cs)) r) =
        map_sum (\<lambda>e. e) (map_prod (\<lambda>s. s) ((@) cs)) (lo_effect r)" for r :: "selector_fatal + (('a, 'b) job_loop \<times> 'a list)"
      by (cases r) (auto simp: lo_effect_def)
    then show ?thesis
      using Cons.IH [of w1] by (simp add: lo_job_queue Inr p)
  qed (simp add: lo_job_queue lo_effect_def)
qed (simp add: lo_effect_def)

lemma lo_calls_on:
  assumes "\<And>c. JobUser c \<notin> set js"
  shows "lo_calls Q fd True js w = lo_jobs Q fd js w"
  using assms
proof (induction js arbitrary: w)
  case (Cons j js)
  then show ?case by (cases j) (auto split: sum.split prod.split)
qed simp

text \<open>
  C29. Calls of Add and Remove on another thread are the same calls, later: they touch the selector
  only when the loop runs its queue, and then, in the order in which they were made, change it
  and call their callbacks exactly as the same calls on the loop's own thread would have done.
  The event queue is one of the two that keep the order of closures.
\<close>

theorem loop_calls_deferred:
  fixes w :: "('c, 'k) job_loop"
  assumes "\<And>c. JobUser c \<notin> set js" and "eq_inv Q (lo_event_queue w)" and "eq_order (lo_event_queue w) = Some []"
  shows "\<exists>w1 q. lo_calls Q fd False js w = Inr (w1, []) \<and> lo_selector w1 = lo_selector w
    \<and> eq_process Q (\<lambda>_. []) (lo_event_queue w1) = Some (js, q)
    \<and> lo_effect (lo_jobs Q fd js (w1\<lparr>lo_event_queue := q\<rparr>)) = lo_effect (lo_calls Q fd True js w)"
proof -
  obtain q where off: "lo_calls Q fd False js w = Inr (w\<lparr>lo_event_queue := q\<rparr>, [])" and q: "eq_inv Q q" "eq_order q = Some js"
    using lo_calls_off [OF assms(2,3)] by auto
  obtain q' where run: "eq_process Q (\<lambda>_. []) q = Some (js, q')"
    using eq_order_process [OF q(2,1)] .
  have "lo_effect (lo_jobs Q fd js (w\<lparr>lo_event_queue := q'\<rparr>)) = lo_effect (lo_calls Q fd True js w)"
    by (simp add: lo_jobs_queue lo_calls_on [OF assms(1)])
  with off run show ?thesis
    by (intro exI [of _ "w\<lparr>lo_event_queue := q\<rparr>"] exI [of _ q']) simp
qed

definition fresh_loop :: "(nat, nat loop_job list) job_loop" where
  "fresh_loop = \<lparr>lo_options = default_loop_options usec_chrono, lo_selector = make_selector kPoll,
     lo_event_queue = make_event_queue [] kBlockingQueue ec_create,
     lo_timer_queue = make_timer_queue usec_chrono (\<lambda>_. 0) kHeap\<rparr>"

theorem loop_calls_deferred_witness:
  "\<exists>w1 q. lo_calls list_queue_ops int False [JobAdd 7 (Some 1), JobAdd 7 (Some 2), JobRemove 7 (Some 3)] fresh_loop = Inr (w1, [])
    \<and> eq_process list_queue_ops (\<lambda>_. []) (lo_event_queue w1) =
        Some ([JobAdd 7 (Some 1), JobAdd 7 (Some 2), JobRemove 7 (Some 3)], q)
    \<and> map_sum (\<lambda>e. e) snd (lo_effect (lo_jobs list_queue_ops int [JobAdd 7 (Some 1), JobAdd 7 (Some 2), JobRemove 7 (Some 3)]
        (w1\<lparr>lo_event_queue := q\<rparr>))) = Inr [1, 3]"
proof -
  let ?js = "[JobAdd 7 (Some 1), JobAdd 7 (Some 2), JobRemove 7 (Some 3)] :: nat loop_job list"
  have "map_sum (\<lambda>e. e) snd (lo_effect (lo_calls list_queue_ops int True ?js fresh_loop)) = Inr [1, 3]"
    by code_simp
  with loop_calls_deferred [of ?js list_queue_ops fresh_loop int] show ?thesis
    by (fastforce simp: fresh_loop_def bq_create_def)
qed

end
