(* ===== verification/Group_Lifecycle.thy ===== *)
theory Group_Lifecycle
  imports Event_Loop_Properties
begin

text \<open>
  The threads of an event loop group: include/pedronet/eventloopgroup.h (\<open>Create\<close> and the
  destructor) and \<open>Close\<close>, \<open>Join\<close>, \<open>HandleJoin\<close> of src/eventloopgroup.cc, with the destructors of
  its loops.  \<open>Create\<close> starts one thread per loop, which runs \<open>EventLoop::Loop\<close> (\<open>el_step\<close> of
  theory Event\_Loop, from its entry) and ends when \<open>Loop\<close> returns.  The owner of the group calls
  \<open>Join\<close> or destroys it; every statement of these is a step of its own.
\<close>

section \<open>State\<close>

text \<open>
  Where the owner is: using the group, in \<open>Join\<close> (with the threads before \<open>i\<close> joined), in the
  destructor: before either statement of \<open>EventLoop::Close\<close> of loop \<open>i\<close>, in its \<open>HandleJoin\<close>, in
  \<open>~EventLoop\<close> of loop \<open>i\<close>, done.
\<close>

datatype group_pc =
    GroupRunning
  | GroupInJoin nat
  | GroupClosing nat
  | GroupClosingTask nat
  | GroupJoining nat
  | GroupDestroying nat
  | GroupGone

text \<open>\<open>gl_threads\<close>: the size of \<open>threads_\<close>; a thread is out of \<open>joinable()\<close> only once cleared.\<close>

record group_life =
  gl_loops :: "event_loop list"
  gl_threads :: nat
  gl_pc :: group_pc

definition gl_create :: "nat \<Rightarrow> group_life" where
  "gl_create n = \<lparr>gl_loops = replicate n el_create, gl_threads = n, gl_pc = GroupRunning\<rparr>"

definition gl_initial :: "nat \<Rightarrow> group_life \<Rightarrow> bool" where
  "gl_initial n s \<longleftrightarrow> s = gl_create n"

definition gl_set :: "nat \<Rightarrow> event_loop \<Rightarrow> group_life \<Rightarrow> group_life" where
  "gl_set i l s = s\<lparr>gl_loops := (gl_loops s)[i := l]\<rparr>"

text \<open>The thread of loop \<open>i\<close> has returned: \<open>std::thread::join\<close> can return.\<close>

definition gl_thread_ended :: "group_life \<Rightarrow> nat \<Rightarrow> bool" where
  "gl_thread_ended s i \<longleftrightarrow> el_pc (gl_loops s ! i) = LoopDone"

text \<open>The loops that have not been destroyed.\<close>

definition gl_alive :: "group_life \<Rightarrow> nat \<Rightarrow> bool" where
  "gl_alive s i \<longleftrightarrow>
     i < length (gl_loops s) \<and> (case gl_pc s of GroupDestroying k \<Rightarrow> k \<le> i | GroupGone \<Rightarrow> False | _ \<Rightarrow> True)"

section \<open>Steps\<close>

text \<open>A step of a loop's thread, or of another thread that uses the loop; the steps of the owner.\<close>

inductive gl_step :: "(nat \<Rightarrow> loop_call list) \<Rightarrow> group_life \<Rightarrow> group_life \<Rightarrow> bool"
  for body :: "nat \<Rightarrow> loop_call list"
where
  loop_moves: "gl_alive s i \<Longrightarrow> el_step body (gl_loops s ! i) l \<Longrightarrow> gl_step body s (gl_set i l s)"
| call_join: "gl_pc s = GroupRunning \<Longrightarrow> gl_step body s (s\<lparr>gl_pc := GroupInJoin 0\<rparr>)"
| in_join: "gl_pc s = GroupInJoin i \<Longrightarrow> i < gl_threads s \<Longrightarrow> gl_thread_ended s i \<Longrightarrow>
    gl_step body s (s\<lparr>gl_pc := GroupInJoin (i + 1)\<rparr>)"
| join_returns: "gl_pc s = GroupInJoin i \<Longrightarrow> \<not> i < gl_threads s \<Longrightarrow>
    gl_step body s (s\<lparr>gl_threads := 0, gl_pc := GroupRunning\<rparr>)"
| destruct: "gl_pc s = GroupRunning \<Longrightarrow> gl_step body s (s\<lparr>gl_pc := GroupClosing 0\<rparr>)"
| close_flag: "gl_pc s = GroupClosing i \<Longrightarrow> i < length (gl_loops s) \<Longrightarrow>
    gl_step body s (gl_set i (el_close_flag (gl_loops s ! i)) (s\<lparr>gl_pc := GroupClosingTask i\<rparr>))"
| close_task: "gl_pc s = GroupClosingTask i \<Longrightarrow>
    gl_step body s (gl_set i (el_schedule CloseTask (gl_loops s ! i)) (s\<lparr>gl_pc := GroupClosing (i + 1)\<rparr>))"
| closed: "gl_pc s = GroupClosing i \<Longrightarrow> \<not> i < length (gl_loops s) \<Longrightarrow>
    gl_step body s (s\<lparr>gl_pc := GroupJoining 0\<rparr>)"
| join_thread: "gl_pc s = GroupJoining i \<Longrightarrow> i < gl_threads s \<Longrightarrow> gl_thread_ended s i \<Longrightarrow>
    gl_step body s (s\<lparr>gl_pc := GroupJoining (i + 1)\<rparr>)"
| joined: "gl_pc s = GroupJoining i \<Longrightarrow> \<not> i < gl_threads s \<Longrightarrow>
    gl_step body s (s\<lparr>gl_threads := 0, gl_pc := GroupDestroying 0\<rparr>)"
| destroy_loop: "gl_pc s = GroupDestroying i \<Longrightarrow> i < length (gl_loops s) \<Longrightarrow> el_join_returns (gl_loops s ! i) \<Longrightarrow>
    gl_step body s (s\<lparr>gl_pc := GroupDestroying (i + 1)\<rparr>)"
| destroyed: "gl_pc s = GroupDestroying i \<Longrightarrow> \<not> i < length (gl_loops s) \<Longrightarrow>
    gl_step body s (s\<lparr>gl_pc := GroupGone\<rparr>)"

section \<open>The invariant\<close>

definition gl_ended_below :: "group_life \<Rightarrow> nat \<Rightarrow> bool" where
  "gl_ended_below s k \<longleftrightarrow> (\<forall>i < k. gl_thread_ended s i)"

definition gl_inv :: "nat \<Rightarrow> group_life \<Rightarrow> bool" where
  "gl_inv n s \<longleftrightarrow> length (gl_loops s) = n \<and> gl_threads s \<le> n \<and> list_all el_inv (gl_loops s)
     \<and> (gl_threads s < n \<longrightarrow> gl_ended_below s n)
     \<and> (case gl_pc s of
          GroupInJoin i \<Rightarrow> i \<le> gl_threads s \<and> gl_ended_below s i
        | GroupJoining i \<Rightarrow> i \<le> gl_threads s \<and> gl_ended_below s i
        | GroupClosingTask i \<Rightarrow> i < n
        | GroupDestroying i \<Rightarrow> gl_ended_below s n
        | GroupGone \<Rightarrow> gl_ended_below s n
        | _ \<Rightarrow> True)"

lemma el_done_step: "el_step body l l' \<Longrightarrow> el_pc l = LoopDone \<Longrightarrow> el_pc l' = LoopDone"
  by (auto elim!: el_step.cases)

lemma gl_set_simps [simp]:
  "length (gl_loops (gl_set i l s)) = length (gl_loops s)" "gl_pc (gl_set i l s) = gl_pc s"
  "gl_threads (gl_set i l s) = gl_threads s"
  by (simp_all add: gl_set_def)

lemma gl_ended_set:
  "gl_ended_below s k \<Longrightarrow> (el_pc (gl_loops s ! i) = LoopDone \<Longrightarrow> el_pc l = LoopDone) \<Longrightarrow> gl_ended_below (gl_set i l s) k"
  by (auto simp: gl_ended_below_def gl_thread_ended_def gl_set_def nth_list_update list_update_beyond)
    (metis list_update_beyond not_le nth_list_update)

lemma gl_ended_pc [simp]:
  "gl_thread_ended (s\<lparr>gl_pc := p\<rparr>) i = gl_thread_ended s i" "gl_thread_ended (s\<lparr>gl_threads := m\<rparr>) i = gl_thread_ended s i"
  "gl_ended_below s 0"
  "gl_ended_below (s\<lparr>gl_pc := p\<rparr>) k = gl_ended_below s k" "gl_ended_below (s\<lparr>gl_threads := m\<rparr>) k = gl_ended_below s k"
  by (simp_all add: gl_ended_below_def gl_thread_ended_def)

lemma gl_ended_Suc: "gl_ended_below s i \<Longrightarrow> gl_thread_ended s i \<Longrightarrow> gl_ended_below s (Suc i)"
  by (auto simp: gl_ended_below_def less_Suc_eq)

lemma gl_inv_set:
  assumes "gl_inv n s" and "i < length (gl_loops s)" and "el_inv l"
    and "el_pc (gl_loops s ! i) = LoopDone \<Longrightarrow> el_pc l = LoopDone"
  shows "gl_inv n (gl_set i l s)"
proof -
  note e = gl_ended_set [where s = s and i = i and l = l, OF _ assms(4)]
  have "list_all el_inv (gl_loops (gl_set i l s))"
    using assms(1-3) by (auto simp: gl_inv_def gl_set_def list_all_length nth_list_update)
  with assms(1) show ?thesis
    by (auto simp: gl_inv_def intro: e split: group_pc.splits)
qed

lemma gl_inv_pc:
  assumes "gl_inv n s"
  shows "gl_pc s = GroupClosing i \<Longrightarrow> i < n \<Longrightarrow> gl_inv n (s\<lparr>gl_pc := GroupClosingTask i\<rparr>)"
    and "gl_inv n (s\<lparr>gl_pc := GroupClosing k\<rparr>)"
  using assms by (auto simp: gl_inv_def)

lemma gl_inv_step:
  assumes "gl_inv n s" and "gl_step body s t"
  shows "gl_inv n t"
  using assms(2)
proof cases
  case (loop_moves i l)
  then have i: "i < length (gl_loops s)"
    by (simp add: gl_alive_def)
  with assms(1) have "el_inv (gl_loops s ! i)"
    by (auto simp: gl_inv_def list_all_length)
  then have "el_inv l"
    using loop_moves(3) by (rule el_inv_step)
  with loop_moves i assms(1) show ?thesis
    by (auto intro: gl_inv_set el_done_step)
next
  case (close_flag i)
  have "el_inv (el_close_flag (gl_loops s ! i))"
    using assms(1) close_flag(3) by (intro el_inv_moves [OF el_callback_moves_flag]) (auto simp: gl_inv_def list_all_length)
  moreover have "gl_inv n (s\<lparr>gl_pc := GroupClosingTask i\<rparr>)"
    using assms(1) close_flag(2,3) by (intro gl_inv_pc) (auto simp: gl_inv_def)
  ultimately show ?thesis
    unfolding close_flag(1) using close_flag(3) by (intro gl_inv_set) simp_all
next
  case (close_task i)
  have i: "i < length (gl_loops s)"
    using assms(1) close_task(2) by (simp add: gl_inv_def)
  have "el_inv (el_schedule CloseTask (gl_loops s ! i))"
    using assms(1) i by (intro el_inv_moves [OF callbacks.schedule]) (auto simp: gl_inv_def list_all_length)
  moreover have "gl_inv n (s\<lparr>gl_pc := GroupClosing (i + 1)\<rparr>)"
    using assms(1) by (rule gl_inv_pc)
  ultimately show ?thesis
    unfolding close_task(1) using i by (intro gl_inv_set) simp_all
next
  case (join_returns i)
  with assms(1) show ?thesis
    by (cases "gl_threads s < n") (auto simp: gl_inv_def)
next
  case (joined i)
  with assms(1) show ?thesis
    by (cases "gl_threads s < n") (auto simp: gl_inv_def)
qed (use assms(1) in \<open>auto simp: gl_inv_def intro: gl_ended_Suc\<close>)

interpretation group: invariant_system "gl_initial n" "gl_step body" "gl_inv n"
  for n body
proof
  show "gl_initial n s \<Longrightarrow> gl_inv n s" for s
    by (simp add: gl_initial_def gl_create_def gl_inv_def el_inv_create list_all_length)
qed (rule gl_inv_step)

section \<open>Properties\<close>

text \<open>
  C11. A group never destroys a loop under its thread.  Whatever the loops, their users and the owner
  do, and whether or not the owner called Join before: when the first loop is about to be destroyed,
  and from then on, every thread of the group has left Loop, with its thread-local pointer to the
  loop reset; and when Join has returned they have all left it as well.
\<close>

theorem group_outlives_threads:
  assumes "reachable (gl_initial n) (gl_step body) s"
    and "(\<exists>k. gl_pc s = GroupDestroying k) \<or> gl_pc s = GroupGone \<or> gl_threads s < n"
  shows "length (gl_loops s) = n \<and> (\<forall>i < n. el_pc (gl_loops s ! i) = LoopDone \<and> \<not> el_current (gl_loops s ! i))"
proof -
  have inv: "gl_inv n s"
    using assms(1) by (rule group.inv_reachable)
  with assms(2) have "gl_ended_below s n"
    by (auto simp: gl_inv_def)
  moreover have "el_inv (gl_loops s ! i)" if "i < n" for i
    using inv that by (simp add: gl_inv_def list_all_length)
  ultimately show ?thesis
    using inv by (auto simp: gl_inv_def gl_ended_below_def gl_thread_ended_def el_inv_def el_pc_defs)
qed

text \<open>
  The owner of a group calls \<open>Close\<close> and \<open>Join\<close> in its destructor; the owner of a loop has only
  \<open>EventLoop::Join\<close> and the destructor, which wait for the latch.
\<close>

lemma el_join_while_draining:
  "\<exists>s. reachable el_initial (el_step body) s \<and> el_ran s = [CloseTask] \<and> el_pc s = LoopDrain [] \<and> el_latch s = 0
    \<and> el_current s"
proof -
  let ?w1 = "(el_close_flag el_waiting)\<lparr>el_closing := el_closing el_waiting + 1\<rparr>"
  let ?s = "(el_schedule CloseTask ?w1)\<lparr>el_closing := el_closing ?w1 - 1\<rparr>"
  let ?s1 = "?s\<lparr>el_pc := LoopRound [ReportQueue]\<rparr>"
  let ?ch = "(bq_channel (el_queue ?s1))\<lparr>ec_counter := 0\<rparr>"
  let ?s2 = "?s1\<lparr>el_queue := (el_queue ?s1)\<lparr>bq_channel := ?ch\<rparr>, el_pc := LoopDrain []\<rparr>"
  let ?q = "(el_queue ?s2)\<lparr>bq_queue := []\<rparr>"
  let ?s3 = "el_task body CloseTask (?s2\<lparr>el_queue := ?q, el_ran := el_ran ?s2 @ [CloseTask]\<rparr>)"
  have rings: "ec_counter (bq_channel (el_queue ?s)) = 1" "bq_queue (el_queue ?s) = [CloseTask]"
    by (simp_all add: el_schedule_def bq_add_def ec_wakeup_def EVENTFD_MAX_def bq_create_def ec_create_def Let_def)
  have "el_step body el_waiting ?w1"
    by (rule el_step.ext_close_flag)
  moreover have "el_step body ?w1 ?s"
    by (rule el_step.ext_close_task) simp
  moreover have "el_step body ?s ?s1"
    by (rule el_step.wait_reports) (use rings in \<open>simp_all add: ec_readable_def\<close>)
  moreover have "el_step body ?s1 ?s2"
    by (rule el_step.handle_queue) (use rings in \<open>simp_all add: ec_read_def\<close>)
  moreover have "el_step body ?s2 ?s3"
    by (rule el_step.drain [where rs = "[]"]) (use rings in \<open>simp_all add: bq_pop_def\<close>)
  ultimately have "(el_step body)\<^sup>*\<^sup>* el_waiting ?s3"
    by (meson converse_rtranclp_into_rtranclp r_into_rtranclp)
  then have "reachable el_initial (el_step body) ?s3"
    using el_waiting_reachable by (rule reachable_rtranclp)
  moreover have "el_ran ?s3 = [CloseTask]" "el_pc ?s3 = LoopDrain []" "el_latch ?s3 = 0" "el_current ?s3"
    by simp_all
  ultimately show ?thesis
    by blast
qed

text \<open>
  A loop used without a group can be destroyed under its thread.  EventLoop::Join, and the
  destructor of the loop, wait for the latch that the task of Close counts down, and that task runs
  inside Process: there is a run in which the latch is down, so that Join and the destructor return,
  while the thread is still inside Process of the event queue and goes on to use the queue, the
  selector and the state of the loop.  The same holds before the thread has entered Loop.
\<close>

theorem loop_join_too_early:
  "(\<exists>s. reachable el_initial (el_step body) s \<and> el_ran s = [CloseTask] \<and> el_join_returns s
      \<and> el_pc s = LoopDrain [] \<and> el_current s) \<and>
   (\<exists>s. reachable el_initial (el_step body) s \<and> el_join_returns s \<and> el_pc s = LoopLoaded 0)"
proof
  show "\<exists>s. reachable el_initial (el_step body) s \<and> el_ran s = [CloseTask] \<and> el_join_returns s
      \<and> el_pc s = LoopDrain [] \<and> el_current s"
    using el_join_while_draining [of body] by (auto simp: el_join_returns_def)
  let ?s = "el_create\<lparr>el_pc := LoopLoaded (el_state el_create)\<rparr>"
  have "el_step body el_create ?s"
    by (rule el_step.load) (simp add: el_create_def)
  then have "reachable el_initial (el_step body) ?s"
    by (rule reachable.next_step [OF reachable.start, rotated]) (simp add: el_initial_def)
  then show "\<exists>s. reachable el_initial (el_step body) s \<and> el_join_returns s \<and> el_pc s = LoopLoaded 0"
    by (intro exI [of _ ?s]) (simp add: el_join_returns_def el_create_def)
qed

text \<open>
  A quiet end: every loop sleeps in \<open>Wait\<close> until the task of \<open>Close\<close> is in its queue, and then
  \<open>Wait\<close> reports the event channel.
\<close>

definition el_wakes_for_close :: "event_loop \<Rightarrow> event_loop \<Rightarrow> bool" where
  "el_wakes_for_close l l' \<longleftrightarrow>
     (el_pc l = LoopWaiting \<and> el_pc l' \<noteq> LoopWaiting \<longrightarrow>
        CloseTask \<in> set (bq_queue (el_queue l)) \<and>
        (\<exists>rs. el_pc l' = LoopRound rs \<and>
          (el_watched l \<and> ec_readable (bq_channel (el_queue l)) \<longrightarrow> ReportQueue \<in> set rs)))"

definition gl_quiet_step :: "(nat \<Rightarrow> loop_call list) \<Rightarrow> group_life \<Rightarrow> group_life \<Rightarrow> bool" where
  "gl_quiet_step body s t \<longleftrightarrow> gl_step body s t \<and>
     (\<forall>i < length (gl_loops s). el_wakes_for_close (gl_loops s ! i) (gl_loops t ! i))"

definition el_to_close :: "event_loop \<Rightarrow> bool" where
  "el_to_close l \<longleftrightarrow> el_pc l = LoopWaiting \<or> el_heads_for_close l"

lemma el_to_close_step:
  assumes "el_step body l l'" and "el_wakes_for_close l l'" and "el_inv l" and "el_to_close l"
  shows "el_to_close l'"
proof (cases "el_pc l' = LoopWaiting")
  case False
  have "el_prompt_step body l l'"
    using assms(1,2) False by (auto simp: el_prompt_step_def el_wakes_for_close_def)
  moreover have "el_heads_for_close l"
    using assms(2,4) False by (auto simp: el_to_close_def el_wakes_for_close_def el_heads_for_close_def)
  ultimately show ?thesis
    using el_heads_step assms(3) by (auto simp: el_to_close_def)
qed (simp add: el_to_close_def)

lemma el_to_close_calls:
  "el_to_close l \<Longrightarrow> el_to_close (el_close_flag l)" "el_to_close l \<Longrightarrow> el_to_close (el_schedule k l)"
  using el_heads_moves [OF el_callback_moves_flag, of l] el_heads_moves [OF callbacks.schedule, of l k]
  by (auto simp: el_to_close_def)

lemma list_all_set: "list_all P xs \<Longrightarrow> P x \<Longrightarrow> list_all P (xs[i := x])"
  by (auto simp: list_all_iff dest: set_update_subset_insert [THEN subsetD])

lemma gl_quiet_to_close:
  assumes "gl_quiet_step body s t" and "gl_inv n s" and "list_all el_to_close (gl_loops s)"
  shows "list_all el_to_close (gl_loops t)"
proof -
  have "gl_step body s t"
    using assms(1) by (simp add: gl_quiet_step_def)
  then show ?thesis
  proof cases
    case (loop_moves i l)
    then have i: "i < length (gl_loops s)"
      by (simp add: gl_alive_def)
    with loop_moves assms(1) have "el_wakes_for_close (gl_loops s ! i) l"
      by (auto simp: gl_quiet_step_def gl_set_def)
    moreover have "el_inv (gl_loops s ! i)" "el_to_close (gl_loops s ! i)"
      using i assms(2,3) by (auto simp: gl_inv_def list_all_length)
    ultimately have "el_to_close l"
      using el_to_close_step [OF loop_moves(3)] by blast
    with loop_moves(1) assms(3) show ?thesis
      by (simp add: gl_set_def list_all_set)
  next
    case (close_flag i)
    with assms(3) have "el_to_close (el_close_flag (gl_loops s ! i))"
      by (auto simp: list_all_length intro: el_to_close_calls)
    with close_flag(1) assms(3) show ?thesis
      by (simp add: gl_set_def list_all_set)
  next
    case (close_task i)
    with assms(2,3) have "el_to_close (el_schedule CloseTask (gl_loops s ! i))"
      by (auto simp: gl_inv_def list_all_length intro: el_to_close_calls)
    with close_task(1) assms(3) show ?thesis
      by (simp add: gl_set_def list_all_set)
  qed (use assms(3) in simp_all)
qed

text \<open>
  C12. Destroying a quiet group does not hang in the destructors of its loops.  All loops sleep in Wait
  when the destructor of the group begins; each sleeps on until the task of its Close is queued, and
  then Wait reports the event channel.  In every such run, when the destructor comes to destroy loop
  i, the task of its Close has run, and the wait of the destructor of the loop returns.
\<close>

theorem group_destroys:
  assumes "reachable (gl_initial n) (gl_step body) s" and "gl_pc s = GroupClosing 0"
    and "\<forall>l \<in> set (gl_loops s). el_pc l = LoopWaiting"
    and "(gl_quiet_step body)\<^sup>*\<^sup>* s t" and "gl_pc t = GroupDestroying i" and "i < n"
  shows "CloseTask \<in> set (el_ran (gl_loops t ! i)) \<and> el_join_returns (gl_loops t ! i)"
proof -
  have "gl_inv n t \<and> list_all el_to_close (gl_loops t)"
    using assms(4)
  proof (induction rule: rtranclp_induct)
    case base
    show ?case
      using group.inv_reachable [OF assms(1)] assms(3) by (simp add: list_all_iff el_to_close_def)
  next
    case (step t u)
    then show ?case
      using gl_inv_step gl_quiet_to_close by (auto simp: gl_quiet_step_def)
  qed
  with assms(5,6) have "el_to_close (gl_loops t ! i)" "el_inv (gl_loops t ! i)" "el_pc (gl_loops t ! i) = LoopDone"
    by (auto simp: gl_inv_def list_all_length gl_ended_below_def gl_thread_ended_def)
  then show ?thesis
    by (auto simp: el_to_close_def el_heads_for_close_def el_inv_def el_join_returns_def)
qed

section \<open>A group of one loop\<close>

definition gl_one :: "group_pc \<Rightarrow> event_loop \<Rightarrow> group_life" where
  "gl_one p l = \<lparr>gl_loops = [l], gl_threads = 1, gl_pc = p\<rparr>"

lemma gl_one_loop:
  assumes "el_step body l l'" and "p = GroupRunning \<or> p = GroupJoining 0"
  shows "gl_step body (gl_one p l) (gl_one p l')"
  using gl_step.loop_moves [of "gl_one p l" 0 body l'] assms by (auto simp: gl_one_def gl_alive_def gl_set_def)

definition el_quiet_step :: "(nat \<Rightarrow> loop_call list) \<Rightarrow> event_loop \<Rightarrow> event_loop \<Rightarrow> bool" where
  "el_quiet_step body l l' \<longleftrightarrow> el_step body l l' \<and> el_wakes_for_close l l'"

lemma gl_one_quiet:
  assumes "(el_quiet_step body)\<^sup>*\<^sup>* l l'"
  shows "(gl_quiet_step body)\<^sup>*\<^sup>* (gl_one (GroupJoining 0) l) (gl_one (GroupJoining 0) l')"
  using assms
proof (induction rule: rtranclp_induct)
  case (step l1 l2)
  then have "gl_step body (gl_one (GroupJoining 0) l1) (gl_one (GroupJoining 0) l2)" "el_wakes_for_close l1 l2"
    by (auto simp: el_quiet_step_def intro: gl_one_loop)
  then have "gl_quiet_step body (gl_one (GroupJoining 0) l1) (gl_one (GroupJoining 0) l2)"
    by (simp add: gl_quiet_step_def) (simp add: gl_one_def)
  with step.IH show ?case by simp
qed simp

lemma gl_one_reachable:
  assumes "reachable el_initial (el_step body) l"
  shows "reachable (gl_initial 1) (gl_step body) (gl_one GroupRunning l)"
  using assms
proof (induction rule: reachable.induct)
  case (start l)
  then show ?case
    by (intro reachable.start) (simp add: gl_initial_def gl_create_def gl_one_def el_initial_def)
next
  case (next_step l l')
  then show ?case
    by (blast intro: reachable.next_step gl_one_loop)
qed

lemma el_close_run:
  "\<exists>l. (el_quiet_step body)\<^sup>*\<^sup>* (el_schedule CloseTask (el_close_flag el_waiting)) l \<and> el_pc l = LoopDone"
proof -
  let ?s = "el_schedule CloseTask (el_close_flag el_waiting)"
  let ?s1 = "?s\<lparr>el_pc := LoopRound [ReportQueue]\<rparr>"
  let ?ch = "(bq_channel (el_queue ?s1))\<lparr>ec_counter := 0\<rparr>"
  let ?s2 = "?s1\<lparr>el_queue := (el_queue ?s1)\<lparr>bq_channel := ?ch\<rparr>, el_pc := LoopDrain []\<rparr>"
  let ?q = "(el_queue ?s2)\<lparr>bq_queue := []\<rparr>"
  let ?s3 = "el_task body CloseTask (?s2\<lparr>el_queue := ?q, el_ran := el_ran ?s2 @ [CloseTask]\<rparr>)"
  let ?s4 = "?s3\<lparr>el_pc := LoopRound []\<rparr>"
  let ?s5 = "?s4\<lparr>el_pc := LoopCheck\<rparr>"
  let ?t = "?s5\<lparr>el_pc := LoopDone, el_current := False\<rparr>"
  have rings: "ec_counter (bq_channel (el_queue ?s)) = 1" "bq_queue (el_queue ?s) = [CloseTask]"
    by (simp_all add: el_schedule_def bq_add_def ec_wakeup_def EVENTFD_MAX_def bq_create_def ec_create_def Let_def)
  have "el_step body ?s ?s1"
    by (rule el_step.wait_reports) (use rings in \<open>simp_all add: ec_readable_def\<close>)
  then have "el_quiet_step body ?s ?s1"
    using rings by (simp add: el_quiet_step_def el_wakes_for_close_def)
  moreover have "el_step body ?s1 ?s2"
    by (rule el_step.handle_queue) (use rings in \<open>simp_all add: ec_read_def\<close>)
  then have "el_quiet_step body ?s1 ?s2"
    by (simp add: el_quiet_step_def el_wakes_for_close_def)
  moreover have "el_step body ?s2 ?s3"
    by (rule el_step.drain [where rs = "[]"]) (use rings in \<open>simp_all add: bq_pop_def\<close>)
  then have "el_quiet_step body ?s2 ?s3"
    by (simp add: el_quiet_step_def el_wakes_for_close_def)
  moreover have "el_step body ?s3 ?s4"
    by (rule el_step.drained [where rs = "[]"]) (simp_all add: bq_pop_def)
  then have "el_quiet_step body ?s3 ?s4"
    by (simp add: el_quiet_step_def el_wakes_for_close_def)
  moreover have "el_step body ?s4 ?s5"
    by (rule el_step.round_end) simp
  then have "el_quiet_step body ?s4 ?s5"
    by (simp add: el_quiet_step_def el_wakes_for_close_def)
  moreover have "el_step body ?s5 ?t"
    by (rule el_step.leave) (simp_all add: el_looping_def el_close_flag_def)
  then have "el_quiet_step body ?s5 ?t"
    by (simp add: el_quiet_step_def el_wakes_for_close_def)
  ultimately have "(el_quiet_step body)\<^sup>*\<^sup>* ?s ?t"
    by (meson converse_rtranclp_into_rtranclp r_into_rtranclp)
  then show ?thesis
    by (intro exI [of _ ?t]) simp
qed

lemma gl_one_closes:
  "\<exists>l. (gl_quiet_step body)\<^sup>*\<^sup>* (gl_one (GroupClosing 0) el_waiting) \<lparr>gl_loops = [l], gl_threads = 0, gl_pc = GroupDestroying 0\<rparr>
    \<and> el_pc l = LoopDone"
proof -
  obtain l where l: "(el_quiet_step body)\<^sup>*\<^sup>* (el_schedule CloseTask (el_close_flag el_waiting)) l" "el_pc l = LoopDone"
    using el_close_run by blast
  let ?f = "el_close_flag el_waiting" and ?c = "el_schedule CloseTask (el_close_flag el_waiting)"
  let ?d = "\<lparr>gl_loops = [l], gl_threads = 0, gl_pc = GroupDestroying 0\<rparr>"
  have "gl_step body (gl_one (GroupClosing 0) el_waiting) (gl_one (GroupClosingTask 0) ?f)"
    using gl_step.close_flag [of "gl_one (GroupClosing 0) el_waiting" 0 body] by (simp add: gl_one_def gl_set_def)
  then have 1: "gl_quiet_step body (gl_one (GroupClosing 0) el_waiting) (gl_one (GroupClosingTask 0) ?f)"
    by (simp add: gl_quiet_step_def el_wakes_for_close_def gl_one_def)
  have "gl_step body (gl_one (GroupClosingTask 0) ?f) (gl_one (GroupClosing 1) ?c)"
    using gl_step.close_task [of "gl_one (GroupClosingTask 0) ?f" 0 body] by (simp add: gl_one_def gl_set_def)
  then have 2: "gl_quiet_step body (gl_one (GroupClosingTask 0) ?f) (gl_one (GroupClosing 1) ?c)"
    by (simp add: gl_quiet_step_def el_wakes_for_close_def gl_one_def)
  have "gl_step body (gl_one (GroupClosing 1) ?c) (gl_one (GroupJoining 0) ?c)"
    using gl_step.closed [of "gl_one (GroupClosing 1) ?c" 1 body] by (simp add: gl_one_def)
  then have 3: "gl_quiet_step body (gl_one (GroupClosing 1) ?c) (gl_one (GroupJoining 0) ?c)"
    by (simp add: gl_quiet_step_def el_wakes_for_close_def gl_one_def)
  have "gl_step body (gl_one (GroupJoining 0) l) (gl_one (GroupJoining 1) l)"
    using gl_step.join_thread [of "gl_one (GroupJoining 0) l" 0 body] l(2) by (simp add: gl_one_def gl_thread_ended_def)
  then have 4: "gl_quiet_step body (gl_one (GroupJoining 0) l) (gl_one (GroupJoining 1) l)"
    by (simp add: gl_quiet_step_def el_wakes_for_close_def gl_one_def)
  have "gl_step body (gl_one (GroupJoining 1) l) ?d"
    using gl_step.joined [of "gl_one (GroupJoining 1) l" 1 body] by (simp add: gl_one_def)
  then have 5: "gl_quiet_step body (gl_one (GroupJoining 1) l) ?d"
    by (simp add: gl_quiet_step_def el_wakes_for_close_def gl_one_def)
  have "(gl_quiet_step body)\<^sup>*\<^sup>* (gl_one (GroupClosing 0) el_waiting) (gl_one (GroupJoining 0) ?c)"
    using 1 2 3 by (meson converse_rtranclp_into_rtranclp r_into_rtranclp)
  moreover have "(gl_quiet_step body)\<^sup>*\<^sup>* (gl_one (GroupJoining 0) l) ?d"
    using 4 5 by (meson converse_rtranclp_into_rtranclp r_into_rtranclp)
  ultimately have "(gl_quiet_step body)\<^sup>*\<^sup>* (gl_one (GroupClosing 0) el_waiting) ?d"
    using gl_one_quiet [OF l(1)] by (meson rtranclp_trans)
  with l(2) show ?thesis by blast
qed

lemma gl_one_closing_reachable: "reachable (gl_initial 1) (gl_step body) (gl_one (GroupClosing 0) el_waiting)"
  using gl_step.destruct [of "gl_one GroupRunning el_waiting" body]
  by (intro reachable.next_step [OF gl_one_reachable [OF el_waiting_reachable]]) (simp add: gl_one_def)

theorem group_destroys_witness:
  "\<exists>t. reachable (gl_initial 1) (gl_step (\<lambda>_. [])) t \<and> gl_pc t = GroupDestroying 0 \<and>
     CloseTask \<in> set (el_ran (gl_loops t ! 0)) \<and> el_join_returns (gl_loops t ! 0)"
proof -
  obtain l where run: "(gl_quiet_step (\<lambda>_. []))\<^sup>*\<^sup>* (gl_one (GroupClosing 0) el_waiting)
      \<lparr>gl_loops = [l], gl_threads = 0, gl_pc = GroupDestroying 0\<rparr>"
    using gl_one_closes by blast
  have steps: "(gl_step (\<lambda>_. []))\<^sup>*\<^sup>* (gl_one (GroupClosing 0) el_waiting)
      \<lparr>gl_loops = [l], gl_threads = 0, gl_pc = GroupDestroying 0\<rparr>"
    by (rule rtranclp_mono [THEN predicate2D, OF _ run]) (auto simp: gl_quiet_step_def)
  have "CloseTask \<in> set (el_ran (gl_loops \<lparr>gl_loops = [l], gl_threads = 0, gl_pc = GroupDestroying 0\<rparr> ! 0))
    \<and> el_join_returns (gl_loops \<lparr>gl_loops = [l], gl_threads = 0, gl_pc = GroupDestroying 0\<rparr> ! 0)"
    by (rule group_destroys [OF gl_one_closing_reachable _ _ run]) (simp_all add: gl_one_def)
  with reachable_rtranclp [OF steps gl_one_closing_reachable] show ?thesis
    by (intro exI [of _ "\<lparr>gl_loops = [l], gl_threads = 0, gl_pc = GroupDestroying 0\<rparr>"]) simp
qed

theorem group_outlives_threads_witness:
  "\<exists>s. reachable (gl_initial 1) (gl_step (\<lambda>_. [])) s \<and> gl_pc s = GroupDestroying 0 \<and>
     el_pc (gl_loops s ! 0) = LoopDone \<and> \<not> el_current (gl_loops s ! 0)"
proof -
  obtain l where run: "(gl_quiet_step (\<lambda>_. []))\<^sup>*\<^sup>* (gl_one (GroupClosing 0) el_waiting)
      \<lparr>gl_loops = [l], gl_threads = 0, gl_pc = GroupDestroying 0\<rparr>"
    using gl_one_closes by blast
  have "(gl_step (\<lambda>_. []))\<^sup>*\<^sup>* (gl_one (GroupClosing 0) el_waiting)
      \<lparr>gl_loops = [l], gl_threads = 0, gl_pc = GroupDestroying 0\<rparr>"
    by (rule rtranclp_mono [THEN predicate2D, OF _ run]) (auto simp: gl_quiet_step_def)
  then have r: "reachable (gl_initial 1) (gl_step (\<lambda>_. [])) \<lparr>gl_loops = [l], gl_threads = 0, gl_pc = GroupDestroying 0\<rparr>"
    using gl_one_closing_reachable by (rule reachable_rtranclp)
  with group_outlives_threads [OF r] show ?thesis
    by (intro exI [of _ "\<lparr>gl_loops = [l], gl_threads = 0, gl_pc = GroupDestroying 0\<rparr>"]) simp
qed

end
