(* ===== verification/Socket_Calls.thy ===== *)
theory Socket_Calls
  imports Pedronet_Prelude
begin

text \<open>
  src/socket.cc: the operations of \<open>Socket\<close> around system calls, as functions of what the
  calls return.  An error code 0 is \<open>Error::Success()\<close>; \<open>PEDRONET_FATAL\<close> ends the program.
  The file descriptor of a socket is its value; \<open>kInvalidFd\<close> of pedrolib's \<open>File\<close> is -1, the
  value the failing system calls return.
\<close>

section \<open>Operations\<close>

datatype socket_fatal = FatalSocket int | FatalBind int | FatalListen int | FatalShutdown

definition kInvalidFd :: int where "kInvalidFd = -1"

text \<open>\<open>::socket\<close> returned \<open>ret\<close>.\<close>

definition sk_create :: "int \<Rightarrow> int \<Rightarrow> socket_fatal + int" where
  "sk_create ret errno = (if ret < 0 then Inl (FatalSocket errno) else Inr ret)"

text \<open>\<open>getsockopt(SO_ERROR)\<close> returned \<open>ret\<close> and stored \<open>val\<close>.\<close>

definition sk_get_error :: "int \<Rightarrow> int \<Rightarrow> int \<Rightarrow> int" where
  "sk_get_error ret val errno = (if ret < 0 then errno else val)"

definition sk_bind :: "int \<Rightarrow> int \<Rightarrow> socket_fatal option" where
  "sk_bind ret so_error = (if ret \<noteq> 0 then Some (FatalBind so_error) else None)"

definition sk_listen :: "int \<Rightarrow> int \<Rightarrow> socket_fatal option" where
  "sk_listen ret errno = (if ret < 0 then Some (FatalListen errno) else None)"

text \<open>\<open>::connect\<close> returned \<open>ret\<close>; \<open>so_error\<close> is what \<open>GetError\<close> then gives.\<close>

definition sk_connect :: "int \<Rightarrow> int \<Rightarrow> int" where
  "sk_connect ret so_error = (if ret \<noteq> 0 then so_error else 0)"

definition sk_close_write :: "int \<Rightarrow> socket_fatal option" where
  "sk_close_write ret = (if ret < 0 then Some FatalShutdown else None)"

definition sk_shutdown :: "int \<Rightarrow> socket_fatal option" where
  "sk_shutdown ret = (if ret < 0 then Some FatalShutdown else None)"

text \<open>
  \<open>Accept\<close>: the descriptor \<open>accept4\<close> returned, the socket to assign to.  The result is the
  error, the descriptor of \<open>*socket\<close> afterwards and the descriptors closed on the way (the one
  that the move assignment replaces).
\<close>

definition sk_move_assign :: "int \<Rightarrow> int \<Rightarrow> int list \<times> int \<times> int" where
  "sk_move_assign this other = ((if this = kInvalidFd then [] else [this]), other, kInvalidFd)"

definition sk_accept :: "int \<Rightarrow> int \<Rightarrow> int \<Rightarrow> int \<times> int \<times> int list" where
  "sk_accept ret errno socket =
     (if ret = kInvalidFd then (errno, socket, [])
      else case sk_move_assign socket ret of (closed, this, other) \<Rightarrow> (0, this, closed))"

section \<open>Options\<close>

record socket_options =
  so_reuse_addr :: bool
  so_reuse_port :: bool
  so_keep_alive :: bool
  so_tcp_no_delay :: bool

definition default_socket_options :: socket_options where
  "default_socket_options =
     \<lparr>so_reuse_addr = True, so_reuse_port = False, so_keep_alive = True, so_tcp_no_delay = True\<rparr>"

datatype sock_opt = SO_REUSEADDR | SO_REUSEPORT | SO_KEEPALIVE | TCP_NODELAY

text \<open>The options of the kernel socket, each set to 0 or 1.\<close>

type_synonym sock_opts = "sock_opt \<Rightarrow> int"

definition sk_setsockopt :: "sock_opt \<Rightarrow> bool \<Rightarrow> sock_opts \<Rightarrow> sock_opts" where
  "sk_setsockopt opt on s = (let val = (if on then 1 else 0) in s(opt := val))"

definition sk_set_reuse_addr :: "bool \<Rightarrow> sock_opts \<Rightarrow> sock_opts" where
  "sk_set_reuse_addr on s = sk_setsockopt SO_REUSEADDR on s"

definition sk_set_reuse_port :: "bool \<Rightarrow> sock_opts \<Rightarrow> sock_opts" where
  "sk_set_reuse_port on s = sk_setsockopt SO_REUSEPORT on s"

definition sk_set_keep_alive :: "bool \<Rightarrow> sock_opts \<Rightarrow> sock_opts" where
  "sk_set_keep_alive on s = sk_setsockopt SO_KEEPALIVE on s"

definition sk_set_tcp_no_delay :: "bool \<Rightarrow> sock_opts \<Rightarrow> sock_opts" where
  "sk_set_tcp_no_delay on s = sk_setsockopt TCP_NODELAY on s"

definition sk_set_options :: "socket_options \<Rightarrow> sock_opts \<Rightarrow> sock_opts" where
  "sk_set_options o1 s =
     sk_set_tcp_no_delay (so_tcp_no_delay o1) (sk_set_reuse_port (so_reuse_port o1)
       (sk_set_reuse_addr (so_reuse_addr o1) (sk_set_keep_alive (so_keep_alive o1) s)))"

section \<open>Facts\<close>

text \<open>An accepted descriptor is handed over exactly once, and a failed accept touches nothing.\<close>

lemma sk_accept_cases:
  "ret \<noteq> kInvalidFd \<Longrightarrow> fst (snd (sk_accept ret errno socket)) = ret"
  "ret = kInvalidFd \<Longrightarrow> sk_accept ret errno socket = (errno, socket, [])"
  "fst (sk_accept ret errno socket) = 0 \<Longrightarrow> errno \<noteq> 0 \<Longrightarrow> ret \<noteq> kInvalidFd"
  by (auto simp: sk_accept_def sk_move_assign_def split: if_splits)

lemma sk_set_options_all:
  "sk_set_options o1 s opt =
     (case opt of SO_REUSEADDR \<Rightarrow> of_bool (so_reuse_addr o1) | SO_REUSEPORT \<Rightarrow> of_bool (so_reuse_port o1)
      | SO_KEEPALIVE \<Rightarrow> of_bool (so_keep_alive o1) | TCP_NODELAY \<Rightarrow> of_bool (so_tcp_no_delay o1))"
  by (cases opt) (simp_all add: sk_set_options_def sk_set_reuse_addr_def sk_set_reuse_port_def
      sk_set_keep_alive_def sk_set_tcp_no_delay_def sk_setsockopt_def Let_def)

text \<open>A failed \<open>connect\<close> without a pending socket error looks like success.\<close>

lemma sk_connect_zero: "sk_connect ret 0 = 0"
  by (simp add: sk_connect_def)

end
