(* ===== verification/Tcp_Client.thy ===== *)
theory Tcp_Client
  imports Socket_Calls Net_Environment
begin

text \<open>
  include/pedronet/tcp\_client.h and src/tcp\_client.cc: the states of a client, its one attempt
  to connect at a time, the connection it makes and the calls it forwards to it.

  A connection is the number of its creation.  \<open>cl_raises\<close> counts the runs of
  \<open>raiseConnection\<close> that the loop still has to make (the task of \<open>Start\<close>, the timers of
  \<open>retry\<close>).  \<open>handleConnection\<close> starts the connection, which calls the user's OnConnect, before
  it stores it in \<open>conn_\<close>: \<open>cl_starting\<close> is the connection in between.
\<close>

section \<open>Errors of connect\<close>

definition EINPROGRESS :: int where "EINPROGRESS = 115"
definition EINTR :: int where "EINTR = 4"
definition EISCONN :: int where "EISCONN = 106"
definition EADDRINUSE :: int where "EADDRINUSE = 98"
definition EADDRNOTAVAIL :: int where "EADDRNOTAVAIL = 99"
definition ECONNREFUSED :: int where "ECONNREFUSED = 111"
definition ENETUNREACH :: int where "ENETUNREACH = 101"

lemmas connect_errnos = EINPROGRESS_def EINTR_def EISCONN_def EAGAIN_def EADDRINUSE_def
  EADDRNOTAVAIL_def ECONNREFUSED_def ENETUNREACH_def

datatype connect_outcome = GoConnected | GoRetry | GoOffline

text \<open>The \<open>switch\<close> of \<open>raiseConnection\<close>; the fatal codes and the default both give up.\<close>

definition cl_classify :: "int \<Rightarrow> connect_outcome" where
  "cl_classify code =
     (if code \<in> {0, EINPROGRESS, EINTR, EISCONN} then GoConnected
      else if code \<in> {EAGAIN, EADDRINUSE, EADDRNOTAVAIL, ECONNREFUSED, ENETUNREACH} then GoRetry
      else GoOffline)"

section \<open>State\<close>

datatype client_state = kOffline | kConnecting | kConnected | kDisconnecting | kDisconnected

datatype client_call = ClientClose | ClientForceClose | ClientShutdown | ClientForceShutdown

text \<open>What reaches a connection.\<close>

datatype forwarded = FwdCall client_call nat | FwdSend "byte list" nat

record tcp_client =
  cl_state :: client_state
  cl_conn :: "nat option"
  cl_raises :: nat
  cl_made :: nat
  cl_starting :: "nat option"
  cl_open :: "nat list"
  cl_forwarded :: "forwarded list"

definition cl_create :: tcp_client where
  "cl_create = \<lparr>cl_state = kOffline, cl_conn = None, cl_raises = 0, cl_made = 0, cl_starting = None,
     cl_open = [], cl_forwarded = []\<rparr>"

section \<open>Operations\<close>

definition cl_start :: "tcp_client \<Rightarrow> tcp_client" where
  "cl_start s = (if cl_state s \<noteq> kOffline then s
     else s\<lparr>cl_state := kConnecting, cl_raises := cl_raises s + 1\<rparr>)"

text \<open>\<open>handleConnection\<close>, up to the assignment of \<open>conn_\<close>, and the assignment.\<close>

definition cl_handle_connection :: "tcp_client \<Rightarrow> tcp_client" where
  "cl_handle_connection s =
     (if cl_state s \<noteq> kConnecting then s
      else s\<lparr>cl_state := kConnected, cl_made := cl_made s + 1, cl_starting := Some (cl_made s),
             cl_open := cl_made s # cl_open s\<rparr>)"

definition cl_store_connection :: "tcp_client \<Rightarrow> tcp_client" where
  "cl_store_connection s = s\<lparr>cl_conn := cl_starting s, cl_starting := None\<rparr>"

definition cl_retry :: "tcp_client \<Rightarrow> tcp_client" where
  "cl_retry s = s\<lparr>cl_raises := cl_raises s + 1\<rparr>"

text \<open>\<open>raiseConnection\<close>, with what \<open>connect\<close> returned and the pending error of the socket.\<close>

definition cl_raise_connection :: "int \<Rightarrow> int \<Rightarrow> tcp_client \<Rightarrow> tcp_client" where
  "cl_raise_connection ret so_error s =
     (if cl_state s \<noteq> kConnecting then s
      else case cl_classify (sk_connect ret so_error) of
             GoConnected \<Rightarrow> cl_handle_connection s
           | GoRetry \<Rightarrow> cl_retry s
           | GoOffline \<Rightarrow> s\<lparr>cl_state := kOffline\<rparr>)"

text \<open>\<open>Close\<close>, \<open>ForceClose\<close>, \<open>Shutdown\<close> and \<open>ForceShutdown\<close> differ in the call they forward.\<close>

definition cl_call :: "client_call \<Rightarrow> tcp_client \<Rightarrow> tcp_client" where
  "cl_call k s =
     (if cl_state s \<noteq> kConnected then s
      else
        let s1 = s\<lparr>cl_state := kDisconnecting\<rparr>
        in case cl_conn s1 of
             None \<Rightarrow> s1
           | Some c \<Rightarrow> s1\<lparr>cl_forwarded := cl_forwarded s1 @ [FwdCall k c]\<rparr>)"

definition cl_close :: "tcp_client \<Rightarrow> tcp_client" where
  "cl_close s = cl_call ClientClose s"

definition cl_force_close :: "tcp_client \<Rightarrow> tcp_client" where
  "cl_force_close s = cl_call ClientForceClose s"

definition cl_shutdown :: "tcp_client \<Rightarrow> tcp_client" where
  "cl_shutdown s = cl_call ClientShutdown s"

definition cl_force_shutdown :: "tcp_client \<Rightarrow> tcp_client" where
  "cl_force_shutdown s = cl_call ClientForceShutdown s"

definition cl_send :: "byte list \<Rightarrow> tcp_client \<Rightarrow> tcp_client" where
  "cl_send message s =
     (case cl_conn s of
        None \<Rightarrow> s
      | Some c \<Rightarrow> s\<lparr>cl_forwarded := cl_forwarded s @ [FwdSend message c]\<rparr>)"

text \<open>\<open>TcpClientChannelHandler::OnClose\<close> of connection \<open>c\<close>, after the user's handler.\<close>

definition cl_on_close :: "nat \<Rightarrow> tcp_client \<Rightarrow> tcp_client" where
  "cl_on_close c s = s\<lparr>cl_state := kDisconnected, cl_conn := None, cl_open := removeAll c (cl_open s)\<rparr>"

section \<open>Steps\<close>

text \<open>
  The loop runs a pending \<open>raiseConnection\<close> or finishes \<open>handleConnection\<close>, a connection
  closes, the user calls the interface from any thread or from a handler.
\<close>

inductive cl_step :: "tcp_client \<Rightarrow> tcp_client \<Rightarrow> bool" where
  raise: "0 < cl_raises s \<Longrightarrow> cl_starting s = None \<Longrightarrow>
    cl_step s (cl_raise_connection ret so_error (s\<lparr>cl_raises := cl_raises s - 1\<rparr>))"
| store: "cl_starting s = Some c \<Longrightarrow> cl_step s (cl_store_connection s)"
| closed: "c \<in> set (cl_open s) \<Longrightarrow> cl_step s (cl_on_close c s)"
| start: "cl_step s (cl_start s)"
| call: "cl_step s (cl_call k s)"
| send: "cl_step s (cl_send m s)"

inductive_cases cl_stepE: "cl_step s t"

definition cl_initial :: "tcp_client \<Rightarrow> bool" where
  "cl_initial s \<longleftrightarrow> s = cl_create"

section \<open>The invariant\<close>

text \<open>
  At most one attempt is pending, and exactly while the client is connecting; at most one
  connection is ever made, when the state leaves kConnecting upwards; only it is open, being
  stored, stored, or called.
\<close>

definition cl_inv :: "tcp_client \<Rightarrow> bool" where
  "cl_inv s \<longleftrightarrow>
     cl_raises s = (if cl_state s = kConnecting then 1 else 0) \<and>
     cl_made s = (if cl_state s \<in> {kOffline, kConnecting} then 0 else 1) \<and>
     set (cl_open s) \<subseteq> {0} \<and> (cl_made s = 0 \<longrightarrow> cl_open s = []) \<and>
     cl_conn s \<in> {None, Some 0} \<and> (cl_made s = 0 \<longrightarrow> cl_conn s = None) \<and>
     cl_starting s \<in> {None, Some 0} \<and> (cl_made s = 0 \<longrightarrow> cl_starting s = None) \<and>
     (cl_starting s \<noteq> None \<longrightarrow> cl_conn s = None) \<and>
     (cl_state s \<in> {kConnected, kDisconnecting} \<longrightarrow>
        cl_open s \<noteq> [] \<and> (cl_conn s \<noteq> None \<or> cl_starting s \<noteq> None)) \<and>
     (cl_state s = kDisconnected \<longrightarrow> cl_open s = []) \<and>
     (\<forall>f\<in>set (cl_forwarded s). case f of FwdCall k c \<Rightarrow> c = 0 \<and> cl_made s = 1 \<and> cl_state s \<noteq> kConnected
        | FwdSend m c \<Rightarrow> c = 0 \<and> cl_made s = 1)"

lemmas cl_ops = cl_start_def cl_call_def cl_send_def cl_on_close_def cl_raise_connection_def
  cl_handle_connection_def cl_store_connection_def cl_retry_def Let_def

lemma cl_inv_create: "cl_inv cl_create"
  by (simp add: cl_inv_def cl_create_def)

lemma cl_inv_raise:
  assumes "cl_inv s" and "0 < cl_raises s"
  shows "cl_inv (cl_raise_connection ret e (s\<lparr>cl_raises := cl_raises s - 1\<rparr>))"
proof -
  have "cl_state s = kConnecting" "cl_raises s = 1"
    using assms by (auto simp: cl_inv_def split: if_splits)
  with assms(1) show ?thesis
    by (cases "cl_classify (sk_connect ret e)") (auto simp: cl_inv_def cl_ops split: forwarded.splits)
qed

lemma cl_inv_step:
  assumes "cl_inv s" and "cl_step s t"
  shows "cl_inv t"
  using assms(2)
proof cases
  case (raise ret e)
  then show ?thesis
    using cl_inv_raise [OF assms(1)] by simp
next
  case (store c)
  with assms(1) show ?thesis
    by (auto simp: cl_inv_def cl_ops split: if_splits forwarded.splits)
next
  case (closed c)
  with assms(1) have "set (removeAll c (cl_open s)) = {}"
    by (auto simp: cl_inv_def)
  then have "removeAll c (cl_open s) = []"
    by (simp only: set_empty)
  with closed assms(1) show ?thesis
    by (cases "cl_state s") (auto simp: cl_inv_def cl_ops split: if_splits forwarded.splits)
qed (use assms(1) in \<open>auto simp: cl_inv_def cl_ops split: if_splits forwarded.splits option.splits\<close>)

interpretation client: invariant_system cl_initial cl_step cl_inv
  by unfold_locales (auto simp: cl_initial_def cl_inv_create intro: cl_inv_step)

section \<open>Properties\<close>

lemma cl_disconnected_stays: "cl_step\<^sup>*\<^sup>* s t \<Longrightarrow> cl_state s = kDisconnected \<Longrightarrow> cl_state t = kDisconnected \<and> cl_made t = cl_made s"
  by (induction rule: rtranclp_induct)
    (auto simp: cl_ops elim!: cl_stepE split: option.splits)

text \<open>
  A client makes one connection.  In every state it can reach, whatever the kernel answers
  and whoever calls its interface: at most one connection has been made; one attempt to
  connect is pending while the state is kConnecting and none otherwise, however often it was
  retried; while the state is kConnected or kDisconnecting the connection is open and is, or is
  about to be, the one that \<open>GetConnection\<close> returns.  kDisconnected is final: a client cannot
  be started again after its connection has closed.
\<close>

theorem client_one_connection:
  assumes "reachable cl_initial cl_step s"
  shows "cl_made s \<le> 1 \<and> cl_raises s = (if cl_state s = kConnecting then 1 else 0) \<and>
    (cl_state s \<in> {kConnected, kDisconnecting} \<longrightarrow>
      set (cl_open s) = {0} \<and> (cl_conn s = Some 0 \<or> cl_starting s = Some 0)) \<and>
    (cl_state s = kDisconnected \<longrightarrow> cl_open s = [] \<and>
      (\<forall>t. cl_step\<^sup>*\<^sup>* s t \<longrightarrow> cl_state t = kDisconnected \<and> cl_made t = 1))"
proof -
  have inv: "cl_inv s"
    using assms by (rule client.inv_reachable)
  moreover have "set (cl_open s) = {0}" if "cl_state s \<in> {kConnected, kDisconnecting}"
    using inv that by (cases "cl_open s") (auto simp: cl_inv_def)
  ultimately show ?thesis
    using cl_disconnected_stays [of s] by (auto simp: cl_inv_def)
qed

theorem client_one_connection_witness:
  "let s = cl_start cl_create in cl_made s \<le> 1 \<and> cl_raises s = (if cl_state s = kConnecting then 1 else 0) \<and>
    (cl_state s \<in> {kConnected, kDisconnecting} \<longrightarrow>
      set (cl_open s) = {0} \<and> (cl_conn s = Some 0 \<or> cl_starting s = Some 0)) \<and>
    (cl_state s = kDisconnected \<longrightarrow> cl_open s = [] \<and>
      (\<forall>t. cl_step\<^sup>*\<^sup>* s t \<longrightarrow> cl_state t = kDisconnected \<and> cl_made t = 1))"
  unfolding Let_def
  by (rule client_one_connection, rule reachable.next_step, rule reachable.start)
    (auto simp: cl_initial_def intro: cl_step.start)

text \<open>
  A call that found no connection: the state is kDisconnecting, nothing was forwarded.
\<close>

definition cl_lost :: "tcp_client \<Rightarrow> bool" where
  "cl_lost s \<longleftrightarrow> cl_state s = kDisconnecting \<and> cl_raises s = 0 \<and> (\<forall>k c. FwdCall k c \<notin> set (cl_forwarded s))"

lemma cl_lost_step:
  assumes "cl_lost s" and "cl_step s t"
  shows "cl_lost t \<or> cl_state t = kDisconnected"
  using assms(2) by cases (use assms(1) in \<open>auto simp: cl_lost_def cl_ops split: option.splits\<close>)

text \<open>
  A close that the user makes in OnConnect is lost.  While the loop is between the start of
  the connection and the assignment of \<open>conn_\<close> (which is when the user's OnConnect runs), any
  of Close, ForceClose, Shutdown and ForceShutdown of the client moves it to kDisconnecting
  without reaching the connection; and from then on, until the connection closes for another
  reason, no call of the four ever reaches it, so the connection stays open.
\<close>

theorem client_close_in_connect_lost:
  assumes "reachable cl_initial cl_step s" and "cl_starting s = Some c" and "cl_state s = kConnected"
    and "cl_step\<^sup>*\<^sup>* (cl_call k s) t" and "cl_state t \<noteq> kDisconnected"
  shows "cl_state t = kDisconnecting \<and> (\<forall>k c. FwdCall k c \<notin> set (cl_forwarded t))"
proof -
  have inv: "cl_inv s"
    using assms(1) by (rule client.inv_reachable)
  then have "cl_conn s = None" "\<forall>k c. FwdCall k c \<notin> set (cl_forwarded s)" "cl_raises s = 0"
    using assms(2,3) by (auto simp: cl_inv_def dest!: bspec)
  then have start: "cl_lost (cl_call k s)"
    using assms(3) by (simp add: cl_lost_def cl_ops)
  have "cl_lost t \<or> cl_state t = kDisconnected"
    using assms(4)
  proof (induction rule: rtranclp_induct)
    case (step t u)
    show ?case
    proof (cases "cl_state t = kDisconnected")
      case True
      with cl_disconnected_stays [of t u] step(2) show ?thesis
        by auto
    next
      case False
      with step(3) cl_lost_step [OF _ step(2)] show ?thesis
        by auto
    qed
  qed (use start in simp)
  with assms(5) show ?thesis
    by (simp add: cl_lost_def)
qed

theorem client_close_in_connect_lost_witness:
  "let s = cl_raise_connection 0 0 ((cl_start cl_create)\<lparr>cl_raises := cl_raises (cl_start cl_create) - 1\<rparr>);
       t = cl_call ClientForceClose (cl_store_connection (cl_call ClientClose s))
   in cl_conn t = Some 0 \<and> cl_state t = kDisconnecting \<and> (\<forall>k c. FwdCall k c \<notin> set (cl_forwarded t))"
proof -
  let ?r1 = "\<lparr>cl_state = kConnecting, cl_conn = None, cl_raises = 1, cl_made = 0, cl_starting = None,
    cl_open = [], cl_forwarded = []\<rparr>"
  let ?r2 = "\<lparr>cl_state = kConnected, cl_conn = None, cl_raises = 0, cl_made = 1, cl_starting = Some 0,
    cl_open = [0], cl_forwarded = []\<rparr>"
  let ?r3 = "?r2\<lparr>cl_state := kDisconnecting\<rparr>"
  let ?r4 = "?r3\<lparr>cl_conn := Some 0, cl_starting := None\<rparr>"
  have e1: "cl_start cl_create = ?r1"
    by (simp add: cl_start_def cl_create_def)
  have e2: "cl_raise_connection 0 0 (?r1\<lparr>cl_raises := cl_raises ?r1 - 1\<rparr>) = ?r2"
    by (simp add: cl_raise_connection_def cl_handle_connection_def cl_classify_def sk_connect_def)
  have e3: "cl_call ClientClose ?r2 = ?r3" and e4: "cl_store_connection ?r3 = ?r4"
    and e5: "cl_call ClientForceClose ?r4 = ?r4"
    by (simp_all add: cl_call_def cl_store_connection_def)
  have "reachable cl_initial cl_step cl_create"
    by (rule reachable.start) (simp add: cl_initial_def)
  moreover have "cl_step cl_create ?r1"
    using cl_step.start [of cl_create] by (simp only: e1)
  moreover have "cl_step ?r1 ?r2"
    using cl_step.raise [of ?r1 0 0] by (simp only: e2) simp
  ultimately have reach: "reachable cl_initial cl_step ?r2"
    by (meson reachable.next_step)
  have "cl_step ?r3 ?r4"
    using cl_step.store [of ?r3 0] by (simp only: e4) simp
  then have steps: "cl_step\<^sup>*\<^sup>* (cl_call ClientClose ?r2) ?r4"
    unfolding e3 by (rule r_into_rtranclp)
  have "cl_state ?r4 = kDisconnecting \<and> (\<forall>k c. FwdCall k c \<notin> set (cl_forwarded ?r4))"
    by (rule client_close_in_connect_lost [OF reach _ _ steps, of 0]) simp_all
  then show ?thesis
    unfolding Let_def e1 e2 e3 e4 e5 by simp
qed

text \<open>
  What \<open>raiseConnection\<close> does with the result of \<open>connect\<close> depends on the pending error of
  the socket, not on errno: a \<open>connect\<close> that fails at once, for whatever reason, without
  leaving a pending error (SO\_ERROR is 0) is treated as connected, and a retry happens for
  exactly five pending errors, after which one attempt is pending again.
\<close>

theorem client_connect_outcomes:
  assumes "cl_state s = kConnecting" and "ret \<noteq> 0"
  shows "cl_raise_connection ret 0 s = cl_handle_connection s \<and>
    (so_error \<in> {EAGAIN, EADDRINUSE, EADDRNOTAVAIL, ECONNREFUSED, ENETUNREACH} \<longrightarrow>
      cl_raise_connection ret so_error s = s\<lparr>cl_raises := cl_raises s + 1\<rparr>) \<and>
    (so_error \<notin> {0, EINPROGRESS, EINTR, EISCONN, EAGAIN, EADDRINUSE, EADDRNOTAVAIL,
        ECONNREFUSED, ENETUNREACH} \<longrightarrow>
      cl_raise_connection ret so_error s = s\<lparr>cl_state := kOffline\<rparr>)"
proof (intro conjI impI)
  have code: "sk_connect ret e = e" for e
    using assms(2) by (simp add: sk_connect_def)
  note raise = cl_raise_connection_def [of ret _ s] assms(1) code
  show "cl_raise_connection ret 0 s = cl_handle_connection s"
    by (simp add: raise cl_classify_def)
  show "cl_raise_connection ret so_error s = s\<lparr>cl_raises := cl_raises s + 1\<rparr>"
    if "so_error \<in> {EAGAIN, EADDRINUSE, EADDRNOTAVAIL, ECONNREFUSED, ENETUNREACH}"
  proof -
    have "so_error \<notin> {0, EINPROGRESS, EINTR, EISCONN}"
      using that by (auto simp: connect_errnos)
    with that show ?thesis
      by (simp only: raise cl_classify_def cl_retry_def if_True if_False connect_outcome.case refl
          not_True_eq_False simp_thms)
  qed
  show "cl_raise_connection ret so_error s = s\<lparr>cl_state := kOffline\<rparr>"
    if "so_error \<notin> {0, EINPROGRESS, EINTR, EISCONN, EAGAIN, EADDRINUSE, EADDRNOTAVAIL,
        ECONNREFUSED, ENETUNREACH}"
    using that by (simp add: raise cl_classify_def)
qed

theorem client_connect_outcomes_witness:
  "let s = cl_start cl_create in cl_raise_connection (-1) 0 s = cl_handle_connection s \<and>
    (ECONNREFUSED \<in> {EAGAIN, EADDRINUSE, EADDRNOTAVAIL, ECONNREFUSED, ENETUNREACH} \<longrightarrow>
      cl_raise_connection (-1) ECONNREFUSED s = s\<lparr>cl_raises := cl_raises s + 1\<rparr>) \<and>
    (ECONNREFUSED \<notin> {0, EINPROGRESS, EINTR, EISCONN, EAGAIN, EADDRINUSE, EADDRNOTAVAIL,
        ECONNREFUSED, ENETUNREACH} \<longrightarrow>
      cl_raise_connection (-1) ECONNREFUSED s = s\<lparr>cl_state := kOffline\<rparr>)"
  unfolding Let_def
  by (rule client_connect_outcomes) (simp_all add: cl_start_def cl_create_def)

end
