(* ===== verification/Acceptor.thy ===== *)
theory Acceptor
  imports Socket_Calls Net_Environment Socket_Channel Epoll_Selector
begin

text \<open>
  include/pedronet/acceptor.h and src/acceptor.cc: listening, the accept loop that runs when the
  listening socket is readable, and closing, which waits for the loop.

  \<open>accept k\<close> is what the k-th call of \<open>accept4\<close> returns, a descriptor or \<open>kInvalidFd\<close> with
  its errno.  The loop of the handler is a \<open>partial_function (option)\<close>: None means that it does
  not end.
\<close>

section \<open>Operations\<close>

text \<open>
  The read handler: the descriptors passed to the callback, in order, and the number of the next
  \<open>accept\<close>.  \<open>callback\<close> tells whether an accept callback is installed; without one the
  socket is dropped.
\<close>

partial_function (option) ac_handle_read ::
  "(nat \<Rightarrow> int \<times> int) \<Rightarrow> bool \<Rightarrow> nat \<Rightarrow> (int list \<times> nat) option"
where
  "ac_handle_read accept callback k =
     (case accept k of
        (ret, errno) \<Rightarrow>
          case sk_accept ret errno kInvalidFd of
            (err, socket, _) \<Rightarrow>
              if err \<noteq> 0 then
                (if err = EAGAIN \<or> err = EWOULDBLOCK then Some ([], k + 1)
                 else ac_handle_read accept callback (k + 1))
              else Option.bind (ac_handle_read accept callback (k + 1))
                     (\<lambda>(fds, n). Some (if callback then socket # fds else fds, n)))"

text \<open>
  \<open>Listen\<close>, run on the loop: \<open>EventLoop::Add\<close>, then the callback, which sets the channel
  readable and calls \<open>listen\<close>.  The result is the selector, the channel's mask and whether
  \<open>listen\<close> was called.
\<close>

definition ac_listen ::
  "(channel \<Rightarrow> 's \<Rightarrow> bool) \<Rightarrow> (channel \<Rightarrow> select_events \<Rightarrow> 's \<Rightarrow> selector_fatal + 's) \<Rightarrow>
    (channel \<Rightarrow> select_events \<Rightarrow> 's \<Rightarrow> selector_fatal + 's) \<Rightarrow>
    channel \<Rightarrow> select_events \<Rightarrow> 's \<Rightarrow> selector_fatal + ('s \<times> select_events \<times> bool)" where
  "ac_listen contain add update ch watched s =
     (case el_add contain add ch s of
        Inl e \<Rightarrow> Inl e
      | Inr (s1, told) \<Rightarrow>
          if \<not> told then Inr (s1, watched, False)
          else
            let watched' = se_add watched kReadEvent
            in if se_differs watched watched' then
                 (case update ch watched' s1 of Inl e \<Rightarrow> Inl e | Inr s2 \<Rightarrow> Inr (s2, watched', True))
               else Inr (s1, watched', True))"

text \<open>
  \<open>Close\<close>: a latch of 1, counted down by the callback of \<open>EventLoop::Remove\<close>; the result is
  the selector and the latch that \<open>Await\<close> then waits for.
\<close>

definition ac_close ::
  "(channel \<Rightarrow> 's \<Rightarrow> bool) \<Rightarrow> (channel \<Rightarrow> 's \<Rightarrow> selector_fatal + 's) \<Rightarrow> channel \<Rightarrow> 's \<Rightarrow> selector_fatal + ('s \<times> nat)"
where
  "ac_close contain remove ch s =
     (case el_remove contain remove ch s of
        Inl e \<Rightarrow> Inl e
      | Inr (s1, told) \<Rightarrow> Inr (s1, if told then 1 - 1 else 1))"

section \<open>The accept loop\<close>

definition would_block :: "int \<times> int \<Rightarrow> bool" where
  "would_block a \<longleftrightarrow> fst a = kInvalidFd \<and> snd a = EAGAIN"

text \<open>A failing \<open>accept4\<close> sets an errno.\<close>

definition accept_ok :: "(nat \<Rightarrow> int \<times> int) \<Rightarrow> bool" where
  "accept_ok accept \<longleftrightarrow> (\<forall>k. fst (accept k) = kInvalidFd \<longrightarrow> snd (accept k) \<noteq> 0)"

definition accepted :: "(nat \<Rightarrow> int \<times> int) \<Rightarrow> nat \<Rightarrow> nat \<Rightarrow> int list" where
  "accepted accept k n = filter (\<lambda>fd. fd \<noteq> kInvalidFd) (map (\<lambda>i. fst (accept i)) [k..<k + n])"

lemma accepted_Suc: "accepted accept k (Suc n) =
    (if fst (accept k) = kInvalidFd then [] else [fst (accept k)]) @ accepted accept (Suc k) n"
  by (simp add: accepted_def upt_rec [of k])

lemma ac_handle_read_block:
  "would_block (accept k) \<Longrightarrow> ac_handle_read accept callback k = Some ([], k + 1)"
  by (subst ac_handle_read.simps)
    (auto simp: would_block_def sk_accept_def EAGAIN_def split: prod.split)

lemma ac_handle_read_other:
  assumes "accept_ok accept" and "\<not> would_block (accept k)"
  shows "ac_handle_read accept callback k =
    Option.bind (ac_handle_read accept callback (k + 1)) (\<lambda>(fds, n).
      Some (if callback \<and> fst (accept k) \<noteq> kInvalidFd then fst (accept k) # fds else fds, n))"
proof -
  have "snd (accept k) \<noteq> 0" if "fst (accept k) = kInvalidFd"
    using assms(1) that by (simp add: accept_ok_def)
  with assms(2) show ?thesis
    by (subst ac_handle_read.simps)
      (auto simp: would_block_def sk_accept_def sk_move_assign_def EAGAIN_def EWOULDBLOCK_def
        split: prod.split Option.bind_split)
qed

lemma ac_handle_read_blocks:
  assumes "accept_ok accept" and "ac_handle_read accept callback k = Some r"
  shows "\<exists>i\<ge>k. would_block (accept i)"
proof -
  let ?P = "\<lambda>accept (callback :: bool) (k :: nat) (r :: int list \<times> nat). \<exists>i\<ge>k. would_block (accept i)"
  show ?thesis
  proof (rule ac_handle_read.raw_induct [where P = ?P, OF _ assms(2)])
    fix f and accept :: "nat \<Rightarrow> int \<times> int" and callback and k :: nat and r
    assume ih: "\<And>accept callback (k :: nat) r. f accept callback k = Some r \<Longrightarrow> \<exists>i\<ge>k. would_block (accept i)"
      and run: "(case accept k of (ret, errno) \<Rightarrow>
          case sk_accept ret errno kInvalidFd of (err, socket, _) \<Rightarrow>
            if err \<noteq> 0 then
              (if err = EAGAIN \<or> err = EWOULDBLOCK then Some ([], k + 1) else f accept callback (k + 1))
            else Option.bind (f accept callback (k + 1))
                   (\<lambda>(fds, n). Some (if callback then socket # fds else fds, n))) = Some r"
    show "\<exists>i\<ge>k. would_block (accept i)"
    proof (cases "would_block (accept k)")
      case False
      with run have "\<exists>r'. f accept callback (k + 1) = Some r'"
        by (auto simp: would_block_def sk_accept_def sk_move_assign_def EAGAIN_def EWOULDBLOCK_def
            split: prod.splits if_splits Option.bind_splits)
      then obtain i where "i \<ge> k + 1" "would_block (accept i)"
        using ih by blast
      then show ?thesis
        by (intro exI [of _ i]) simp
    qed auto
  qed
qed

lemma ac_handle_read_backlog:
  assumes "accept_ok accept"
  shows "would_block (accept (k + n)) \<Longrightarrow> \<forall>i<n. \<not> would_block (accept (k + i)) \<Longrightarrow>
    ac_handle_read accept callback k =
      Some (if callback then accepted accept k n else [], k + n + 1)"
proof (induction n arbitrary: k)
  case 0
  then show ?case
    by (simp add: ac_handle_read_block accepted_def)
next
  case (Suc n)
  have "\<not> would_block (accept k)"
    using Suc.prems(2) by (metis add.right_neutral zero_less_Suc)
  moreover have "ac_handle_read accept callback (Suc k) =
      Some (if callback then accepted accept (Suc k) n else [], Suc k + n + 1)"
    using Suc.prems by (intro Suc.IH) auto
  ultimately show ?case
    by (simp add: ac_handle_read_other [OF assms] accepted_Suc)
qed

text \<open>
  C35. The accept loop takes the whole backlog and nothing else ends it.  If the first call of
  \<open>accept4\<close> that would block is the n-th from now, the handler returns after it, and has passed
  on every accepted descriptor, in order, skipping the calls that failed for another reason;
  if no call would block (an error such as EMFILE that does not go away), the handler never
  returns and the thread of the loop spins in it.
\<close>

theorem acceptor_accept_loop:
  assumes "accept_ok accept"
  shows "(would_block (accept (k + n)) \<and> (\<forall>i<n. \<not> would_block (accept (k + i))) \<longrightarrow>
      ac_handle_read accept True k = Some (accepted accept k n, k + n + 1)) \<and>
    ((\<forall>i\<ge>k. \<not> would_block (accept i)) \<longrightarrow> ac_handle_read accept True k = None)"
proof (intro conjI impI)
  assume "would_block (accept (k + n)) \<and> (\<forall>i<n. \<not> would_block (accept (k + i)))"
  then show "ac_handle_read accept True k = Some (accepted accept k n, k + n + 1)"
    using ac_handle_read_backlog [OF assms, of k n True] by simp
next
  assume none: "\<forall>i\<ge>k. \<not> would_block (accept i)"
  show "ac_handle_read accept True k = None"
  proof (cases "ac_handle_read accept True k")
    case (Some r)
    then show ?thesis
      using ac_handle_read_blocks [of accept True k r] assms none by blast
  qed
qed

theorem acceptor_accept_loop_witness:
  "ac_handle_read (\<lambda>i. if i = 0 then (7, 0) else if i = 1 then (kInvalidFd, 24) else (kInvalidFd, EAGAIN)) True 0 =
     Some (accepted (\<lambda>i. if i = 0 then (7, 0) else if i = 1 then (kInvalidFd, 24) else (kInvalidFd, EAGAIN)) 0 2, 3)
   \<and> ac_handle_read (\<lambda>i. (kInvalidFd, 24)) True 0 = None"
  using acceptor_accept_loop [of "\<lambda>i. if i = 0 then (7, 0) else if i = 1 then (kInvalidFd, 24) else (kInvalidFd, EAGAIN)" 0 2]
    acceptor_accept_loop [of "\<lambda>i. (kInvalidFd, 24)" 0 0]
  by (auto simp: accept_ok_def would_block_def EAGAIN_def kInvalidFd_def less_Suc_eq numeral_2_eq_2)

section \<open>Listen and Close on the epoll selector\<close>

lemma ac_listen_ok:
  assumes "ep_good fd s" and "\<not> ep_contain ch s" and "ep_kernel s (fd ch) = None"
  shows "\<exists>s'. ac_listen ep_contain (ep_add fd) (ep_update fd) ch kNoneEvent s = Inr (s', kReadEvent, True)
    \<and> ep_good fd s' \<and> ep_watch fd s' ch = Some kReadEvent"
proof -
  obtain s1 where s1: "ep_add fd ch kNoneEvent s = Inr s1"
    using assms(2,3) by (auto simp: ep_ops ep_contain_def split: option.splits)
  have good: "ep_good fd s1"
    using assms(1) s1 by (rule ep_add_good)
  have contains: "ep_contain ch s1"
    using epoll.contain_add [OF s1] by simp
  obtain s2 where s2: "ep_update fd ch kReadEvent s1 = Inr s2"
    using ep_update_result [of fd s1 ch] good contains by (auto simp: ep_good_def ep_contain_def)
  have "se_add kNoneEvent kReadEvent = kReadEvent" "kNoneEvent \<noteq> kReadEvent"
    by (simp_all add: se_add_def kNoneEvent_def kReadEvent_def poll_defs)
  then have "ac_listen ep_contain (ep_add fd) (ep_update fd) ch kNoneEvent s = Inr (s2, kReadEvent, True)"
    using assms(2) s1 s2 by (simp add: ac_listen_def el_add_def Let_def)
  moreover have "ep_good fd s2" "ep_watch fd s2 ch = Some kReadEvent"
    using ep_update_good [OF good s2] epoll.watch_update [OF good contains s2] by simp_all
  ultimately show ?thesis
    by blast
qed

lemma ac_close_registered:
  assumes "ep_good fd s" and "ep_contain ch s"
  shows "\<exists>s'. ac_close ep_contain (ep_remove fd) ch s = Inr (s', 0) \<and> ep_good fd s' \<and> \<not> ep_contain ch s'"
proof -
  obtain s' where s': "ep_remove fd ch s = Inr s'"
    using ep_remove_result [of fd s ch] assms by (auto simp: ep_good_def ep_contain_def)
  have "ep_good fd s'" "\<not> ep_contain ch s'"
    using ep_remove_good [OF assms(1) s'] epoll.contain_remove [OF s', of ch] by simp_all
  with s' assms(2) show ?thesis
    by (simp add: ac_close_def el_remove_def)
qed

lemma ac_close_unregistered:
  "\<not> contain ch s \<Longrightarrow> ac_close contain remove ch s = Inr (s, 1)"
  by (simp add: ac_close_def el_remove_def)

end
