(* ===== verification/Tcp_Server.thy ===== *)
theory Tcp_Server
  imports Acceptor Tcp_Connection_Invariants
begin

text \<open>
  include/pedronet/tcp\_server.h and src/tcp\_server.cc: the server's own channel handler, which
  keeps the set of connections under a mutex, and the closing of the server.  A connection is
  its number in the set \<open>conns_\<close>, with the connection itself, of theory Tcp\_Connection, where
  an operation reaches it.  \<open>H\<close> is the handler that the user's builder made.

  \<open>std::mutex\<close> is not recursive: locking it again on the thread that holds it never succeeds.
  A result is a value of \<open>server_stop\<close> where the code does not get past a point.
\<close>

section \<open>Operations\<close>

datatype server_stop = NullConnection | SelfDeadlock | LatchNeverReleased | NullAcceptor

text \<open>\<open>unordered_set::emplace\<close> and \<open>erase\<close>.\<close>

definition sv_insert :: "nat \<Rightarrow> nat list \<Rightarrow> nat list" where
  "sv_insert c conns = (if c \<in> set conns then conns else c # conns)"

text \<open>
  \<open>TcpServerChannelHandler::OnConnect\<close> and \<open>OnClose\<close>: the user's handler, then the set.
  \<open>ctx_->GetConnection()\<close> is null once the connection has been removed.
\<close>

definition sv_on_connect ::
  "'b conn_hook \<Rightarrow> nat \<Rightarrow> 'b tcp_conn \<Rightarrow> nat list \<Rightarrow> server_stop + ('b tcp_conn \<times> nat list)" where
  "sv_on_connect H i c conns =
     (let c1 = H OnConnect c
      in if cn_context c1 then Inr (c1, sv_insert i conns) else Inl NullConnection)"

definition sv_on_close ::
  "'b conn_hook \<Rightarrow> nat \<Rightarrow> 'b tcp_conn \<Rightarrow> nat list \<Rightarrow> server_stop + ('b tcp_conn \<times> nat list)" where
  "sv_on_close H i c conns =
     (let c1 = H OnClose c
      in if cn_context c1 then Inr (c1, removeAll i conns) else Inl NullConnection)"

text \<open>
  \<open>TcpServerChannelHandler\<close> as a whole, on the events of connection \<open>i\<close>: it forwards to the user's
  handler, and keeps the set on OnConnect and OnClose.
\<close>

fun server_channel_handler ::
  "'b conn_hook \<Rightarrow> nat \<Rightarrow> conn_event \<Rightarrow> 'b tcp_conn \<Rightarrow> nat list \<Rightarrow> server_stop + ('b tcp_conn \<times> nat list)" where
  "server_channel_handler H i OnRead c conns = Inr (H OnRead c, conns)"
| "server_channel_handler H i OnWriteComplete c conns = Inr (H OnWriteComplete c, conns)"
| "server_channel_handler H i (OnError err) c conns = Inr (H (OnError err) c, conns)"
| "server_channel_handler H i OnConnect c conns = sv_on_connect H i c conns"
| "server_channel_handler H i OnClose c conns = sv_on_close H i c conns"

text \<open>
  The loop of \<open>Close\<close>, with \<open>mu_\<close> held.  \<open>in_loop\<close>: the calling thread is the loop thread of
  that connection; a connection whose OnClose runs in the call locks \<open>mu_\<close> again.
\<close>

definition sv_called_on_close :: "'b tcp_conn \<Rightarrow> 'b tcp_conn \<Rightarrow> bool" where
  "sv_called_on_close c c' \<longleftrightarrow> OnClose \<in> set (drop (length (cn_trace c)) (cn_trace c'))"

fun sv_close_conns ::
  "'b buffer_ops \<Rightarrow> 'b conn_hook \<Rightarrow> (bool \<times> 'b tcp_conn) list \<Rightarrow> server_stop + 'b tcp_conn list" where
  "sv_close_conns B H [] = Inr []"
| "sv_close_conns B H ((in_loop, c) # cs) =
     (let c' = conn_close in_loop B H c
      in if sv_called_on_close c c' then Inl SelfDeadlock
         else case sv_close_conns B H cs of Inl e \<Rightarrow> Inl e | Inr cs' \<Rightarrow> Inr (c' # cs'))"

text \<open>
  What the handler gives back: the connection as the user's handler leaves it, and a set that
  differs in connection \<open>i\<close> only, which is in it after OnConnect and not after OnClose.  It fails
  only there, when the user's handler has made the connection remove itself.
\<close>

lemma server_handler_result:
  assumes "server_channel_handler H i e c conns = Inr (c', conns')"
  shows "c' = H e c"
    and "set conns' = (if e = OnConnect then insert i (set conns)
                       else if e = OnClose then set conns - {i} else set conns)"
    and "distinct conns \<Longrightarrow> distinct conns'"
  using assms
  by (cases e; auto simp: sv_on_connect_def sv_on_close_def sv_insert_def Let_def distinct_removeAll split: if_splits)+

lemma server_handler_fails:
  "server_channel_handler H i e c conns = Inl stop \<longleftrightarrow>
     stop = NullConnection \<and> (e = OnConnect \<or> e = OnClose) \<and> \<not> cn_context (H e c)"
  by (cases e) (auto simp: sv_on_connect_def sv_on_close_def Let_def)

text \<open>
  A server: its acceptor's channel (none before \<open>Bind\<close>) and the selector of that channel's loop.
\<close>

record server =
  sv_acceptor :: "channel option"
  sv_selector :: epoll_selector

text \<open>\<open>Start\<close>: the accept callback and \<open>Acceptor::Listen\<close>.\<close>

definition sv_start :: "(channel \<Rightarrow> int) \<Rightarrow> server \<Rightarrow> server_stop + (selector_fatal + server)" where
  "sv_start fd s =
     (case sv_acceptor s of
        None \<Rightarrow> Inl NullAcceptor
      | Some ch \<Rightarrow>
          Inr (case ac_listen ep_contain (ep_add fd) (ep_update fd) ch kNoneEvent (sv_selector s) of
                 Inl e \<Rightarrow> Inl e
               | Inr (sel, _, _) \<Rightarrow> Inr (s\<lparr>sv_selector := sel\<rparr>)))"

text \<open>The call of \<open>Acceptor::Close\<close>, and waiting for its latch.\<close>

definition sv_close_acceptor :: "(channel \<Rightarrow> int) \<Rightarrow> channel \<Rightarrow> server \<Rightarrow> server_stop + (selector_fatal + server)" where
  "sv_close_acceptor fd ch s =
     (case ac_close ep_contain (ep_remove fd) ch (sv_selector s) of
        Inl e \<Rightarrow> Inr (Inl e)
      | Inr (sel, latch) \<Rightarrow>
          if latch \<noteq> 0 then Inl LatchNeverReleased else Inr (Inr (s\<lparr>sv_selector := sel\<rparr>)))"

definition sv_close ::
  "(channel \<Rightarrow> int) \<Rightarrow> 'b buffer_ops \<Rightarrow> 'b conn_hook \<Rightarrow> (bool \<times> 'b tcp_conn) list \<Rightarrow> server \<Rightarrow>
    server_stop + (selector_fatal + (server \<times> 'b tcp_conn list))" where
  "sv_close fd B H conns s =
     (case sv_acceptor s of
        None \<Rightarrow> Inl NullAcceptor
      | Some ch \<Rightarrow>
          (case sv_close_acceptor fd ch s of
             Inl e \<Rightarrow> Inl e
           | Inr (Inl f) \<Rightarrow> Inr (Inl f)
           | Inr (Inr s1) \<Rightarrow>
               (case sv_close_conns B H conns of
                  Inl e \<Rightarrow> Inl e
                | Inr cs \<Rightarrow> Inr (Inr (s1, cs)))))"

text \<open>\<open>~TcpServer\<close>: \<open>Close\<close>, then the members, among them the acceptor, whose destructor closes it.\<close>

definition sv_destroy ::
  "(channel \<Rightarrow> int) \<Rightarrow> 'b buffer_ops \<Rightarrow> 'b conn_hook \<Rightarrow> (bool \<times> 'b tcp_conn) list \<Rightarrow> server \<Rightarrow>
    server_stop + (selector_fatal + (server \<times> 'b tcp_conn list))" where
  "sv_destroy fd B H conns s =
     (case sv_close fd B H conns s of
        Inl e \<Rightarrow> Inl e
      | Inr (Inl f) \<Rightarrow> Inr (Inl f)
      | Inr (Inr (s1, cs)) \<Rightarrow>
          (case sv_acceptor s1 of
             None \<Rightarrow> Inr (Inr (s1, cs))
           | Some ch \<Rightarrow>
               (case sv_close_acceptor fd ch s1 of
                  Inl e \<Rightarrow> Inl e
                | Inr (Inl f) \<Rightarrow> Inr (Inl f)
                | Inr (Inr s2) \<Rightarrow> Inr (Inr (s2, cs)))))"

section \<open>Closing the connections\<close>

text \<open>What \<open>Close\<close> leaves of a connection when its loop is another thread.\<close>

definition sv_closing :: "'b tcp_conn \<Rightarrow> 'b tcp_conn" where
  "sv_closing c = (if cn_state c = Connected
     then c\<lparr>cn_state := Disconnected, cn_tasks := cn_tasks c @ [TaskClose]\<rparr> else c)"

lemma conn_close_off_loop: "conn_close False B H c = sv_closing c"
  by (simp add: conn_close_def conn_run_def sv_closing_def)

lemma sv_close_conns_off_loop:
  "list_all (\<lambda>(in_loop, c). \<not> in_loop) cs \<Longrightarrow> sv_close_conns B H cs = Inr (map (sv_closing \<circ> snd) cs)"
  by (induction cs) (auto simp: conn_close_off_loop sv_called_on_close_def sv_closing_def)

text \<open>On the connection's own loop, a connection with nothing to send runs its OnClose at once.\<close>

lemma conn_close_in_loop:
  assumes "cn_state c = Connected" and "sc_watch (cn_channel c) \<noteq> None" and "bf_bytes B (cn_output c) = []"
  shows "sv_called_on_close c (conn_close True B (conn_hooks B sys h n) c)"
proof -
  let ?c = "c\<lparr>cn_state := Disconnected\<rparr>"
  have close: "conn_close True B (conn_hooks B sys h n) c = conn_remove (conn_hooks B sys h n) ?c"
    using assms(1,3) by (simp add: conn_close_def conn_run_def conn_close_body_def bf_readable_bytes_def)
  have "\<exists>ts. cn_trace (conn_remove (conn_hooks B sys h n) ?c) = cn_trace c @ OnClose # ts"
  proof (cases rule: conn_remove_cases [where c = ?c and B = B and sys = sys and h = h and n = n])
    case now
    then show ?thesis
      using micros_forward [OF now(3)] by (auto simp: conn_forward_def)
  qed (use assms(2) in simp_all)
  then show ?thesis
    by (auto simp: sv_called_on_close_def close)
qed

section \<open>Properties\<close>

text \<open>
  C31. The destructor of a started server does not return.  A server whose acceptor is listening
  can be closed once, from outside the loops of its connections: the acceptor's channel is
  removed, the latch released, every connection that was connected is closed (its Close is
  queued on its loop).  Closing it again waits for a latch that nobody releases, because
  EventLoop::Remove calls back only for a registered channel; and the destructor closes the
  acceptor twice, through \<open>TcpServer::Close\<close> and through \<open>~Acceptor\<close>.
\<close>

theorem server_closes_once:
  assumes "ep_good fd (sv_selector s0)" and "sv_acceptor s0 = Some ch"
    and "\<not> ep_contain ch (sv_selector s0)" and "ep_kernel (sv_selector s0) (fd ch) = None"
    and "list_all (\<lambda>(in_loop, c). \<not> in_loop) conns"
  shows "\<exists>s s'. sv_start fd s0 = Inr (Inr s) \<and> ep_watch fd (sv_selector s) ch = Some kReadEvent \<and>
    sv_close fd B H conns s = Inr (Inr (s', map (sv_closing \<circ> snd) conns)) \<and>
    sv_close fd B H conns s' = Inl LatchNeverReleased \<and>
    sv_destroy fd B H conns s = Inl LatchNeverReleased"
proof -
  obtain sel where sel: "ac_listen ep_contain (ep_add fd) (ep_update fd) ch kNoneEvent (sv_selector s0) =
      Inr (sel, kReadEvent, True)" "ep_good fd sel" "ep_watch fd sel ch = Some kReadEvent"
    using ac_listen_ok [OF assms(1,3,4)] by blast
  then have "ep_contain ch sel"
    using epoll.watch_contain [of fd sel ch] by simp
  then obtain sel' where sel': "ac_close ep_contain (ep_remove fd) ch sel = Inr (sel', 0)" "\<not> ep_contain ch sel'"
    using ac_close_registered [OF sel(2)] by blast
  let ?s = "s0\<lparr>sv_selector := sel\<rparr>" and ?s' = "s0\<lparr>sv_selector := sel'\<rparr>"
  have start: "sv_start fd s0 = Inr (Inr ?s)"
    by (simp add: sv_start_def assms(2) sel(1))
  have once: "sv_close fd B H conns ?s = Inr (Inr (?s', map (sv_closing \<circ> snd) conns))"
    by (simp add: sv_close_def sv_close_acceptor_def assms(2) sel'(1) sv_close_conns_off_loop [OF assms(5)])
  have stuck: "sv_close_acceptor fd ch ?s' = Inl LatchNeverReleased"
    by (simp add: sv_close_acceptor_def ac_close_unregistered [where contain = ep_contain, OF sel'(2)])
  have "sv_close fd B H conns ?s' = Inl LatchNeverReleased"
    by (simp add: sv_close_def stuck assms(2))
  moreover have "sv_destroy fd B H conns ?s = Inl LatchNeverReleased"
    by (simp add: sv_destroy_def once stuck assms(2))
  moreover note start once sel(3)
  ultimately show ?thesis
    by (intro exI [of _ ?s] exI [of _ ?s']) simp
qed

theorem server_closes_once_witness:
  "\<exists>s s'. sv_start int \<lparr>sv_acceptor = Some 5, sv_selector = ep_create\<rparr> = Inr (Inr s) \<and>
    ep_watch int (sv_selector s) 5 = Some kReadEvent \<and>
    sv_close int list_buffer (\<lambda>e c. c) [(False, conn_create list_buffer)] s =
      Inr (Inr (s', map (sv_closing \<circ> snd) [(False, conn_create list_buffer)])) \<and>
    sv_close int list_buffer (\<lambda>e c. c) [(False, conn_create list_buffer)] s' = Inl LatchNeverReleased \<and>
    sv_destroy int list_buffer (\<lambda>e c. c) [(False, conn_create list_buffer)] s = Inl LatchNeverReleased"
  by (rule server_closes_once) (simp_all add: ep_create_good, simp_all add: ep_create_def ep_contain_def)

text \<open>
  Two ways in which the server's own handler meets the connection's life.  Closing the server
  on the loop thread of a connection that has nothing to send (from one of its handlers) locks
  the mutex a second time on the same thread, in OnClose, within the call.  And a user's handler
  that closes its connection in OnConnect leaves the server's OnConnect with a null connection.
\<close>

theorem server_reentrant_close:
  assumes "cn_state c = Connected" and "sc_watch (cn_channel c) \<noteq> None" and "bf_bytes B (cn_output c) = []"
  shows "sv_close_conns B (conn_hooks B sys h n) ((True, c) # conns) = Inl SelfDeadlock \<and>
    (h OnConnect c \<in> {[CmdForceClose], [CmdClose]} \<longrightarrow>
      sv_on_connect (conn_hooks B sys h (Suc n)) i c known = Inl NullConnection)"
proof (intro conjI impI)
  show "sv_close_conns B (conn_hooks B sys h n) ((True, c) # conns) = Inl SelfDeadlock"
    using conn_close_in_loop [OF assms] by (simp add: Let_def)
  assume "h OnConnect c \<in> {[CmdForceClose], [CmdClose]}"
  then have "conn_hooks B sys h (Suc n) OnConnect c = conn_remove (conn_hooks B sys h n) (c\<lparr>cn_state := Disconnected\<rparr>)"
    using assms by (auto simp: conn_force_close_def conn_close_def conn_close_body_def conn_run_def bf_readable_bytes_def)
  moreover have "\<not> cn_context (conn_remove (conn_hooks B sys h n) (c\<lparr>cn_state := Disconnected\<rparr>))"
    using assms(2) by (simp add: conn_remove_def conn_handle_remove_def Let_def)
  ultimately show "sv_on_connect (conn_hooks B sys h (Suc n)) i c known = Inl NullConnection"
    by (simp add: sv_on_connect_def Let_def)
qed

text \<open>A connection as it is when its OnConnect is called.\<close>

definition connected_now :: "(byte list \<times> nat) tcp_conn" where
  "connected_now = (conn_create list_buffer)\<lparr>cn_state := Connected, cn_context := True,
     cn_channel := sc_create\<lparr>sc_watch := Some kNoneEvent\<rparr>, cn_trace := [OnConnect]\<rparr>"

definition idle_os :: net_os where
  "idle_os = \<lparr>os_write = \<lambda>k bs. 0, os_read = \<lambda>k. Inr [], os_so_error = \<lambda>k. 0, os_kOk = 0\<rparr>"

theorem server_reentrant_close_witness:
  "sv_close_conns list_buffer (conn_hooks list_buffer idle_os (\<lambda>e c. [CmdForceClose]) 0) [(True, connected_now)] =
      Inl SelfDeadlock \<and>
    sv_on_connect (conn_hooks list_buffer idle_os (\<lambda>e c. [CmdForceClose]) (Suc 0)) 3 connected_now [] =
      Inl NullConnection"
  using server_reentrant_close [of connected_now list_buffer idle_os "\<lambda>e c. [CmdForceClose]" 0 "[]" 3 "[]"]
  by (simp add: connected_now_def conn_create_def)

end
