(* ===== verification/Inet_Address.thy ===== *)
theory Inet_Address
  imports Pedronet_Prelude
begin

text \<open>
  include/pedronet/inetaddress.h, inetaddress\_impl.h and src/inetaddress.cc: socket addresses.
  \<open>InetAddressImpl\<close> is a union of \<open>sockaddr_in\<close> and \<open>sockaddr_in6\<close>, whose family and port
  fields share their place; the rest of the union is kept as bytes.  The port is stored in
  network byte order; \<open>little\<close> says whether the machine is little endian.
  \<open>inet_pton\<close> and \<open>inet_ntop\<close> are parameters, \<open>ie_pton\<close> and \<open>ie_ntop\<close>, for both families.
\<close>

unbundle bit_operations_syntax

section \<open>Types\<close>

definition AF_INET :: "16 word" where "AF_INET = 2"
definition AF_INET6 :: "16 word" where "AF_INET6 = 10"

record inet_impl =
  ii_family :: "16 word"
  ii_port :: "16 word"
  ii_addr :: "byte list"

record inet_address =
  ia_impl :: "inet_impl option"
  ia_host :: string

definition htobe16 :: "bool \<Rightarrow> 16 word \<Rightarrow> 16 word" where
  "htobe16 little x = (if little then push_bit 8 x OR drop_bit 8 x else x)"

text \<open>The members of the union.\<close>

definition impl_port :: "bool \<Rightarrow> inet_impl \<Rightarrow> 16 word" where
  "impl_port little i =
     (if ii_family i = AF_INET then htobe16 little (ii_port i) else htobe16 little (ii_port i))"

definition impl_host :: "('f \<Rightarrow> byte list \<Rightarrow> string) \<Rightarrow> ('f \<times> 'f) \<Rightarrow> inet_impl \<Rightarrow> string" where
  "impl_host ntop fams i =
     (if ii_family i = AF_INET then ntop (fst fams) (ii_addr i) else ntop (snd fams) (ii_addr i))"

definition impl_size :: "inet_impl \<Rightarrow> nat" where
  "impl_size i = (if ii_family i = AF_INET then 16 else 28)"

section \<open>Operations\<close>

record inet_env =
  ie_pton :: "16 word \<Rightarrow> string \<Rightarrow> byte list option"
  ie_ntop :: "16 word \<Rightarrow> byte list \<Rightarrow> string"
  ie_little :: bool

definition ia_empty :: inet_address where
  "ia_empty = \<lparr>ia_impl = None, ia_host = ''''\<rparr>"

definition ia_of_impl :: "inet_env \<Rightarrow> inet_impl \<Rightarrow> inet_address" where
  "ia_of_impl E i = \<lparr>ia_impl = Some i, ia_host = impl_host (ie_ntop E) (AF_INET, AF_INET6) i\<rparr>"

text \<open>\<open>Create\<close> and \<open>CreateV6\<close>: a host that does not parse is fatal, None.\<close>

definition ia_create_family :: "inet_env \<Rightarrow> 16 word \<Rightarrow> string \<Rightarrow> 16 word \<Rightarrow> inet_address option" where
  "ia_create_family E family host port =
     (case ie_pton E family host of
        None \<Rightarrow> None
      | Some addr \<Rightarrow>
          Some (ia_of_impl E \<lparr>ii_family = family, ii_port = htobe16 (ie_little E) port, ii_addr = addr\<rparr>))"

definition ia_create :: "inet_env \<Rightarrow> string \<Rightarrow> 16 word \<Rightarrow> inet_address option" where
  "ia_create E host port = ia_create_family E AF_INET host port"

definition ia_create_v6 :: "inet_env \<Rightarrow> string \<Rightarrow> 16 word \<Rightarrow> inet_address option" where
  "ia_create_v6 E host port = ia_create_family E AF_INET6 host port"

definition ia_family :: "inet_address \<Rightarrow> 16 word" where
  "ia_family a = (case ia_impl a of None \<Rightarrow> 0 | Some i \<Rightarrow> ii_family i)"

definition ia_ipv6 :: "inet_address \<Rightarrow> bool" where
  "ia_ipv6 a \<longleftrightarrow> (case ia_impl a of None \<Rightarrow> False | Some i \<Rightarrow> ii_family i = AF_INET6)"

definition ia_port :: "inet_env \<Rightarrow> inet_address \<Rightarrow> 16 word" where
  "ia_port E a = (case ia_impl a of None \<Rightarrow> 0 | Some i \<Rightarrow> impl_port (ie_little E) i)"

definition ia_equal :: "inet_env \<Rightarrow> inet_address \<Rightarrow> inet_address \<Rightarrow> bool" where
  "ia_equal E a other \<longleftrightarrow> ia_port E a = ia_port E other \<and> ia_host a = ia_host other"

text \<open>The copy constructor, and the copy assignment to an address that is another object.\<close>

definition ia_copy :: "inet_address \<Rightarrow> inet_address" where
  "ia_copy other =
     \<lparr>ia_impl = (case ia_impl other of None \<Rightarrow> None | Some i \<Rightarrow> Some i), ia_host = ia_host other\<rparr>"

definition ia_assign :: "inet_address \<Rightarrow> inet_address \<Rightarrow> inet_address" where
  "ia_assign a other =
     (case ia_impl other of
        None \<Rightarrow> a\<lparr>ia_host := ia_host other\<rparr>
      | Some i \<Rightarrow> a\<lparr>ia_impl := Some i, ia_host := ia_host other\<rparr>)"

text \<open>Moving: the address moved to, and what is left of the other.\<close>

definition ia_move_assign :: "inet_address \<Rightarrow> inet_address \<Rightarrow> inet_address \<times> inet_address" where
  "ia_move_assign a other =
     (a\<lparr>ia_impl := ia_impl other, ia_host := ia_host other\<rparr>, other\<lparr>ia_impl := None, ia_host := ''''\<rparr>)"

definition ia_move :: "inet_address \<Rightarrow> inet_address \<times> inet_address" where
  "ia_move other = (\<lparr>ia_impl = ia_impl other, ia_host = ia_host other\<rparr>, other\<lparr>ia_impl := None, ia_host := ''''\<rparr>)"

text \<open>Moving an address loses nothing and leaves an empty one.\<close>

lemma ia_move_all: "ia_move a = (a, ia_empty)" "ia_move_assign b a = (a, ia_empty)"
  by (simp_all add: ia_move_def ia_move_assign_def ia_empty_def)

section \<open>Properties\<close>

lemma htobe16_involution [simp]: "htobe16 little (htobe16 little x) = x"
  by (auto simp: htobe16_def bit_eq_iff bit_or_iff bit_push_bit_iff bit_drop_bit_eq)

text \<open>
  An address remembers what it was created from: the port comes back through network byte
  order unchanged, on machines of either byte order; the family is the one asked for; the host
  is the text of the parsed host; and a copy, by construction or assigned over any address, is
  equal to it.
\<close>

theorem inet_round_trip:
  assumes "ia_create_family E family host port = Some a" and "family \<in> {AF_INET, AF_INET6}"
  shows "ia_port E a = port \<and> ia_family a = family \<and> (ia_ipv6 a \<longleftrightarrow> family = AF_INET6) \<and>
    (\<exists>addr. ie_pton E family host = Some addr \<and> ia_host a = ie_ntop E family addr) \<and>
    ia_equal E (ia_copy a) a \<and> ia_assign b a = ia_copy a"
  using assms
  by (auto simp: ia_create_family_def ia_of_impl_def ia_port_def impl_port_def ia_family_def ia_ipv6_def
      ia_equal_def ia_copy_def ia_assign_def impl_host_def AF_INET_def AF_INET6_def split: option.splits)

theorem inet_round_trip_witness:
  "\<exists>a. ia_create_family \<lparr>ie_pton = \<lambda>f h. Some [127, 0, 0, 1], ie_ntop = \<lambda>f bs. ''127.0.0.1'', ie_little = True\<rparr>
      AF_INET ''127.0.0.1'' 8080 = Some a \<and>
    ia_port \<lparr>ie_pton = \<lambda>f h. Some [127, 0, 0, 1], ie_ntop = \<lambda>f bs. ''127.0.0.1'', ie_little = True\<rparr> a = 8080"
proof -
  let ?E = "\<lparr>ie_pton = \<lambda>f h. Some [127, 0, 0, 1], ie_ntop = \<lambda>f bs. ''127.0.0.1'', ie_little = True\<rparr>"
  obtain a where a: "ia_create_family ?E AF_INET ''127.0.0.1'' 8080 = Some a"
    by (simp add: ia_create_family_def)
  from inet_round_trip [OF this, of ia_empty] a show ?thesis
    by blast
qed

text \<open>
  Assigning an empty address does not clear the target: the copy assignment takes over the
  host but keeps the old socket address, so the result still has the old port and family and is
  not equal to the address assigned, unless that port was 0; moving an empty address clears it.
\<close>

theorem inet_assign_empty:
  assumes "ia_impl a = Some i" and "ia_port E a \<noteq> 0"
  shows "ia_port E (ia_assign a ia_empty) = ia_port E a \<and> ia_family (ia_assign a ia_empty) = ia_family a \<and>
    \<not> ia_equal E (ia_assign a ia_empty) ia_empty \<and> ia_equal E (fst (ia_move_assign a ia_empty)) ia_empty"
  using assms
  by (simp add: ia_assign_def ia_empty_def ia_port_def ia_family_def ia_equal_def ia_move_assign_def)

theorem inet_assign_empty_witness:
  "let E = \<lparr>ie_pton = \<lambda>f h. Some [], ie_ntop = \<lambda>f bs. '''', ie_little = False\<rparr>;
       a = ia_of_impl E \<lparr>ii_family = AF_INET, ii_port = 80, ii_addr = []\<rparr>
   in ia_port E (ia_assign a ia_empty) = ia_port E a \<and> ia_family (ia_assign a ia_empty) = ia_family a \<and>
    \<not> ia_equal E (ia_assign a ia_empty) ia_empty \<and> ia_equal E (fst (ia_move_assign a ia_empty)) ia_empty"
  unfolding Let_def
  by (rule inet_assign_empty) (simp_all add: ia_of_impl_def ia_port_def impl_port_def htobe16_def)

end
