(* ===== verification/Server_Setup.thy ===== *)
theory Server_Setup
  imports Tcp_Server Loop_Group Inet_Address
begin

text \<open>
  How a listening server comes about: \<open>Socket::Create\<close> with its system call (src/socket.cc), the
  constructor of \<open>Acceptor\<close> and its \<open>Bind\<close> (src/acceptor.cc), and \<open>TcpServer::Bind\<close>
  (src/tcp\_server.cc), up to \<open>TcpServer::Start\<close>; and the two addresses of a socket.
\<close>

unbundle bit_operations_syntax

section \<open>The kernel\<close>

text \<open>
  \<open>ns_socket\<close>, \<open>ns_bind\<close>: what the calls return, with the errno or socket error; \<open>ns_name\<close> and
  \<open>ns_peer\<close> the address that getsockname and getpeername store, None when they fail;
  \<open>ns_opts\<close> the options of a new socket.  The constants are those of Linux.
\<close>

record net_setup =
  ns_socket :: "16 word \<Rightarrow> u32 \<Rightarrow> int \<Rightarrow> int \<times> int"
  ns_bind :: "int \<Rightarrow> inet_impl \<Rightarrow> int \<times> int"
  ns_name :: "int \<Rightarrow> inet_impl option"
  ns_peer :: "int \<Rightarrow> inet_impl option"
  ns_opts :: sock_opts

definition SOCK_STREAM :: u32 where "SOCK_STREAM = 1"
definition SOCK_NONBLOCK :: u32 where "SOCK_NONBLOCK = 0x800"
definition SOCK_CLOEXEC :: u32 where "SOCK_CLOEXEC = 0x80000"
definition IPPROTO_TCP :: int where "IPPROTO_TCP = 6"

section \<open>Sockets\<close>

definition sk_type :: "bool \<Rightarrow> u32" where
  "sk_type nonblocking =
     (let type = SOCK_STREAM OR SOCK_CLOEXEC
      in if nonblocking then type OR SOCK_NONBLOCK else type)"

definition sk_open :: "net_setup \<Rightarrow> 16 word \<Rightarrow> bool \<Rightarrow> socket_fatal + int" where
  "sk_open N family nonblocking =
     (case ns_socket N family (sk_type nonblocking) IPPROTO_TCP of (ret, errno) \<Rightarrow> sk_create ret errno)"

text \<open>
  The buffer of both calls is a fresh \<open>InetAddressImpl\<close>, whose family is 0 and whose size is
  therefore that of the larger member: either kind of address fits.
\<close>

definition sk_local_address :: "net_setup \<Rightarrow> inet_env \<Rightarrow> int \<Rightarrow> inet_address" where
  "sk_local_address N E fd = (case ns_name N fd of None \<Rightarrow> ia_empty | Some i \<Rightarrow> ia_of_impl E i)"

definition sk_peer_address :: "net_setup \<Rightarrow> inet_env \<Rightarrow> int \<Rightarrow> inet_address" where
  "sk_peer_address N E fd = (case ns_peer N fd of None \<Rightarrow> ia_empty | Some i \<Rightarrow> ia_of_impl E i)"

text \<open>The move constructor: the new socket, and what is left of the other.\<close>

definition sk_move :: "int \<Rightarrow> int \<times> int" where
  "sk_move other = (other, kInvalidFd)"

section \<open>Acceptor\<close>

record acceptor =
  acc_callback :: bool
  acc_address :: inet_address
  acc_fd :: int
  acc_opts :: sock_opts
  acc_channel :: socket_channel
  acc_loop :: nat

text \<open>An address without an implementation is a null pointer when it is bound to.\<close>

datatype setup_stop = NoBossGroup | NoLoop | NullAddress | SocketStop socket_fatal

definition ac_construct ::
  "net_setup \<Rightarrow> nat \<Rightarrow> inet_address \<Rightarrow> socket_options \<Rightarrow> setup_stop + acceptor" where
  "ac_construct N loop address options =
     (case sk_open N (ia_family address) True of
        Inl e \<Rightarrow> Inl (SocketStop e)
      | Inr fd \<Rightarrow>
          Inr \<lparr>acc_callback = False, acc_address = ia_copy address, acc_fd = fd,
               acc_opts = sk_set_options options (ns_opts N), acc_channel = sc_create, acc_loop = loop\<rparr>)"

definition ac_bind :: "net_setup \<Rightarrow> acceptor \<Rightarrow> setup_stop + acceptor" where
  "ac_bind N a =
     (case ia_impl (acc_address a) of
        None \<Rightarrow> Inl NullAddress
      | Some i \<Rightarrow>
          (case ns_bind N (acc_fd a) i of
             (ret, so_error) \<Rightarrow>
               case sk_bind ret so_error of Some e \<Rightarrow> Inl (SocketStop e) | None \<Rightarrow> Inr a))"

definition ac_on_accept :: "acceptor \<Rightarrow> acceptor" where
  "ac_on_accept a = a\<lparr>acc_callback := True\<rparr>"

section \<open>TcpServer\<close>

record tcp_server_options =
  ts_boss_options :: socket_options
  ts_child_options :: socket_options

definition default_tcp_server_options :: tcp_server_options where
  "default_tcp_server_options =
     \<lparr>ts_boss_options = default_socket_options, ts_child_options = default_socket_options\<rparr>"

definition sv_bind ::
  "net_setup \<Rightarrow> 'l loop_group option \<Rightarrow> tcp_server_options \<Rightarrow> inet_address \<Rightarrow>
     setup_stop + (acceptor \<times> 'l loop_group)" where
  "sv_bind N boss options address =
     (case boss of
        None \<Rightarrow> Inl NoBossGroup
      | Some g \<Rightarrow>
          (case gr_take g of
             None \<Rightarrow> Inl NoLoop
           | Some (loop, g1) \<Rightarrow>
               (case ac_construct N loop address (ts_boss_options options) of
                  Inl e \<Rightarrow> Inl e
                | Inr a \<Rightarrow> (case ac_bind N a of Inl e \<Rightarrow> Inl e | Inr a1 \<Rightarrow> Inr (a1, g1)))))"

section \<open>From Bind to the listening socket\<close>

lemma impl_size_fits: "impl_size i \<le> impl_size \<lparr>ii_family = 0, ii_port = 0, ii_addr = []\<rparr>"
  by (simp add: impl_size_def AF_INET_def)

lemma sk_open_nonblocking: "sk_type True AND SOCK_NONBLOCK \<noteq> 0" "sk_type False AND SOCK_NONBLOCK = 0"
  by (simp_all add: sk_type_def SOCK_STREAM_def SOCK_CLOEXEC_def SOCK_NONBLOCK_def)

text \<open>
  A server whose Bind succeeds has a nonblocking socket of the family of its address, made
  on the next loop of its boss group, bound to that address, with exactly the four options of
  boss_options whatever the kernel's defaults were; and Start then has it listening, watched
  for reading and nothing else, which Bind alone does not.
\<close>

theorem server_listens:
  assumes "gr_ok g" and "sv_bind N (Some g) options address = Inr (a, g')"
    and "sv_acceptor s = Some ch" and "fd ch = acc_fd a"
    and "ep_good fd (sv_selector s)" and "\<not> ep_contain ch (sv_selector s)" and "ep_kernel (sv_selector s) (fd ch) = None"
  shows "fst (ns_socket N (ia_family address) (sk_type True) IPPROTO_TCP) = acc_fd a \<and> 0 \<le> acc_fd a
    \<and> acc_loop a = unat (gr_next g) mod length (gr_loops g)
    \<and> (\<exists>i. ia_impl address = Some i \<and> fst (ns_bind N (acc_fd a) i) = 0)
    \<and> acc_opts a = (\<lambda>opt. case opt of
         SO_REUSEADDR \<Rightarrow> of_bool (so_reuse_addr (ts_boss_options options))
       | SO_REUSEPORT \<Rightarrow> of_bool (so_reuse_port (ts_boss_options options))
       | SO_KEEPALIVE \<Rightarrow> of_bool (so_keep_alive (ts_boss_options options))
       | TCP_NODELAY \<Rightarrow> of_bool (so_tcp_no_delay (ts_boss_options options)))
    \<and> sc_watch (acc_channel a) = None
    \<and> (\<exists>s'. sv_start fd s = Inr (Inr s') \<and> ep_watch fd (sv_selector s') ch = Some kReadEvent)"
proof -
  obtain k g1 where taken: "gr_take g = Some (k, g1)"
    using assms(2) by (auto simp: sv_bind_def split: option.splits)
  obtain b where made: "ac_construct N k address (ts_boss_options options) = Inr b" and bound: "ac_bind N b = Inr a"
    using assms(2) taken by (auto simp: sv_bind_def split: sum.splits)
  have a: "a = b"
    using bound by (auto simp: ac_bind_def split: option.splits prod.splits)
  have "acc_loop a = k" "sc_watch (acc_channel a) = None" "acc_opts a = sk_set_options (ts_boss_options options) (ns_opts N)"
    "fst (ns_socket N (ia_family address) (sk_type True) IPPROTO_TCP) = acc_fd a" "0 \<le> acc_fd a"
    "ia_impl (acc_address a) = ia_impl address"
    using made by (auto simp: a ac_construct_def sk_open_def sk_create_def ia_copy_def
        split: sum.splits prod.splits if_splits option.splits)
  moreover have "\<exists>i. ia_impl (acc_address a) = Some i \<and> fst (ns_bind N (acc_fd a) i) = 0"
    using bound by (auto simp: a ac_bind_def sk_bind_def split: option.splits prod.splits if_splits)
  moreover obtain sel where "ac_listen ep_contain (ep_add fd) (ep_update fd) ch kNoneEvent (sv_selector s) =
      Inr (sel, kReadEvent, True)" "ep_watch fd sel ch = Some kReadEvent"
    using ac_listen_ok [OF assms(5-7)] by blast
  then have "\<exists>s'. sv_start fd s = Inr (Inr s') \<and> ep_watch fd (sv_selector s') ch = Some kReadEvent"
    using assms(3) by (simp add: sv_start_def)
  ultimately show ?thesis
    using gr_take_bound(2) [OF assms(1) taken] by (simp add: fun_eq_iff sk_set_options_all)
qed

text \<open>A kernel that answers, and the address 0.0.0.0:1082 of the echo server.\<close>

definition plain_net :: net_setup where
  "plain_net = \<lparr>ns_socket = \<lambda>_ _ _. (5, 0), ns_bind = \<lambda>_ _. (0, 0), ns_name = \<lambda>_. None, ns_peer = \<lambda>_. None,
     ns_opts = \<lambda>_. 0\<rparr>"

definition any_address :: inet_address where
  "any_address = \<lparr>ia_impl = Some \<lparr>ii_family = AF_INET, ii_port = 1082, ii_addr = [0, 0, 0, 0]\<rparr>, ia_host = ''0.0.0.0''\<rparr>"

theorem server_listens_witness:
  "\<exists>a. map_sum (\<lambda>e. e) fst (sv_bind plain_net (Some (gr_create [(), ()])) default_tcp_server_options any_address) = Inr a
    \<and> acc_fd a = 5 \<and> acc_loop a = 0 \<and> acc_opts a SO_REUSEPORT = 0 \<and> acc_opts a SO_REUSEADDR = 1
    \<and> (\<exists>s'. sv_start int \<lparr>sv_acceptor = Some 5, sv_selector = ep_create\<rparr> = Inr (Inr s')
         \<and> ep_watch int (sv_selector s') 5 = Some kReadEvent)"
proof -
  let ?g = "gr_create [(), ()]" and ?s = "\<lparr>sv_acceptor = Some 5, sv_selector = ep_create\<rparr>"
  obtain a g' where bind: "sv_bind plain_net (Some ?g) default_tcp_server_options any_address = Inr (a, g')"
    and fd: "acc_fd a = 5"
    by (auto simp: sv_bind_def gr_take_def gr_create_def ac_construct_def sk_open_def sk_create_def plain_net_def
        ac_bind_def any_address_def ia_copy_def sk_bind_def)
  have "gr_ok ?g" by (simp add: gr_create_ok)
  note listens = server_listens [OF this bind, of ?s 5 int]
  have empty: "ep_good int (sv_selector ?s)" "\<not> ep_contain 5 (sv_selector ?s)" "ep_kernel (sv_selector ?s) (int 5) = None"
    "sv_acceptor ?s = Some 5" "int 5 = acc_fd a"
    by (simp_all add: ep_create_good fd) (simp_all add: ep_create_def ep_contain_def)
  note r = listens [OF empty(4,5,1-3)]
  have "acc_loop a = 0 \<and> acc_opts a SO_REUSEPORT = 0 \<and> acc_opts a SO_REUSEADDR = 1
    \<and> (\<exists>s'. sv_start int ?s = Inr (Inr s') \<and> ep_watch int (sv_selector s') 5 = Some kReadEvent)"
    using r by (simp add: gr_create_def default_tcp_server_options_def default_socket_options_def)
  with bind fd show ?thesis by auto
qed

end
