(* ===== verification/Server_System.thy ===== *)
theory Server_System
  imports Tcp_Server Tcp_Connection_Races Loop_Group
begin

text \<open>
  A running server: the accept callback that src/tcp\_server.cc installs in \<open>TcpServer::Start\<close>,
  every connection it has made (theory Tcp\_Connection), the set \<open>conns_\<close> that the server's own
  handler keeps, and \<open>TcpServer::Close\<close>.  Connections are numbered in the order in which they
  were accepted.  Each has an operating system and a user's handler of its own.
\<close>

section \<open>State\<close>

record 'b server_sys =
  ss_conns :: "'b tcp_conn list"
  ss_opts :: "sock_opts list"
  ss_loop_of :: "nat list"
  ss_set :: "nat list"
  ss_workers :: "unit loop_group"
  ss_closed :: bool

definition ss_create :: "nat \<Rightarrow> 'b server_sys" where
  "ss_create workers =
     \<lparr>ss_conns = [], ss_opts = [], ss_loop_of = [], ss_set = [], ss_workers = gr_create (replicate workers ()),
      ss_closed = False\<rparr>"

text \<open>
  What the callbacks of one step of connection \<open>i\<close> make of \<open>conns_\<close>: \<open>OnConnect\<close> inserts when the
  user's handler has returned, \<open>OnClose\<close> erases.  A connection closed within its \<open>OnConnect\<close> leaves
  the server's handler with a null \<open>GetConnection()\<close>.
\<close>

definition sv_events :: "'b tcp_conn \<Rightarrow> 'b tcp_conn \<Rightarrow> conn_event set" where
  "sv_events c c' = set (drop (length (cn_trace c)) (cn_trace c'))"

definition sv_track :: "nat \<Rightarrow> 'b tcp_conn \<Rightarrow> 'b tcp_conn \<Rightarrow> nat list \<Rightarrow> server_stop + nat list" where
  "sv_track i c c' conns =
     (if OnConnect \<in> sv_events c c'
      then (if OnClose \<in> sv_events c c' then Inl NullConnection else Inr (sv_insert i conns))
      else if OnClose \<in> sv_events c c' then Inr (removeAll i conns) else Inr conns)"

text \<open>
  The accept callback: the options of the socket, the next loop of the worker group, the
  connection, \<open>Start\<close>.  \<open>in_loop\<close>: the acceptor's loop is the connection's loop as well.
\<close>

definition sv_accept ::
  "bool \<Rightarrow> 'b buffer_ops \<Rightarrow> 'b conn_hook \<Rightarrow> socket_options \<Rightarrow> sock_opts \<Rightarrow> 'b server_sys \<Rightarrow>
     (server_stop + 'b server_sys) option" where
  "sv_accept in_loop B H child_options opts s =
     (case gr_take (ss_workers s) of
        None \<Rightarrow> None
      | Some (k, g) \<Rightarrow>
          let c = conn_start in_loop H (conn_create B);
              i = length (ss_conns s)
          in Some (case sv_track i (conn_create B) c (ss_set s) of
               Inl e \<Rightarrow> Inl e
             | Inr conns \<Rightarrow>
                 Inr (s\<lparr>ss_conns := ss_conns s @ [c], ss_opts := ss_opts s @ [sk_set_options child_options opts],
                        ss_loop_of := ss_loop_of s @ [k], ss_set := conns, ss_workers := g\<rparr>)))"

text \<open>
  \<open>TcpServer::Close\<close>, called on a thread that is no loop of a connection, once the acceptor is
  closed: every connection of the set is closed, and the set is cleared.
\<close>

definition sv_close_all :: "'b buffer_ops \<Rightarrow> (nat \<Rightarrow> 'b conn_hook) \<Rightarrow> 'b server_sys \<Rightarrow> 'b server_sys" where
  "sv_close_all B H s =
     s\<lparr>ss_conns := map (\<lambda>i. if i \<in> set (ss_set s) then conn_close False B (H i) (ss_conns s ! i) else ss_conns s ! i)
                     [0..<length (ss_conns s)],
       ss_set := [], ss_closed := True\<rparr>"

inductive ss_step ::
  "'b buffer_ops \<Rightarrow> (nat \<Rightarrow> net_os) \<Rightarrow> (nat \<Rightarrow> 'b conn_hook) \<Rightarrow> socket_options \<Rightarrow> 'b server_sys \<Rightarrow> 'b server_sys \<Rightarrow> bool"
  for B sys H child_options
where
  ss_accept: "\<not> ss_closed s \<Longrightarrow> sv_accept in_loop B (H (length (ss_conns s))) child_options opts s = Some (Inr t) \<Longrightarrow>
    ss_step B sys H child_options s t"
| ss_conn: "i < length (ss_conns s) \<Longrightarrow> conn_any_step B (sys i) (H i) (ss_conns s ! i) c \<Longrightarrow>
    sv_track i (ss_conns s ! i) c (ss_set s) = Inr conns \<Longrightarrow>
    ss_step B sys H child_options s (s\<lparr>ss_conns := (ss_conns s)[i := c], ss_set := conns\<rparr>)"
| ss_close: "\<not> ss_closed s \<Longrightarrow> ss_step B sys H child_options s (sv_close_all B H s)"

definition ss_initial :: "nat \<Rightarrow> 'b server_sys \<Rightarrow> bool" where
  "ss_initial workers s \<longleftrightarrow> s = ss_create workers"

section \<open>OnConnect comes first\<close>

lemma micro_connect:
  "conn_micro B sys c c' \<Longrightarrow> cn_state c \<noteq> Connecting \<Longrightarrow>
    cn_state c' \<noteq> Connecting \<and> count_list (cn_trace c') OnConnect = count_list (cn_trace c) OnConnect"
  by (induction rule: conn_micro.induct) (simp_all add: conn_small_defs)

lemma micros_connect:
  "(conn_micro B sys)\<^sup>*\<^sup>* c c' \<Longrightarrow> cn_state c \<noteq> Connecting \<Longrightarrow>
    count_list (cn_trace c') OnConnect = count_list (cn_trace c) OnConnect"
  by (drule micro_invariant [where P = "\<lambda>c'. cn_state c' \<noteq> Connecting
      \<and> count_list (cn_trace c') OnConnect = count_list (cn_trace c) OnConnect"])
    (auto dest: micro_connect)

lemma conn_remove_connect:
  assumes "cn_state c \<noteq> Connecting"
  shows "count_list (cn_trace (conn_remove (conn_hooks B sys h n) c)) OnConnect = count_list (cn_trace c) OnConnect"
proof (cases rule: conn_remove_cases [where c = c and B = B and sys = sys and h = h and n = n])
  case now
  then show ?thesis
    using micros_connect [OF now(3)] by simp
qed simp_all

lemma conn_task_connect:
  assumes "cn_state c \<noteq> Connecting"
  shows "count_list (cn_trace (conn_run_task B sys (conn_hooks B sys h n) t (c\<lparr>cn_tasks := ts\<rparr>))) OnConnect
    = count_list (cn_trace c) OnConnect"
proof (cases "t \<in> {TaskAdd, TaskClose, TaskForceClose}")
  case False
  then show ?thesis
    using micros_connect [OF conn.R_run_task [where c = "c\<lparr>cn_tasks := ts\<rparr>"]] assms by simp
next
  case True
  then show ?thesis
    using assms conn_remove_connect [of "c\<lparr>cn_tasks := ts\<rparr>" B sys h n]
    by (auto simp: conn_add_def conn_close_body_def)
qed

lemma conn_step_connect:
  assumes "conn_step B sys (conn_hooks B sys h n) c c'" and "cn_state c \<noteq> Connecting"
  shows "count_list (cn_trace c') OnConnect = count_list (cn_trace c) OnConnect"
  using assms
proof (induction rule: conn_step.induct)
  case (cs_task c t ts)
  show ?case by (rule conn_task_connect [OF cs_task.prems])
next
  case (cs_io c events)
  show ?case by (rule micros_connect [OF conn.R_io cs_io])
next
  case (cs_thread c cmd)
  show ?case
    by (cases cmd) (auto simp: conn_send_view_def conn_run_def conn_close_def
      conn_force_close_def conn_shutdown_def conn_force_shutdown_def conn_force_shutdown_store_def)
next
  case (cs_loop cmd c)
  show ?case by (rule micros_connect [OF conn.R_exec cs_loop.prems])
qed

lemma conn_any_connect:
  assumes "conn_any_step B sys (conn_hooks B sys h n) c c'" and "cn_state c \<noteq> Connecting"
  shows "count_list (cn_trace c') OnConnect = count_list (cn_trace c) OnConnect"
  using assms(1)
proof cases
  case ca_step
  then show ?thesis using assms(2) by (rule conn_step_connect)
next
  case (ca_task us t ts)
  show ?thesis unfolding ca_task(1) by (rule conn_task_connect [OF assms(2)])
next
  case ca_store
  then show ?thesis by (simp add: conn_force_shutdown_store_def conn_run_def)
qed

text \<open>What a step never takes back, even if it stores a state that is out of date.\<close>

definition sv_onward :: "'b tcp_conn \<Rightarrow> 'b tcp_conn \<Rightarrow> bool" where
  "sv_onward c c' \<longleftrightarrow>
     (\<exists>es. cn_trace c' = cn_trace c @ es) \<and> (Disconnecting \<le> cn_state c \<longrightarrow> Disconnecting \<le> cn_state c')"

lemma forward_onward: "conn_forward c c' \<Longrightarrow> sv_onward c c'"
  by (auto simp: conn_forward_def sv_onward_def)

lemma conn_any_onward:
  assumes "conn_any_step B sys (conn_hooks B sys h n) c c'"
  shows "sv_onward c c'"
  using assms
proof cases
  case ca_step
  then show ?thesis by (rule forward_onward [OF conn_forward_step])
next
  case (ca_task us t ts)
  have "conn_forward (c\<lparr>cn_tasks := us @ ts\<rparr>) c'"
    unfolding ca_task(1) by (rule conn_task_forward)
  from forward_onward [OF this] show ?thesis by (simp add: sv_onward_def)
next
  case ca_store
  then show ?thesis by (simp add: sv_onward_def conn_force_shutdown_store_def conn_run_def)
qed

section \<open>The invariant\<close>

text \<open>A connection is live from its \<open>OnConnect\<close> to its \<open>OnClose\<close>.\<close>

definition cn_live :: "'b tcp_conn \<Rightarrow> bool" where
  "cn_live c \<longleftrightarrow> OnConnect \<in> set (cn_trace c) \<and> OnClose \<notin> set (cn_trace c)"

definition ss_tracks :: "bool \<Rightarrow> nat list \<Rightarrow> nat \<Rightarrow> 'b tcp_conn \<Rightarrow> bool" where
  "ss_tracks closed conns i c \<longleftrightarrow>
     (i \<in> set conns \<longrightarrow> cn_live c) \<and> (cn_live c \<longrightarrow> i \<in> set conns \<or> closed \<and> Disconnecting \<le> cn_state c)"

definition ss_inv :: "'b buffer_ops \<Rightarrow> 'b server_sys \<Rightarrow> bool" where
  "ss_inv B s \<longleftrightarrow> list_all (conn_safe True B) (ss_conns s) \<and> distinct (ss_set s) \<and> set (ss_set s) \<subseteq> {..<length (ss_conns s)}
     \<and> (\<forall>i < length (ss_conns s). ss_tracks (ss_closed s) (ss_set s) i (ss_conns s ! i))"

lemma conn_safe_connecting:
  "conn_safe late B c \<Longrightarrow> cn_state c = Connecting \<Longrightarrow> OnConnect \<notin> set (cn_trace c) \<and> OnClose \<notin> set (cn_trace c)"
  by (auto simp: conn_safe_def conn_fresh_def conn_kept_def)

text \<open>What one step of a connection adds to its trace, as far as the server is concerned.\<close>

lemma sv_events_trace:
  assumes "sv_onward c c'"
  shows "set (cn_trace c') = set (cn_trace c) \<union> sv_events c c'"
  using assms by (auto simp: sv_onward_def sv_events_def)

lemma sv_events_connect:
  assumes "sv_onward c c'" and "cn_state c \<noteq> Connecting \<Longrightarrow>
      count_list (cn_trace c') OnConnect = count_list (cn_trace c) OnConnect"
    and "OnConnect \<in> sv_events c c'"
  shows "cn_state c = Connecting"
proof (rule ccontr)
  assume "cn_state c \<noteq> Connecting"
  moreover obtain es where "cn_trace c' = cn_trace c @ es"
    using assms(1) by (auto simp: sv_onward_def)
  ultimately show False
    using assms(2,3) by (simp add: sv_events_def count_list_0_iff)
qed

lemma set_sv_insert [simp]: "set (sv_insert i conns) = insert i (set conns)"
  by (auto simp: sv_insert_def)

lemma sv_track_cases:
  assumes "sv_track i c c' conns = Inr conns'"
  obtains (connect) "OnConnect \<in> sv_events c c'" "OnClose \<notin> sv_events c c'" "set conns' = insert i (set conns)"
  | (close) "OnConnect \<notin> sv_events c c'" "OnClose \<in> sv_events c c'" "set conns' = set conns - {i}"
  | (other) "OnConnect \<notin> sv_events c c'" "OnClose \<notin> sv_events c c'" "conns' = conns"
  using assms by (auto simp: sv_track_def split: if_splits)

lemma sv_track_distinct: "sv_track i c c' conns = Inr conns' \<Longrightarrow> distinct conns \<Longrightarrow> distinct conns'"
  by (auto simp: sv_track_def sv_insert_def distinct_removeAll split: if_splits)

lemma ss_tracks_step:
  assumes "conn_safe True B c" and "sv_onward c c'"
    and "cn_state c \<noteq> Connecting \<Longrightarrow> count_list (cn_trace c') OnConnect = count_list (cn_trace c) OnConnect"
    and "sv_track i c c' conns = Inr conns'" and "ss_tracks closed conns i c"
  shows "ss_tracks closed conns' i c'"
  using assms(4)
proof (cases rule: sv_track_cases)
  case connect
  have "cn_state c = Connecting"
    using assms(2,3) connect(1) by (rule sv_events_connect)
  then have "OnClose \<notin> set (cn_trace c)"
    using conn_safe_connecting [OF assms(1)] by blast
  with connect sv_events_trace [OF assms(2)] show ?thesis
    by (auto simp: ss_tracks_def cn_live_def)
next
  case close
  with sv_events_trace [OF assms(2)] show ?thesis
    by (auto simp: ss_tracks_def cn_live_def)
next
  case other
  with sv_events_trace [OF assms(2)] have "cn_live c' \<longleftrightarrow> cn_live c"
    by (auto simp: cn_live_def)
  moreover have "Disconnecting \<le> cn_state c \<longrightarrow> Disconnecting \<le> cn_state c'"
    using assms(2) by (simp add: sv_onward_def)
  ultimately show ?thesis
    using assms(5) other(3) unfolding ss_tracks_def by blast
qed

lemma ss_tracks_other:
  assumes "sv_track i c c' conns = Inr conns'" and "j \<noteq> i"
  shows "ss_tracks closed conns' j d = ss_tracks closed conns j d"
  using assms(1) by (cases rule: sv_track_cases) (use assms(2) in \<open>auto simp: ss_tracks_def\<close>)

lemma sv_track_bound:
  assumes "sv_track i c c' conns = Inr conns'" and "set conns \<subseteq> {..<n}" and "i < m" and "n \<le> m"
  shows "set conns' \<subseteq> {..<m}"
  using assms(1) by (cases rule: sv_track_cases) (use assms(2-4) in auto)

text \<open>A connection as the accept callback makes it.\<close>

lemma conn_create_inv: "buffer_ok B \<Longrightarrow> conn_safe True B (conn_create B)"
  by (simp add: conn_inv_def conn_good_def conn_create_def cn_pending_def buffer_okD)

lemma conn_start_forward: "conn_forward (conn_create B) (conn_start l (conn_hooks B sys h n) (conn_create B))"
proof (cases l)
  case True
  let ?c = "(conn_create B)\<lparr>cn_context := True\<rparr>"
  have "conn_forward (?c\<lparr>cn_channel := (cn_channel ?c)\<lparr>sc_watch := Some kNoneEvent\<rparr>\<rparr>)
      (conn_add (conn_hooks B sys h n) ?c)"
    by (rule micros_forward [OF conn.R_add]) (simp add: conn_create_def)
  moreover have "conn_forward (conn_create B) (?c\<lparr>cn_channel := (cn_channel ?c)\<lparr>sc_watch := Some kNoneEvent\<rparr>\<rparr>)"
    by (simp add: conn_forward_def)
  ultimately show ?thesis
    using True by (auto simp: conn_start_def conn_run_def intro: conn_forward_trans)
qed (simp add: conn_start_def conn_run_def conn_forward_def)

lemma ss_inv_accept:
  assumes ok: "buffer_ok B" "os_ok sys" and inv: "ss_inv B s" and "H = conn_hooks B sys h n"
    and acc: "sv_accept l B H o1 opts s = Some (Inr t)"
  shows "ss_inv B t"
proof -
  let ?c = "conn_start l H (conn_create B)" and ?i = "length (ss_conns s)"
  obtain k g conns where t: "t = s\<lparr>ss_conns := ss_conns s @ [?c], ss_opts := ss_opts s @ [sk_set_options o1 opts],
      ss_loop_of := ss_loop_of s @ [k], ss_set := conns, ss_workers := g\<rparr>"
    and conns: "sv_track ?i (conn_create B) ?c (ss_set s) = Inr conns"
    using acc by (auto simp: sv_accept_def Let_def split: option.splits sum.splits)
  have c: "conn_safe True B ?c"
    by (rule conn_safe_late, rule conn_inv_initial [OF ok, of h n]) (use assms(4) in \<open>auto simp: conn_initial_def\<close>)
  have "?i \<notin> set (ss_set s)"
    using inv by (auto simp: ss_inv_def)
  then have "ss_tracks (ss_closed s) (ss_set s) ?i (conn_create B)"
    by (simp add: ss_tracks_def cn_live_def conn_create_def)
  then have new: "ss_tracks (ss_closed s) conns ?i ?c"
    using ss_tracks_step [OF conn_create_inv [OF ok(1)] _ _ conns] forward_onward [OF conn_start_forward [of B l sys h n]] assms(4)
    by (simp add: conn_create_def)
  have "ss_tracks (ss_closed s) conns j ((ss_conns s @ [?c]) ! j)" if "j < Suc ?i" for j
    using that new inv ss_tracks_other [OF conns, of j] by (cases "j = ?i") (auto simp: nth_append ss_inv_def less_Suc_eq)
  moreover have "set conns \<subseteq> {..<Suc ?i}"
    using inv by (intro sv_track_bound [OF conns, of ?i]) (auto simp: ss_inv_def)
  moreover have "distinct conns"
    using inv by (intro sv_track_distinct [OF conns]) (simp add: ss_inv_def)
  ultimately show ?thesis
    using inv c by (simp add: t ss_inv_def)
qed

lemma ss_inv_conn:
  assumes ok: "buffer_ok B" "os_ok sys" and inv: "ss_inv B s" and i: "i < length (ss_conns s)"
    and step: "conn_any_step B sys (conn_hooks B sys h n) (ss_conns s ! i) c"
    and conns: "sv_track i (ss_conns s ! i) c (ss_set s) = Inr conns"
  shows "ss_inv B (s\<lparr>ss_conns := (ss_conns s)[i := c], ss_set := conns\<rparr>)"
proof -
  have before: "conn_safe True B (ss_conns s ! i)" "ss_tracks (ss_closed s) (ss_set s) i (ss_conns s ! i)"
    using inv i by (auto simp: ss_inv_def list_all_length)
  have "conn_safe True B c"
    using ok step before(1) by (rule conn_any_inv)
  then have all: "list_all (conn_safe True B) ((ss_conns s)[i := c])"
    using inv by (auto simp: ss_inv_def list_all_iff dest: set_update_subset_insert [THEN subsetD])
  have at: "ss_tracks (ss_closed s) conns i c"
    by (rule ss_tracks_step [OF before(1) conn_any_onward [OF step] conn_any_connect [OF step] conns before(2)])
  have "ss_tracks (ss_closed s) conns j ((ss_conns s)[i := c] ! j)" if "j < length (ss_conns s)" for j
    using that at inv i ss_tracks_other [OF conns, of j] by (cases "j = i") (auto simp: ss_inv_def)
  moreover have "set conns \<subseteq> {..<length (ss_conns s)}"
    using inv i by (intro sv_track_bound [OF conns, of "length (ss_conns s)"]) (auto simp: ss_inv_def)
  moreover have "distinct conns"
    using inv by (intro sv_track_distinct [OF conns]) (simp add: ss_inv_def)
  ultimately show ?thesis
    using all by (simp add: ss_inv_def)
qed

lemma sv_closing_inv: "conn_safe late B c \<Longrightarrow> conn_safe late B (sv_closing c)"
  by (auto simp: sv_closing_def conn_inv_def conn_good_def conn_fresh_def)

lemma sv_closing_state: "cn_live c \<Longrightarrow> conn_safe late B c \<Longrightarrow> Disconnecting \<le> cn_state (sv_closing c)"
  using conn_safe_connecting [of late B c]
  by (cases "cn_state c") (auto simp: sv_closing_def cn_live_def less_eq_conn_state_def)

lemma cn_live_closing [simp]: "cn_live (sv_closing c) = cn_live c"
  by (simp add: sv_closing_def cn_live_def)

lemma ss_inv_close:
  assumes inv: "ss_inv B s" and "\<not> ss_closed s"
  shows "ss_inv B (sv_close_all B H s)"
proof -
  let ?c = "\<lambda>i. if i \<in> set (ss_set s) then sv_closing (ss_conns s ! i) else ss_conns s ! i"
  have conns: "length (ss_conns (sv_close_all B H s)) = length (ss_conns s)"
    "i < length (ss_conns s) \<Longrightarrow> ss_conns (sv_close_all B H s) ! i = ?c i" for i
    by (simp_all add: sv_close_all_def conn_close_off_loop)
  have fields: "ss_set (sv_close_all B H s) = []" "ss_closed (sv_close_all B H s)"
    by (simp_all add: sv_close_all_def)
  have "conn_safe True B (?c i)" if "i < length (ss_conns s)" for i
    using inv that by (auto simp: ss_inv_def list_all_length intro: sv_closing_inv)
  moreover have "ss_tracks True [] i (?c i)" if i: "i < length (ss_conns s)" for i
  proof -
    have "ss_tracks False (ss_set s) i (ss_conns s ! i)" "conn_safe True B (ss_conns s ! i)"
      using inv i assms(2) by (simp_all add: ss_inv_def list_all_length)
    then show ?thesis
      using sv_closing_state [of "ss_conns s ! i" True B] by (auto simp: ss_tracks_def)
  qed
  ultimately show ?thesis
    by (simp add: ss_inv_def conns fields list_all_length split del: if_split cong: conj_cong)
qed

lemma server_system:
  assumes "buffer_ok B" and "\<And>i. os_ok (sys i)"
  shows "invariant_system (ss_initial workers) (ss_step B sys (\<lambda>i. conn_hooks B (sys i) (h i) n) child_options) (ss_inv B)"
proof
  show "ss_initial workers s \<Longrightarrow> ss_inv B s" for s
    by (simp add: ss_initial_def ss_create_def ss_inv_def)
  fix s t
  assume inv: "ss_inv B s" and step: "ss_step B sys (\<lambda>i. conn_hooks B (sys i) (h i) n) child_options s t"
  from step show "ss_inv B t"
  proof cases
    case (ss_accept l opts)
    then show ?thesis by (intro ss_inv_accept [OF assms inv refl])
  next
    case (ss_conn i c conns)
    then show ?thesis by (simp add: ss_inv_conn [OF assms inv])
  next
    case ss_close
    then show ?thesis by (simp add: ss_inv_close [OF inv])
  qed
qed

section \<open>Properties\<close>

text \<open>
  C24. The server knows its connections.  With any number of connections, any users' handlers (that
  do not close a connection within its OnConnect), peers and kernels, tasks that run in any order and
  any ForceShutdown of other threads: conns_ never holds a connection twice; until the server is
  closed, it holds exactly the connections whose OnConnect has been called and whose OnClose has not.
  After Close, a connection whose OnConnect has been called and whose OnClose has not is in the set,
  or its state is kDisconnecting or kDisconnected.
\<close>

theorem server_tracks_conns:
  assumes "buffer_ok B" and "\<And>i. os_ok (sys i)"
    and "reachable (ss_initial workers) (ss_step B sys (\<lambda>i. conn_hooks B (sys i) (h i) n) child_options) s"
  shows "distinct (ss_set s) \<and>
    (\<not> ss_closed s \<longrightarrow> set (ss_set s) = {i. i < length (ss_conns s) \<and> cn_live (ss_conns s ! i)}) \<and>
    (\<forall>i < length (ss_conns s). cn_live (ss_conns s ! i) \<longrightarrow>
       i \<in> set (ss_set s) \<or> cn_state (ss_conns s ! i) \<in> {Disconnecting, Disconnected})"
proof -
  have inv: "ss_inv B s"
    using invariant_system.inv_reachable [OF server_system [OF assms(1,2)] assms(3)] .
  have "cn_state c \<in> {Disconnecting, Disconnected}" if "Disconnecting \<le> cn_state c" for c :: "'a tcp_conn"
    using that by (cases "cn_state c") (auto simp: less_eq_conn_state_def)
  with inv show ?thesis
    by (auto simp: ss_inv_def ss_tracks_def)
qed

text \<open>One connection, accepted on another thread than its loop, with a handler that does nothing.\<close>

definition one_started :: "(byte list \<times> nat) tcp_conn" where
  "one_started = conn_start False (\<lambda>e c. c) (conn_create list_buffer)"

definition one_accepted :: "(byte list \<times> nat) server_sys" where
  "one_accepted = \<lparr>ss_conns = [one_started], ss_opts = [sk_set_options default_socket_options (\<lambda>_. 0)],
     ss_loop_of = [0], ss_set = [], ss_workers = (gr_create [()])\<lparr>gr_next := 1\<rparr>, ss_closed = False\<rparr>"

abbreviation quiet_hooks :: "nat \<Rightarrow> (byte list \<times> nat) conn_hook" where
  "quiet_hooks \<equiv> \<lambda>i. conn_hooks list_buffer idle_os (\<lambda>e c. []) 1"

lemma quiet_hooks_id [simp]: "conn_hooks list_buffer idle_os (\<lambda>e c. []) (Suc 0) = (\<lambda>e c. c)"
  by (simp add: fun_eq_iff)

lemma idle_os_ok: "os_ok idle_os"
  by (simp add: os_ok_def idle_os_def)

lemma one_accepted_reachable:
  "reachable (ss_initial 1) (ss_step list_buffer (\<lambda>_. idle_os) quiet_hooks default_socket_options) one_accepted"
proof -
  have "gr_take (gr_create [()]) = Some (0, (gr_create [()])\<lparr>gr_next := 1\<rparr>)"
    by (simp add: gr_take_def gr_create_def)
  then have "sv_accept False list_buffer (quiet_hooks 0) default_socket_options (\<lambda>_. 0) (ss_create 1) = Some (Inr one_accepted)"
    by (simp add: sv_accept_def ss_create_def one_accepted_def one_started_def sv_track_def sv_events_def conn_start_def
        conn_run_def conn_create_def Let_def)
  then have "ss_step list_buffer (\<lambda>_. idle_os) quiet_hooks default_socket_options (ss_create 1) one_accepted"
    by (intro ss_step.ss_accept) (simp_all add: ss_create_def)
  then show ?thesis
    by (rule reachable.next_step [OF reachable.start, rotated]) (simp add: ss_initial_def)
qed

lemma one_connects:
  assumes "ss_conns s = [one_started]" and "ss_set s = []"
  shows "\<exists>c. ss_step list_buffer (\<lambda>_. idle_os) quiet_hooks default_socket_options s (s\<lparr>ss_conns := [c], ss_set := [0]\<rparr>)
    \<and> cn_state c = Connected \<and> cn_trace c = [OnConnect] \<and> cn_tasks c = []"
proof -
  let ?c = "conn_add (\<lambda>e c. c) (one_started\<lparr>cn_tasks := []\<rparr>)"
  have tasks: "cn_tasks one_started = [TaskAdd]"
    by (simp add: one_started_def conn_start_def conn_run_def conn_create_def)
  then have "conn_any_step list_buffer idle_os (quiet_hooks 0) one_started ?c"
    using ca_step [OF conn_step.cs_task [of one_started TaskAdd "[]"]] by simp
  moreover have c: "cn_state ?c = Connected" "cn_trace ?c = [OnConnect]" "cn_tasks ?c = []" "cn_trace one_started = []"
    by (simp_all add: one_started_def conn_start_def conn_run_def conn_create_def conn_add_def sc_create_def conn_notify_def
        conn_set_readable_def Let_def)
  moreover from c have "sv_track 0 one_started ?c [] = Inr [0]"
    by (simp add: sv_track_def sv_events_def sv_insert_def)
  ultimately have "ss_step list_buffer (\<lambda>_. idle_os) quiet_hooks default_socket_options s (s\<lparr>ss_conns := [?c], ss_set := [0]\<rparr>)"
    using ss_step.ss_conn [of 0 s list_buffer "\<lambda>_. idle_os" quiet_hooks ?c "[0]"] assms by simp
  with c show ?thesis by blast
qed

theorem server_tracks_conns_witness:
  "\<exists>s. reachable (ss_initial 1) (ss_step list_buffer (\<lambda>_. idle_os) quiet_hooks default_socket_options) s
    \<and> length (ss_conns s) = 1 \<and> set (ss_set s) = {0} \<and>
    set (ss_set s) = {i. i < length (ss_conns s) \<and> cn_live (ss_conns s ! i)}"
proof -
  obtain c where step: "ss_step list_buffer (\<lambda>_. idle_os) quiet_hooks default_socket_options one_accepted
      (one_accepted\<lparr>ss_conns := [c], ss_set := [0]\<rparr>)"
    using one_connects [of one_accepted] by (auto simp: one_accepted_def)
  have r: "reachable (ss_initial 1) (ss_step list_buffer (\<lambda>_. idle_os) quiet_hooks default_socket_options)
      (one_accepted\<lparr>ss_conns := [c], ss_set := [0]\<rparr>)"
    using one_accepted_reachable step by (rule reachable.next_step)
  from server_tracks_conns [OF list_buffer_ok _ r [unfolded One_nat_def]] idle_os_ok r show ?thesis
    by (intro exI [of _ "one_accepted\<lparr>ss_conns := [c], ss_set := [0]\<rparr>"]) (simp add: one_accepted_def)
qed

text \<open>
  C32. A connection can outlive the closing of its server.  There is a run in which the server is
  closed while a connection it has accepted waits for its loop; the connection then connects, is put
  into the set that Close has already emptied, and stays: connected, with no task that would close
  it.
\<close>

theorem server_close_misses:
  "\<exists>s. reachable (ss_initial 1) (ss_step list_buffer (\<lambda>_. idle_os) quiet_hooks default_socket_options) s
    \<and> ss_closed s \<and> ss_set s = [0] \<and> length (ss_conns s) = 1
    \<and> cn_state (ss_conns s ! 0) = Connected \<and> cn_tasks (ss_conns s ! 0) = []"
proof -
  let ?s = "sv_close_all list_buffer quiet_hooks one_accepted"
  have "ss_step list_buffer (\<lambda>_. idle_os) quiet_hooks default_socket_options one_accepted ?s"
    by (rule ss_step.ss_close) (simp add: one_accepted_def)
  then have r: "reachable (ss_initial 1) (ss_step list_buffer (\<lambda>_. idle_os) quiet_hooks default_socket_options) ?s"
    by (rule reachable.next_step [OF one_accepted_reachable])
  have s: "ss_conns ?s = [one_started]" "ss_set ?s = []" "ss_closed ?s"
    by (simp_all add: sv_close_all_def one_accepted_def)
  obtain c where c: "ss_step list_buffer (\<lambda>_. idle_os) quiet_hooks default_socket_options ?s (?s\<lparr>ss_conns := [c], ss_set := [0]\<rparr>)"
    "cn_state c = Connected" "cn_tasks c = []"
    using one_connects [OF s(1,2)] by blast
  from reachable.next_step [OF r c(1)] c(2,3) s(3) show ?thesis
    by (intro exI [of _ "?s\<lparr>ss_conns := [c], ss_set := [0]\<rparr>"]) simp
qed

end
