(* ===== verification/Echo_Server.thy ===== *)
theory Echo_Server
  imports Tcp_Connection_Properties
begin

text \<open>
  src/bench/bench\_tcp\_server.cc: the echo server, the program that the repository's benchmarks
  run against the library.  Its handler is the smallest complete user of a connection: what
  arrives in the input buffer is sent back.  The theory shows what this handler gets from the
  connection: the peer reads back exactly its own bytes, in order, none twice.
\<close>

section \<open>The handler\<close>

text \<open>
  \<open>GetConnection()\<close> is null before \<open>Start\<close> and after the close, which is \<open>\<not> cn_context\<close>.
  The other callbacks are those of \<open>ChannelHandlerAdaptor\<close>, which do nothing, and an
  \<open>OnError\<close> that only writes to the log.
\<close>

fun echo_handler :: "'b conn_handler" where
  "echo_handler OnRead c = (if cn_context c then [CmdSendInput] else [])"
| "echo_handler (OnError err) c = []"
| "echo_handler OnConnect c = []"
| "echo_handler OnWriteComplete c = []"
| "echo_handler OnClose c = []"

text \<open>
  The server never sends by itself: besides the loop's tasks and the events there are only the
  calls that close a connection (those of \<open>TcpServer::Close\<close> and its like), from any thread.
\<close>

definition closing_cmds :: "conn_cmd set" where
  "closing_cmds = {CmdClose, CmdForceClose, CmdShutdown, CmdForceShutdown}"

inductive echo_step ::
  "'b buffer_ops \<Rightarrow> net_os \<Rightarrow> 'b conn_hook \<Rightarrow> 'b tcp_conn \<Rightarrow> 'b tcp_conn \<Rightarrow> bool"
  for B sys H
where
  es_task: "cn_tasks c = t # ts \<Longrightarrow> echo_step B sys H c (conn_run_task B sys H t (c\<lparr>cn_tasks := ts\<rparr>))"
| es_io: "echo_step B sys H c (conn_io B sys H events c)"
| es_close: "cmd \<in> closing_cmds \<Longrightarrow> echo_step B sys H c (conn_exec in_loop B sys H cmd c)"

lemma echo_is_conn: "echo_step B sys H c c' \<Longrightarrow> conn_step B sys H c c'"
proof (induction rule: echo_step.induct)
  case (es_close cmd c in_loop)
  then show ?case
    by (cases in_loop) (auto simp: closing_cmds_def intro: cs_thread cs_loop)
qed (auto intro: conn_step.intros)

section \<open>The invariant\<close>

text \<open>
  While the connection is up everything read has been taken over for sending and the input
  buffer is empty; later the bytes taken over stay a prefix of those read.
\<close>

definition echo_inv :: "'b buffer_ops \<Rightarrow> 'b tcp_conn \<Rightarrow> bool" where
  "echo_inv B c \<longleftrightarrow>
     (\<exists>rest. cn_received c = cn_sent c @ rest)
   \<and> (cn_state c \<noteq> Disconnected \<longrightarrow> cn_context c)
   \<and> (cn_state c = Connected \<longrightarrow> cn_received c = cn_sent c \<and> bf_bytes B (cn_input c) = [])
   \<and> (cn_state c = Connecting \<longrightarrow> sc_watch (cn_channel c) = None \<and> cn_received c = cn_sent c
        \<and> bf_bytes B (cn_input c) = [])
   \<and> (\<forall>data. TaskSend data \<notin> set (cn_tasks c))"

definition echo_live :: "'b buffer_ops \<Rightarrow> 'b tcp_conn \<Rightarrow> bool" where
  "echo_live B c \<longleftrightarrow> echo_inv B c \<and> cn_state c \<noteq> Connecting"

text \<open>A change in which nothing is read, sent or consumed and the state only moves on.\<close>

definition echo_quiet :: "'b tcp_conn \<Rightarrow> 'b tcp_conn \<Rightarrow> bool" where
  "echo_quiet c c' \<longleftrightarrow>
     cn_received c' = cn_received c \<and> cn_sent c' = cn_sent c \<and> cn_input c' = cn_input c
   \<and> (cn_state c' = cn_state c \<and> cn_context c' = cn_context c \<or> cn_state c' = Disconnected
      \<or> cn_state c' = Disconnecting \<and> cn_state c \<noteq> Disconnected \<and> cn_context c' = cn_context c)
   \<and> (sc_watch (cn_channel c) = None \<longrightarrow> sc_watch (cn_channel c') = None)
   \<and> (\<forall>t \<in> set (cn_tasks c'). t \<in> set (cn_tasks c) \<or> (\<forall>data. t \<noteq> TaskSend data))"

lemma echo_quiet_refl [simp, intro]: "echo_quiet c c"
  by (simp add: echo_quiet_def)

lemma echo_quiet_trans: "echo_quiet c d \<Longrightarrow> echo_quiet d e \<Longrightarrow> echo_quiet c e"
  unfolding echo_quiet_def by (elim conjE disjE; simp; blast)

lemma echo_quiet_inv: "echo_quiet c c' \<Longrightarrow> echo_inv B c \<Longrightarrow> echo_inv B c'"
  unfolding echo_quiet_def echo_inv_def by (elim conjE disjE; auto)

lemma live_quiet: "echo_quiet c d \<Longrightarrow> echo_live B c \<Longrightarrow> echo_live B d"
  unfolding echo_live_def by (auto intro: echo_quiet_inv) (auto simp: echo_quiet_def)

text \<open>\<open>H\<close> is a hook that does nothing on any callback but \<open>OnRead\<close>.\<close>

locale echo_hooks =
  fixes B :: "'b buffer_ops" and sys :: net_os and H :: "'b conn_hook"
  assumes idle: "e \<noteq> OnRead \<Longrightarrow> H e c = c"
begin

lemma idle_notify [simp]: "e \<noteq> OnRead \<Longrightarrow> conn_notify H e c = c\<lparr>cn_trace := cn_trace c @ [e]\<rparr>"
  by (simp add: conn_notify_def idle)

lemma quiet_remove: "cn_state c = Disconnected \<Longrightarrow> echo_quiet c (conn_remove H c)"
  by (auto simp: conn_remove_def conn_handle_remove_def echo_quiet_def Let_def)

lemma quiet_task_remove: "echo_quiet c (conn_remove H c)"
  by (auto simp: conn_remove_def conn_handle_remove_def echo_quiet_def Let_def)

lemma quiet_close:
  "echo_quiet c (conn_handle_close H c)" "echo_quiet c (conn_force_close in_loop H c)"
  "echo_quiet c (conn_close in_loop B H c)"
  by (auto simp: conn_handle_close_def conn_force_close_def conn_close_def conn_run_def conn_close_body_def
      conn_remove_def conn_handle_remove_def echo_quiet_def Let_def)

lemma quiet_shutdown:
  "echo_quiet c (conn_shutdown in_loop B c)" "echo_quiet c (conn_force_shutdown in_loop c)"
  "echo_quiet c (conn_shutdown_body B c)" "echo_quiet c (conn_force_shutdown_body c)"
  by (auto simp: conn_shutdown_def conn_force_shutdown_def conn_force_shutdown_store_def conn_run_def
      conn_shutdown_body_def conn_force_shutdown_body_def conn_close_write_def conn_set_writable_def echo_quiet_def)

lemma quiet_error: "echo_quiet c (conn_handle_error sys H err c)"
  by (simp add: conn_handle_error_def quiet_close) (simp add: echo_quiet_def)

lemma quiet_sys: "echo_quiet c (c\<lparr>cn_sys := k, cn_wire := w\<rparr>)"
  by (simp add: echo_quiet_def)

lemma quiet_write_done: "echo_quiet c (conn_write_done B H c)"
  by (auto simp: conn_write_done_def Let_def conn_close_write_def conn_set_writable_def echo_quiet_def)

lemma quiet_write: "echo_quiet c (conn_handle_write B sys H c)"
proof -
  have flush: "echo_quiet c (conn_write_done B H (c\<lparr>cn_sys := k, cn_wire := w, cn_output := b\<rparr>))" for k w b
    by (rule echo_quiet_trans [OF _ quiet_write_done]) (simp add: echo_quiet_def)
  have err: "echo_quiet c (conn_handle_error sys H e (c\<lparr>cn_sys := k, cn_wire := w\<rparr>))" for k w e
    by (rule echo_quiet_trans [OF quiet_sys quiet_error])
  have err': "echo_quiet c (conn_handle_error sys H e (c\<lparr>cn_sys := k\<rparr>))" for k e
    by (rule echo_quiet_trans [OF _ quiet_error]) (simp add: echo_quiet_def)
  show ?thesis
    using quiet_write_done
    by (auto simp: conn_handle_write_def conn_write_def conn_get_error_def Let_def flush err err')
qed

lemma quiet_sent:
  "echo_quiet c c' \<Longrightarrow> echo_quiet (c\<lparr>cn_sent := cn_sent c @ data\<rparr>) (c'\<lparr>cn_sent := cn_sent c' @ data\<rparr>)"
  by (simp add: echo_quiet_def)

lemma quiet_enqueue: "echo_quiet (c\<lparr>cn_sent := cn_sent c @ data\<rparr>) (conn_enqueue B rest (conn_accept data c))"
  by (auto simp: echo_quiet_def conn_enqueue_def conn_accept_def conn_set_writable_def Let_def)

text \<open>\<open>handleSend\<close> on a live connection takes over all the bytes, whatever the kernel answers.\<close>

lemma send_takes_all:
  assumes "cn_state c = Connected"
  shows "echo_quiet (c\<lparr>cn_sent := cn_sent c @ data\<rparr>) (conn_handle_send B sys H data c)"
proof -
  have later: "echo_quiet (c\<lparr>cn_sent := cn_sent c @ data\<rparr>) (conn_enqueue B rest (conn_accept data d))"
    if "echo_quiet c d" for d rest
    by (rule echo_quiet_trans [OF quiet_sent [OF that] quiet_enqueue])
  have err: "echo_quiet c (conn_handle_error sys H e (c\<lparr>cn_sys := k\<rparr>))" for k e
    by (rule echo_quiet_trans [OF _ quiet_error]) (simp add: echo_quiet_def)
  have sys: "echo_quiet c (c\<lparr>cn_sys := k\<rparr>)" for k
    by (simp add: echo_quiet_def)
  show ?thesis
    using assms later [OF echo_quiet_refl] later [OF err] later [OF sys] later [OF quiet_sys]
    by (auto simp: conn_handle_send_def conn_write_def conn_get_error_def Let_def)
qed

end

text \<open>The echo handler's hook: \<open>G\<close> is the hook of the callbacks within its own call.\<close>

locale echo_callbacks = echo_hooks B sys H + inner: echo_hooks B sys G
  for B :: "'b buffer_ops" and sys :: net_os and H :: "'b conn_hook" and G :: "'b conn_hook" +
  assumes reads: "H OnRead c = (if cn_context c then conn_exec True B sys G CmdSendInput c else c)"
    and buffer: "buffer_ok B"
begin

text \<open>What a read leaves: the bytes were taken over, or dropped with the connection closing.\<close>

lemma read_connected:
  assumes "echo_inv B c" and "cn_state c = Connected"
  shows "echo_live B (conn_notify H OnRead
    (c\<lparr>cn_sys := k, cn_input := bf_append_file B bs (cn_input c), cn_received := cn_received c @ bs\<rparr>))"
proof -
  let ?d = "c\<lparr>cn_sys := k, cn_input := bf_append_file B bs (cn_input c),
    cn_received := cn_received c @ bs, cn_trace := cn_trace c @ [OnRead]\<rparr>"
  let ?e = "conn_handle_send B sys G bs ?d"
  have input: "bf_bytes B (cn_input ?d) = bs" and ctx: "cn_context c"
    using assms by (simp_all add: echo_inv_def buffer_okD [OF buffer])
  have sent: "echo_quiet (?d\<lparr>cn_sent := cn_sent c @ bs\<rparr>) ?e"
    using inner.send_takes_all [of ?d bs] assms(2) by simp
  then have same: "cn_input ?e = cn_input ?d"
    by (simp add: echo_quiet_def)
  have "echo_live B (?d\<lparr>cn_sent := cn_sent c @ bs, cn_input := bf_reset B (cn_input ?d)\<rparr>)"
    using assms by (simp add: echo_live_def echo_inv_def buffer_okD [OF buffer])
  moreover have "echo_quiet (?d\<lparr>cn_sent := cn_sent c @ bs, cn_input := bf_reset B (cn_input ?d)\<rparr>)
      (?e\<lparr>cn_input := bf_reset B (cn_input ?e)\<rparr>)"
    using sent unfolding same by (simp add: echo_quiet_def)
  ultimately have "echo_live B (?e\<lparr>cn_input := bf_reset B (cn_input ?e)\<rparr>)"
    by (rule live_quiet [rotated])
  then show ?thesis
    using ctx input by (simp add: conn_notify_def reads Let_def)
qed

lemma read_closing:
  assumes "echo_inv B c" and "cn_state c = Disconnecting \<or> cn_state c = Disconnected"
  shows "echo_live B (conn_notify H OnRead
    (c\<lparr>cn_sys := k, cn_input := bf_append_file B bs (cn_input c), cn_received := cn_received c @ bs\<rparr>))"
  using assms by (auto simp: conn_notify_def reads Let_def conn_handle_send_def echo_inv_def echo_live_def)

lemma live_input:
  assumes "echo_live B c"
  shows "echo_live B (conn_notify H OnRead
    (c\<lparr>cn_sys := k, cn_input := bf_append_file B bs (cn_input c), cn_received := cn_received c @ bs\<rparr>))"
  using assms read_connected [of c] read_closing [of c]
  by (cases "cn_state c") (simp_all add: echo_live_def)

lemma live_read:
  assumes "echo_live B c"
  shows "echo_live B (conn_handle_read B sys H c)"
proof -
  have sys: "echo_quiet c (c\<lparr>cn_sys := k\<rparr>)" for k
    by (simp add: echo_quiet_def)
  note quiet = sys echo_quiet_trans [OF sys quiet_error] echo_quiet_trans [OF sys quiet_close(1)]
  note live = quiet [THEN live_quiet, OF assms]
  show ?thesis
    unfolding conn_handle_read_def Let_def
    using live live_input [OF assms] by (auto split: sum.split list.split)
qed

lemma live_error:
  assumes "echo_live B c"
  shows "echo_live B (case conn_get_error sys c of (err, d) \<Rightarrow> conn_handle_error sys H err d)"
proof -
  have "echo_quiet c (c\<lparr>cn_sys := Suc (cn_sys c)\<rparr>)"
    by (simp add: echo_quiet_def)
  then show ?thesis
    using live_quiet [OF echo_quiet_trans [OF _ quiet_error] assms] by (simp add: conn_get_error_def)
qed

lemma inv_io:
  assumes "echo_inv B c"
  shows "echo_inv B (conn_io B sys H events c)"
proof (cases "sc_watch (cn_channel c) = None")
  case False
  with assms have "echo_live B c"
    by (auto simp: echo_live_def echo_inv_def)
  have contract: "callback_contract (\<lambda>s t. echo_live B s \<longrightarrow> echo_live B t)"
    by unfold_locales auto
  have closed: "echo_quiet c (c\<lparr>cn_channel := sc_close (cn_channel c)\<rparr>)" for c :: "'b tcp_conn"
    by (simp add: echo_quiet_def)
  have "echo_live B c \<longrightarrow> echo_live B (sc_handle_events (conn_callbacks B sys H)
      (\<lambda>c. c\<lparr>cn_channel := sc_close (cn_channel c)\<rparr>) events c)"
    by (rule callback_contract.R_handle_events [OF contract])
      (auto simp: run_cb_def conn_callbacks_def live_read live_error
        intro: live_quiet [OF quiet_close(1)] live_quiet [OF quiet_write] live_quiet [OF closed])
  with \<open>echo_live B c\<close> False show ?thesis
    by (simp add: conn_io_def echo_live_def)
qed (simp add: conn_io_def assms)

lemma inv_add:
  assumes "echo_inv B c"
  shows "echo_inv B (conn_add H c)"
  using assms by (auto simp: conn_add_def Let_def conn_set_readable_def echo_inv_def)

lemma inv_task:
  assumes "echo_inv B c" and "cn_tasks c = t # ts"
  shows "echo_inv B (conn_run_task B sys H t (c\<lparr>cn_tasks := ts\<rparr>))"
proof -
  have inv: "echo_inv B (c\<lparr>cn_tasks := ts\<rparr>)" and t: "\<forall>data. t \<noteq> TaskSend data"
    using assms by (auto simp: echo_inv_def)
  note quiet = echo_quiet_inv [OF _ inv]
  show ?thesis
    using t quiet [OF quiet_task_remove] quiet [OF quiet_shutdown(3)] quiet [OF quiet_shutdown(4)] inv_add [OF inv] inv
    by (cases t) (simp_all add: conn_close_body_def)
qed

lemma inv_close: "cmd \<in> closing_cmds \<Longrightarrow> echo_inv B c \<Longrightarrow> echo_inv B (conn_exec in_loop B sys H cmd c)"
  by (rule echo_quiet_inv) (auto simp: closing_cmds_def quiet_close quiet_shutdown)

lemma inv_initial: "conn_initial B H c \<Longrightarrow> echo_inv B c"
proof -
  assume "conn_initial B H c"
  then obtain l where "c = conn_start l H (conn_create B)"
    by (auto simp: conn_initial_def)
  moreover have "echo_inv B ((conn_create B)\<lparr>cn_context := True\<rparr>)"
    by (simp add: echo_inv_def conn_create_def buffer_okD [OF buffer])
  ultimately show ?thesis
    using inv_add by (cases l) (auto simp: conn_start_def conn_run_def echo_inv_def)
qed

lemma inv_step: "echo_step B sys H c c' \<Longrightarrow> echo_inv B c \<Longrightarrow> echo_inv B c'"
  by (induction rule: echo_step.induct) (auto intro: inv_task inv_io inv_close)

end

text \<open>The handler of the server, with any depth of callbacks within callbacks, is such a hook.\<close>

lemma echo_hook_idle: "e \<noteq> OnRead \<Longrightarrow> conn_hooks B sys echo_handler n e c = c"
  by (cases n; cases e) simp_all

lemma echo_hook_reads: "conn_hooks B sys echo_handler (Suc n) OnRead c =
    (if cn_context c then conn_exec True B sys (conn_hooks B sys echo_handler n) CmdSendInput c else c)"
  by (simp del: conn_exec.simps)

lemma echo_callbacks_handler:
  "buffer_ok B \<Longrightarrow> echo_callbacks B sys (conn_hooks B sys echo_handler (Suc n)) (conn_hooks B sys echo_handler n)"
  by unfold_locales (erule echo_hook_idle, erule echo_hook_idle, rule echo_hook_reads)

lemma echo_system:
  assumes "buffer_ok B"
  shows "invariant_system (conn_initial B (conn_hooks B sys echo_handler (Suc n)))
    (echo_step B sys (conn_hooks B sys echo_handler (Suc n))) (echo_inv B)"
  by unfold_locales
    (auto simp del: conn_hooks.simps intro: echo_callbacks.inv_initial [OF echo_callbacks_handler [OF assms]]
      echo_callbacks.inv_step [OF echo_callbacks_handler [OF assms]])

lemma echo_reaches:
  "reachable I (echo_step B sys H) c \<Longrightarrow> reachable I (conn_step B sys H) c"
  by (induction rule: reachable.induct) (auto intro: reachable.intros dest: echo_is_conn)

section \<open>The echo\<close>

lemma echo_stream:
  assumes "buffer_ok B" and "os_ok sys"
    and "reachable (conn_initial B (conn_hooks B sys echo_handler (Suc n)))
           (echo_step B sys (conn_hooks B sys echo_handler (Suc n))) c"
  shows "\<exists>rest. cn_received c = cn_wire c @ cn_pending B c @ rest \<and> (cn_state c = Connected \<longrightarrow> rest = [])"
proof -
  have "echo_inv B c"
    by (rule invariant_system.inv_reachable [OF echo_system [OF assms(1)] assms(3)])
  moreover have "conn_inv B c"
    by (rule invariant_system.inv_reachable [OF conn_system [OF assms(1,2)] echo_reaches [OF assms(3)]])
  then have "cn_wire c @ cn_pending B c = cn_sent c"
    by (auto simp: conn_inv_def conn_fresh_def conn_good_def)
  ultimately show ?thesis
    by (auto simp: echo_inv_def simp flip: append_assoc)
qed

text \<open>
  C22. At every moment the bytes the kernel took from the echo server's connection are a prefix
  of the bytes read from it, in order and without gaps or repeats, whatever the kernel and the
  peer do and however the connection is closed; and while the connection is up nothing is
  lost: what the kernel took and what waits in the output buffer are all the bytes read.
\<close>

theorem echo_returns_input:
  assumes "buffer_ok B" and "os_ok sys"
    and "reachable (conn_initial B (conn_hooks B sys echo_handler (Suc n)))
           (echo_step B sys (conn_hooks B sys echo_handler (Suc n))) c"
  shows "\<exists>rest. cn_received c = cn_wire c @ cn_pending B c @ rest \<and> (cn_state c = Connected \<longrightarrow> rest = [])"
  using assms by (rule echo_stream)

text \<open>A connection that has read one byte and sent it back.\<close>

definition echoed_conn :: "(byte list \<times> nat) tcp_conn" where
  "echoed_conn = conn_io list_buffer slow_os (conn_hooks list_buffer slow_os echo_handler 1) kReadable
     (conn_start True (conn_hooks list_buffer slow_os echo_handler 1) (conn_create list_buffer))"

lemma echoed_conn_simps:
  "cn_received echoed_conn = [9]" "cn_wire echoed_conn = [9]" "cn_state echoed_conn = Connected"
  by (code_simp)+

lemma echoed_conn_reachable:
  "reachable (conn_initial list_buffer (conn_hooks list_buffer slow_os echo_handler (Suc 0)))
     (echo_step list_buffer slow_os (conn_hooks list_buffer slow_os echo_handler (Suc 0))) echoed_conn"
  unfolding echoed_conn_def One_nat_def
  by (rule reachable.next_step, rule reachable.start) (auto simp: conn_initial_def intro: es_io)

theorem echo_returns_input_witness:
  "cn_received echoed_conn = [9] \<and> cn_wire echoed_conn = [9]
   \<and> (\<exists>rest. cn_received echoed_conn = cn_wire echoed_conn @ cn_pending list_buffer echoed_conn @ rest \<and> rest = [])"
  using echo_returns_input [OF list_buffer_ok slow_os_ok echoed_conn_reachable] by (simp add: echoed_conn_simps)

section \<open>From the client and back\<close>

text \<open>
  What TCP promises of the two ends of one connection: each reads, in order and without gaps or
  repeats, bytes that the other has given to its kernel.
\<close>

definition tcp_delivers :: "'a tcp_conn \<Rightarrow> 'b tcp_conn \<Rightarrow> bool" where
  "tcp_delivers c s \<longleftrightarrow>
     (\<exists>rest. cn_wire c = cn_received s @ rest) \<and> (\<exists>rest. cn_wire s = cn_received c @ rest)"

text \<open>
  C23. The echo, end to end.  Whatever client speaks to the echo server, with any handler and any
  calls from outside: the bytes it reads are a prefix of the bytes it sent.  When all is at rest,
  the server connected, nothing left in either output buffer and everything given to a kernel
  read at the other end, they are all the bytes it sent.
\<close>

theorem echo_end_to_end:
  assumes "buffer_ok B" and "os_ok sys" and "buffer_ok B'" and "os_ok sys'" and "tcp_delivers c s"
    and "reachable (conn_initial B (conn_hooks B sys client m)) (conn_step B sys (conn_hooks B sys client m)) c"
    and "reachable (conn_initial B' (conn_hooks B' sys' echo_handler (Suc n)))
           (echo_step B' sys' (conn_hooks B' sys' echo_handler (Suc n))) s"
  shows "(\<exists>rest. cn_sent c = cn_received c @ rest)
    \<and> (cn_state s = Connected \<and> cn_pending B c = [] \<and> cn_pending B' s = []
        \<and> cn_received s = cn_wire c \<and> cn_received c = cn_wire s \<longrightarrow> cn_received c = cn_sent c)"
proof -
  have client: "cn_sent c = cn_wire c @ cn_pending B c"
    using invariant_system.inv_reachable [OF conn_system [OF assms(1,2)] assms(6)]
    by (auto simp: conn_inv_def conn_fresh_def conn_good_def)
  note server = echo_stream [OF assms(3,4,7)]
  obtain r where r: "cn_received s = cn_wire s @ cn_pending B' s @ r" "cn_state s = Connected \<longrightarrow> r = []"
    using server by blast
  obtain x y where "cn_wire c = cn_received s @ x" "cn_wire s = cn_received c @ y"
    using assms(5) by (auto simp: tcp_delivers_def)
  with client r show ?thesis by auto
qed

text \<open>A client that has sent one byte and read it back from the connection \<open>echoed_conn\<close>.\<close>

definition asking_conn :: "(byte list \<times> nat) tcp_conn" where
  "asking_conn = conn_io list_buffer slow_os (conn_hooks list_buffer slow_os quiet 0) kReadable
     (conn_exec True list_buffer slow_os (conn_hooks list_buffer slow_os quiet 0) (CmdSend [9]) open_conn)"

lemma asking_conn_simps:
  "cn_received asking_conn = [9]" "cn_wire asking_conn = [9]" "cn_sent asking_conn = [9]"
  "cn_pending list_buffer asking_conn = []"
  by (code_simp)+

theorem echo_end_to_end_witness:
  "cn_received asking_conn = cn_sent asking_conn \<and> cn_received echoed_conn = cn_wire asking_conn
   \<and> (\<exists>rest. cn_sent asking_conn = cn_received asking_conn @ rest)"
proof -
  let ?H = "conn_hooks list_buffer slow_os quiet 0"
  have "reachable (conn_initial list_buffer ?H) (conn_step list_buffer slow_os ?H)
      (conn_exec True list_buffer slow_os ?H (CmdSend [9]) open_conn)"
    by (rule reachable.next_step [OF open_conn_reachable], rule cs_loop) simp
  then have "reachable (conn_initial list_buffer ?H) (conn_step list_buffer slow_os ?H) asking_conn"
    unfolding asking_conn_def by (rule reachable.next_step) (rule cs_io)
  moreover have "tcp_delivers asking_conn echoed_conn"
    by (simp add: tcp_delivers_def asking_conn_simps echoed_conn_simps)
  moreover have "cn_pending list_buffer echoed_conn = []"
    by code_simp
  ultimately show ?thesis
    using echo_end_to_end [OF list_buffer_ok slow_os_ok list_buffer_ok slow_os_ok _ _ echoed_conn_reachable]
    by (auto simp: asking_conn_simps echoed_conn_simps)
qed

text \<open>
  A hang-up reported together with an error, and without readability, is dispatched as a close
  and then as an error: \<open>OnError\<close> is called after \<open>OnClose\<close>, when \<open>GetConnection()\<close> is null.
  The echo server's \<open>OnError\<close> dereferences it.
\<close>

definition hung_conn :: "(byte list \<times> nat) tcp_conn" where
  "hung_conn = conn_io list_buffer slow_os (conn_hooks list_buffer slow_os echo_handler 1) (re_add kHangUp kError)
     (conn_start True (conn_hooks list_buffer slow_os echo_handler 1) (conn_create list_buffer))"

theorem error_after_close:
  "cn_trace hung_conn = [OnConnect, OnClose, OnError 104] \<and> \<not> cn_context hung_conn"
  by code_simp

end
