(* ===== verification/Echo_Program.thy ===== *)
theory Echo_Program
  imports Echo_Server Server_Setup Loop_Parts
begin

text \<open>
  bench/bench\_tcp\_server.cc, \<open>main\<close>: the groups, the server with its builder, Bind and Start.
  \<open>make_loop\<close> constructs an event loop from its options; \<open>ch\<close> is the acceptor's channel and
  \<open>sel\<close> the selector of the boss group's loop, as the server's own theory has them.
  \<open>Joins\<close> then waits for the loops (theory Group\_Lifecycle).
\<close>

datatype echo_stop = BadAddress | BindStop setup_stop | StartStop server_stop | SelectorStop selector_fatal

record 'l echo_running =
  er_boss :: "'l loop_group"
  er_worker :: "'l loop_group"
  er_acceptor :: acceptor
  er_server :: server

definition echo_main ::
  "chrono \<Rightarrow> net_setup \<Rightarrow> inet_env \<Rightarrow> (channel \<Rightarrow> int) \<Rightarrow> (event_loop_options \<Rightarrow> 'l) \<Rightarrow> channel \<Rightarrow> epoll_selector \<Rightarrow>
     echo_stop + 'l echo_running" where
  "echo_main K N E fd make_loop ch sel =
     (let options = (default_loop_options K)\<lparr>eo_selector_type := kEpoll\<rparr>;
          boss = gr_create [make_loop (default_loop_options K)];
          worker = gr_create (map make_loop (replicate 32 options))
      in case ia_create E ''0.0.0.0'' 1082 of
           None \<Rightarrow> Inl BadAddress
         | Some address \<Rightarrow>
             (case sv_bind N (Some boss) default_tcp_server_options address of
                Inl e \<Rightarrow> Inl (BindStop e)
              | Inr (a, boss1) \<Rightarrow>
                  (case sv_start fd \<lparr>sv_acceptor = Some ch, sv_selector = sel\<rparr> of
                     Inl e \<Rightarrow> Inl (StartStop e)
                   | Inr (Inl e) \<Rightarrow> Inl (SelectorStop e)
                   | Inr (Inr s) \<Rightarrow>
                       Inr \<lparr>er_boss = boss1, er_worker = worker, er_acceptor = a, er_server = s\<rparr>)))"

text \<open>
  When the program gets to its \<open>Joins\<close> it listens: the acceptor is on the only loop of the boss
  group, with SO\_REUSEADDR and without SO\_REUSEPORT, and watched for reading.
\<close>

lemma echo_main_listens:
  assumes "echo_main K N E fd make_loop ch sel = Inr r" and "fd ch = acc_fd (er_acceptor r)"
    and "ep_good fd sel" and "\<not> ep_contain ch sel" and "ep_kernel sel (fd ch) = None"
  shows "acc_loop (er_acceptor r) = 0 \<and> ep_watch fd (sv_selector (er_server r)) ch = Some kReadEvent \<and>
    acc_opts (er_acceptor r) SO_REUSEADDR = 1 \<and> acc_opts (er_acceptor r) SO_REUSEPORT = 0 \<and>
    length (gr_loops (er_boss r)) = 1 \<and> length (gr_loops (er_worker r)) = 32"
proof -
  let ?boss = "gr_create [make_loop (default_loop_options K)]"
  let ?s = "\<lparr>sv_acceptor = Some ch, sv_selector = sel\<rparr>"
  from assms(1) obtain address boss1 s where
    bind: "sv_bind N (Some ?boss) default_tcp_server_options address = Inr (er_acceptor r, boss1)"
    and start: "sv_start fd ?s = Inr (Inr s)" and r: "er_boss r = boss1" "er_server r = s"
    "er_worker r = gr_create (map make_loop (replicate 32 ((default_loop_options K)\<lparr>eo_selector_type := kEpoll\<rparr>)))"
    by (auto simp: echo_main_def Let_def split: option.splits sum.splits prod.splits)
  have "gr_ok ?boss"
    by (simp add: gr_create_ok)
  note listens = server_listens [OF this bind, where s = ?s and ch = ch and fd = fd]
  have opts: "acc_opts (er_acceptor r) SO_REUSEADDR = 1" "acc_opts (er_acceptor r) SO_REUSEPORT = 0"
    and "acc_loop (er_acceptor r) = 0"
    and "\<exists>s'. sv_start fd ?s = Inr (Inr s') \<and> ep_watch fd (sv_selector s') ch = Some kReadEvent"
    using listens assms(2-5) by (simp_all add: default_tcp_server_options_def default_socket_options_def gr_create_def)
  moreover have "gr_loops boss1 = gr_loops ?boss"
    using bind by (auto simp: sv_bind_def gr_take_def split: option.splits sum.splits if_splits)
  ultimately show ?thesis
    using start r by (auto simp: gr_create_def)
qed

end
