(* ===== verification/Bench_Reporter.thy ===== *)
theory Bench_Reporter
  imports Loop_Group
begin

text \<open>
  src/bench/reporter.h: the throughput counters that any number of threads update with
  \<open>Trace\<close> while a timer of one loop reads and resets them.  The counters are four separate
  atomics, two of them updated by the compare-and-swap loop \<open>AtomicApply\<close>; a step below is one
  atomic access, so the model has every interleaving of the threads.
\<close>

section \<open>AtomicApply\<close>

text \<open>
  The loop of \<open>AtomicApply\<close>: load \<open>n\<close>, compute \<open>op n\<close>, and store it if the value is still
  \<open>n\<close>; otherwise load again.  A step returns the value and where the thread is next, None when
  the call has returned.
\<close>

datatype apply_pc = ApLoad | ApSwap u64

fun atomic_apply :: "(u64 \<Rightarrow> u64) \<Rightarrow> apply_pc \<Rightarrow> u64 \<Rightarrow> u64 \<times> apply_pc option" where
  "atomic_apply op ApLoad v = (v, Some (ApSwap v))"
| "atomic_apply op (ApSwap n) v = (if v = n then (op n, None) else (v, Some ApLoad))"

section \<open>The counters\<close>

record reporter =
  rp_bytes :: u64
  rp_counts :: u64
  rp_max_bytes :: u64
  rp_min_bytes :: u64
  rp_callback :: bool
  rp_id :: u64
  rp_executor :: "nat option"

definition rp_create :: reporter where
  "rp_create = \<lparr>rp_bytes = 0, rp_counts = 0, rp_max_bytes = 0, rp_min_bytes = 0 - 1, rp_callback = False,
     rp_id = 0, rp_executor = None\<rparr>"

definition rp_set_callback :: "reporter \<Rightarrow> reporter" where
  "rp_set_callback r = r\<lparr>rp_callback := True\<rparr>"

text \<open>Where a call of \<open>Trace\<close> is, and the periodic task with the values it has taken.\<close>

datatype trace_pc = TrBytes | TrCounts | TrMax apply_pc | TrMin apply_pc

datatype report_pc = RpIdle | RpCounts u64 | RpMin u64 u64 | RpMax u64 u64 u64

text \<open>The arguments of the callback: bytes, count, least and greatest.\<close>

datatype report = Report u64 u64 u64 u64

text \<open>
  Histories, which the code does not have: for each counter the traces applied to it, in
  order.  \<open>rw_fresh\<close> those since the counter was last reset, \<open>rw_taken\<close> those behind the
  values the running report has taken, \<open>rw_windows\<close> those behind each finished report.
\<close>

record trace_log =
  tl_bytes :: "u64 list"
  tl_counts :: "u64 list"
  tl_min :: "u64 list"
  tl_max :: "u64 list"

definition tl_none :: trace_log where
  "tl_none = \<lparr>tl_bytes = [], tl_counts = [], tl_min = [], tl_max = []\<rparr>"

record reporter_world =
  rw_reporter :: reporter
  rw_threads :: "(u64 \<times> trace_pc) multiset"
  rw_pc :: report_pc
  rw_reports :: "report list"
  rw_started :: "u64 multiset"
  rw_fresh :: trace_log
  rw_taken :: trace_log
  rw_windows :: "trace_log list"

definition rw_create :: "reporter \<Rightarrow> reporter_world" where
  "rw_create r = \<lparr>rw_reporter = r, rw_threads = {#}, rw_pc = RpIdle, rw_reports = [], rw_started = {#},
     rw_fresh = tl_none, rw_taken = tl_none, rw_windows = []\<rparr>"

section \<open>Trace\<close>

text \<open>One atomic access of a call \<open>Trace(b)\<close>; None when the call has returned.\<close>

fun rp_trace :: "u64 \<Rightarrow> trace_pc \<Rightarrow> reporter_world \<Rightarrow> trace_pc option \<times> reporter_world" where
  "rp_trace b TrBytes w =
     (let r = rw_reporter w; l = rw_fresh w
      in (Some TrCounts, w\<lparr>rw_reporter := r\<lparr>rp_bytes := rp_bytes r + b\<rparr>, rw_fresh := l\<lparr>tl_bytes := tl_bytes l @ [b]\<rparr>\<rparr>))"
| "rp_trace b TrCounts w =
     (let r = rw_reporter w; l = rw_fresh w
      in (Some (TrMax ApLoad),
          w\<lparr>rw_reporter := r\<lparr>rp_counts := rp_counts r + 1\<rparr>, rw_fresh := l\<lparr>tl_counts := tl_counts l @ [b]\<rparr>\<rparr>))"
| "rp_trace b (TrMax p) w =
     (let r = rw_reporter w; l = rw_fresh w
      in case atomic_apply (\<lambda>x. max x b) p (rp_max_bytes r) of
           (v, Some p') \<Rightarrow> (Some (TrMax p'), w\<lparr>rw_reporter := r\<lparr>rp_max_bytes := v\<rparr>\<rparr>)
         | (v, None) \<Rightarrow> (Some (TrMin ApLoad),
             w\<lparr>rw_reporter := r\<lparr>rp_max_bytes := v\<rparr>, rw_fresh := l\<lparr>tl_max := tl_max l @ [b]\<rparr>\<rparr>))"
| "rp_trace b (TrMin p) w =
     (let r = rw_reporter w; l = rw_fresh w
      in case atomic_apply (\<lambda>x. min x b) p (rp_min_bytes r) of
           (v, Some p') \<Rightarrow> (Some (TrMin p'), w\<lparr>rw_reporter := r\<lparr>rp_min_bytes := v\<rparr>\<rparr>)
         | (v, None) \<Rightarrow> (None,
             w\<lparr>rw_reporter := r\<lparr>rp_min_bytes := v\<rparr>, rw_fresh := l\<lparr>tl_min := tl_min l @ [b]\<rparr>\<rparr>))"

section \<open>The periodic report\<close>

text \<open>
  One atomic \<open>exchange\<close> of the task that \<open>Start\<close> schedules; the last is followed by the
  callback, if one is set.
\<close>

definition rp_report :: "reporter_world \<Rightarrow> reporter_world" where
  "rp_report w =
     (let r = rw_reporter w; f = rw_fresh w; t = rw_taken w
      in case rw_pc w of
           RpIdle \<Rightarrow> w\<lparr>rw_reporter := r\<lparr>rp_bytes := 0\<rparr>, rw_pc := RpCounts (rp_bytes r),
             rw_fresh := f\<lparr>tl_bytes := []\<rparr>, rw_taken := t\<lparr>tl_bytes := tl_bytes f\<rparr>\<rparr>
         | RpCounts b \<Rightarrow> w\<lparr>rw_reporter := r\<lparr>rp_counts := 0\<rparr>, rw_pc := RpMin b (rp_counts r),
             rw_fresh := f\<lparr>tl_counts := []\<rparr>, rw_taken := t\<lparr>tl_counts := tl_counts f\<rparr>\<rparr>
         | RpMin b c \<Rightarrow> w\<lparr>rw_reporter := r\<lparr>rp_min_bytes := 0 - 1\<rparr>, rw_pc := RpMax b c (rp_min_bytes r),
             rw_fresh := f\<lparr>tl_min := []\<rparr>, rw_taken := t\<lparr>tl_min := tl_min f\<rparr>\<rparr>
         | RpMax b c m \<Rightarrow> w\<lparr>rw_reporter := r\<lparr>rp_max_bytes := 0\<rparr>, rw_pc := RpIdle,
             rw_reports := rw_reports w @ (if rp_callback r then [Report b c m (rp_max_bytes r)] else []),
             rw_fresh := f\<lparr>tl_max := []\<rparr>, rw_taken := tl_none,
             rw_windows := rw_windows w @ [t\<lparr>tl_max := tl_max f\<rparr>]\<rparr>)"

text \<open>The threads: a new call of \<open>Trace\<close>, the next access of one, or of the task.\<close>

inductive rw_step :: "reporter_world \<Rightarrow> reporter_world \<Rightarrow> bool" where
  rw_call: "rw_step w (w\<lparr>rw_threads := rw_threads w + {#(b, TrBytes)#}, rw_started := rw_started w + {#b#}\<rparr>)"
| rw_access: "(b, pc) \<in># rw_threads w \<Longrightarrow> rp_trace b pc w = (Some pc', w') \<Longrightarrow>
    rw_step w (w'\<lparr>rw_threads := rw_threads w - {#(b, pc)#} + {#(b, pc')#}\<rparr>)"
| rw_return: "(b, pc) \<in># rw_threads w \<Longrightarrow> rp_trace b pc w = (None, w') \<Longrightarrow>
    rw_step w (w'\<lparr>rw_threads := rw_threads w - {#(b, pc)#}\<rparr>)"
| rw_task: "rw_step w (rp_report w)"

text \<open>
  \<open>Start\<close> takes the next loop of the group and gives it the task at once and then every
  \<open>interval\<close>; \<open>Close\<close>, also called by the destructor, cancels the task on that loop.  Neither
  waits for a running task.
\<close>

definition rp_start ::
  "('l, 'c) timer_ops \<Rightarrow> usec \<Rightarrow> 'c \<Rightarrow> 'l loop_group \<Rightarrow> reporter \<Rightarrow> (reporter \<times> 'l loop_group) option" where
  "rp_start T interval task g r =
     (case gr_take g of
        None \<Rightarrow> None
      | Some (i, g1) \<Rightarrow>
          let (t, l) = tq_add T 0 interval task (gr_loops g1 ! i)
          in Some (r\<lparr>rp_id := t, rp_executor := Some i\<rparr>, g1\<lparr>gr_loops := (gr_loops g1)[i := l]\<rparr>))"

definition rp_close :: "('l, 'c) timer_ops \<Rightarrow> reporter \<Rightarrow> 'l loop_group \<Rightarrow> 'l loop_group" where
  "rp_close T r g =
     (case rp_executor r of
        None \<Rightarrow> g
      | Some i \<Rightarrow> g\<lparr>gr_loops := (gr_loops g)[i := tq_cancel T (rp_id r) (gr_loops g ! i)]\<rparr>)"

section \<open>The invariant\<close>

text \<open>What a report should be, from the traces of its four windows.\<close>

definition report_of :: "trace_log \<Rightarrow> report" where
  "report_of l = Report (sum_list (tl_bytes l)) (of_nat (length (tl_counts l)))
     (fold min (tl_min l) (0 - 1)) (fold max (tl_max l) 0)"

definition rw_applied :: "(trace_log \<Rightarrow> u64 list) \<Rightarrow> reporter_world \<Rightarrow> u64 multiset" where
  "rw_applied sel w = mset (concat (map sel (rw_windows w)) @ sel (rw_taken w) @ sel (rw_fresh w))"

text \<open>The calls of \<open>Trace\<close> that have an access of the counter before them.\<close>

definition rw_pending :: "(trace_pc \<Rightarrow> bool) \<Rightarrow> reporter_world \<Rightarrow> u64 multiset" where
  "rw_pending P w = image_mset fst (filter_mset (\<lambda>t. P (snd t)) (rw_threads w))"

fun before_counts :: "trace_pc \<Rightarrow> bool" where
  "before_counts TrBytes = True"
| "before_counts TrCounts = True"
| "before_counts _ = False"

fun before_max :: "trace_pc \<Rightarrow> bool" where
  "before_max (TrMin p) = False"
| "before_max _ = True"

definition rw_values :: "reporter_world \<Rightarrow> bool" where
  "rw_values w \<longleftrightarrow>
     (let r = rw_reporter w; f = rw_fresh w
      in rp_bytes r = sum_list (tl_bytes f) \<and> rp_counts r = of_nat (length (tl_counts f))
       \<and> rp_min_bytes r = fold min (tl_min f) (0 - 1) \<and> rp_max_bytes r = fold max (tl_max f) 0)"

definition rw_task_ok :: "report_pc \<Rightarrow> trace_log \<Rightarrow> bool" where
  "rw_task_ok pc t \<longleftrightarrow>
     (case pc of
        RpIdle \<Rightarrow> t = tl_none
      | RpCounts b \<Rightarrow> b = sum_list (tl_bytes t) \<and> tl_counts t = [] \<and> tl_min t = [] \<and> tl_max t = []
      | RpMin b c \<Rightarrow> b = sum_list (tl_bytes t) \<and> c = of_nat (length (tl_counts t)) \<and> tl_min t = [] \<and> tl_max t = []
      | RpMax b c m \<Rightarrow> b = sum_list (tl_bytes t) \<and> c = of_nat (length (tl_counts t))
          \<and> m = fold min (tl_min t) (0 - 1) \<and> tl_max t = [])"

definition rw_counted :: "reporter_world \<Rightarrow> bool" where
  "rw_counted w \<longleftrightarrow>
     rw_applied tl_bytes w + rw_pending ((=) TrBytes) w = rw_started w
   \<and> rw_applied tl_counts w + rw_pending before_counts w = rw_started w
   \<and> rw_applied tl_max w + rw_pending before_max w = rw_started w
   \<and> rw_applied tl_min w + rw_pending (\<lambda>_. True) w = rw_started w"

definition rw_inv :: "bool \<Rightarrow> reporter_world \<Rightarrow> bool" where
  "rw_inv cb w \<longleftrightarrow>
     rw_values w \<and> rw_task_ok (rw_pc w) (rw_taken w) \<and> rw_counted w
   \<and> rp_callback (rw_reporter w) = cb
   \<and> rw_reports w = (if cb then map report_of (rw_windows w) else [])"

lemmas rw_inv_defs = rw_inv_def rw_values_def rw_task_ok_def rw_counted_def Let_def

text \<open>A thread that moves from one access to the next, or returns.\<close>

lemma rw_pending_move:
  assumes "(b, pc) \<in># rw_threads w"
  shows "rw_pending P (v\<lparr>rw_threads := rw_threads w - {#(b, pc)#} + {#(b, pc')#}\<rparr>) + (if P pc then {#b#} else {#})
      = rw_pending P w + (if P pc' then {#b#} else {#})"
    and "rw_pending P (v\<lparr>rw_threads := rw_threads w - {#(b, pc)#}\<rparr>) + (if P pc then {#b#} else {#}) = rw_pending P w"
proof -
  obtain ts where "rw_threads w = add_mset (b, pc) ts"
    using assms by (meson multi_member_split)
  then show "rw_pending P (v\<lparr>rw_threads := rw_threads w - {#(b, pc)#} + {#(b, pc')#}\<rparr>) + (if P pc then {#b#} else {#})
      = rw_pending P w + (if P pc' then {#b#} else {#})"
    "rw_pending P (v\<lparr>rw_threads := rw_threads w - {#(b, pc)#}\<rparr>) + (if P pc then {#b#} else {#}) = rw_pending P w"
    by (simp_all add: rw_pending_def)
qed

text \<open>One access of a \<open>Trace\<close>: the values stay right, and the trace is counted when it should be.\<close>

definition owed :: "(trace_pc \<Rightarrow> bool) \<Rightarrow> u64 \<Rightarrow> trace_pc option \<Rightarrow> u64 multiset" where
  "owed P b pc = (case pc of None \<Rightarrow> {#} | Some q \<Rightarrow> if P q then {#b#} else {#})"

lemma owed_simps [simp]: "owed P b None = {#}" "owed P b (Some q) = (if P q then {#b#} else {#})"
  by (simp_all add: owed_def)

lemma trace_cases:
  obtains "pc = TrBytes" | "pc = TrCounts" | "pc = TrMax ApLoad" | n where "pc = TrMax (ApSwap n)"
  | "pc = TrMin ApLoad" | n where "pc = TrMin (ApSwap n)"
  by (metis apply_pc.exhaust trace_pc.exhaust)

lemma rp_trace_keeps:
  assumes "rp_trace b pc w = (nxt, w')"
  shows "rw_threads w' = rw_threads w" and "rw_started w' = rw_started w" and "rw_windows w' = rw_windows w"
    and "rw_taken w' = rw_taken w" and "rw_pc w' = rw_pc w" and "rw_reports w' = rw_reports w"
    and "rp_callback (rw_reporter w') = rp_callback (rw_reporter w)"
  using assms by (cases pc rule: trace_cases; auto simp: Let_def split: if_splits)+

lemma rp_trace_values:
  assumes "rp_trace b pc w = (nxt, w')" and "rw_values w"
  shows "rw_values w'"
  using assms
  by (cases pc rule: trace_cases) (auto simp: rw_values_def Let_def max.commute min.commute split: if_splits)

lemma rp_trace_counts:
  assumes "rp_trace b pc w = (nxt, w')"
  shows "rw_applied tl_bytes w' + owed ((=) TrBytes) b nxt = rw_applied tl_bytes w + owed ((=) TrBytes) b (Some pc)"
    and "rw_applied tl_counts w' + owed before_counts b nxt = rw_applied tl_counts w + owed before_counts b (Some pc)"
    and "rw_applied tl_max w' + owed before_max b nxt = rw_applied tl_max w + owed before_max b (Some pc)"
    and "rw_applied tl_min w' + owed (\<lambda>_. True) b nxt = rw_applied tl_min w + owed (\<lambda>_. True) b (Some pc)"
  using assms by (cases pc rule: trace_cases; auto simp: rw_applied_def Let_def split: if_splits)+

lemma rw_upd_simps [simp]:
  "rw_applied sel (w\<lparr>rw_threads := ts\<rparr>) = rw_applied sel w"
  "rw_values (w\<lparr>rw_threads := ts\<rparr>) = rw_values w"
  "rw_applied sel (w\<lparr>rw_started := st\<rparr>) = rw_applied sel w"
  "rw_values (w\<lparr>rw_started := st\<rparr>) = rw_values w"
  by (simp_all add: rw_applied_def rw_values_def)

lemma rw_move_counted:
  assumes counted: "rw_counted w" and mem: "(b, pc) \<in># rw_threads w" and step: "rp_trace b pc w = (nxt, w')"
    and ts: "\<And>P. rw_pending P w'' + owed P b (Some pc) = rw_pending P w + owed P b nxt"
    and w'': "\<And>sel. rw_applied sel w'' = rw_applied sel w'" "rw_started w'' = rw_started w'"
  shows "rw_counted w''"
proof -
  have move: "A' + P' = S"
    if "A' + N = A + Q" "P' + Q = P + N" "A + P = S" for A A' P P' N Q S :: "u64 multiset"
  proof -
    have "A' + P' + (N + Q) = A + P + (N + Q)"
      using that(1,2) by (metis (no_types, lifting) add.assoc add.commute)
    with that(3) show ?thesis by simp
  qed
  note c = counted [unfolded rw_counted_def]
  show ?thesis
    unfolding rw_counted_def w'' rp_trace_keeps(2) [OF step]
    using move [OF rp_trace_counts(1) [OF step] ts] move [OF rp_trace_counts(2) [OF step] ts]
      move [OF rp_trace_counts(3) [OF step] ts] move [OF rp_trace_counts(4) [OF step] ts] c
    by blast
qed

lemma rw_inv_access:
  assumes inv: "rw_inv cb w" and mem: "(b, pc) \<in># rw_threads w" and step: "rp_trace b pc w = (nxt, w')"
    and ts: "\<And>P. rw_pending P (w'\<lparr>rw_threads := ts\<rparr>) + owed P b (Some pc) = rw_pending P w + owed P b nxt"
  shows "rw_inv cb (w'\<lparr>rw_threads := ts\<rparr>)"
proof -
  have "rw_counted (w'\<lparr>rw_threads := ts\<rparr>)"
    by (rule rw_move_counted [OF _ mem step ts]) (use inv in \<open>simp_all add: rw_inv_def\<close>)
  with inv rp_trace_values [OF step] rp_trace_keeps [OF step] show ?thesis
    by (simp add: rw_inv_def)
qed

lemma rw_inv_report:
  assumes "rw_inv cb w"
  shows "rw_inv cb (rp_report w)"
proof -
  have "rw_applied sel (rp_report w) = rw_applied sel w" if "sel \<in> {tl_bytes, tl_counts, tl_min, tl_max}" for sel
    using assms that by (cases "rw_pc w") (auto simp: rp_report_def rw_applied_def rw_inv_def rw_task_ok_def tl_none_def Let_def)
  moreover have "rw_threads (rp_report w) = rw_threads w" "rw_started (rp_report w) = rw_started w"
    by (simp_all add: rp_report_def Let_def split: report_pc.split)
  ultimately have "rw_counted (rp_report w)"
    using assms by (simp add: rw_inv_def rw_counted_def rw_pending_def)
  then show ?thesis
    using assms
    by (cases "rw_pc w") (auto simp: rp_report_def rw_inv_def rw_values_def rw_task_ok_def report_of_def tl_none_def Let_def)
qed

lemma rw_inv_step: "rw_step w w' \<Longrightarrow> rw_inv cb w \<Longrightarrow> rw_inv cb w'"
proof (induction rule: rw_step.induct)
  case (rw_call w b)
  then show ?case
    by (simp add: rw_inv_def rw_counted_def rw_pending_def rw_applied_def rw_values_def)
next
  case (rw_access b pc w pc' w')
  show ?case
    by (rule rw_inv_access [OF rw_access(3,1,2)]) (use rw_pending_move(1) [OF rw_access(1)] in simp)
next
  case (rw_return b pc w w')
  show ?case
    by (rule rw_inv_access [OF rw_return(3,1,2)]) (use rw_pending_move(2) [OF rw_return(1)] in simp)
next
  case (rw_task w)
  then show ?case by (rule rw_inv_report)
qed

section \<open>What the reports say\<close>

definition rw_initial :: "bool \<Rightarrow> reporter_world \<Rightarrow> bool" where
  "rw_initial cb w \<longleftrightarrow> w = rw_create (if cb then rp_set_callback rp_create else rp_create)"

lemma rw_inv_initial: "rw_initial cb w \<Longrightarrow> rw_inv cb w"
  by (simp add: rw_initial_def rw_create_def rp_create_def rp_set_callback_def rw_inv_defs rw_applied_def
      rw_pending_def tl_none_def)

interpretation reporter: invariant_system "rw_initial cb" rw_step "rw_inv cb" for cb
  by unfold_locales (auto intro: rw_inv_initial rw_inv_step)

text \<open>
  C26. However many threads call \<open>Trace\<close> and whenever the task runs, every report is exactly
  the sum (modulo 2 to the 64), the number, the least and the greatest of the traces of its four
  windows; each counter's windows, in order, have no trace twice; and when no call of \<open>Trace\<close>
  is running they have, with what the next reports will take, every trace exactly once: the
  compare-and-swap loops lose no update.
\<close>

theorem reporter_exact:
  assumes "reachable (rw_initial cb) rw_step w"
  shows "rw_reports w = (if cb then map report_of (rw_windows w) else [])
    \<and> (\<forall>sel \<in> {tl_bytes, tl_counts, tl_min, tl_max}. rw_applied sel w \<subseteq># rw_started w
        \<and> (rw_threads w = {#} \<longrightarrow> rw_applied sel w = rw_started w))"
proof -
  have inv: "rw_inv cb w"
    using assms by (rule reporter.inv_reachable)
  have part: "rw_applied sel w \<subseteq># rw_started w \<and> (rw_threads w = {#} \<longrightarrow> rw_applied sel w = rw_started w)"
    if "rw_applied sel w + rw_pending P w = rw_started w" for sel P
    using that [symmetric] by (simp add: rw_pending_def)
  show ?thesis
    using inv by (auto simp: rw_inv_def rw_counted_def dest: part)
qed

text \<open>Two traces, with a report that falls into the middle of the first.\<close>

definition rw_trace_one :: "u64 \<Rightarrow> trace_pc \<Rightarrow> reporter_world \<Rightarrow> reporter_world" where
  "rw_trace_one b pc w =
     (case rp_trace b pc w of
        (Some pc', w') \<Rightarrow> w'\<lparr>rw_threads := rw_threads w - {#(b, pc)#} + {#(b, pc')#}\<rparr>
      | (None, w') \<Rightarrow> w'\<lparr>rw_threads := rw_threads w - {#(b, pc)#}\<rparr>)"

lemma rw_trace_one_step: "(b, pc) \<in># rw_threads w \<Longrightarrow> rw_step w (rw_trace_one b pc w)"
  unfolding rw_trace_one_def
  by (auto split: prod.split option.split simp del: add_mset_add_single intro: rw_access [simplified] rw_return)

definition rw_start :: reporter_world where
  "rw_start = rw_create (rp_set_callback rp_create)"

definition rw_called :: reporter_world where
  "rw_called = rw_start\<lparr>rw_threads := {#(7, TrBytes)#}, rw_started := {#7#}\<rparr>"

definition rw_reported :: reporter_world where
  "rw_reported = (rp_report ^^ 4) (rw_trace_one 7 TrBytes rw_called)"

lemma rw_reported_simps:
  "rw_threads rw_reported = {#(7, TrCounts)#}" "rw_reports rw_reported = [Report 7 0 (0 - 1) 0]"
  by (simp_all add: rw_reported_def rw_called_def rw_start_def rw_create_def rw_trace_one_def rp_report_def
      rp_create_def rp_set_callback_def numeral_eq_Suc Let_def)

lemma rw_task_reaches: "reachable I rw_step w \<Longrightarrow> reachable I rw_step ((rp_report ^^ n) w)"
  by (induction n) (auto intro: reachable.next_step rw_task)

lemma rw_reported_reachable: "reachable (rw_initial True) rw_step rw_reported"
proof -
  have "reachable (rw_initial True) rw_step rw_start"
    by (rule reachable.start) (simp add: rw_initial_def rw_start_def)
  then have "reachable (rw_initial True) rw_step rw_called"
    by (rule reachable.next_step) (use rw_call [of rw_start 7] in \<open>simp add: rw_called_def rw_start_def rw_create_def\<close>)
  then have "reachable (rw_initial True) rw_step (rw_trace_one 7 TrBytes rw_called)"
    by (rule reachable.next_step) (rule rw_trace_one_step, simp add: rw_called_def)
  then show ?thesis
    unfolding rw_reported_def by (rule rw_task_reaches)
qed

theorem reporter_exact_witness:
  "map report_of (rw_windows rw_reported) = [Report 7 0 (0 - 1) 0] \<and> rw_applied tl_max rw_reported \<subseteq># {#7#}"
proof -
  have "rw_started rw_reported = {#7#}"
    by (simp add: rw_reported_def rw_called_def rw_start_def rw_create_def rw_trace_one_def rp_report_def
        numeral_eq_Suc Let_def)
  with reporter_exact [OF rw_reported_reachable] rw_reported_simps show ?thesis
    by simp
qed

text \<open>
  The four counters are read and reset one after the other, so a report can have the bytes
  of a trace and not its count: here 7 bytes in no message, with the least size still at its
  initial value, the greatest word, and the greatest at 0.
\<close>

theorem reporter_windows_skew:
  "reachable (rw_initial True) rw_step rw_reported \<and> rw_reports rw_reported = [Report 7 0 (0 - 1) 0]"
  using rw_reported_reachable rw_reported_simps(2) by (rule conjI)

section \<open>Start and Close\<close>

text \<open>
  \<open>Close\<close> after \<open>Start\<close> leaves every loop of the group with the timers it had before (the
  loops with the heap as their timer queue, while its counter of ids has not wrapped).
\<close>

theorem reporter_close_undoes:
  assumes "gr_ok g" and "list_all heap_good (gr_loops g)" and "list_all (\<lambda>q. hq_counter q + 2 < 2 ^ 64) (gr_loops g)"
    and "rp_start (heap_ops K clk) interval task g r = Some (r', g')"
  shows "map heap_timers (gr_loops (rp_close (heap_ops K clk) r' g')) = map heap_timers (gr_loops g)"
proof -
  obtain i g1 where taken: "gr_take g = Some (i, g1)"
    using assms(4) by (auto simp: rp_start_def split: option.splits)
  note t = gr_take_bound [OF assms(1) taken]
  obtain t l where add: "tq_add (heap_ops K clk) 0 interval task (gr_loops g ! i) = (t, l)"
    by (cases "tq_add (heap_ops K clk) 0 interval task (gr_loops g ! i)")
  have q: "heap_good (gr_loops g ! i)" and c: "hq_counter (gr_loops g ! i) + 2 < 2 ^ 64"
    using assms(2,3) t(1) by (simp_all add: list_all_length)
  have "heap_good l"
    using heap_add_result [OF q add] q c by (auto simp: heap_good_def)
  then have "heap_timers (tq_cancel (heap_ops K clk) t l) = heap_timers (gr_loops g ! i)"
    by (rule heap.add_cancel [OF q _ add])
  moreover have "r' = r\<lparr>rp_id := t, rp_executor := Some i\<rparr>" "g' = g1\<lparr>gr_loops := (gr_loops g)[i := l]\<rparr>"
    using assms(4) taken add t(3) by (simp_all add: rp_start_def)
  ultimately show ?thesis
    using t(1) by (simp add: rp_close_def map_update list_update_same_conv)
qed

theorem reporter_close_undoes_witness:
  "let g = gr_create [hq_create, hq_create :: unit heap_queue];
       (r, g') = the (rp_start (heap_ops usec_chrono (\<lambda>_. 0)) 5 () g rp_create)
   in map heap_timers (gr_loops (rp_close (heap_ops usec_chrono (\<lambda>_. 0)) r g')) = map heap_timers (gr_loops g)"
proof -
  let ?g = "gr_create [hq_create, hq_create :: unit heap_queue]"
  have ok: "gr_ok ?g"
    by (simp add: gr_create_ok)
  have "rp_start (heap_ops usec_chrono (\<lambda>_. 0)) 5 () ?g rp_create \<noteq> None"
    by (simp add: rp_start_def gr_take_def gr_create_def Let_def split: prod.split)
  then obtain r g' where s: "rp_start (heap_ops usec_chrono (\<lambda>_. 0)) 5 () ?g rp_create = Some (r, g')"
    by auto
  have "list_all heap_good (gr_loops ?g)" "list_all (\<lambda>q. hq_counter q + 2 < 2 ^ 64) (gr_loops ?g)"
    by (simp_all add: gr_create_def heap_good_def hq_create_def)
  from reporter_close_undoes [OF ok this s] show ?thesis
    by (simp add: s)
qed

end
