(* ===== verification/Client_System.thy ===== *)
theory Client_System
  imports Server_System Tcp_Client Tcp_Connection_Properties
begin

text \<open>
  A client with its connection: src/tcp\_client.cc over theories Tcp\_Client and Tcp\_Connection.
  \<open>handleConnection\<close> makes the connection on the loop thread, hands it the client's own handler
  around the user's, and starts it; the four closing calls and \<open>Send\<close> go to the connection that
  \<open>conn_\<close> points to; OnClose comes back to the client.  The tasks of the connection run in the
  order in which they were queued.

  The user can also use the connection itself (\<open>GetConnection\<close>): \<open>calls in_loop cmd\<close> tells which
  of its operations are called from outside the handler, \<open>sends in_loop\<close> on which threads
  \<open>TcpClient::Send\<close> is called.
\<close>

section \<open>The system\<close>

record 'b client_sys =
  cy_client :: tcp_client
  cy_conn :: "'b tcp_conn option"

definition cy_create :: "'b client_sys" where
  "cy_create = \<lparr>cy_client = cl_create, cy_conn = None\<rparr>"

text \<open>\<open>TcpClientChannelHandler\<close> calls the user's handler; what OnClose adds to that is \<open>cy_track\<close>.\<close>

fun client_channel_handler :: "'b conn_handler \<Rightarrow> 'b conn_handler" where
  "client_channel_handler user OnRead c = user OnRead c"
| "client_channel_handler user OnWriteComplete c = user OnWriteComplete c"
| "client_channel_handler user (OnError err) c = user (OnError err) c"
| "client_channel_handler user OnConnect c = user OnConnect c"
| "client_channel_handler user OnClose c = user OnClose c"

definition cy_track :: "'b tcp_conn \<Rightarrow> 'b tcp_conn \<Rightarrow> tcp_client \<Rightarrow> tcp_client" where
  "cy_track c c' s = (if OnClose \<in> sv_events c c' then cl_on_close 0 s else s)"

text \<open>An operation on the connection, if there is one.\<close>

definition cy_on_conn :: "('b tcp_conn \<Rightarrow> 'b tcp_conn) \<Rightarrow> 'b client_sys \<Rightarrow> 'b client_sys" where
  "cy_on_conn f s =
     (case cy_conn s of
        None \<Rightarrow> s
      | Some c \<Rightarrow> \<lparr>cy_client = cy_track c (f c) (cy_client s), cy_conn = Some (f c)\<rparr>)"

text \<open>\<open>raiseConnection\<close> on the loop thread, up to the assignment of \<open>conn_\<close>.\<close>

definition cy_raise :: "'b buffer_ops \<Rightarrow> 'b conn_hook \<Rightarrow> int \<Rightarrow> int \<Rightarrow> 'b client_sys \<Rightarrow> 'b client_sys" where
  "cy_raise B H ret so_error s =
     (let t = cl_raise_connection ret so_error ((cy_client s)\<lparr>cl_raises := cl_raises (cy_client s) - 1\<rparr>)
      in if cl_made t = cl_made (cy_client s) then s\<lparr>cy_client := t\<rparr>
         else cy_on_conn (conn_start True H) \<lparr>cy_client = t, cy_conn = Some (conn_create B)\<rparr>)"

fun call_cmd :: "client_call \<Rightarrow> conn_cmd" where
  "call_cmd ClientClose = CmdClose"
| "call_cmd ClientForceClose = CmdForceClose"
| "call_cmd ClientShutdown = CmdShutdown"
| "call_cmd ClientForceShutdown = CmdForceShutdown"

text \<open>
  The calls of the client: what Tcp\_Client records as forwarded to a connection is done to it.
\<close>

definition cy_call ::
  "bool \<Rightarrow> 'b buffer_ops \<Rightarrow> net_os \<Rightarrow> 'b conn_hook \<Rightarrow> client_call \<Rightarrow> 'b client_sys \<Rightarrow> 'b client_sys" where
  "cy_call in_loop B sys H k s =
     (let forwards = cl_state (cy_client s) = kConnected \<and> cl_conn (cy_client s) \<noteq> None;
          t = s\<lparr>cy_client := cl_call k (cy_client s)\<rparr>
      in if forwards then cy_on_conn (conn_exec in_loop B sys H (call_cmd k)) t else t)"

definition cy_send ::
  "bool \<Rightarrow> 'b buffer_ops \<Rightarrow> net_os \<Rightarrow> 'b conn_hook \<Rightarrow> byte list \<Rightarrow> 'b client_sys \<Rightarrow> 'b client_sys" where
  "cy_send in_loop B sys H m s =
     (let forwards = cl_conn (cy_client s) \<noteq> None;
          t = s\<lparr>cy_client := cl_send m (cy_client s)\<rparr>
      in if forwards then cy_on_conn (conn_send_string in_loop B sys H m) t else t)"

inductive cy_step ::
  "(bool \<Rightarrow> conn_cmd \<Rightarrow> bool) \<Rightarrow> (bool \<Rightarrow> bool) \<Rightarrow> 'b buffer_ops \<Rightarrow> net_os \<Rightarrow> 'b conn_hook \<Rightarrow>
     'b client_sys \<Rightarrow> 'b client_sys \<Rightarrow> bool"
  for calls sends B sys H
where
  cy_start: "cy_step calls sends B sys H s (s\<lparr>cy_client := cl_start (cy_client s)\<rparr>)"
| cy_raise: "0 < cl_raises (cy_client s) \<Longrightarrow> cl_starting (cy_client s) = None \<Longrightarrow>
    cy_step calls sends B sys H s (cy_raise B H ret so_error s)"
| cy_store: "cl_starting (cy_client s) = Some i \<Longrightarrow>
    cy_step calls sends B sys H s (s\<lparr>cy_client := cl_store_connection (cy_client s)\<rparr>)"
| cy_task: "cy_conn s = Some c \<Longrightarrow> cn_tasks c = t # ts \<Longrightarrow>
    cy_step calls sends B sys H s (cy_on_conn (\<lambda>c. conn_run_task B sys H t (c\<lparr>cn_tasks := ts\<rparr>)) s)"
| cy_io: "cy_step calls sends B sys H s (cy_on_conn (conn_io B sys H events) s)"
| cy_user: "calls in_loop cmd \<Longrightarrow> (\<forall>data. cmd \<noteq> CmdOutput data) \<Longrightarrow>
    cy_step calls sends B sys H s (cy_on_conn (conn_exec in_loop B sys H cmd) s)"
| cy_call: "cy_step calls sends B sys H s (cy_call in_loop B sys H k s)"
| cy_send: "sends in_loop \<Longrightarrow> cy_step calls sends B sys H s (cy_send in_loop B sys H m s)"

definition cy_initial :: "'b client_sys \<Rightarrow> bool" where
  "cy_initial s \<longleftrightarrow> s = cy_create"

section \<open>The client and its connection\<close>

lemma client_channel_handler_eq [simp]: "client_channel_handler user = user"
proof (intro ext)
  fix e c
  show "client_channel_handler user e c = user e c"
    by (cases e) simp_all
qed

lemma send_string_cmd: "conn_send_string in_loop B sys H m c = conn_exec in_loop B sys H (CmdSend m) c"
  by (simp add: conn_send_string_def conn_send_view_def conn_run_def)

lemma exec_is_step:
  "(\<And>data. cmd \<noteq> CmdOutput data) \<Longrightarrow> conn_step B sys H c (conn_exec in_loop B sys H cmd c)"
  by (cases in_loop) (simp_all add: cs_thread cs_loop del: conn_exec.simps)

lemma call_cmd_output [simp]: "call_cmd k \<noteq> CmdOutput data"
  by (cases k) simp_all

text \<open>
  Both are runs of their own components, and the client counts its connection as open until
  OnClose.
\<close>

definition cy_ok :: "'b buffer_ops \<Rightarrow> net_os \<Rightarrow> 'b conn_hook \<Rightarrow> 'b client_sys \<Rightarrow> bool" where
  "cy_ok B sys H s \<longleftrightarrow> reachable cl_initial cl_step (cy_client s) \<and>
     (case cy_conn s of
        None \<Rightarrow> cl_made (cy_client s) = 0
      | Some c \<Rightarrow> cl_made (cy_client s) = 1 \<and> reachable (conn_initial B H) (conn_step B sys H) c \<and>
          (OnClose \<in> set (cn_trace c) \<longleftrightarrow> 0 \<notin> set (cl_open (cy_client s))))"

lemma cy_ok_client:
  assumes "cy_ok B sys H s" and "cl_step (cy_client s) t"
    and "cl_open t = cl_open (cy_client s)" and "cl_made t = cl_made (cy_client s)"
  shows "cy_ok B sys H (s\<lparr>cy_client := t\<rparr>)"
  using assms by (auto simp: cy_ok_def intro: reachable.next_step split: option.splits)

lemma conn_inv_close_once: "conn_inv B c \<Longrightarrow> count_list (cn_trace c) OnClose \<le> 1"
  by (auto simp: conn_inv_def conn_fresh_def conn_good_def)

text \<open>The client follows a connection that moves on.\<close>

lemma cy_track_ok:
  assumes "reachable cl_initial cl_step t" and "conn_forward c c'" and "count_list (cn_trace c') OnClose \<le> 1"
    and "OnClose \<in> set (cn_trace c) \<longleftrightarrow> 0 \<notin> set (cl_open t)"
  shows "reachable cl_initial cl_step (cy_track c c' t) \<and> cl_made (cy_track c c' t) = cl_made t \<and>
    (OnClose \<in> set (cn_trace c') \<longleftrightarrow> 0 \<notin> set (cl_open (cy_track c c' t)))"
proof (cases "OnClose \<in> sv_events c c'")
  case False
  with assms sv_events_trace [OF forward_onward [OF assms(2)]] show ?thesis
    by (simp add: cy_track_def)
next
  case True
  obtain es where es: "cn_trace c' = cn_trace c @ es"
    using assms(2) by (auto simp: conn_forward_def)
  with True have "OnClose \<in> set es"
    by (simp add: sv_events_def)
  then have "0 < count_list es OnClose"
    by (simp add: count_list_0_iff neq0_conv [symmetric] del: neq0_conv)
  with assms(3) es have "count_list (cn_trace c) OnClose = 0"
    by simp
  with assms(4) have "0 \<in> set (cl_open t)"
    by (simp add: count_list_0_iff)
  then have "cl_step t (cl_on_close 0 t)"
    by (rule cl_step.closed)
  with assms(1) True es show ?thesis
    by (auto simp: cy_track_def cl_on_close_def sv_events_def intro: reachable.next_step)
qed

lemma cy_ok_conn:
  assumes ok: "buffer_ok B" "os_ok sys" and H: "H = conn_hooks B sys user n" and "cy_ok B sys H s"
    and step: "\<And>c. cy_conn s = Some c \<Longrightarrow> conn_step B sys H c (f c)"
  shows "cy_ok B sys H (cy_on_conn f s)"
proof (cases "cy_conn s")
  case None
  with assms(4) show ?thesis by (simp add: cy_on_conn_def)
next
  case (Some c)
  with assms(4) have c: "reachable cl_initial cl_step (cy_client s)" "cl_made (cy_client s) = 1"
    "reachable (conn_initial B H) (conn_step B sys H) c"
    "OnClose \<in> set (cn_trace c) \<longleftrightarrow> 0 \<notin> set (cl_open (cy_client s))"
    by (simp_all add: cy_ok_def)
  have d: "reachable (conn_initial B H) (conn_step B sys H) (f c)"
    using c(3) step [OF Some] by (rule reachable.next_step)
  have "conn_inv B (f c)"
    using invariant_system.inv_reachable [OF conn_system [OF ok]] d H by blast
  moreover have "conn_forward c (f c)"
    using conn_forward_step step [OF Some] H by blast
  ultimately show ?thesis
    using cy_track_ok [OF c(1) _ conn_inv_close_once c(4)] c(2) d Some by (simp add: cy_ok_def cy_on_conn_def)
qed

lemma cl_raise_made:
  assumes "cl_inv s" and "0 < cl_raises s" and "t = cl_raise_connection ret e (s\<lparr>cl_raises := cl_raises s - 1\<rparr>)"
  shows "cl_made t = cl_made s \<and> cl_open t = cl_open s \<or> cl_made s = 0 \<and> cl_made t = 1 \<and> cl_open t = [0]"
proof -
  have "cl_made s = 0" "cl_open s = []"
    using assms(1,2) by (auto simp: cl_inv_def split: if_splits)
  with assms(3) show ?thesis
    by (auto simp: cl_ops split: connect_outcome.splits)
qed

lemma cy_ok_raise:
  assumes ok: "buffer_ok B" "os_ok sys" and H: "H = conn_hooks B sys user n" and "cy_ok B sys H s"
    and raise: "0 < cl_raises (cy_client s)" "cl_starting (cy_client s) = None"
  shows "cy_ok B sys H (cy_raise B H ret e s)"
proof -
  define t where "t = cl_raise_connection ret e ((cy_client s)\<lparr>cl_raises := cl_raises (cy_client s) - 1\<rparr>)"
  have step: "cl_step (cy_client s) t"
    unfolding t_def using raise by (rule cl_step.raise)
  have r: "reachable cl_initial cl_step (cy_client s)"
    using assms(4) by (simp add: cy_ok_def)
  note made = cl_raise_made [OF client.inv_reachable [OF r] raise(1) t_def]
  have eq: "cy_raise B H ret e s = (if cl_made t = cl_made (cy_client s) then s\<lparr>cy_client := t\<rparr>
      else cy_on_conn (conn_start True H) \<lparr>cy_client = t, cy_conn = Some (conn_create B)\<rparr>)"
    by (simp only: cy_raise_def t_def Let_def)
  show ?thesis
  proof (cases "cl_made t = cl_made (cy_client s)")
    case True
    with made have "cy_ok B sys H (s\<lparr>cy_client := t\<rparr>)"
      by (intro cy_ok_client [OF assms(4) step]) auto
    with True eq show ?thesis by simp
  next
    case False
    let ?c = "conn_start True H (conn_create B)"
    have init: "conn_initial B H ?c"
      by (auto simp: conn_initial_def)
    then have "conn_inv B ?c"
      using conn_inv_initial [OF ok] H by blast
    moreover have "conn_forward (conn_create B) ?c"
      unfolding H by (rule conn_start_forward)
    moreover have "cn_trace (conn_create B) = []"
      by (simp add: conn_create_def)
    moreover have "reachable cl_initial cl_step t"
      using r step by (rule reachable.next_step)
    ultimately show ?thesis
      using False made cy_track_ok [of t "conn_create B" ?c] conn_inv_close_once [of B ?c] reachable.start [of "conn_initial B H", OF init]
      by (simp add: eq cy_on_conn_def cy_ok_def)
  qed
qed

lemma cl_open_made [simp]:
  "cl_open (cl_start s) = cl_open s" "cl_made (cl_start s) = cl_made s"
  "cl_open (cl_store_connection s) = cl_open s" "cl_made (cl_store_connection s) = cl_made s"
  "cl_open (cl_call k s) = cl_open s" "cl_made (cl_call k s) = cl_made s"
  "cl_open (cl_send m s) = cl_open s" "cl_made (cl_send m s) = cl_made s"
  by (simp_all add: cl_ops split: option.splits)

lemma cy_ok_step:
  assumes ok: "buffer_ok B" "os_ok sys" and H: "H = conn_hooks B sys user n"
    and "cy_step calls sends B sys H s t" and "cy_ok B sys H s"
  shows "cy_ok B sys H t"
  using assms(4)
proof cases
  case cy_start
  then show ?thesis
    using cy_ok_client [OF assms(5) cl_step.start] by simp
next
  case (cy_raise ret e)
  then show ?thesis
    using cy_ok_raise [OF ok H assms(5)] by simp
next
  case (cy_store i)
  then show ?thesis
    using cy_ok_client [OF assms(5) cl_step.store [OF cy_store(2)]] by simp
next
  case (cy_task c t' ts)
  then show ?thesis
    unfolding cy_task(1) by (intro cy_ok_conn [OF ok H assms(5)]) (auto intro: cs_task)
next
  case (cy_io events)
  show ?thesis
    unfolding cy_io by (intro cy_ok_conn [OF ok H assms(5)] cs_io)
next
  case (cy_user in_loop cmd)
  then show ?thesis
    unfolding cy_user(1) by (intro cy_ok_conn [OF ok H assms(5)] exec_is_step) simp
next
  case (cy_call in_loop k)
  have "cy_ok B sys H (s\<lparr>cy_client := cl_call k (cy_client s)\<rparr>)"
    using cy_ok_client [OF assms(5) cl_step.call] by simp
  from this cy_ok_conn [OF ok H this exec_is_step [OF call_cmd_output]] show ?thesis
    unfolding cy_call cy_call_def Let_def by (simp del: conn_exec.simps)
next
  case (cy_send in_loop m)
  have "cy_ok B sys H (s\<lparr>cy_client := cl_send m (cy_client s)\<rparr>)"
    using cy_ok_client [OF assms(5) cl_step.send] by simp
  then show ?thesis
    unfolding cy_send cy_send_def Let_def send_string_cmd
    by (auto intro: cy_ok_conn [OF ok H] exec_is_step simp del: conn_exec.simps)
qed

lemma client_sys_system:
  assumes "buffer_ok B" and "os_ok sys" and "H = conn_hooks B sys user n"
  shows "invariant_system cy_initial (cy_step calls sends B sys H) (cy_ok B sys H)"
proof
  show "cy_initial s \<Longrightarrow> cy_ok B sys H s" for s
    by (auto simp: cy_initial_def cy_create_def cy_ok_def cl_initial_def cl_create_def intro: reachable.start)
  show "cy_step calls sends B sys H s t \<Longrightarrow> cy_ok B sys H s \<Longrightarrow> cy_ok B sys H t" for s t
    by (rule cy_ok_step [OF assms])
qed

text \<open>
  C33. A client and its connection, put together, are a client and a connection.  In every state
  that the composed system reaches, whatever the kernel answers and whoever calls the client, its
  connection or both: the client is in a state that theory Tcp\_Client reaches; it has made a
  connection or none, and the connection is in a state that theory Tcp\_Connection reaches, so
  that what is proved of each holds here; and the client is kDisconnected exactly when its
  connection has called OnClose.
\<close>

theorem client_system_refines:
  assumes "buffer_ok B" and "os_ok sys" and "H = conn_hooks B sys (client_channel_handler user) n"
    and "reachable cy_initial (cy_step calls sends B sys H) s"
  shows "reachable cl_initial cl_step (cy_client s) \<and>
    (case cy_conn s of
       None \<Rightarrow> cl_made (cy_client s) = 0 \<and> cl_state (cy_client s) \<in> {kOffline, kConnecting}
     | Some c \<Rightarrow> cl_made (cy_client s) = 1 \<and> reachable (conn_initial B H) (conn_step B sys H) c \<and>
         (if OnClose \<in> set (cn_trace c) then cl_state (cy_client s) = kDisconnected
          else cl_state (cy_client s) \<in> {kConnected, kDisconnecting}))"
proof -
  have ok: "cy_ok B sys H s"
    by (rule invariant_system.inv_reachable [OF client_sys_system [OF assms(1-3)] assms(4)])
  then have "cl_inv (cy_client s)"
    using client.inv_reachable by (simp add: cy_ok_def)
  with ok show ?thesis
    by (cases "cl_state (cy_client s)")
      (auto simp: cy_ok_def cl_inv_def neq_Nil_conv split: option.splits)
qed

section \<open>What the client sends\<close>

fun forwarded_bytes :: "forwarded \<Rightarrow> byte list" where
  "forwarded_bytes (FwdCall k i) = []"
| "forwarded_bytes (FwdSend m i) = m"

definition cl_messages :: "tcp_client \<Rightarrow> byte list" where
  "cl_messages s = concat (map forwarded_bytes (cl_forwarded s))"

fun task_bytes :: "conn_task \<Rightarrow> byte list" where
  "task_bytes (TaskSend data) = data"
| "task_bytes _ = []"

definition cn_queued :: "'b tcp_conn \<Rightarrow> byte list" where
  "cn_queued c = concat (map task_bytes (cn_tasks c))"

fun silent_cmd :: "conn_cmd \<Rightarrow> bool" where
  "silent_cmd (CmdSend data) \<longleftrightarrow> False"
| "silent_cmd CmdSendInput \<longleftrightarrow> False"
| "silent_cmd (CmdOutput data) \<longleftrightarrow> False"
| "silent_cmd (CmdSendAside i) \<longleftrightarrow> False"
| "silent_cmd _ \<longleftrightarrow> True"

definition silent :: "'b tcp_conn \<Rightarrow> 'b tcp_conn \<Rightarrow> bool" where
  "silent c c' \<longleftrightarrow> cn_sent c' = cn_sent c \<and> cn_queued c' = cn_queued c"

lemma silent_trans: "silent c d \<Longrightarrow> silent d e \<Longrightarrow> silent c e"
  by (simp add: silent_def)

interpretation quiet_calls: callback_contract silent
  by unfold_locales (simp_all add: silent_def)

text \<open>A hook under which nothing is sent, and so nothing is by anything but \<open>handleSend\<close>.\<close>

locale silent_hooks =
  fixes B :: "'b buffer_ops" and sys :: net_os and H :: "'b conn_hook"
  assumes hook_silent: "silent c (H e c)"
begin

lemma silent_notify: "silent c (conn_notify H e c)"
  using hook_silent [of "c\<lparr>cn_trace := cn_trace c @ [e]\<rparr>" e] by (simp add: conn_notify_def silent_def cn_queued_def)

lemma silent_remove: "silent c (conn_remove H c)"
proof -
  let ?c = "c\<lparr>cn_channel := (cn_channel c)\<lparr>sc_watch := None\<rparr>\<rparr>"
  have "silent c ?c"
    by (simp add: silent_def cn_queued_def)
  moreover have "silent ?c (conn_handle_remove H ?c)"
    using silent_notify [of ?c OnClose]
    by (auto simp: conn_handle_remove_def Let_def silent_def cn_queued_def)
  ultimately have "silent c (conn_handle_remove H ?c)"
    by (rule silent_trans)
  then show ?thesis
    by (simp add: conn_remove_def silent_def)
qed

lemma silent_state: "silent (c\<lparr>cn_state := v\<rparr>) d \<longleftrightarrow> silent c d" "silent (c\<lparr>cn_sys := k\<rparr>) d \<longleftrightarrow> silent c d"
  "silent c (d\<lparr>cn_state := v\<rparr>) \<longleftrightarrow> silent c d" "silent c c"
  by (simp_all add: silent_def cn_queued_def)

lemma silent_run:
  assumes "silent c (body c)" and "task_bytes task = []"
  shows "silent c (conn_run in_loop body task c)"
  using assms by (simp add: conn_run_def silent_def cn_queued_def)

lemma silent_close:
  "silent c (conn_handle_close H c)" "silent c (conn_force_close in_loop H c)"
  "silent c (conn_close_body B H c)" "silent c (conn_close in_loop B H c)"
proof -
  have gone: "silent c (conn_remove H (c\<lparr>cn_state := Disconnected\<rparr>))" for c
    using silent_remove [of "c\<lparr>cn_state := Disconnected\<rparr>"] by (simp add: silent_state)
  show body: "silent c (conn_close_body B H c)" for c
    by (simp add: conn_close_body_def silent_remove silent_state)
  show "silent c (conn_handle_close H c)"
    by (simp add: conn_handle_close_def gone silent_state)
  show "silent c (conn_force_close in_loop H c)"
    using silent_run [of "c\<lparr>cn_state := Disconnected\<rparr>" "conn_remove H" TaskForceClose in_loop] silent_remove
    by (simp add: conn_force_close_def silent_state)
  show "silent c (conn_close in_loop B H c)"
    using silent_run [of "c\<lparr>cn_state := Disconnected\<rparr>" "conn_close_body B H" TaskClose in_loop] body
    by (simp add: conn_close_def silent_state)
qed

lemma silent_shutdown:
  "silent c (conn_shutdown_body B c)" "silent c (conn_force_shutdown_body c)"
  "silent c (conn_shutdown in_loop B c)" "silent c (conn_force_shutdown in_loop c)"
  by (auto simp: conn_shutdown_def conn_force_shutdown_def conn_force_shutdown_store_def conn_run_def
      conn_shutdown_body_def conn_small_defs silent_def cn_queued_def)

lemma silent_error: "silent c (conn_handle_error sys H err c)"
  by (simp add: conn_handle_error_def silent_close silent_notify)

lemma silent_read: "silent c (conn_handle_read B sys H c)"
proof -
  have "silent c (conn_notify H OnRead (c\<lparr>cn_sys := k, cn_input := b, cn_received := r\<rparr>))" for k b r
    using silent_notify [of "c\<lparr>cn_sys := k, cn_input := b, cn_received := r\<rparr>"] by (simp add: silent_def cn_queued_def)
  moreover have "silent c (conn_handle_close H (c\<lparr>cn_sys := k\<rparr>))" "silent c (conn_handle_error sys H e (c\<lparr>cn_sys := k\<rparr>))" for k e
    using silent_close(1) [of "c\<lparr>cn_sys := k\<rparr>"] silent_error [of "c\<lparr>cn_sys := k\<rparr>"] by (simp_all add: silent_state)
  ultimately show ?thesis
    by (auto simp: conn_handle_read_def Let_def silent_def cn_queued_def split: sum.split list.split)
qed

lemma silent_write_done: "silent c (conn_write_done B H c)"
  using silent_notify [of "conn_set_writable False c" OnWriteComplete]
  by (auto simp: conn_write_done_def Let_def conn_small_defs silent_def cn_queued_def)

lemma silent_write: "silent c (conn_handle_write B sys H c)"
proof -
  have "silent c (conn_write_done B H (c\<lparr>cn_sys := k, cn_wire := w, cn_output := b\<rparr>))" for k w b
    using silent_write_done [of "c\<lparr>cn_sys := k, cn_wire := w, cn_output := b\<rparr>"] by (simp add: silent_def cn_queued_def)
  moreover have "silent c (conn_handle_error sys H e (c\<lparr>cn_sys := k, cn_wire := w\<rparr>))" for k w e
    using silent_error [of "c\<lparr>cn_sys := k, cn_wire := w\<rparr>"] by (simp add: silent_def cn_queued_def)
  moreover have "silent c (conn_handle_error sys H e (c\<lparr>cn_sys := k\<rparr>))" for k e
    using silent_error [of "c\<lparr>cn_sys := k\<rparr>"] by (simp add: silent_state)
  ultimately show ?thesis
    by (auto simp: conn_handle_write_def conn_write_def conn_get_error_def Let_def silent_write_done silent_state)
qed

lemma silent_add: "silent c (conn_add H c)"
proof -
  let ?c = "c\<lparr>cn_channel := (cn_channel c)\<lparr>sc_watch := Some kNoneEvent\<rparr>, cn_state := Connected\<rparr>"
  show ?thesis
    using silent_notify [of ?c OnConnect]
    by (auto simp: conn_add_def Let_def conn_set_readable_def silent_def cn_queued_def)
qed

lemma silent_io: "silent c (conn_io B sys H events c)"
proof -
  have error: "silent c (case conn_get_error sys c of (err, c1) \<Rightarrow> conn_handle_error sys H err c1)" for c
    using silent_error [of "c\<lparr>cn_sys := Suc (cn_sys c)\<rparr>"] by (simp add: conn_get_error_def silent_state)
  have "silent c (sc_handle_events (conn_callbacks B sys H) (\<lambda>c. c\<lparr>cn_channel := sc_close (cn_channel c)\<rparr>) events c)"
    by (rule quiet_calls.R_handle_events)
      (simp_all add: run_cb_def conn_callbacks_def silent_close silent_read silent_write error,
       simp add: silent_def cn_queued_def)
  then show ?thesis
    by (simp add: conn_io_def silent_state)
qed

lemma silent_exec: "silent_cmd cmd \<Longrightarrow> silent c (conn_exec in_loop B sys H cmd c)"
  by (cases cmd) (simp_all add: silent_close silent_shutdown silent_state, simp_all add: silent_def cn_queued_def handler_defs)

text \<open>\<open>handleSend\<close> takes over all the bytes of a connection that is up, and nothing else.\<close>

lemma send_sent:
  "cn_sent (conn_handle_send B sys H data c) = cn_sent c @ (if cn_state c = Connected then data else [])"
  "cn_queued (conn_handle_send B sys H data c) = cn_queued c"
proof -
  have err: "cn_sent (conn_handle_error sys H e (c\<lparr>cn_sys := k\<rparr>)) = cn_sent c"
    "cn_queued (conn_handle_error sys H e (c\<lparr>cn_sys := k\<rparr>)) = cn_queued c" for k e
    using silent_error [of "c\<lparr>cn_sys := k\<rparr>" e] by (simp_all add: silent_def cn_queued_def)
  have queued: "cn_queued (conn_enqueue B d c) = cn_queued c" for d c
    by (simp add: cn_queued_def)
  have same: "cn_queued (c\<lparr>cn_sys := k\<rparr>) = cn_queued c" "cn_queued (conn_accept d c) = cn_queued c"
    "cn_queued (c\<lparr>cn_sys := k, cn_wire := w\<rparr>) = cn_queued c" for k w d c
    by (simp_all add: cn_queued_def)
  show "cn_sent (conn_handle_send B sys H data c) = cn_sent c @ (if cn_state c = Connected then data else [])"
    by (auto simp: conn_handle_send_def conn_write_def conn_get_error_def Let_def err)
  show "cn_queued (conn_handle_send B sys H data c) = cn_queued c"
    by (auto simp: conn_handle_send_def conn_write_def conn_get_error_def Let_def err queued same)
qed

end

lemma silent_conn_hooks:
  assumes "\<And>e c cmd. cmd \<in> set (user e c) \<Longrightarrow> silent_cmd cmd"
  shows "silent_hooks (conn_hooks B sys user n)"
proof (induction n)
  case 0
  show ?case by unfold_locales (simp add: silent_def)
next
  case (Suc n)
  have "silent c (fold (conn_exec True B sys (conn_hooks B sys user n)) cmds c)"
    if "\<forall>cmd \<in> set cmds. silent_cmd cmd" for c cmds
    using that
  proof (induction cmds arbitrary: c)
    case (Cons cmd cmds)
    then have "silent c (conn_exec True B sys (conn_hooks B sys user n) cmd c)"
      by (intro silent_hooks.silent_exec [OF Suc]) simp
    moreover have "silent d (fold (conn_exec True B sys (conn_hooks B sys user n)) cmds d)" for d
      using Cons by simp
    ultimately show ?case
      using silent_trans by (simp del: conn_exec.simps) blast
  qed (simp add: silent_def)
  with assms show ?case
    by unfold_locales simp
qed

text \<open>
  What has been given to the connection is what it has taken over and what waits in its tasks,
  as long as it is up; afterwards it is a prefix.
\<close>

definition stream_ok :: "byte list \<Rightarrow> 'b tcp_conn \<Rightarrow> bool" where
  "stream_ok ms c \<longleftrightarrow> cn_state c \<noteq> Connecting \<and>
     (if cn_state c = Connected then ms = cn_sent c @ cn_queued c else \<exists>rest. ms = cn_sent c @ rest)"

lemma state_forward: "cn_state c \<le> cn_state d \<Longrightarrow> cn_state c \<noteq> Connecting \<Longrightarrow>
    cn_state d \<noteq> Connecting \<and> (cn_state d = Connected \<longrightarrow> cn_state c = Connected)"
  by (cases "cn_state c"; cases "cn_state d") (simp_all add: less_eq_conn_state_def)

lemma stream_silent: "stream_ok ms c \<Longrightarrow> silent c d \<Longrightarrow> conn_forward c d \<Longrightarrow> stream_ok ms d"
  using state_forward [of c d] by (auto simp: stream_ok_def silent_def conn_forward_def split: if_splits)

lemma stream_task:
  assumes "stream_ok ms c" and "cn_tasks c = TaskSend data # ts" and "conn_forward c d"
    and "cn_sent d = cn_sent c @ (if cn_state c = Connected then data else [])"
    and "cn_queued d = concat (map task_bytes ts)"
  shows "stream_ok ms d"
  using assms state_forward [of c d] by (auto simp: stream_ok_def conn_forward_def cn_queued_def split: if_splits)

definition cy_stream :: "'b client_sys \<Rightarrow> bool" where
  "cy_stream s \<longleftrightarrow> (case cy_conn s of None \<Rightarrow> True | Some c \<Rightarrow> stream_ok (cl_messages (cy_client s)) c)"

lemma cl_messages_simps [simp]:
  "cl_messages (cl_start s) = cl_messages s" "cl_messages (cl_store_connection s) = cl_messages s"
  "cl_messages (cl_call k s) = cl_messages s" "cl_messages (cy_track c d s) = cl_messages s"
  "cl_messages (cl_raise_connection ret e s) = cl_messages s" "cl_messages (s\<lparr>cl_raises := r\<rparr>) = cl_messages s"
  "cl_messages (cl_send m s) = cl_messages s @ (if cl_conn s = None then [] else m)"
  by (auto simp: cl_messages_def cy_track_def cl_ops split: option.splits connect_outcome.splits)

lemma cy_stream_conn:
  assumes "cy_stream s" and "\<And>c. cy_conn s = Some c \<Longrightarrow> stream_ok (cl_messages (cy_client s)) c \<Longrightarrow> stream_ok (cl_messages (cy_client s)) (f c)"
  shows "cy_stream (cy_on_conn f s)"
  using assms by (auto simp: cy_stream_def cy_on_conn_def split: option.splits)

lemma cy_stream_client: "cy_stream s \<Longrightarrow> cl_messages t = cl_messages (cy_client s) \<Longrightarrow> cy_stream (s\<lparr>cy_client := t\<rparr>)"
  by (simp add: cy_stream_def split: option.splits)

lemma made_nothing_sent: "cl_inv s \<Longrightarrow> cl_made s = 0 \<Longrightarrow> cl_messages s = []"
  by (cases "cl_forwarded s") (auto simp: cl_inv_def cl_messages_def split: forwarded.splits)

text \<open>The connection as \<open>Start\<close> on the loop thread leaves it.\<close>

lemma started_silent:
  assumes "silent_hooks H" and H: "H = conn_hooks B sys user n"
  shows "stream_ok [] (conn_start True H (conn_create B))"
proof -
  let ?c = "(conn_create B)\<lparr>cn_context := True\<rparr>"
  let ?d = "?c\<lparr>cn_channel := (cn_channel ?c)\<lparr>sc_watch := Some kNoneEvent\<rparr>, cn_state := Connected,
    cn_trace := [OnConnect]\<rparr>"
  have "silent ?c (conn_add H ?c)"
    by (rule silent_hooks.silent_add [OF assms(1)])
  moreover have "conn_forward ?d (H OnConnect ?d)"
    unfolding H by (rule micros_forward [OF conn.hook])
  then have "cn_state ?d \<le> cn_state (H OnConnect ?d)"
    unfolding conn_forward_def by blast
  then have "cn_state (H OnConnect ?d) \<noteq> Connecting"
    using state_forward [of ?d "H OnConnect ?d"] by simp
  moreover have "conn_add H ?c = conn_set_readable True (H OnConnect ?d)"
    by (simp add: conn_add_def conn_notify_def conn_create_def sc_create_def)
  ultimately show ?thesis
    by (auto simp: conn_start_def conn_run_def stream_ok_def silent_def conn_create_def cn_queued_def conn_set_readable_def)
qed

text \<open>
  Nobody else sends: the user's handler does not, what is called on the connection does not, and
  \<open>TcpClient::Send\<close> is called on other threads than the loop's.
\<close>

lemma cy_stream_raise:
  assumes "cy_stream s" and "cy_ok B sys H s" and "0 < cl_raises (cy_client s)"
    and "silent_hooks H" and "H = conn_hooks B sys user n"
  shows "cy_stream (cy_raise B H ret e s)"
proof -
  define t where "t = cl_raise_connection ret e ((cy_client s)\<lparr>cl_raises := cl_raises (cy_client s) - 1\<rparr>)"
  have same: "cl_messages t = cl_messages (cy_client s)"
    by (simp add: t_def)
  have inv: "cl_inv (cy_client s)"
    using assms(2) client.inv_reachable by (simp add: cy_ok_def)
  have eq: "cy_raise B H ret e s = (if cl_made t = cl_made (cy_client s) then s\<lparr>cy_client := t\<rparr>
      else cy_on_conn (conn_start True H) \<lparr>cy_client = t, cy_conn = Some (conn_create B)\<rparr>)"
    by (simp only: cy_raise_def t_def Let_def)
  show ?thesis
  proof (cases "cl_made t = cl_made (cy_client s)")
    case True
    with eq cy_stream_client [OF assms(1) same] show ?thesis by simp
  next
    case False
    with cl_raise_made [OF inv assms(3) t_def] made_nothing_sent [OF inv] same have "cl_messages t = []"
      by simp
    with False eq started_silent [OF assms(4,5)] show ?thesis
      by (simp add: cy_stream_def cy_on_conn_def)
  qed
qed

lemma stream_exec:
  assumes "H = conn_hooks B sys user n" and "silent_hooks H" and "silent_cmd cmd" and "stream_ok ms c"
  shows "stream_ok ms (conn_exec in_loop B sys H cmd c)"
proof (rule stream_silent [OF assms(4)])
  show "silent c (conn_exec in_loop B sys H cmd c)"
    by (rule silent_hooks.silent_exec [OF assms(2,3)])
  have "\<And>data. cmd \<noteq> CmdOutput data"
    using assms(3) by auto
  from conn_forward_step [OF exec_is_step [OF this, of B sys H c in_loop, unfolded assms(1)]]
  show "conn_forward c (conn_exec in_loop B sys H cmd c)"
    unfolding assms(1) .
qed

lemma stream_run_task:
  assumes "H = conn_hooks B sys user n" and "silent_hooks H" and "cn_tasks c = t # ts" and "stream_ok ms c"
  shows "stream_ok ms (conn_run_task B sys H t (c\<lparr>cn_tasks := ts\<rparr>))"
proof -
  let ?d = "conn_run_task B sys H t (c\<lparr>cn_tasks := ts\<rparr>)"
  have fwd: "conn_forward c ?d"
    using conn_forward_step [OF cs_task [OF assms(3)]] assms(1) by blast
  note silent = silent_hooks.silent_add [OF assms(2)] silent_hooks.silent_close(3) [OF assms(2)]
    silent_hooks.silent_remove [OF assms(2)] silent_hooks.silent_shutdown(1,2) [OF assms(2)]
  show ?thesis
  proof (cases "\<exists>data. t = TaskSend data")
    case True
    then obtain data where t: "t = TaskSend data" by blast
    show ?thesis
      using assms(3) t silent_hooks.send_sent [OF assms(2), of B sys data "c\<lparr>cn_tasks := ts\<rparr>"]
      by (intro stream_task [OF assms(4) _ fwd, of data ts]) (simp_all add: cn_queued_def)
  next
    case False
    then have "silent (c\<lparr>cn_tasks := ts\<rparr>) ?d" and "task_bytes t = []"
      using silent by (cases t; simp)+
    then have "silent c ?d"
      using assms(3) by (simp add: silent_def cn_queued_def)
    with assms(4) show ?thesis
      using fwd by (rule stream_silent)
  qed
qed

lemma stream_send:
  assumes "stream_ok ms c"
  shows "stream_ok (ms @ m) (conn_send_string False B sys H m c)"
  using assms by (auto simp: stream_ok_def conn_send_string_def conn_run_def cn_queued_def)

lemma cy_stream_send:
  assumes "cy_stream s"
  shows "cy_stream (cy_send False B sys H m s)"
  using assms stream_send
  by (auto simp: cy_send_def cy_stream_def cy_on_conn_def Let_def split: option.splits)

lemma cy_stream_step:
  assumes H: "H = conn_hooks B sys user n" and quiet: "silent_hooks H"
    and calls: "\<forall>l cmd. calls l cmd \<longrightarrow> silent_cmd cmd" and sends: "\<not> sends True"
    and "cy_step calls sends B sys H s t" and "cy_ok B sys H s" and "cy_stream s"
  shows "cy_stream t"
  using assms(5)
proof cases
  case (cy_raise ret e)
  then show ?thesis
    using cy_stream_raise [OF assms(7,6) _ quiet H] by simp
next
  case (cy_task c t' ts)
  then show ?thesis
    unfolding cy_task(1) by (intro cy_stream_conn [OF assms(7)]) (auto intro: stream_run_task [OF H quiet])
next
  case (cy_io events)
  have "conn_forward c (conn_io B sys H events c)" for c
    using conn_forward_step [OF cs_io] H by blast
  then show ?thesis
    unfolding cy_io using stream_silent [OF _ silent_hooks.silent_io [OF quiet]]
    by (intro cy_stream_conn [OF assms(7)]) blast
next
  case (cy_user in_loop cmd)
  then show ?thesis
    unfolding cy_user(1) using calls by (intro cy_stream_conn [OF assms(7)] stream_exec [OF H quiet]) blast
next
  case (cy_call in_loop k)
  have "cy_stream (s\<lparr>cy_client := cl_call k (cy_client s)\<rparr>)"
    by (rule cy_stream_client [OF assms(7)]) simp
  moreover have "silent_cmd (call_cmd k)"
    by (cases k) simp_all
  ultimately have "cy_stream (cy_on_conn (conn_exec in_loop B sys H (call_cmd k)) (s\<lparr>cy_client := cl_call k (cy_client s)\<rparr>))"
    by (intro cy_stream_conn stream_exec [OF H quiet])
  with cy_stream_client [OF assms(7), of "cl_call k (cy_client s)"] show ?thesis
    unfolding cy_call cy_call_def Let_def by (simp del: conn_exec.simps)
next
  case (cy_send in_loop m)
  then show ?thesis
    using sends cy_stream_send [OF assms(7)] by (cases in_loop) simp_all
qed (simp_all add: cy_stream_client [OF assms(7)])

lemma cy_sends_system:
  assumes "buffer_ok B" and "os_ok sys" and H: "H = conn_hooks B sys user n" and "silent_hooks H"
    and "\<forall>l cmd. calls l cmd \<longrightarrow> silent_cmd cmd" and "\<not> sends True"
  shows "invariant_system cy_initial (cy_step calls sends B sys H) (\<lambda>s. cy_ok B sys H s \<and> cy_stream s)"
proof
  show "cy_ok B sys H s \<and> cy_stream s" if "cy_initial s" for s
    using invariant_system.inv_initial [OF client_sys_system [OF assms(1-3)]] that
    by (auto simp: cy_initial_def cy_create_def cy_stream_def)
  show "cy_ok B sys H t \<and> cy_stream t" if "cy_step calls sends B sys H s t" "cy_ok B sys H s \<and> cy_stream s" for s t
    using that cy_ok_step [OF assms(1-3)] cy_stream_step [where calls = calls and sends = sends, OF H assms(4-6)] by blast
qed

text \<open>
  C34. Messages of a client arrive in order, when the loop runs its tasks in the order in which they
  were queued (EventBlockingQueue and EventDoubleBufferQueue do; the default EventLockFreeQueue keeps
  no order between threads, and nothing is claimed for it here).  When the client is the only one that
  sends on its connection, from threads other than the loop's, and whatever the kernel, the peer, the
  user's handler and calls do otherwise: the bytes on the wire, followed by those in the output buffer,
  are a prefix of the messages given to \<open>Send\<close> since the client has had its connection, one after
  the other; and as long as the connection is up what is missing is exactly what waits in the
  loop's tasks.
\<close>

theorem client_sends_in_order:
  assumes "buffer_ok B" and "os_ok sys" and "H = conn_hooks B sys (client_channel_handler user) n"
    and "\<And>e c cmd. cmd \<in> set (user e c) \<Longrightarrow> silent_cmd cmd"
    and "\<forall>l cmd. calls l cmd \<longrightarrow> silent_cmd cmd" and "\<not> sends True"
    and "reachable cy_initial (cy_step calls sends B sys H) s" and "cy_conn s = Some c"
  shows "\<exists>rest. cn_wire c @ cn_pending B c @ rest = cl_messages (cy_client s) \<and>
    (cn_state c = Connected \<longrightarrow> rest = cn_queued c)"
proof -
  have H: "H = conn_hooks B sys user n" "silent_hooks H"
    using assms(3,4) silent_conn_hooks [of user] by simp_all
  have "cy_ok B sys H s \<and> cy_stream s"
    by (rule invariant_system.inv_reachable [OF cy_sends_system [where calls = calls and sends = sends, OF assms(1,2) H assms(5,6)] assms(7)])
  then have "stream_ok (cl_messages (cy_client s)) c" and "reachable (conn_initial B H) (conn_step B sys H) c"
    using assms(8) by (simp_all add: cy_ok_def cy_stream_def)
  moreover from this(2) have "conn_inv B c"
    using invariant_system.inv_reachable [OF conn_system [OF assms(1,2)]] H(1) by blast
  then have "cn_wire c @ cn_pending B c = cn_sent c"
    by (auto simp: conn_inv_def conn_fresh_def conn_good_def)
  ultimately show ?thesis
    by (auto simp: stream_ok_def append_assoc [symmetric] simp del: append_assoc split: if_splits)
qed

text \<open>A client that has connected, sent three bytes and written two of them.\<close>

abbreviation sending_hook :: "(byte list \<times> nat) conn_hook" where
  "sending_hook \<equiv> conn_hooks list_buffer slow_os (client_channel_handler (\<lambda>e c. [])) 1"

abbreviation sending_step :: "(byte list \<times> nat) client_sys \<Rightarrow> (byte list \<times> nat) client_sys \<Rightarrow> bool" where
  "sending_step \<equiv> cy_step (\<lambda>l cmd. False) Not list_buffer slow_os sending_hook"

definition sending_client :: "(byte list \<times> nat) client_sys" where
  "sending_client =
     (let s1 = (cy_create :: (byte list \<times> nat) client_sys)\<lparr>cy_client := cl_start (cy_client (cy_create :: (byte list \<times> nat) client_sys))\<rparr>;
          s2 = cy_raise list_buffer sending_hook 0 0 s1;
          s3 = s2\<lparr>cy_client := cl_store_connection (cy_client s2)\<rparr>
      in cy_send False list_buffer slow_os sending_hook [1, 2, 3] s3)"

definition sent_client :: "(byte list \<times> nat) client_sys" where
  "sent_client =
     cy_on_conn (\<lambda>c. conn_run_task list_buffer slow_os sending_hook (TaskSend [1, 2, 3]) (c\<lparr>cn_tasks := []\<rparr>)) sending_client"

lemma sending_client_simps:
  "map_option cn_tasks (cy_conn sending_client) = Some [TaskSend [1, 2, 3]]"
  "map_option cn_wire (cy_conn sent_client) = Some [1, 2]"
  "map_option cn_state (cy_conn sent_client) = Some Connected"
  "map_option cn_queued (cy_conn sent_client) = Some []"
  "map_option (\<lambda>c. OnClose \<in> set (cn_trace c)) (cy_conn sent_client) = Some False"
  "cl_messages (cy_client sent_client) = [1, 2, 3]"
  by code_simp+

lemma sent_client_reachable: "reachable cy_initial sending_step sent_client"
proof -
  let ?s0 = "cy_create :: (byte list \<times> nat) client_sys"
  let ?s1 = "?s0\<lparr>cy_client := cl_start (cy_client ?s0)\<rparr>"
  let ?s2 = "cy_raise list_buffer sending_hook 0 0 ?s1"
  let ?s3 = "?s2\<lparr>cy_client := cl_store_connection (cy_client ?s2)\<rparr>"
  have "reachable cy_initial sending_step ?s0"
    by (rule reachable.start) (simp add: cy_initial_def)
  then have "reachable cy_initial sending_step ?s1"
    by (rule reachable.next_step) (rule cy_step.cy_start)
  moreover have "0 < cl_raises (cy_client ?s1)" "cl_starting (cy_client ?s1) = None"
    by code_simp+
  ultimately have "reachable cy_initial sending_step ?s2"
    by (meson reachable.next_step cy_step.cy_raise)
  moreover have "cl_starting (cy_client ?s2) = Some 0"
    by code_simp
  then have "sending_step ?s2 ?s3"
    by (rule cy_step.cy_store)
  ultimately have "reachable cy_initial sending_step ?s3"
    by (rule reachable.next_step)
  moreover have "sending_step ?s3 sending_client"
    unfolding sending_client_def Let_def by (rule cy_step.cy_send) simp
  ultimately have "reachable cy_initial sending_step sending_client"
    by (rule reachable.next_step)
  moreover obtain c where "cy_conn sending_client = Some c" "cn_tasks c = [TaskSend [1, 2, 3]]"
    using sending_client_simps(1) by auto
  then have "sending_step sending_client sent_client"
    unfolding sent_client_def by (rule cy_step.cy_task)
  ultimately show ?thesis
    by (rule reachable.next_step)
qed

theorem client_system_refines_witness:
  "reachable cl_initial cl_step (cy_client sent_client) \<and> cl_made (cy_client sent_client) = 1 \<and>
    cl_state (cy_client sent_client) \<in> {kConnected, kDisconnecting}"
proof -
  obtain c where c: "cy_conn sent_client = Some c" "OnClose \<notin> set (cn_trace c)"
    using sending_client_simps(5) by auto
  with client_system_refines [OF list_buffer_ok slow_os_ok refl sent_client_reachable] show ?thesis
    by simp
qed

theorem client_sends_in_order_witness:
  "\<exists>c. cy_conn sent_client = Some c \<and> cn_wire c = [1, 2] \<and>
    cn_wire c @ cn_pending list_buffer c = cl_messages (cy_client sent_client)"
proof -
  obtain c where c: "cy_conn sent_client = Some c" "cn_wire c = [1, 2]" "cn_state c = Connected" "cn_queued c = []"
    using sending_client_simps(2-4) by auto
  with client_sends_in_order [OF list_buffer_ok slow_os_ok refl _ _ _ sent_client_reachable c(1)] show ?thesis
    by auto
qed

section \<open>A connection closed in its OnConnect\<close>

text \<open>
  When the user's handler closes the connection in OnConnect, OnClose resets \<open>conn_\<close> before
  \<open>handleConnection\<close> assigns it: the client is kDisconnected and keeps the closed connection.
\<close>

abbreviation closing_hook :: "(byte list \<times> nat) conn_hook" where
  "closing_hook \<equiv> conn_hooks list_buffer slow_os
     (client_channel_handler (\<lambda>e c. if e = OnConnect then [CmdForceClose] else [])) 2"

definition stale_client :: "(byte list \<times> nat) client_sys" where
  "stale_client =
     (let s1 = (cy_create :: (byte list \<times> nat) client_sys)\<lparr>cy_client := cl_start cl_create\<rparr>;
          s2 = cy_raise list_buffer closing_hook 0 0 s1
      in s2\<lparr>cy_client := cl_store_connection (cy_client s2)\<rparr>)"

lemma client_keeps_closed:
  "cl_state (cy_client stale_client) = kDisconnected \<and> cl_conn (cy_client stale_client) = Some 0 \<and>
   map_option cn_trace (cy_conn stale_client) = Some [OnConnect, OnClose]"
  by (intro conjI; code_simp)

end
