(* ===== verification/Loop_Files.thy ===== *)
theory Loop_Files
  imports Loop_Parts_Properties Loop_Calls Loop_Group
begin

text \<open>
  What the kernel has to give for an event loop: the eventfd, the timerfd and the epoll
  descriptor (the functions \<open>CreateEventFile\<close>, \<open>CreateTimerFile\<close> and \<open>CreateEpollFile\<close> of the three
  sources), and \<open>EventLoopGroup::Create\<close> with all its loops.  The members of \<open>EventLoop\<close> are
  initialised in the order of their declarations: both channels before the selector.
\<close>

section \<open>Descriptors\<close>

datatype open_stop = NoEventFile | NoTimerFile | NoEpollFile | SelectorFatal selector_fatal

text \<open>The arguments are the results of eventfd, timerfd\_create and epoll\_create1.\<close>

definition create_event_file :: "int \<Rightarrow> open_stop + int" where
  "create_event_file ret = (if ret \<le> 0 then Inl NoEventFile else Inr ret)"

definition create_timer_file :: "int \<Rightarrow> open_stop + int" where
  "create_timer_file ret = (if ret \<le> 0 then Inl NoTimerFile else Inr ret)"

definition create_epoll_file :: "int \<Rightarrow> open_stop + int" where
  "create_epoll_file ret = (if ret \<le> 0 then Inl NoEpollFile else Inr ret)"

lemmas create_file_defs = create_event_file_def create_timer_file_def create_epoll_file_def

text \<open>\<open>Poller\<close> needs no descriptor of its own.\<close>

fun open_selector :: "selector_type \<Rightarrow> int \<Rightarrow> open_stop + int option" where
  "open_selector kEpoll ret = map_sum id Some (create_epoll_file ret)"
| "open_selector kPoll ret = Inr None"

section \<open>A loop\<close>

text \<open>
  \<open>lo_open\<close>: the constructor with its channels' descriptors; \<open>fd\<close> are those of the channels that
  exist already, \<open>e\<close> and \<open>t\<close> the addresses of the new ones.
\<close>

record loop_answers =
  la_eventfd :: int
  la_timerfd :: int
  la_epoll :: int

definition lo_open ::
  "(channel \<Rightarrow> int) \<Rightarrow> channel \<Rightarrow> channel \<Rightarrow> 'k \<Rightarrow> chrono \<Rightarrow> (nat \<Rightarrow> usec) \<Rightarrow> event_loop_options \<Rightarrow> loop_answers \<Rightarrow>
     open_stop + ((channel \<Rightarrow> int) \<times> ('c, 'k) loop_object)"
where
  "lo_open fd e t k0 K clk options as =
     (case create_event_file (la_eventfd as) of
        Inl x \<Rightarrow> Inl x
      | Inr efd \<Rightarrow>
          (case create_timer_file (la_timerfd as) of
             Inl x \<Rightarrow> Inl x
           | Inr tfd \<Rightarrow>
               (case open_selector (eo_selector_type options) (la_epoll as) of
                  Inl x \<Rightarrow> Inl x
                | Inr _ \<Rightarrow>
                    (let fd1 = fd(e := efd, t := tfd)
                     in case lo_construct fd1 e t k0 K clk options of
                          Inl x \<Rightarrow> Inl (SelectorFatal x)
                        | Inr w \<Rightarrow> Inr (fd1, w)))))"

section \<open>A group\<close>

text \<open>
  \<open>Create(threads, options)\<close>: \<open>emplace_back\<close> one loop after the other; loop \<open>i\<close> has the channels
  \<open>2 * i\<close> and \<open>2 * i + 1\<close> and gets the answers \<open>ans i\<close>.  The threads are those of theory
  Group\_Lifecycle.
\<close>

fun gr_open_loops ::
  "nat \<Rightarrow> nat \<Rightarrow> (channel \<Rightarrow> int) \<Rightarrow> 'k \<Rightarrow> chrono \<Rightarrow> (nat \<Rightarrow> usec) \<Rightarrow> event_loop_options \<Rightarrow> (nat \<Rightarrow> loop_answers) \<Rightarrow>
     open_stop + ((channel \<Rightarrow> int) \<times> ('c, 'k) loop_object list)"
where
  "gr_open_loops i 0 fd k0 K clk options ans = Inr (fd, [])"
| "gr_open_loops i (Suc n) fd k0 K clk options ans =
     (case lo_open fd (2 * i) (2 * i + 1) k0 K clk options (ans i) of
        Inl x \<Rightarrow> Inl x
      | Inr (fd1, w) \<Rightarrow>
          (case gr_open_loops (Suc i) n fd1 k0 K clk options ans of
             Inl x \<Rightarrow> Inl x
           | Inr (fd2, ws) \<Rightarrow> Inr (fd2, w # ws)))"

definition gr_open ::
  "nat \<Rightarrow> (channel \<Rightarrow> int) \<Rightarrow> 'k \<Rightarrow> chrono \<Rightarrow> (nat \<Rightarrow> usec) \<Rightarrow> event_loop_options \<Rightarrow> (nat \<Rightarrow> loop_answers) \<Rightarrow>
     open_stop + ((channel \<Rightarrow> int) \<times> ('c, 'k) loop_object loop_group)"
where
  "gr_open threads fd k0 K clk options ans =
     map_sum id (map_prod id gr_create) (gr_open_loops 0 threads fd k0 K clk options ans)"

text \<open>\<open>Create(threads)\<close> and \<open>Create()\<close>; \<open>cores\<close> is \<open>hardware_concurrency()\<close>.\<close>

definition gr_open_threads ::
  "nat \<Rightarrow> (channel \<Rightarrow> int) \<Rightarrow> 'k \<Rightarrow> chrono \<Rightarrow> (nat \<Rightarrow> usec) \<Rightarrow> (nat \<Rightarrow> loop_answers) \<Rightarrow>
     open_stop + ((channel \<Rightarrow> int) \<times> ('c, 'k) loop_object loop_group)"
where
  "gr_open_threads threads fd k0 K clk ans = gr_open threads fd k0 K clk (default_loop_options K) ans"

definition gr_open_default ::
  "nat \<Rightarrow> (channel \<Rightarrow> int) \<Rightarrow> 'k \<Rightarrow> chrono \<Rightarrow> (nat \<Rightarrow> usec) \<Rightarrow> (nat \<Rightarrow> loop_answers) \<Rightarrow>
     open_stop + ((channel \<Rightarrow> int) \<times> ('c, 'k) loop_object loop_group)"
where
  "gr_open_default cores fd k0 K clk ans = gr_open_threads cores fd k0 K clk ans"

section \<open>Facts\<close>

text \<open>
  0 is a descriptor (when the standard input is closed, the next one the kernel gives), but not
  to these functions.
\<close>

lemma open_refuses_zero:
  "create_event_file 0 = Inl NoEventFile" "create_timer_file 0 = Inl NoTimerFile" "create_epoll_file 0 = Inl NoEpollFile"
  by (simp_all add: create_file_defs)

lemma lo_construct_options: "lo_construct fd e t k0 K clk options = Inr w \<Longrightarrow> lo_options w = options"
  by (auto simp: lo_construct_def Let_def split: sum.splits)

lemma lo_open_options: "lo_open fd e t k0 K clk options as = Inr (fd1, w) \<Longrightarrow> lo_options w = options"
  by (auto simp: lo_open_def Let_def lo_construct_options split: sum.splits)

lemma gr_open_loops_options:
  "gr_open_loops i n fd k0 K clk options ans = Inr (fd1, ws) \<Longrightarrow>
    length ws = n \<and> list_all (\<lambda>w. lo_options w = options) ws"
proof (induction n arbitrary: i fd fd1 ws)
  case (Suc n)
  then obtain w fd2 ws1 where "lo_open fd (2 * i) (2 * i + 1) k0 K clk options (ans i) = Inr (fd2, w)"
    "gr_open_loops (Suc i) n fd2 k0 K clk options ans = Inr (fd1, ws1)" "ws = w # ws1"
    by (auto split: sum.splits prod.splits)
  with Suc.IH [of "Suc i" fd2 fd1 ws1] show ?case
    by (simp add: lo_open_options)
qed simp

text \<open>A group that is created has all its loops, each with the options, and takes them in turn.\<close>

lemma gr_open_group:
  fixes g :: "('c, 'k) loop_object loop_group"
  assumes "gr_open n fd k0 K clk options ans = Inr (fd1, g)" and "0 < n" and "n < 2 ^ 64"
  shows "gr_ok g" and "length (gr_loops g) = n" and "list_all (\<lambda>w. lo_options w = options) (gr_loops g)"
    and "gr_next g = 0"
proof -
  obtain fd2 ws where ws: "gr_open_loops 0 n fd k0 K clk options ans = Inr (fd2, ws)" "g = gr_create ws"
    using assms(1) by (cases "gr_open_loops 0 n fd k0 K clk options ans :: open_stop + (channel \<Rightarrow> int) \<times> ('c, 'k) loop_object list") (auto simp: gr_open_def)
  note all = gr_open_loops_options [OF ws(1)]
  show "gr_ok g"
    using all assms(2,3) ws(2) by (auto intro: gr_create_ok)
  show "length (gr_loops g) = n" "list_all (\<lambda>w. lo_options w = options) (gr_loops g)" "gr_next g = 0"
    using all ws(2) by (simp_all add: gr_create_def)
qed

text \<open>\<open>Schedule\<close> of the group reaches the loop whose turn it is, and no other.\<close>

lemma gr_schedule_one:
  assumes "gr_ok g" and "gr_schedule f g = Some g'" and "k = unat (gr_next g) mod length (gr_loops g)"
  shows "gr_loops g' = (gr_loops g)[k := f (gr_loops g ! k)]" and "gr_next g' = gr_next g + 1"
  using assms gr_take_bound [OF assms(1)] by (auto simp: gr_schedule_def)

end
