(* ===== verification/Loop_Queues.thy ===== *)
theory Loop_Queues
  imports Event_Queue_Threads Event_Loop
begin

text \<open>
  The event queues as an event loop sees them, one record of operations for the three systems
  of theory Event\_Queue\_Threads: the steps, whether the queue is between two calls of
  \<open>Process\<close>, whether its descriptor is readable, and its histories.  The contract
  \<open>loop_queue\<close> sorts the steps into five kinds (an \<open>Add\<close>, the read of the descriptor, a
  callback run, the return of \<open>Process\<close>, anything else) and says what a call of \<open>Process\<close> owes;
  the three systems meet it.
\<close>

lemma mset_debt_trans:
  assumes "a \<subseteq># b + (m1 - m)" and "b \<subseteq># c + (m2 - m1)" and "m \<subseteq># m1" and "m1 \<subseteq># m2"
  shows "a \<subseteq># c + (m2 - m)"
proof -
  from assms(3,4) obtain x y where "m1 = m + x" and "m2 = m1 + y"
    by (auto simp: mset_subset_eq_exists_conv)
  with assms(1,2) have "a \<subseteq># b + x" "b + x \<subseteq># (c + y) + x" and "m2 - m = x + y"
    by (simp_all add: add_ac)
  then show ?thesis
    by (metis add.assoc add.commute subset_mset.trans)
qed

lemma mset_debt_mem:
  assumes "a \<subseteq># b + (m1 - m)" and "x \<in># a"
  shows "x \<in># b \<or> x \<in># m1"
  using mset_subset_eqD [OF assms] by (auto dest: in_diffD)

section \<open>A queue as the loop sees it\<close>

record 'q queue_ops =
  qo_initial :: "'q \<Rightarrow> bool"
  qo_step :: "'q \<Rightarrow> 'q \<Rightarrow> bool"
  qo_asleep :: "'q \<Rightarrow> bool"
  qo_signalled :: "'q \<Rightarrow> bool"
  qo_added :: "'q \<Rightarrow> loop_task multiset"
  qo_ran :: "'q \<Rightarrow> loop_task multiset"

definition qo_adds :: "'q queue_ops \<Rightarrow> loop_task \<Rightarrow> 'q \<Rightarrow> 'q \<Rightarrow> bool" where
  "qo_adds Q t q q' \<longleftrightarrow> qo_step Q q q' \<and> qo_asleep Q q' = qo_asleep Q q \<and>
     qo_added Q q' = add_mset t (qo_added Q q) \<and> qo_ran Q q' = qo_ran Q q"

definition qo_wakes :: "'q queue_ops \<Rightarrow> 'q \<Rightarrow> 'q \<Rightarrow> bool" where
  "qo_wakes Q q q' \<longleftrightarrow> qo_step Q q q' \<and> qo_asleep Q q \<and> \<not> qo_asleep Q q' \<and>
     qo_added Q q' = qo_added Q q \<and> qo_ran Q q' = qo_ran Q q"

definition qo_runs :: "'q queue_ops \<Rightarrow> loop_task \<Rightarrow> 'q \<Rightarrow> 'q \<Rightarrow> bool" where
  "qo_runs Q t q q' \<longleftrightarrow> qo_step Q q q' \<and> \<not> qo_asleep Q q \<and> \<not> qo_asleep Q q' \<and>
     qo_added Q q' = qo_added Q q \<and> qo_ran Q q' = add_mset t (qo_ran Q q)"

definition qo_sleeps :: "'q queue_ops \<Rightarrow> 'q \<Rightarrow> 'q \<Rightarrow> bool" where
  "qo_sleeps Q q q' \<longleftrightarrow> qo_step Q q q' \<and> \<not> qo_asleep Q q \<and> qo_asleep Q q' \<and>
     qo_added Q q' = qo_added Q q \<and> qo_ran Q q' = qo_ran Q q"

definition qo_works :: "'q queue_ops \<Rightarrow> 'q \<Rightarrow> 'q \<Rightarrow> bool" where
  "qo_works Q q q' \<longleftrightarrow> qo_step Q q q' \<and> qo_asleep Q q' = qo_asleep Q q \<and>
     qo_added Q q' = qo_added Q q \<and> qo_ran Q q' = qo_ran Q q"

lemmas qo_kinds = qo_adds_def qo_wakes_def qo_runs_def qo_sleeps_def qo_works_def

text \<open>
  The contract: \<open>wakeup_protocol\<close>, every step is of one kind, and \<open>owed q\<close> is what a call of
  \<open>Process\<close> in progress still has to run before it returns: at least what was queued when the
  descriptor was read.  \<open>fuel\<close> measures how far \<open>Process\<close> is from returning when no callback
  is added.
\<close>

locale loop_queue =
  wakeup_protocol "qo_initial Q" "qo_step Q" inv "qo_asleep Q" settled backlog "qo_signalled Q"
    "qo_added Q" "qo_ran Q"
  for Q :: "'q queue_ops" and inv :: "'q \<Rightarrow> bool" and settled :: "'q \<Rightarrow> bool"
    and backlog :: "'q \<Rightarrow> loop_task multiset" +
  fixes owed :: "'q \<Rightarrow> loop_task multiset" and fuel :: "'q \<Rightarrow> nat"
  assumes initially: "qo_initial Q q \<Longrightarrow> qo_asleep Q q \<and> qo_added Q q = {#} \<and> qo_ran Q q = {#}"
    and kinds: "qo_step Q q q' \<Longrightarrow> (\<exists>t. qo_adds Q t q q') \<or> qo_wakes Q q q' \<or>
      (\<exists>t. qo_runs Q t q q') \<or> qo_sleeps Q q q' \<or> qo_works Q q q'"
    and ran_added: "inv q \<Longrightarrow> qo_ran Q q \<subseteq># qo_added Q q"
    and stays_signalled: "qo_step Q q q' \<Longrightarrow> qo_asleep Q q \<Longrightarrow> qo_asleep Q q' \<Longrightarrow>
      qo_signalled Q q \<Longrightarrow> qo_signalled Q q'"
    and stays_queued: "qo_step Q q q' \<Longrightarrow> qo_asleep Q q \<Longrightarrow> qo_asleep Q q' \<Longrightarrow>
      backlog q \<subseteq># backlog q'"
    and owed_wakes: "qo_wakes Q q q' \<Longrightarrow> backlog q \<subseteq># owed q'"
    and owed_awake: "inv q \<Longrightarrow> qo_step Q q q' \<Longrightarrow> \<not> qo_asleep Q q \<Longrightarrow> \<not> qo_asleep Q q' \<Longrightarrow>
      owed q \<subseteq># owed q' + (qo_ran Q q' - qo_ran Q q)"
    and owed_sleeps: "qo_sleeps Q q q' \<Longrightarrow> owed q = {#}"
    and can_wake: "qo_asleep Q q \<Longrightarrow> qo_signalled Q q \<Longrightarrow> \<exists>q'. qo_wakes Q q q'"
    and can_advance: "inv q \<Longrightarrow> \<not> qo_asleep Q q \<Longrightarrow>
      \<exists>q'. ((\<exists>t. qo_runs Q t q q') \<or> qo_works Q q q' \<or> qo_sleeps Q q q') \<and> fuel q' < fuel q"
begin

text \<open>What \<open>Process\<close> owes when it starts has run when it ends, whatever happens in between.\<close>

definition awake_step :: "'q \<Rightarrow> 'q \<Rightarrow> bool" where
  "awake_step q q' \<longleftrightarrow> qo_step Q q q' \<and> \<not> qo_asleep Q q \<and> \<not> qo_asleep Q q'"

lemma inv_rtranclp: "(qo_step Q)\<^sup>*\<^sup>* q q' \<Longrightarrow> inv q \<Longrightarrow> inv q'"
  by (induction rule: rtranclp_induct) (auto intro: inv_step)

lemma ran_grows: "qo_step Q q q' \<Longrightarrow> qo_ran Q q \<subseteq># qo_ran Q q'"
  using kinds [of q q'] by (auto simp: qo_kinds)

lemma owed_run:
  assumes "awake_step\<^sup>*\<^sup>* q q'" and "inv q"
  shows "inv q' \<and> qo_ran Q q \<subseteq># qo_ran Q q' \<and> owed q \<subseteq># owed q' + (qo_ran Q q' - qo_ran Q q)"
  using assms
proof (induction rule: rtranclp_induct)
  case (step r r')
  then have r: "inv r" "qo_ran Q q \<subseteq># qo_ran Q r" "owed q \<subseteq># owed r + (qo_ran Q r - qo_ran Q q)"
    and s: "qo_step Q r r'" "\<not> qo_asleep Q r" "\<not> qo_asleep Q r'"
    by (auto simp: awake_step_def)
  have g: "qo_ran Q r \<subseteq># qo_ran Q r'"
    using s(1) by (rule ran_grows)
  have "owed r \<subseteq># owed r' + (qo_ran Q r' - qo_ran Q r)"
    using r(1) s by (rule owed_awake)
  then have "owed q \<subseteq># owed r' + (qo_ran Q r' - qo_ran Q q)"
    by (rule mset_debt_trans [OF r(3) _ r(2) g])
  moreover have "inv r'"
    using r(1) s(1) by (rule inv_step)
  ultimately show ?case
    using r(2) g by (meson subset_mset.trans)
qed simp

end

section \<open>The three queues meet the contract\<close>

definition blocking_ops :: "loop_task bq_system queue_ops" where
  "blocking_ops = \<lparr>qo_initial = bs_initial, qo_step = bs_step, qo_asleep = (\<lambda>s. \<not> bs_draining s),
     qo_signalled = (\<lambda>s. ec_readable (bq_channel (bs_queue s))),
     qo_added = (\<lambda>s. mset (bs_added s)), qo_ran = (\<lambda>s. mset (bs_ran s))\<rparr>"

definition double_ops :: "loop_task dq_system queue_ops" where
  "double_ops = \<lparr>qo_initial = ds_initial, qo_step = ds_step, qo_asleep = (\<lambda>s. ds_phase s = DqAsleep),
     qo_signalled = (\<lambda>s. ec_readable (dq_channel (ds_queue s))),
     qo_added = (\<lambda>s. mset (ds_added s)), qo_ran = (\<lambda>s. mset (ds_ran s))\<rparr>"

definition lockfree_ops :: "loop_task lq_system queue_ops" where
  "lockfree_ops = \<lparr>qo_initial = ls_initial, qo_step = ls_step, qo_asleep = (\<lambda>s. ls_phase s = LqAsleep),
     qo_signalled = (\<lambda>s. ec_readable (lq_channel (ls_queue s))), qo_added = ls_added, qo_ran = ls_ran\<rparr>"

lemma blocking_ops_simps [simp]:
  "qo_initial blocking_ops = bs_initial" "qo_step blocking_ops = bs_step"
  "qo_asleep blocking_ops = (\<lambda>s. \<not> bs_draining s)"
  "qo_signalled blocking_ops = (\<lambda>s. ec_readable (bq_channel (bs_queue s)))"
  "qo_added blocking_ops = (\<lambda>s. mset (bs_added s))" "qo_ran blocking_ops = (\<lambda>s. mset (bs_ran s))"
  by (simp_all add: blocking_ops_def)

lemma double_ops_simps [simp]:
  "qo_initial double_ops = ds_initial" "qo_step double_ops = ds_step"
  "qo_asleep double_ops = (\<lambda>s. ds_phase s = DqAsleep)"
  "qo_signalled double_ops = (\<lambda>s. ec_readable (dq_channel (ds_queue s)))"
  "qo_added double_ops = (\<lambda>s. mset (ds_added s))" "qo_ran double_ops = (\<lambda>s. mset (ds_ran s))"
  by (simp_all add: double_ops_def)

lemma lockfree_ops_simps [simp]:
  "qo_initial lockfree_ops = ls_initial" "qo_step lockfree_ops = ls_step"
  "qo_asleep lockfree_ops = (\<lambda>s. ls_phase s = LqAsleep)"
  "qo_signalled lockfree_ops = (\<lambda>s. ec_readable (lq_channel (ls_queue s)))"
  "qo_added lockfree_ops = ls_added" "qo_ran lockfree_ops = ls_ran"
  by (simp_all add: lockfree_ops_def)

lemma bq_add_stays: "ec_readable (bq_channel q) \<Longrightarrow> ec_readable (bq_channel (bq_add c q))"
  by (simp add: bq_add_def Let_def)

lemma dq_add_stays: "ec_readable (dq_channel q) \<Longrightarrow> ec_readable (dq_channel (dq_add c q))"
  by (simp add: dq_add_def Let_def)

subsection \<open>EventBlockingQueue\<close>

lemma bs_kinds:
  assumes "bs_step s t"
  shows "(\<exists>c. qo_adds blocking_ops c s t) \<or> qo_wakes blocking_ops s t \<or>
    (\<exists>c. qo_runs blocking_ops c s t) \<or> qo_sleeps blocking_ops s t \<or> qo_works blocking_ops s t"
  using assms
proof cases
  case (bs_pop c q)
  with assms have "qo_runs blocking_ops c s t"
    by (simp add: qo_runs_def)
  then show ?thesis by blast
next
  case (bs_add c)
  with assms have "qo_adds blocking_ops c s t"
    by (simp add: qo_adds_def)
  then show ?thesis by blast
qed (use assms in \<open>simp_all add: qo_wakes_def qo_sleeps_def\<close>)

definition bs_fuel :: "'c bq_system \<Rightarrow> nat" where
  "bs_fuel s = (if bs_draining s then Suc (length (bq_queue (bs_queue s))) else 0)"

lemma bs_advance:
  assumes "bs_draining s"
  shows "\<exists>t. ((\<exists>c. qo_runs blocking_ops c s t) \<or> qo_works blocking_ops s t \<or> qo_sleeps blocking_ops s t) \<and>
    bs_fuel t < bs_fuel s"
proof (cases "bq_pop (bs_queue s)")
  case None
  with assms have "qo_sleeps blocking_ops s (s\<lparr>bs_draining := False\<rparr>)"
    by (auto simp: qo_sleeps_def intro: bs_done)
  with assms show ?thesis
    by (intro exI [of _ "s\<lparr>bs_draining := False\<rparr>"]) (simp add: bs_fuel_def)
next
  case (Some r)
  obtain c q where r: "r = (c, q)" by fastforce
  let ?t = "s\<lparr>bs_queue := q, bs_ran := bs_ran s @ [c]\<rparr>"
  have "qo_runs blocking_ops c s ?t"
    using assms Some r by (auto simp: qo_runs_def intro: bs_pop)
  moreover have "bs_fuel ?t < bs_fuel s"
    using assms Some r by (auto simp: bs_fuel_def bq_pop_def split: list.splits)
  ultimately show ?thesis by blast
qed

interpretation bsl: loop_queue blocking_ops bs_inv "\<lambda>_. True" "\<lambda>s. mset (bq_queue (bs_queue s))"
  "\<lambda>s. mset (bq_queue (bs_queue s))" bs_fuel
proof (unfold_locales, goal_cases)
  case 1 then show ?case by (simp add: bs_inv_initial)
next
  case 2 then show ?case by (auto intro: bs_inv_step)
next
  case 3 then show ?case by (auto simp: bs_inv_def)
next
  case 4 then show ?case by (auto simp: bs_inv_def)
next
  case 5 then show ?case by (simp add: bs_initial_def)
next
  case 6 then show ?case by (simp add: bs_kinds)
next
  case 7 then show ?case by (simp add: bs_inv_def)
next
  case (8 s t)
  then show ?case by (auto simp: bq_add_stays elim!: bs_step.cases)
next
  case (9 s t)
  then show ?case by (auto elim!: bs_step.cases)
next
  case (10 s t)
  then show ?case by (auto simp: qo_wakes_def elim!: bs_step.cases)
next
  case (11 s t)
  then show ?case by (auto simp: bq_pop_Some elim!: bs_step.cases)
next
  case (12 s t)
  then show ?case by (auto simp: qo_sleeps_def bq_pop_def split: list.splits elim!: bs_step.cases)
next
  case (13 s)
  then obtain ch where "ec_read (bq_channel (bs_queue s)) = Inr ch"
    using ec_read_readable by auto
  with 13 have "qo_wakes blocking_ops s (s\<lparr>bs_queue := (bs_queue s)\<lparr>bq_channel := ch\<rparr>, bs_draining := True\<rparr>)"
    by (auto simp: qo_wakes_def intro: bs_read)
  then show ?case by blast
next
  case 14 then show ?case using bs_advance by simp
qed

subsection \<open>EventDoubleBufferQueue\<close>

definition ds_bounded :: "'c dq_system \<Rightarrow> bool" where
  "ds_bounded s \<longleftrightarrow> ds_inv s \<and> (\<forall>i. ds_phase s = DqRunning i \<longrightarrow> i \<le> length (dq_running (ds_queue s)))"

lemma ds_bounded_step: "ds_step s t \<Longrightarrow> ds_bounded s \<Longrightarrow> ds_bounded t"
  using ds_inv_step [of s t] by (auto simp: ds_bounded_def elim!: ds_step.cases)

fun ds_owed :: "dq_phase \<Rightarrow> 'c double_queue \<Rightarrow> 'c list" where
  "ds_owed DqAsleep q = []"
| "ds_owed DqWoken q = dq_pending q"
| "ds_owed (DqRunning i) q = drop i (dq_running q)"

fun ds_fuel_at :: "dq_phase \<Rightarrow> 'c double_queue \<Rightarrow> nat" where
  "ds_fuel_at DqAsleep q = 0"
| "ds_fuel_at DqWoken q = length (dq_pending q) + 2"
| "ds_fuel_at (DqRunning i) q = Suc (length (dq_running q) - i)"

lemma ds_kinds:
  assumes "ds_step s t"
  shows "(\<exists>c. qo_adds double_ops c s t) \<or> qo_wakes double_ops s t \<or>
    (\<exists>c. qo_runs double_ops c s t) \<or> qo_sleeps double_ops s t \<or> qo_works double_ops s t"
  using assms
proof cases
  case (ds_run i)
  with assms have "qo_runs double_ops (dq_running (ds_queue s) ! i) s t"
    by (simp add: qo_runs_def)
  then show ?thesis by blast
next
  case (ds_add c)
  with assms have "qo_adds double_ops c s t"
    by (simp add: qo_adds_def)
  then show ?thesis by blast
qed (use assms in \<open>simp_all add: qo_wakes_def qo_sleeps_def qo_works_def\<close>)

lemma ds_advance:
  assumes "ds_bounded s" and "ds_phase s \<noteq> DqAsleep"
  shows "\<exists>t. ((\<exists>c. qo_runs double_ops c s t) \<or> qo_works double_ops s t \<or> qo_sleeps double_ops s t) \<and>
    ds_fuel_at (ds_phase t) (ds_queue t) < ds_fuel_at (ds_phase s) (ds_queue s)"
proof (cases "ds_phase s")
  case DqWoken
  let ?t = "s\<lparr>ds_queue := dq_swap (ds_queue s), ds_phase := DqRunning 0\<rparr>"
  have "qo_works double_ops s ?t"
    using DqWoken by (auto simp: qo_works_def intro: ds_swap)
  then show ?thesis
    using DqWoken by (intro exI [of _ ?t]) (simp add: dq_swap_def)
next
  case (DqRunning i)
  show ?thesis
  proof (cases "i = length (dq_running (ds_queue s))")
    case True
    let ?t = "s\<lparr>ds_queue := (ds_queue s)\<lparr>dq_running := []\<rparr>, ds_phase := DqAsleep\<rparr>"
    have "qo_sleeps double_ops s ?t"
      using DqRunning True by (auto simp: qo_sleeps_def intro: ds_clear)
    then show ?thesis
      using DqRunning by (intro exI [of _ ?t]) simp
  next
    case False
    with assms(1) DqRunning have i: "i < length (dq_running (ds_queue s))"
      by (auto simp: ds_bounded_def)
    let ?t = "s\<lparr>ds_ran := ds_ran s @ [dq_running (ds_queue s) ! i], ds_phase := DqRunning (Suc i)\<rparr>"
    have "qo_runs double_ops (dq_running (ds_queue s) ! i) s ?t"
      using DqRunning i by (auto simp: qo_runs_def intro: ds_run)
    then show ?thesis
      using DqRunning i by (intro exI [of _ ?t]) auto
  qed
qed (use assms(2) in simp)

lemma ds_owed_awake:
  assumes "ds_bounded s" and "ds_step s t" and "ds_phase s \<noteq> DqAsleep" and "ds_phase t \<noteq> DqAsleep"
  shows "mset (ds_owed (ds_phase s) (ds_queue s)) \<subseteq>#
    mset (ds_owed (ds_phase t) (ds_queue t)) + (mset (ds_ran t) - mset (ds_ran s))"
  using assms(2)
proof cases
  case (ds_add c)
  with assms(3) show ?thesis by (cases "ds_phase s") simp_all
next
  case ds_swap
  then show ?thesis by (simp add: dq_swap_def)
next
  case (ds_run i)
  then have "drop i (dq_running (ds_queue s)) = dq_running (ds_queue s) ! i # drop (Suc i) (dq_running (ds_queue s))"
    by (simp add: Cons_nth_drop_Suc)
  with ds_run show ?thesis by simp
qed (use assms in auto)

interpretation dsl: loop_queue double_ops ds_bounded "\<lambda>_. True" "\<lambda>s. mset (dq_pending (ds_queue s))"
  "\<lambda>s. mset (ds_owed (ds_phase s) (ds_queue s))" "\<lambda>s. ds_fuel_at (ds_phase s) (ds_queue s)"
proof (unfold_locales, goal_cases)
  case (1 s)
  then have "ds_inv s" "ds_phase s = DqAsleep"
    by (simp_all add: ds_inv_initial) (simp add: ds_initial_def)
  then show ?case by (simp add: ds_bounded_def)
next
  case 2 then show ?case by (auto intro: ds_bounded_step)
next
  case 3 then show ?case by (auto simp: ds_bounded_def ds_inv_def)
next
  case 4 then show ?case by (auto simp: ds_bounded_def ds_inv_def)
next
  case 5 then show ?case by (simp add: ds_initial_def)
next
  case 6 then show ?case by (simp add: ds_kinds)
next
  case 7 then show ?case by (simp add: ds_bounded_def ds_inv_def)
next
  case (8 s t)
  then show ?case by (auto simp: dq_add_stays elim!: ds_step.cases)
next
  case (9 s t)
  then show ?case by (auto elim!: ds_step.cases)
next
  case (10 s t)
  then show ?case by (auto simp: qo_wakes_def elim!: ds_step.cases)
next
  case (11 s t)
  then show ?case using ds_owed_awake by simp
next
  case (12 s t)
  then show ?case by (auto simp: qo_sleeps_def elim!: ds_step.cases)
next
  case (13 s)
  then obtain ch where "ec_read (dq_channel (ds_queue s)) = Inr ch"
    using ec_read_readable by auto
  with 13 have "qo_wakes double_ops s (s\<lparr>ds_queue := (ds_queue s)\<lparr>dq_channel := ch\<rparr>, ds_phase := DqWoken\<rparr>)"
    by (auto simp: qo_wakes_def intro: ds_read)
  then show ?case by blast
next
  case 14 then show ?case using ds_advance by simp
qed

subsection \<open>EventLockFreeQueue\<close>

definition ls_fuel :: "'c lq_system \<Rightarrow> nat" where
  "ls_fuel s = 8 * size (lq_queue (ls_queue s)) +
     (case ls_phase s of LqAsleep \<Rightarrow> 0 | LqDraining \<Rightarrow> 1 | LqTaken buf \<Rightarrow> 2 * length buf + 3
      | LqRunning buf \<Rightarrow> 2 * length buf + 2)"

lemma ls_kinds:
  assumes "ls_step s t"
  shows "(\<exists>c. qo_adds lockfree_ops c s t) \<or> qo_wakes lockfree_ops s t \<or>
    (\<exists>c. qo_runs lockfree_ops c s t) \<or> qo_sleeps lockfree_ops s t \<or> qo_works lockfree_ops s t"
  using assms
proof cases
  case (ls_run c buf)
  with assms have "qo_runs lockfree_ops c s t"
    by (simp add: qo_runs_def)
  then show ?thesis by blast
next
  case (ls_enqueue c)
  with assms have "qo_adds lockfree_ops c s t"
    by (simp add: qo_adds_def)
  then show ?thesis by blast
qed (use assms in \<open>simp_all add: qo_wakes_def qo_sleeps_def qo_works_def\<close>)

lemma ls_advance_draining:
  assumes "ls_phase s = LqDraining"
  shows "\<exists>t. (qo_works lockfree_ops s t \<or> qo_sleeps lockfree_ops s t) \<and> ls_fuel t < ls_fuel s"
proof (cases "lq_queue (ls_queue s) = {#}")
  case True
  have "qo_sleeps lockfree_ops s (s\<lparr>ls_phase := LqAsleep\<rparr>)"
    using assms True by (auto simp: qo_sleeps_def intro: ls_empty)
  then show ?thesis
    using assms by (intro exI [of _ "s\<lparr>ls_phase := LqAsleep\<rparr>"]) (simp add: ls_fuel_def)
next
  case False
  then obtain c r where r: "lq_queue (ls_queue s) = add_mset c r"
    by (meson multiset_cases)
  let ?t = "s\<lparr>ls_queue := (ls_queue s)\<lparr>lq_queue := lq_queue (ls_queue s) - mset [c]\<rparr>, ls_phase := LqTaken [c]\<rparr>"
  have "qo_works lockfree_ops s ?t"
    using ls_take [of s "[c]"] assms r by (simp add: qo_works_def)
  then show ?thesis
    using assms r by (intro exI [of _ ?t]) (simp add: ls_fuel_def)
qed

lemma ls_advance:
  assumes "ls_phase s \<noteq> LqAsleep"
  shows "\<exists>t. ((\<exists>c. qo_runs lockfree_ops c s t) \<or> qo_works lockfree_ops s t \<or> qo_sleeps lockfree_ops s t) \<and>
    ls_fuel t < ls_fuel s"
proof (cases "ls_phase s")
  case LqDraining
  then show ?thesis using ls_advance_draining by blast
next
  case (LqTaken buf)
  let ?t = "s\<lparr>ls_queue := (ls_queue s)\<lparr>lq_size := lq_size (ls_queue s) + (- of_nat (length buf))\<rparr>,
       ls_phase := LqRunning buf\<rparr>"
  have "qo_works lockfree_ops s ?t"
    using ls_uncount [of s buf] LqTaken by (simp add: qo_works_def)
  then show ?thesis
    using LqTaken by (intro exI [of _ ?t]) (simp add: ls_fuel_def)
next
  case (LqRunning buf)
  show ?thesis
  proof (cases buf)
    case Nil
    have "qo_works lockfree_ops s (s\<lparr>ls_phase := LqDraining\<rparr>)"
      using LqRunning Nil by (auto simp: qo_works_def intro: ls_again)
    then show ?thesis
      using LqRunning Nil by (intro exI [of _ "s\<lparr>ls_phase := LqDraining\<rparr>"]) (simp add: ls_fuel_def)
  next
    case (Cons c bs)
    let ?t = "s\<lparr>ls_phase := LqRunning bs, ls_ran := add_mset c (ls_ran s)\<rparr>"
    have "qo_runs lockfree_ops c s ?t"
      using LqRunning Cons by (auto simp: qo_runs_def intro: ls_run)
    then show ?thesis
      using LqRunning Cons by (intro exI [of _ ?t]) (auto simp: ls_fuel_def)
  qed
qed (use assms in simp)

definition ls_owed :: "'c lq_system \<Rightarrow> 'c multiset" where
  "ls_owed s = mset (ls_held (ls_phase s)) + lq_queue (ls_queue s)"

lemma ls_owed_awake:
  assumes "ls_step s t" and "ls_phase s \<noteq> LqAsleep" and "ls_phase t \<noteq> LqAsleep"
  shows "ls_owed s \<subseteq># ls_owed t + (ls_ran t - ls_ran s)"
  using assms(1)
proof cases
  case (ls_take buf)
  then show ?thesis
    by (simp add: ls_owed_def)
qed (use assms in \<open>auto simp: ls_owed_def\<close>)

interpretation lsl: loop_queue lockfree_ops ls_inv "\<lambda>s. ls_mid s = 0" "\<lambda>s. lq_queue (ls_queue s)"
  ls_owed ls_fuel
proof (unfold_locales, goal_cases)
  case 1 then show ?case by (simp add: ls_inv_initial)
next
  case 2 then show ?case by (auto intro: ls_inv_step)
next
  case (3 s) then show ?case using ls.wakes [of s] by simp
next
  case (4 s) then show ?case using ls.accounts [of s] by simp
next
  case 5 then show ?case by (simp add: ls_initial_def)
next
  case 6 then show ?case by (simp add: ls_kinds)
next
  case 7 then show ?case by (simp add: ls_inv_def)
next
  case (8 s t)
  then show ?case by (auto simp: lq_bump_def Let_def elim!: ls_step.cases)
next
  case (9 s t)
  then show ?case by (auto elim!: ls_step.cases)
next
  case (10 s t)
  then show ?case by (auto simp: qo_wakes_def ls_owed_def elim!: ls_step.cases)
next
  case (11 s t)
  then show ?case using ls_owed_awake by simp
next
  case (12 s t)
  then show ?case by (auto simp: qo_sleeps_def ls_owed_def elim!: ls_step.cases)
next
  case (13 s)
  then obtain ch where "ec_read (lq_channel (ls_queue s)) = Inr ch"
    using ec_read_readable by auto
  with 13 have "qo_wakes lockfree_ops s (s\<lparr>ls_queue := (ls_queue s)\<lparr>lq_channel := ch\<rparr>, ls_phase := LqDraining\<rparr>)"
    by (auto simp: qo_wakes_def intro: ls_read)
  then show ?case by blast
next
  case 14 then show ?case using ls_advance by simp
qed

end
