(* ===== verification/Queue_Loop.thy ===== *)
theory Queue_Loop
  imports Loop_Queues Event_Loop_Properties
begin

text \<open>
  src/eventloop.cc over any event queue, interleaved: the loop of theory Event\_Loop with its
  queue replaced by one of the systems of theory Loop\_Queues, so that the synchronisation
  points of \<open>Add\<close> and \<open>Process\<close> interleave with those of \<open>Loop\<close>, \<open>Close\<close> and the threads that
  schedule.  \<open>EventLoopOptions\<close> asks for the lock free queue by default.

  The loop decides when a step of the queue can happen: the read of the descriptor when it
  handles the report of the event channel, the steps of \<open>Process\<close> inside that handler, the
  rest at any time.  The calls a callback makes, \<open>Schedule\<close> and \<open>Close\<close>, are steps like those
  of other threads.
\<close>

unbundle bit_operations_syntax

section \<open>The system\<close>

record 'q queue_loop =
  ql_state :: u32
  ql_pc :: loop_pc
  ql_current :: bool
  ql_queue :: 'q
  ql_watched :: bool
  ql_latch :: nat
  ql_closing :: nat

definition ql_initial :: "'q queue_ops \<Rightarrow> 'q queue_loop \<Rightarrow> bool" where
  "ql_initial Q s \<longleftrightarrow> qo_initial Q (ql_queue s) \<and> ql_state s = 0 \<and> ql_pc s = LoopIdle \<and>
     \<not> ql_current s \<and> ql_watched s \<and> ql_latch s = 1 \<and> ql_closing s = 0"

definition ql_looping :: "'q queue_loop \<Rightarrow> bool" where
  "ql_looping s \<longleftrightarrow> ql_state s AND kLooping \<noteq> 0"

definition ql_join_returns :: "'q queue_loop \<Rightarrow> bool" where
  "ql_join_returns s \<longleftrightarrow> ql_state s AND kJoinable = 0 \<or> ql_latch s = 0"

text \<open>What a task does to the loop itself; the task of \<open>Close\<close> is the lambda it schedules.\<close>

fun ql_task :: "loop_task \<Rightarrow> 'q queue_loop \<Rightarrow> 'q queue_loop" where
  "ql_task (UserTask n) s = s"
| "ql_task CloseTask s = s\<lparr>ql_watched := False, ql_latch := ql_latch s - 1\<rparr>"

inductive ql_step :: "'q queue_ops \<Rightarrow> 'q queue_loop \<Rightarrow> 'q queue_loop \<Rightarrow> bool"
  for Q :: "'q queue_ops"
where
  load: "ql_pc s = LoopIdle \<Longrightarrow> ql_step Q s (s\<lparr>ql_pc := LoopLoaded (ql_state s)\<rparr>)"
| refuse: "ql_pc s = LoopLoaded v \<Longrightarrow> v AND kLooping \<noteq> 0 \<Longrightarrow> ql_step Q s (s\<lparr>ql_pc := LoopDone\<rparr>)"
| enter: "ql_pc s = LoopLoaded v \<Longrightarrow> v AND kLooping = 0 \<Longrightarrow> ql_state s = v \<Longrightarrow>
    ql_step Q s (s\<lparr>ql_state := kLooping OR kJoinable, ql_current := True, ql_pc := LoopCheck\<rparr>)"
| again: "ql_pc s = LoopLoaded v \<Longrightarrow> v AND kLooping = 0 \<Longrightarrow> ql_state s \<noteq> v \<Longrightarrow>
    ql_step Q s (s\<lparr>ql_pc := LoopIdle\<rparr>)"
| go: "ql_pc s = LoopCheck \<Longrightarrow> ql_looping s \<Longrightarrow> ql_step Q s (s\<lparr>ql_pc := LoopWaiting\<rparr>)"
| leave: "ql_pc s = LoopCheck \<Longrightarrow> \<not> ql_looping s \<Longrightarrow>
    ql_step Q s (s\<lparr>ql_pc := LoopDone, ql_current := False\<rparr>)"
| wait_fails: "ql_pc s = LoopWaiting \<Longrightarrow> ql_step Q s (s\<lparr>ql_pc := LoopCheck\<rparr>)"
| wait_reports: "ql_pc s = LoopWaiting \<Longrightarrow>
    (ReportQueue \<in> set rs \<Longrightarrow> ql_watched s \<and> qo_signalled Q (ql_queue s)) \<Longrightarrow>
    count_list rs ReportQueue \<le> 1 \<Longrightarrow>
    ql_step Q s (s\<lparr>ql_pc := LoopRound rs\<rparr>)"
| round_end: "ql_pc s = LoopRound [] \<Longrightarrow> ql_step Q s (s\<lparr>ql_pc := LoopCheck\<rparr>)"
| handle_other: "ql_pc s = LoopRound (ReportOther n # rs) \<Longrightarrow> ql_step Q s (s\<lparr>ql_pc := LoopRound rs\<rparr>)"
| handle_removed: "ql_pc s = LoopRound (ReportQueue # rs) \<Longrightarrow> \<not> ql_watched s \<Longrightarrow>
    ql_step Q s (s\<lparr>ql_pc := LoopRound rs\<rparr>)"
| handle_queue: "ql_pc s = LoopRound (ReportQueue # rs) \<Longrightarrow> ql_watched s \<Longrightarrow>
    qo_wakes Q (ql_queue s) q \<Longrightarrow>
    ql_step Q s (s\<lparr>ql_queue := q, ql_pc := LoopDrain rs\<rparr>)"
| drain: "ql_pc s = LoopDrain rs \<Longrightarrow> qo_runs Q t (ql_queue s) q \<Longrightarrow>
    ql_step Q s (ql_task t (s\<lparr>ql_queue := q\<rparr>))"
| drained: "ql_pc s = LoopDrain rs \<Longrightarrow> qo_sleeps Q (ql_queue s) q \<Longrightarrow>
    ql_step Q s (s\<lparr>ql_queue := q, ql_pc := LoopRound rs\<rparr>)"
| works: "qo_works Q (ql_queue s) q \<Longrightarrow> ql_step Q s (s\<lparr>ql_queue := q\<rparr>)"
| schedule: "qo_adds Q (UserTask n) (ql_queue s) q \<Longrightarrow> ql_step Q s (s\<lparr>ql_queue := q\<rparr>)"
| close_flag: "ql_step Q s (s\<lparr>ql_state := ql_state s AND NOT kLooping, ql_closing := ql_closing s + 1\<rparr>)"
| close_task: "0 < ql_closing s \<Longrightarrow> qo_adds Q CloseTask (ql_queue s) q \<Longrightarrow>
    ql_step Q s (s\<lparr>ql_queue := q, ql_closing := ql_closing s - 1\<rparr>)"

lemma ql_task_simps [simp]:
  "ql_state (ql_task t s) = ql_state s" "ql_pc (ql_task t s) = ql_pc s"
  "ql_current (ql_task t s) = ql_current s" "ql_queue (ql_task t s) = ql_queue s"
  "ql_closing (ql_task t s) = ql_closing s"
  "ql_watched (ql_task t s) \<longleftrightarrow> ql_watched s \<and> t \<noteq> CloseTask"
  "ql_latch (ql_task t s) = (if t = CloseTask then ql_latch s - 1 else ql_latch s)"
  by (cases t; simp)+

lemma ql_step_queue:
  assumes "ql_step Q s t"
  shows "ql_queue t = ql_queue s \<or> (\<exists>c. qo_adds Q c (ql_queue s) (ql_queue t)) \<or>
    qo_wakes Q (ql_queue s) (ql_queue t) \<or> (\<exists>c. qo_runs Q c (ql_queue s) (ql_queue t)) \<or>
    qo_sleeps Q (ql_queue s) (ql_queue t) \<or> qo_works Q (ql_queue s) (ql_queue t)"
  using assms by cases auto

lemma ql_step_queue_step: "ql_step Q s t \<Longrightarrow> ql_queue t = ql_queue s \<or> qo_step Q (ql_queue s) (ql_queue t)"
  using ql_step_queue [of Q s t] by (auto simp: qo_kinds)

lemma ql_step_wakes:
  "ql_step Q s t \<Longrightarrow> qo_asleep Q (ql_queue s) \<Longrightarrow> \<not> qo_asleep Q (ql_queue t) \<Longrightarrow>
    qo_wakes Q (ql_queue s) (ql_queue t)"
  using ql_step_queue [of Q s t] by (auto simp: qo_kinds)

lemma ql_step_sleeps:
  "ql_step Q s t \<Longrightarrow> \<not> qo_asleep Q (ql_queue s) \<Longrightarrow> qo_asleep Q (ql_queue t) \<Longrightarrow>
    qo_sleeps Q (ql_queue s) (ql_queue t)"
  using ql_step_queue [of Q s t] by (auto simp: qo_kinds)

text \<open>
  The invariant of theory Event\_Loop, for any queue: the queue is between two calls of
  \<open>Process\<close> exactly when the loop is not in the handler of the event channel, a report of the
  event channel that is still to be handled is a true one, the event channel is watched and
  the latch is up until the task of \<open>Close\<close> runs.
\<close>

definition ql_inv :: "'q queue_ops \<Rightarrow> ('q \<Rightarrow> bool) \<Rightarrow> 'q queue_loop \<Rightarrow> bool" where
  "ql_inv Q I s \<longleftrightarrow>
     I (ql_queue s) \<and>
     (qo_asleep Q (ql_queue s) \<longleftrightarrow> \<not> el_draining (ql_pc s)) \<and>
     (ReportQueue \<in> set (el_reports (ql_pc s)) \<longrightarrow>
        \<not> el_draining (ql_pc s) \<and> (ql_watched s \<longrightarrow> qo_signalled Q (ql_queue s))) \<and>
     count_list (el_reports (ql_pc s)) ReportQueue \<le> 1 \<and>
     ql_latch s = (if CloseTask \<in># qo_ran Q (ql_queue s) then 0 else 1) \<and>
     (ql_watched s \<longleftrightarrow> CloseTask \<notin># qo_ran Q (ql_queue s)) \<and>
     (ql_current s \<longleftrightarrow> el_inside (ql_pc s)) \<and>
     (ql_current s \<longrightarrow> ql_state s AND kJoinable \<noteq> 0)"

lemma el_draining_simps [simp]:
  "\<not> el_draining LoopIdle" "\<not> el_draining (LoopLoaded v)" "\<not> el_draining LoopCheck"
  "\<not> el_draining LoopWaiting" "\<not> el_draining (LoopRound rs)" "el_draining (LoopDrain rs)"
  "\<not> el_draining LoopDone"
  by (simp_all add: el_draining_def)

context loop_queue
begin

abbreviation linv :: "'q queue_loop \<Rightarrow> bool" where
  "linv \<equiv> ql_inv Q inv"

lemma linv_initial: "ql_initial Q s \<Longrightarrow> linv s"
  using initially [of "ql_queue s"] inv_initial [of "ql_queue s"]
  by (simp add: ql_inv_def ql_initial_def el_pc_defs)

text \<open>A step of the queue that leaves the position of the loop alone.\<close>

lemma linv_queue:
  assumes "linv s" and "qo_step Q (ql_queue s) q" and "qo_asleep Q q = qo_asleep Q (ql_queue s)"
    and "qo_ran Q q = qo_ran Q (ql_queue s)"
  shows "linv (s\<lparr>ql_queue := q\<rparr>)"
proof -
  have "inv q"
    using assms(1,2) inv_step by (auto simp: ql_inv_def)
  moreover have "qo_signalled Q q" if "qo_signalled Q (ql_queue s)" and "qo_asleep Q (ql_queue s)"
    using stays_signalled assms(2,3) that by blast
  ultimately show ?thesis
    using assms(1,3,4) by (auto simp: ql_inv_def)
qed

lemma linv_step:
  assumes "linv s" and "ql_step Q s t"
  shows "linv t"
  using assms(2)
proof cases
  case (handle_queue rs q)
  then have "inv q"
    using assms(1) inv_step by (auto simp: ql_inv_def qo_wakes_def)
  with handle_queue assms(1) show ?thesis
    by (simp add: ql_inv_def qo_wakes_def el_pc_defs count_list_0_iff)
next
  case (drain rs t q)
  then have "inv q"
    using assms(1) inv_step by (auto simp: ql_inv_def qo_runs_def)
  with drain assms(1) show ?thesis
    by (auto simp: ql_inv_def qo_runs_def el_pc_defs)
next
  case (drained rs q)
  then have "inv q"
    using assms(1) inv_step by (auto simp: ql_inv_def qo_sleeps_def)
  with drained assms(1) show ?thesis
    by (auto simp: ql_inv_def qo_sleeps_def el_pc_defs)
next
  case (works q)
  with linv_queue [of s q] assms(1) show ?thesis
    by (simp add: qo_works_def)
next
  case (schedule n q)
  with linv_queue [of s q] assms(1) show ?thesis
    by (simp add: qo_adds_def)
next
  case (close_task q)
  with linv_queue [of s q] assms(1) show ?thesis
    by (simp add: qo_adds_def ql_inv_def)
qed (use assms(1) in \<open>auto simp: ql_inv_def el_pc_defs\<close>)

lemma linv_reachable:
  assumes "reachable (ql_initial Q) (ql_step Q) s"
  shows "linv s"
  using assms by (induction rule: reachable.induct) (auto intro: linv_initial linv_step)

lemma reachable_queue:
  assumes "reachable (ql_initial Q) (ql_step Q) s"
  shows "reachable (qo_initial Q) (qo_step Q) (ql_queue s)"
  using assms
proof (induction rule: reachable.induct)
  case (start s)
  then show ?case by (auto simp: ql_initial_def intro: reachable.start)
next
  case (next_step s t)
  then show ?case
    using ql_step_queue_step [of Q s t] by (auto intro: reachable.next_step)
qed

end

section \<open>Runs of the loop\<close>

text \<open>Steps inside the handler of the event channel; steps with nobody beginning a call.\<close>

definition ql_handling_step :: "'q queue_ops \<Rightarrow> 'q queue_loop \<Rightarrow> 'q queue_loop \<Rightarrow> bool" where
  "ql_handling_step Q s t \<longleftrightarrow> ql_step Q s t \<and> el_draining (ql_pc s) \<and> el_draining (ql_pc t)"

definition ql_alone_step :: "'q queue_ops \<Rightarrow> 'q queue_loop \<Rightarrow> 'q queue_loop \<Rightarrow> bool" where
  "ql_alone_step Q s t \<longleftrightarrow> ql_step Q s t \<and> qo_added Q (ql_queue t) = qo_added Q (ql_queue s) \<and>
     ql_closing t = ql_closing s"

text \<open>
  The kernel is prompt: \<open>Wait\<close> does not fail, and reports the event channel when it is watched
  and readable.
\<close>

definition ql_prompt_step :: "'q queue_ops \<Rightarrow> 'q queue_loop \<Rightarrow> 'q queue_loop \<Rightarrow> bool" where
  "ql_prompt_step Q s t \<longleftrightarrow> ql_step Q s t \<and>
     (ql_pc s = LoopWaiting \<longrightarrow> ql_pc t = LoopWaiting \<or>
        (\<exists>rs. ql_pc t = LoopRound rs \<and>
           (ql_watched s \<and> qo_signalled Q (ql_queue s) \<longrightarrow> ReportQueue \<in> set rs)))"

context loop_queue
begin

lemma asleep_at: "linv s \<Longrightarrow> qo_asleep Q (ql_queue s) \<longleftrightarrow> \<not> el_draining (ql_pc s)"
  by (simp add: ql_inv_def)

text \<open>A loop in \<open>Wait\<close> with a callback left is about to be woken.\<close>

lemma loop_wakes:
  assumes "reachable (ql_initial Q) (ql_step Q) s" and "\<not> el_draining (ql_pc s)" and "settled (ql_queue s)"
  shows "qo_ran Q (ql_queue s) = qo_added Q (ql_queue s) \<or> qo_signalled Q (ql_queue s)"
  using unsignalled_all_ran [OF reachable_queue [OF assms(1)]] asleep_at [OF linv_reachable [OF assms(1)]] assms(2,3)
  by blast

lemma handling_queue:
  assumes "ql_handling_step Q s t" and "linv s" and "linv t"
  shows "awake_step\<^sup>*\<^sup>* (ql_queue s) (ql_queue t)"
proof -
  have awake: "\<not> qo_asleep Q (ql_queue s)" "\<not> qo_asleep Q (ql_queue t)"
    using assms asleep_at by (auto simp: ql_handling_step_def)
  have "ql_queue t = ql_queue s \<or> qo_step Q (ql_queue s) (ql_queue t)"
    using assms(1) ql_step_queue_step [of Q s t] by (simp add: ql_handling_step_def)
  with awake show ?thesis
    by (auto simp: awake_step_def)
qed

lemma handling_run:
  assumes "(ql_handling_step Q)\<^sup>*\<^sup>* s t" and "linv s"
  shows "linv t \<and> awake_step\<^sup>*\<^sup>* (ql_queue s) (ql_queue t)"
  using assms
proof (induction rule: rtranclp_induct)
  case (step t u)
  then have "linv u"
    using linv_step by (auto simp: ql_handling_step_def)
  with step handling_queue [of t u] show ?case
    by auto
qed simp

text \<open>What is queued when the handler is entered has run when it is left.\<close>

lemma handler_runs_backlog:
  assumes "reachable (ql_initial Q) (ql_step Q) s"
    and "ql_step Q s t" and "\<not> el_draining (ql_pc s)" and "el_draining (ql_pc t)"
    and "(ql_handling_step Q)\<^sup>*\<^sup>* t u"
    and "ql_step Q u v" and "\<not> el_draining (ql_pc v)" and "el_draining (ql_pc u)"
  shows "backlog (ql_queue s) \<subseteq># qo_ran Q (ql_queue v) - qo_ran Q (ql_queue s)"
proof -
  have s: "linv s" and t: "linv t"
    using assms(1,2) linv_reachable linv_step by blast+
  then have awake: "qo_asleep Q (ql_queue s)" "\<not> qo_asleep Q (ql_queue t)"
    using assms(3,4) asleep_at by auto
  then have w: "qo_wakes Q (ql_queue s) (ql_queue t)"
    using assms(2) by (intro ql_step_wakes)
  have u: "linv u" "awake_step\<^sup>*\<^sup>* (ql_queue t) (ql_queue u)"
    using handling_run [OF assms(5) t] by auto
  have v: "linv v"
    using u(1) assms(6) by (rule linv_step)
  have "qo_asleep Q (ql_queue v)" "\<not> qo_asleep Q (ql_queue u)"
    using u(1) v assms(7,8) asleep_at by auto
  then have z: "qo_sleeps Q (ql_queue u) (ql_queue v)"
    using assms(6) by (intro ql_step_sleeps)
  have "inv (ql_queue t)"
    using t by (simp add: ql_inv_def)
  with u(2) have "owed (ql_queue t) \<subseteq># owed (ql_queue u) + (qo_ran Q (ql_queue u) - qo_ran Q (ql_queue t))"
    using owed_run by blast
  with owed_wakes [OF w] owed_sleeps [OF z] show ?thesis
    using w z by (auto simp: qo_wakes_def qo_sleeps_def dest: subset_mset.trans)
qed

text \<open>
  The handler returns when nobody begins a call, and the loop, woken or not, is back at the
  test of \<open>while\<close> with every callback run.
\<close>

lemma alone_run: "(ql_alone_step Q)\<^sup>*\<^sup>* s t \<Longrightarrow> (ql_step Q)\<^sup>*\<^sup>* s t"
  by (erule rtranclp_mono [THEN predicate2D, rotated]) (auto simp: ql_alone_step_def)

lemma drain_moves:
  assumes "linv s" and "ql_pc s = LoopDrain rs"
  shows "\<exists>u. ql_alone_step Q s u \<and> ql_state u = ql_state s \<and>
    (ql_pc u = LoopRound rs \<and> qo_sleeps Q (ql_queue s) (ql_queue u) \<or>
     ql_pc u = LoopDrain rs \<and> qo_step Q (ql_queue s) (ql_queue u) \<and> \<not> qo_asleep Q (ql_queue u) \<and>
       fuel (ql_queue u) < fuel (ql_queue s))"
proof -
  have "\<not> qo_asleep Q (ql_queue s)" and "inv (ql_queue s)"
    using assms asleep_at by (auto simp: el_pc_defs ql_inv_def)
  then obtain q where q: "fuel q < fuel (ql_queue s)" and
    "(\<exists>t. qo_runs Q t (ql_queue s) q) \<or> qo_works Q (ql_queue s) q \<or> qo_sleeps Q (ql_queue s) q"
    using can_advance by blast
  then consider (runs) t where "qo_runs Q t (ql_queue s) q" | (works) "qo_works Q (ql_queue s) q"
    | (sleeps) "qo_sleeps Q (ql_queue s) q"
    by blast
  then show ?thesis
  proof cases
    case runs
    with q ql_step.drain [OF assms(2) runs] assms(2) show ?thesis
      by (intro exI [of _ "ql_task t (s\<lparr>ql_queue := q\<rparr>)"]) (simp add: ql_alone_step_def qo_runs_def)
  next
    case works
    with q ql_step.works [OF works] assms(2) \<open>\<not> qo_asleep Q (ql_queue s)\<close> show ?thesis
      by (intro exI [of _ "s\<lparr>ql_queue := q\<rparr>"]) (simp add: ql_alone_step_def qo_works_def)
  next
    case sleeps
    with ql_step.drained [OF assms(2) sleeps] show ?thesis
      by (intro exI [of _ "s\<lparr>ql_queue := q, ql_pc := LoopRound rs\<rparr>"])
        (simp add: ql_alone_step_def qo_sleeps_def)
  qed
qed

lemma drain_returns:
  assumes "linv s" and "ql_pc s = LoopDrain rs"
  shows "\<exists>t. (ql_alone_step Q)\<^sup>*\<^sup>* s t \<and> ql_pc t = LoopRound rs \<and> ql_state t = ql_state s \<and>
    qo_added Q (ql_queue t) = qo_added Q (ql_queue s) \<and> qo_ran Q (ql_queue s) \<subseteq># qo_ran Q (ql_queue t) \<and>
    owed (ql_queue s) \<subseteq># qo_ran Q (ql_queue t) - qo_ran Q (ql_queue s)"
  using assms
proof (induction "fuel (ql_queue s)" arbitrary: s rule: less_induct)
  case less
  from drain_moves [OF less.prems] obtain u where u: "ql_alone_step Q s u" "ql_state u = ql_state s"
    "ql_pc u = LoopRound rs \<and> qo_sleeps Q (ql_queue s) (ql_queue u) \<or>
     ql_pc u = LoopDrain rs \<and> qo_step Q (ql_queue s) (ql_queue u) \<and> \<not> qo_asleep Q (ql_queue u) \<and>
       fuel (ql_queue u) < fuel (ql_queue s)"
    by blast
  from u(3) show ?case
  proof (elim disjE conjE)
    assume *: "ql_pc u = LoopRound rs" "qo_sleeps Q (ql_queue s) (ql_queue u)"
    with owed_sleeps [OF *(2)] u(1,2) show ?thesis
      by (intro exI [of _ u]) (auto simp: qo_sleeps_def)
  next
    assume *: "ql_pc u = LoopDrain rs" "qo_step Q (ql_queue s) (ql_queue u)"
      "\<not> qo_asleep Q (ql_queue u)" "fuel (ql_queue u) < fuel (ql_queue s)"
    have "linv u"
      by (rule linv_step [OF less.prems(1)]) (use u(1) in \<open>simp add: ql_alone_step_def\<close>)
    moreover have "inv (ql_queue s)" "\<not> qo_asleep Q (ql_queue s)"
      using less.prems asleep_at [of s] by (simp_all add: ql_inv_def el_pc_defs)
    ultimately have inv: "linv u" "inv (ql_queue s)" "\<not> qo_asleep Q (ql_queue s)"
      by blast+
    from less.hyps [OF *(4) inv(1) *(1)] obtain t where t: "(ql_alone_step Q)\<^sup>*\<^sup>* u t" "ql_pc t = LoopRound rs"
      "ql_state t = ql_state u" "qo_added Q (ql_queue t) = qo_added Q (ql_queue u)"
      "qo_ran Q (ql_queue u) \<subseteq># qo_ran Q (ql_queue t)"
      "owed (ql_queue u) \<subseteq># {#} + (qo_ran Q (ql_queue t) - qo_ran Q (ql_queue u))"
      by auto
    have g: "qo_ran Q (ql_queue s) \<subseteq># qo_ran Q (ql_queue u)"
      using *(2) by (rule ran_grows)
    have "owed (ql_queue s) \<subseteq># {#} + (qo_ran Q (ql_queue t) - qo_ran Q (ql_queue s))"
      by (rule mset_debt_trans [OF owed_awake [OF inv(2) *(2) inv(3) *(3)] t(6) g t(5)])
    moreover have "(ql_alone_step Q)\<^sup>*\<^sup>* s t"
      using u(1) t(1) by (rule converse_rtranclp_into_rtranclp)
    moreover have "qo_ran Q (ql_queue s) \<subseteq># qo_ran Q (ql_queue t)"
      using g t(5) by (rule subset_mset.trans)
    moreover have "qo_added Q (ql_queue u) = qo_added Q (ql_queue s)"
      using u(1) by (simp add: ql_alone_step_def)
    ultimately show ?thesis
      using t(2-4) u(2) by (intro exI [of _ t]) simp
  qed
qed

lemma drain_finishes:
  assumes "linv s" and "ql_pc s = LoopDrain rs"
  shows "\<exists>u t. (ql_handling_step Q)\<^sup>*\<^sup>* s u \<and> ql_step Q u t \<and> el_draining (ql_pc u) \<and> ql_pc t = LoopRound rs"
  using assms
proof (induction "fuel (ql_queue s)" arbitrary: s rule: less_induct)
  case less
  from drain_moves [OF less.prems] obtain u where u: "ql_step Q s u"
    "ql_pc u = LoopRound rs \<or> ql_pc u = LoopDrain rs \<and> fuel (ql_queue u) < fuel (ql_queue s)"
    by (auto simp: ql_alone_step_def)
  from u(2) show ?case
  proof (elim disjE conjE)
    assume "ql_pc u = LoopRound rs"
    with u(1) less.prems(2) show ?thesis
      by (intro exI [of _ s] exI [of _ u]) simp
  next
    assume *: "ql_pc u = LoopDrain rs" "fuel (ql_queue u) < fuel (ql_queue s)"
    have "linv u"
      using less.prems(1) u(1) by (rule linv_step)
    from less.hyps [OF *(2) this *(1)] obtain v t where v: "(ql_handling_step Q)\<^sup>*\<^sup>* u v" "ql_step Q v t"
      "el_draining (ql_pc v)" "ql_pc t = LoopRound rs"
      by blast
    have "ql_handling_step Q s u"
      using u(1) less.prems(2) *(1) by (simp add: ql_handling_step_def)
    then have "(ql_handling_step Q)\<^sup>*\<^sup>* s v"
      using v(1) by (rule converse_rtranclp_into_rtranclp)
    with v show ?thesis by blast
  qed
qed

lemma wake_enters:
  assumes "linv s" and "ql_pc s = LoopWaiting" and "ql_watched s" and "qo_signalled Q (ql_queue s)"
  shows "\<exists>t. (ql_alone_step Q)\<^sup>*\<^sup>* s t \<and> ql_pc t = LoopDrain [] \<and> ql_state t = ql_state s \<and>
    qo_wakes Q (ql_queue s) (ql_queue t)"
proof -
  have "qo_asleep Q (ql_queue s)"
    using assms(1,2) asleep_at by (simp add: el_pc_defs)
  from can_wake [OF this assms(4)] obtain q where q: "qo_wakes Q (ql_queue s) q" ..
  let ?r = "s\<lparr>ql_pc := LoopRound [ReportQueue]\<rparr>"
  let ?d = "?r\<lparr>ql_queue := q, ql_pc := LoopDrain []\<rparr>"
  have "ql_step Q s ?r"
    using assms(2-4) by (intro wait_reports) simp_all
  moreover have "ql_step Q ?r ?d"
    using handle_queue [of ?r "[]" Q q] assms(3) q by simp
  ultimately have "ql_alone_step Q s ?r" "ql_alone_step Q ?r ?d"
    using q by (simp_all add: ql_alone_step_def qo_wakes_def)
  then have "(ql_alone_step Q)\<^sup>*\<^sup>* s ?d"
    by (meson r_into_rtranclp rtranclp.rtrancl_into_rtrancl)
  with q show ?thesis
    by (intro exI [of _ ?d]) simp
qed

text \<open>A handler that starts with everything queued and owes nothing at the end has run it all.\<close>

lemma all_ran:
  assumes "inv q" and "qo_wakes Q q q1" and "owed q1 \<subseteq># qo_ran Q q2 - qo_ran Q q1"
    and "qo_ran Q q1 \<subseteq># qo_ran Q q2" and "inv q2" and "qo_added Q q2 = qo_added Q q1"
  shows "qo_ran Q q2 = qo_added Q q"
proof (rule subset_mset.antisym)
  show "qo_ran Q q2 \<subseteq># qo_added Q q"
    using ran_added [OF assms(5)] assms(2,6) by (simp add: qo_wakes_def)
  have "qo_added Q q = qo_ran Q q1 + backlog q"
    using accounts [OF assms(1)] assms(2) by (simp add: qo_wakes_def)
  moreover have "backlog q \<subseteq># qo_ran Q q2 - qo_ran Q q1"
    using owed_wakes [OF assms(2)] assms(3) by (rule subset_mset.trans)
  ultimately show "qo_added Q q \<subseteq># qo_ran Q q2"
    using assms(4) by (metis subset_mset.add_diff_inverse subset_mset.add_left_mono)
qed

lemma waiting_drains:
  assumes s: "reachable (ql_initial Q) (ql_step Q) s" and pc: "ql_pc s = LoopWaiting"
    and "ql_watched s" and settled: "settled (ql_queue s)"
  shows "\<exists>t. (ql_alone_step Q)\<^sup>*\<^sup>* s t \<and> ql_pc t = LoopCheck \<and> ql_state t = ql_state s \<and>
    qo_added Q (ql_queue t) = qo_added Q (ql_queue s) \<and> qo_ran Q (ql_queue t) = qo_added Q (ql_queue s)"
proof (cases "qo_signalled Q (ql_queue s)")
  case False
  then have "qo_ran Q (ql_queue s) = qo_added Q (ql_queue s)"
    using loop_wakes [OF s _ settled] pc by (simp add: el_pc_defs)
  moreover have "ql_alone_step Q s (s\<lparr>ql_pc := LoopCheck\<rparr>)"
    using wait_fails [OF pc] by (simp add: ql_alone_step_def)
  ultimately show ?thesis
    by (intro exI [of _ "s\<lparr>ql_pc := LoopCheck\<rparr>"]) auto
next
  case True
  have inv: "linv s"
    using s by (rule linv_reachable)
  from wake_enters [OF inv pc assms(3) True] obtain d where d: "(ql_alone_step Q)\<^sup>*\<^sup>* s d"
    "ql_pc d = LoopDrain []" "ql_state d = ql_state s" "qo_wakes Q (ql_queue s) (ql_queue d)"
    by blast
  have "linv d"
    by (rule linv_reachable [OF reachable_rtranclp [OF alone_run [OF d(1)] s]])
  from drain_returns [OF this d(2)] obtain t where t: "(ql_alone_step Q)\<^sup>*\<^sup>* d t" "ql_pc t = LoopRound []"
    "ql_state t = ql_state d" "qo_added Q (ql_queue t) = qo_added Q (ql_queue d)"
    "qo_ran Q (ql_queue d) \<subseteq># qo_ran Q (ql_queue t)"
    "owed (ql_queue d) \<subseteq># qo_ran Q (ql_queue t) - qo_ran Q (ql_queue d)"
    by blast
  have run: "(ql_alone_step Q)\<^sup>*\<^sup>* s t"
    using d(1) t(1) by (rule rtranclp_trans)
  have "linv t"
    by (rule linv_reachable [OF reachable_rtranclp [OF alone_run [OF run] s]])
  with inv have "qo_ran Q (ql_queue t) = qo_added Q (ql_queue s)"
    by (intro all_ran [OF _ d(4) t(6) t(5)]) (simp_all add: ql_inv_def t(4))
  moreover have "ql_alone_step Q t (t\<lparr>ql_pc := LoopCheck\<rparr>)"
    using round_end [OF t(2)] by (simp add: ql_alone_step_def)
  ultimately show ?thesis
    using run t(3,4) d(3,4)
    by (intro exI [of _ "t\<lparr>ql_pc := LoopCheck\<rparr>"]) (simp add: qo_wakes_def rtranclp.rtrancl_into_rtrancl)
qed

text \<open>
  \<open>Close\<close> while the loop waits: the task of \<open>Close\<close> has run, or the loop is on its way to it.
\<close>

definition heads_for_close :: "'q queue_loop \<Rightarrow> bool" where
  "heads_for_close s \<longleftrightarrow>
     CloseTask \<in># qo_ran Q (ql_queue s) \<or>
     CloseTask \<in># backlog (ql_queue s) \<and> qo_signalled Q (ql_queue s) \<and>
       (ql_pc s = LoopWaiting \<or> (\<exists>rs. ql_pc s = LoopRound rs \<and> ReportQueue \<in> set rs)) \<or>
     CloseTask \<in># owed (ql_queue s) \<and> el_draining (ql_pc s)"

lemma heads_queue:
  assumes "linv s" and "heads_for_close s" and "qo_step Q (ql_queue s) q"
    and "qo_asleep Q q = qo_asleep Q (ql_queue s)"
  shows "heads_for_close (s\<lparr>ql_queue := q\<rparr>)"
proof -
  have g: "qo_ran Q (ql_queue s) \<subseteq># qo_ran Q q"
    using assms(3) by (rule ran_grows)
  have inv: "inv (ql_queue s)"
    using assms(1) by (simp add: ql_inv_def)
  show ?thesis
  proof (cases "el_draining (ql_pc s)")
    case True
    then have "\<not> qo_asleep Q (ql_queue s)"
      using assms(1) asleep_at by simp
    then have "owed (ql_queue s) \<subseteq># owed q + (qo_ran Q q - qo_ran Q (ql_queue s))"
      using owed_awake [OF inv assms(3)] assms(4) by simp
    then have "CloseTask \<in># owed (ql_queue s) \<Longrightarrow> CloseTask \<in># owed q \<or> CloseTask \<in># qo_ran Q q"
      by (rule mset_debt_mem)
    moreover have "CloseTask \<in># qo_ran Q (ql_queue s) \<or> CloseTask \<in># owed (ql_queue s)"
      using assms(2) True unfolding heads_for_close_def by (auto simp: el_pc_defs)
    ultimately have "CloseTask \<in># qo_ran Q q \<or> CloseTask \<in># owed q"
      using g by (blast dest: mset_subset_eqD)
    then show ?thesis
      using True by (auto simp: heads_for_close_def)
  next
    case False
    then have "qo_asleep Q (ql_queue s)"
      using assms(1) asleep_at by simp
    then show ?thesis
      using assms g False stays_queued [OF assms(3)] stays_signalled [OF assms(3)]
      unfolding heads_for_close_def by (auto dest: mset_subset_eqD)
  qed
qed

lemma heads_step:
  assumes "ql_prompt_step Q s t" and "linv s" and "heads_for_close s"
  shows "heads_for_close t"
proof -
  have watched: "ql_watched s \<longleftrightarrow> CloseTask \<notin># qo_ran Q (ql_queue s)"
    using assms(2) by (simp add: ql_inv_def)
  have "ql_step Q s t"
    using assms(1) by (simp add: ql_prompt_step_def)
  then show ?thesis
  proof cases
    case wait_fails
    with assms(1) show ?thesis by (simp add: ql_prompt_step_def)
  next
    case (wait_reports rs)
    have "CloseTask \<in># qo_ran Q (ql_queue s) \<or>
        CloseTask \<in># backlog (ql_queue s) \<and> qo_signalled Q (ql_queue s) \<and> ReportQueue \<in> set rs"
      using assms(1,3) watched wait_reports(1,2)
      by (simp add: ql_prompt_step_def heads_for_close_def el_pc_defs) blast
    then show ?thesis
      unfolding wait_reports(1) by (simp add: heads_for_close_def)
  next
    case (handle_queue rs q)
    have "CloseTask \<in># qo_ran Q (ql_queue s) \<or> CloseTask \<in># backlog (ql_queue s)"
      using assms(3) handle_queue(2) by (auto simp: heads_for_close_def el_pc_defs)
    then have "CloseTask \<in># qo_ran Q q \<or> CloseTask \<in># owed q"
      using handle_queue(4) mset_subset_eqD [OF owed_wakes [OF handle_queue(4)]] by (auto simp: qo_wakes_def)
    then show ?thesis
      unfolding handle_queue(1) by (auto simp: heads_for_close_def el_pc_defs)
  next
    case (handle_removed rs)
    with assms(3) watched show ?thesis by (auto simp: heads_for_close_def)
  next
    case (drain rs k q)
    have "heads_for_close (s\<lparr>ql_queue := q\<rparr>)"
      using drain(3) by (intro heads_queue [OF assms(2,3)]) (simp_all add: qo_runs_def)
    with drain(1) show ?thesis by (simp add: heads_for_close_def)
  next
    case (drained rs q)
    with assms(3) owed_sleeps [OF drained(3)] show ?thesis
      by (auto simp: heads_for_close_def qo_sleeps_def)
  next
    case (works q)
    then show ?thesis
      using heads_queue [OF assms(2,3), of q] by (simp add: qo_works_def)
  next
    case (schedule n q)
    then show ?thesis
      using heads_queue [OF assms(2,3), of q] by (simp add: qo_adds_def)
  next
    case (close_task q)
    then show ?thesis
      using heads_queue [OF assms(2,3), of q] by (simp add: qo_adds_def heads_for_close_def)
  qed (use assms(3) in \<open>auto simp: heads_for_close_def\<close>)
qed

lemma close_while_waiting:
  assumes "reachable (ql_initial Q) (ql_step Q) s" and "ql_pc s = LoopWaiting"
    and "CloseTask \<in># backlog (ql_queue s)" and "qo_signalled Q (ql_queue s)"
    and "(ql_prompt_step Q)\<^sup>*\<^sup>* s t" and "ql_pc t = LoopDone"
  shows "CloseTask \<in># qo_ran Q (ql_queue t) \<and> ql_join_returns t"
proof -
  have "linv t \<and> heads_for_close t"
    using assms(5)
  proof (induction rule: rtranclp_induct)
    case base
    show ?case
      using linv_reachable [OF assms(1)] assms(2-4) by (simp add: heads_for_close_def)
  next
    case (step t u)
    then show ?case
      using heads_step [OF step(2)] linv_step [of t u] by (simp add: ql_prompt_step_def)
  qed
  with assms(6) have "CloseTask \<in># qo_ran Q (ql_queue t)" "linv t"
    by (simp_all add: heads_for_close_def el_pc_defs)
  then show ?thesis
    by (simp add: ql_inv_def ql_join_returns_def)
qed

end

end
