(* ===== verification/Queue_Loop_Properties.thy ===== *)
theory Queue_Loop_Properties
  imports Queue_Loop
begin

text \<open>
  What the event loop guarantees over the lock free queue, the default of
  \<open>EventLoopOptions\<close>, when every synchronisation point interleaves; and the blocking loop of
  theory Event\_Loop as an instance of the general one.
\<close>

unbundle bit_operations_syntax

section \<open>A loop in its first wait\<close>

definition lf_create :: "loop_task lq_system queue_loop" where
  "lf_create = \<lparr>ql_state = 0, ql_pc = LoopIdle, ql_current = False,
     ql_queue = \<lparr>ls_queue = lq_create ec_create {#}, ls_mid = 0, ls_phase = LqAsleep, ls_added = {#}, ls_ran = {#}\<rparr>,
     ql_watched = True, ql_latch = 1, ql_closing = 0\<rparr>"

definition lf_waiting :: "loop_task lq_system queue_loop" where
  "lf_waiting = lf_create\<lparr>ql_state := kLooping OR kJoinable, ql_current := True, ql_pc := LoopWaiting\<rparr>"

lemma lf_create_initial: "ql_initial lockfree_ops lf_create"
  by (simp add: ql_initial_def lf_create_def ls_initial_def)

lemma lf_waiting_simps [simp]:
  "ql_pc lf_waiting = LoopWaiting" "ql_state lf_waiting = kLooping OR kJoinable" "ql_latch lf_waiting = 1"
  "ql_closing lf_waiting = 0" "ql_watched lf_waiting" "ql_queue lf_waiting = ql_queue lf_create"
  "ql_looping lf_waiting"
  by (simp_all add: lf_waiting_def lf_create_def ql_looping_def)

lemma lf_queue_simps [simp]:
  "ls_queue (ql_queue lf_create) = lq_create ec_create {#}" "ls_mid (ql_queue lf_create) = 0"
  "ls_phase (ql_queue lf_create) = LqAsleep" "ls_added (ql_queue lf_create) = {#}" "ls_ran (ql_queue lf_create) = {#}"
  by (simp_all add: lf_create_def)

lemma lf_enters: "(ql_alone_step lockfree_ops)\<^sup>*\<^sup>* lf_create lf_waiting"
proof -
  let ?s1 = "lf_create\<lparr>ql_pc := LoopLoaded (ql_state lf_create)\<rparr>"
  let ?s2 = "?s1\<lparr>ql_state := kLooping OR kJoinable, ql_current := True, ql_pc := LoopCheck\<rparr>"
  let ?s3 = "?s2\<lparr>ql_pc := LoopWaiting\<rparr>"
  have "ql_step lockfree_ops lf_create ?s1"
    by (rule ql_step.load) (simp add: lf_create_def)
  then have "ql_alone_step lockfree_ops lf_create ?s1"
    by (simp add: ql_alone_step_def)
  moreover have "ql_step lockfree_ops ?s1 ?s2"
    by (rule ql_step.enter) (simp_all add: lf_create_def)
  then have "ql_alone_step lockfree_ops ?s1 ?s2"
    by (simp add: ql_alone_step_def)
  moreover have "ql_step lockfree_ops ?s2 ?s3"
    by (rule ql_step.go) (simp_all add: ql_looping_def)
  then have "ql_alone_step lockfree_ops ?s2 ?s3"
    by (simp add: ql_alone_step_def)
  ultimately have "(ql_alone_step lockfree_ops)\<^sup>*\<^sup>* lf_create ?s3"
    by (meson converse_rtranclp_into_rtranclp r_into_rtranclp)
  moreover have "?s3 = lf_waiting"
    by (simp add: lf_waiting_def)
  ultimately show ?thesis
    by metis
qed

lemma lf_waiting_reachable: "reachable (ql_initial lockfree_ops) (ql_step lockfree_ops) lf_waiting"
  by (rule reachable_rtranclp [OF lsl.alone_run [OF lf_enters]], rule reachable.start, rule lf_create_initial)

text \<open>The queue after one \<open>Add\<close>: its enqueue, then its count.\<close>

definition lf_enqueued :: "loop_task \<Rightarrow> loop_task lq_system" where
  "lf_enqueued c = (ql_queue lf_create)\<lparr>ls_queue := (lq_create ec_create {#})\<lparr>lq_queue := {#c#}\<rparr>,
     ls_mid := 1, ls_added := {#c#}\<rparr>"

definition lf_counted :: "loop_task \<Rightarrow> loop_task lq_system" where
  "lf_counted c = (lf_enqueued c)\<lparr>ls_queue := lq_bump (ls_queue (lf_enqueued c)), ls_mid := 0\<rparr>"

lemma lf_adds: "qo_adds lockfree_ops c (ql_queue lf_create) (lf_enqueued c)"
  using ls_enqueue [of "ql_queue lf_create" c]
  by (simp add: qo_adds_def lf_enqueued_def lq_create_def)

lemma lf_counts: "qo_works lockfree_ops (lf_enqueued c) (lf_counted c)"
  using ls_count [of "lf_enqueued c" 0]
  by (simp add: qo_works_def lf_counted_def) (simp add: lf_enqueued_def)

lemma lf_counted_simps [simp]:
  "ls_mid (lf_counted c) = 0" "ls_phase (lf_counted c) = LqAsleep" "ls_added (lf_counted c) = {#c#}"
  "ls_ran (lf_counted c) = {#}" "lq_queue (ls_queue (lf_counted c)) = {#c#}"
  "ec_readable (lq_channel (ls_queue (lf_counted c)))"
  by (simp_all add: lf_counted_def lf_enqueued_def lq_bump_def lq_create_def Let_def)

lemma lf_scheduled_reachable:
  "reachable (ql_initial lockfree_ops) (ql_step lockfree_ops) (lf_waiting\<lparr>ql_queue := lf_counted (UserTask n)\<rparr>)"
proof -
  have "ql_step lockfree_ops lf_waiting (lf_waiting\<lparr>ql_queue := lf_enqueued (UserTask n)\<rparr>)"
    by (rule ql_step.schedule) (use lf_adds in simp)
  moreover have "ql_step lockfree_ops (lf_waiting\<lparr>ql_queue := lf_enqueued (UserTask n)\<rparr>)
      (lf_waiting\<lparr>ql_queue := lf_counted (UserTask n)\<rparr>)"
    using ql_step.works [of lockfree_ops "lf_waiting\<lparr>ql_queue := lf_enqueued (UserTask n)\<rparr>" "lf_counted (UserTask n)"]
      lf_counts by simp
  ultimately show ?thesis
    using lf_waiting_reachable by (meson reachable.next_step)
qed

text \<open>The state after a whole \<open>Close\<close> of a waiting loop.\<close>

definition lf_closed :: "loop_task lq_system queue_loop" where
  "lf_closed = lf_waiting\<lparr>ql_state := ql_state lf_waiting AND NOT kLooping, ql_queue := lf_counted CloseTask\<rparr>"

lemma lf_closed_reachable: "reachable (ql_initial lockfree_ops) (ql_step lockfree_ops) lf_closed"
proof -
  let ?a = "lf_waiting\<lparr>ql_state := ql_state lf_waiting AND NOT kLooping, ql_closing := ql_closing lf_waiting + 1\<rparr>"
  let ?b = "?a\<lparr>ql_queue := lf_enqueued CloseTask, ql_closing := ql_closing ?a - 1\<rparr>"
  let ?c = "?b\<lparr>ql_queue := lf_counted CloseTask\<rparr>"
  have "ql_step lockfree_ops lf_waiting ?a"
    by (rule ql_step.close_flag)
  with lf_waiting_reachable have "reachable (ql_initial lockfree_ops) (ql_step lockfree_ops) ?a"
    by (rule reachable.next_step)
  moreover have "ql_step lockfree_ops ?a ?b"
    by (rule ql_step.close_task) (use lf_adds in simp_all)
  ultimately have "reachable (ql_initial lockfree_ops) (ql_step lockfree_ops) ?b"
    by (rule reachable.next_step)
  moreover have "ql_step lockfree_ops ?b ?c"
    by (rule ql_step.works) (use lf_counts in simp)
  ultimately have "reachable (ql_initial lockfree_ops) (ql_step lockfree_ops) ?c"
    by (rule reachable.next_step)
  moreover have "?c = lf_closed"
    by (simp add: lf_closed_def lf_waiting_def lf_create_def)
  ultimately show ?thesis
    by (rule back_subst)
qed

section \<open>The properties\<close>

text \<open>
  C16. No task stays behind in the lock free queue.  Whatever the interleaving of the loop with
  threads that schedule and close: when the loop sleeps in \<open>Wait\<close> and no thread is between the
  enqueue and the count of an \<open>Add\<close>, either every task added so far has run or the event
  channel is readable; and if it is still watched, the loop on its own gets back to the test
  of \<open>while\<close> having run every task.
\<close>

theorem lockfree_loop_drains:
  assumes "reachable (ql_initial lockfree_ops) (ql_step lockfree_ops) s" and "ql_pc s = LoopWaiting"
    and "ls_mid (ql_queue s) = 0"
  shows "(ls_ran (ql_queue s) = ls_added (ql_queue s) \<or> ec_readable (lq_channel (ls_queue (ql_queue s)))) \<and>
    (ql_watched s \<longrightarrow> (\<exists>t. (ql_alone_step lockfree_ops)\<^sup>*\<^sup>* s t \<and> ql_pc t = LoopCheck \<and>
       ls_added (ql_queue t) = ls_added (ql_queue s) \<and> ls_ran (ql_queue t) = ls_added (ql_queue s)))"
  using lsl.loop_wakes [OF assms(1)] lsl.waiting_drains [OF assms(1,2)] assms(2,3) by auto

theorem lockfree_loop_drains_witness:
  "let s = lf_waiting\<lparr>ql_queue := lf_counted (UserTask 7)\<rparr> in
    ls_added (ql_queue s) = {#UserTask 7#} \<and> ls_ran (ql_queue s) = {#} \<and>
    (\<exists>t. (ql_alone_step lockfree_ops)\<^sup>*\<^sup>* s t \<and> ql_pc t = LoopCheck \<and> ls_ran (ql_queue t) = {#UserTask 7#})"
  using lockfree_loop_drains [OF lf_scheduled_reachable [of 7]] by (auto simp: Let_def)

text \<open>
  C17. One handling of the event channel runs every task that was queued when it began.  From
  any reachable state over the lock free queue: if the loop reads the descriptor, then takes
  any number of steps inside \<open>Process\<close> while other threads go on adding, and \<open>Process\<close>
  returns, then everything that was in the queue at the read has been run in between.
\<close>

theorem lockfree_handler_runs_backlog:
  assumes "reachable (ql_initial lockfree_ops) (ql_step lockfree_ops) s"
    and "ql_step lockfree_ops s t" and "\<not> el_draining (ql_pc s)" and "el_draining (ql_pc t)"
    and "(ql_handling_step lockfree_ops)\<^sup>*\<^sup>* t u"
    and "ql_step lockfree_ops u v" and "el_draining (ql_pc u)" and "\<not> el_draining (ql_pc v)"
  shows "lq_queue (ls_queue (ql_queue s)) \<subseteq># ls_ran (ql_queue v) - ls_ran (ql_queue s)"
  using lsl.handler_runs_backlog [OF assms(1-6) assms(8,7)] by simp

theorem lockfree_handler_runs_backlog_witness:
  "\<exists>s v. lq_queue (ls_queue (ql_queue s)) = {#UserTask 7#} \<and> ls_ran (ql_queue s) = {#} \<and>
    (ql_step lockfree_ops)\<^sup>*\<^sup>* s v \<and> UserTask 7 \<in># ls_ran (ql_queue v)"
proof -
  let ?w = "lf_waiting\<lparr>ql_queue := lf_counted (UserTask 7)\<rparr>"
  let ?s = "?w\<lparr>ql_pc := LoopRound [ReportQueue]\<rparr>"
  obtain q where q: "qo_wakes lockfree_ops (lf_counted (UserTask 7)) q"
    using lsl.can_wake [of "lf_counted (UserTask 7)"] by auto
  let ?t = "?s\<lparr>ql_queue := q, ql_pc := LoopDrain []\<rparr>"
  have "ql_step lockfree_ops ?w ?s"
    by (rule ql_step.wait_reports) simp_all
  with lf_scheduled_reachable have s: "reachable (ql_initial lockfree_ops) (ql_step lockfree_ops) ?s"
    by (rule reachable.next_step)
  have t: "ql_step lockfree_ops ?s ?t"
    by (rule ql_step.handle_queue) (use q in simp_all)
  have "ql_inv lockfree_ops ls_inv ?t"
    by (rule lsl.linv_step [OF lsl.linv_reachable [OF s] t])
  from lsl.drain_finishes [OF this, of "[]"] obtain u v where v: "(ql_handling_step lockfree_ops)\<^sup>*\<^sup>* ?t u"
    "ql_step lockfree_ops u v" "el_draining (ql_pc u)" "ql_pc v = LoopRound []"
    by auto
  have "lq_queue (ls_queue (ql_queue ?s)) \<subseteq># ls_ran (ql_queue v) - ls_ran (ql_queue ?s)"
    by (rule lockfree_handler_runs_backlog [OF s t _ _ v(1-3)]) (simp_all add: v(4))
  moreover have "(ql_step lockfree_ops)\<^sup>*\<^sup>* ?t u"
    using v(1) by (rule rtranclp_mono [THEN predicate2D, rotated]) (auto simp: ql_handling_step_def)
  with t v(2) have "(ql_step lockfree_ops)\<^sup>*\<^sup>* ?s v"
    by (meson converse_rtranclp_into_rtranclp rtranclp.rtrancl_into_rtrancl)
  ultimately show ?thesis
    by (intro exI [of _ ?s] exI [of _ v]) simp
qed

text \<open>
  C18. \<open>Close\<close> works over the lock free queue when the loop sleeps in \<open>Wait\<close> until it is
  complete: with the flag cleared and the task of \<open>Close\<close> enqueued and counted, in every run in
  which \<open>Wait\<close> reports the readable event channel the loop leaves \<open>Loop\<close> only with that task
  run, and \<open>Join\<close> returns; and the loop on its own gets there, with every task run.
\<close>

theorem lockfree_close_while_waiting:
  assumes "reachable (ql_initial lockfree_ops) (ql_step lockfree_ops) s" and "ql_pc s = LoopWaiting"
    and "\<not> ql_looping s" and "ql_watched s"
    and "CloseTask \<in># lq_queue (ls_queue (ql_queue s))" and "ls_mid (ql_queue s) = 0"
  shows "(\<forall>t. (ql_prompt_step lockfree_ops)\<^sup>*\<^sup>* s t \<and> ql_pc t = LoopDone \<longrightarrow>
      CloseTask \<in># ls_ran (ql_queue t) \<and> ql_join_returns t) \<and>
    (\<exists>t. (ql_alone_step lockfree_ops)\<^sup>*\<^sup>* s t \<and> ql_pc t = LoopDone \<and>
      ls_ran (ql_queue t) = ls_added (ql_queue s) \<and> ql_join_returns t)"
proof -
  have inv: "ls_inv (ql_queue s)" "ls_phase (ql_queue s) = LqAsleep"
    using lsl.linv_reachable [OF assms(1)] assms(2) by (simp_all add: ql_inv_def)
  have rings: "ec_readable (lq_channel (ls_queue (ql_queue s)))"
    using lsl.wakes [of "ql_queue s"] inv assms(5,6) by (metis empty_not_add_mset insert_DiffM lockfree_ops_simps(3,4))
  have "CloseTask \<in># ls_ran (ql_queue t) \<and> ql_join_returns t"
    if "(ql_prompt_step lockfree_ops)\<^sup>*\<^sup>* s t" "ql_pc t = LoopDone" for t
    using lsl.close_while_waiting [OF assms(1,2,5) _ that] rings by simp
  moreover have "\<exists>t. (ql_alone_step lockfree_ops)\<^sup>*\<^sup>* s t \<and> ql_pc t = LoopDone \<and>
      ls_ran (ql_queue t) = ls_added (ql_queue s) \<and> ql_join_returns t"
  proof -
    from lsl.waiting_drains [OF assms(1,2,4,6)] obtain t where t: "(ql_alone_step lockfree_ops)\<^sup>*\<^sup>* s t"
      "ql_pc t = LoopCheck" "ql_state t = ql_state s" "ls_ran (ql_queue t) = ls_added (ql_queue s)"
      by auto
    let ?u = "t\<lparr>ql_pc := LoopDone, ql_current := False\<rparr>"
    have u: "ql_alone_step lockfree_ops t ?u"
      using ql_step.leave [OF t(2)] t(3) assms(3) by (simp add: ql_alone_step_def ql_looping_def)
    from t(1) u have run: "(ql_alone_step lockfree_ops)\<^sup>*\<^sup>* s ?u"
      by (rule rtranclp.rtrancl_into_rtrancl)
    have "ql_inv lockfree_ops ls_inv ?u"
      by (rule lsl.linv_reachable [OF reachable_rtranclp [OF lsl.alone_run [OF run] assms(1)]])
    moreover have "CloseTask \<in># ls_added (ql_queue s)"
      using inv assms(5) by (simp add: ls_inv_def)
    ultimately have "ql_join_returns ?u"
      using t(4) by (simp add: ql_inv_def ql_join_returns_def)
    with run t(4) show ?thesis
      by (intro exI [of _ ?u]) simp
  qed
  ultimately show ?thesis
    by blast
qed

theorem lockfree_close_while_waiting_witness:
  "\<exists>t. (ql_alone_step lockfree_ops)\<^sup>*\<^sup>* lf_closed t \<and> ql_pc t = LoopDone \<and>
    ls_ran (ql_queue t) = {#CloseTask#} \<and> ql_join_returns t"
proof -
  have "ql_pc lf_closed = LoopWaiting" "\<not> ql_looping lf_closed" "ql_watched lf_closed"
    "CloseTask \<in># lq_queue (ls_queue (ql_queue lf_closed))" "ls_mid (ql_queue lf_closed) = 0"
    "ls_added (ql_queue lf_closed) = {#CloseTask#}"
    by (simp_all add: lf_closed_def ql_looping_def)
  with lockfree_close_while_waiting [OF lf_closed_reachable] show ?thesis
    by simp
qed

section \<open>The blocking loop of theory Event\_Loop\<close>

text \<open>
  Theory Event\_Loop runs a callback as one step; here each of its calls is a step.  The
  state of the one is the state of the other.
\<close>

definition bl_abs :: "event_loop \<Rightarrow> loop_task bq_system queue_loop" where
  "bl_abs s = \<lparr>ql_state = el_state s, ql_pc = el_pc s, ql_current = el_current s,
     ql_queue = \<lparr>bs_queue = el_queue s, bs_draining = el_draining (el_pc s), bs_added = el_added s,
       bs_ran = el_ran s\<rparr>,
     ql_watched = el_watched s, ql_latch = el_latch s, ql_closing = el_closing s\<rparr>"

lemma bl_abs_simps [simp]:
  "ql_state (bl_abs s) = el_state s" "ql_pc (bl_abs s) = el_pc s" "ql_current (bl_abs s) = el_current s"
  "ql_watched (bl_abs s) = el_watched s" "ql_latch (bl_abs s) = el_latch s" "ql_closing (bl_abs s) = el_closing s"
  "bs_queue (ql_queue (bl_abs s)) = el_queue s" "bs_draining (ql_queue (bl_abs s)) = el_draining (el_pc s)"
  "bs_added (ql_queue (bl_abs s)) = el_added s" "bs_ran (ql_queue (bl_abs s)) = el_ran s"
  "ql_looping (bl_abs s) = el_looping s"
  by (simp_all add: bl_abs_def ql_looping_def el_looping_def)

abbreviation bl_runs :: "event_loop \<Rightarrow> event_loop \<Rightarrow> bool" where
  "bl_runs s t \<equiv> (ql_step blocking_ops)\<^sup>*\<^sup>* (bl_abs s) (bl_abs t)"

lemma bl_schedule: "ql_step blocking_ops (bl_abs s) (bl_abs (el_schedule (UserTask n) s))"
proof -
  let ?q = "ql_queue (bl_abs (el_schedule (UserTask n) s))"
  have "qo_adds blocking_ops (UserTask n) (ql_queue (bl_abs s)) ?q"
    using bs_add [of "ql_queue (bl_abs s)" "UserTask n"]
    by (simp add: qo_adds_def bl_abs_def el_schedule_def)
  from ql_step.schedule [OF this] show ?thesis
    by (simp add: bl_abs_def el_schedule_def)
qed

lemma bl_close_flag: "ql_step blocking_ops (bl_abs s) (bl_abs ((el_close_flag s)\<lparr>el_closing := el_closing s + 1\<rparr>))"
  using ql_step.close_flag [of blocking_ops "bl_abs s"] by (simp add: bl_abs_def el_close_flag_def)

lemma bl_close_task:
  assumes "0 < el_closing s"
  shows "ql_step blocking_ops (bl_abs s) (bl_abs ((el_schedule CloseTask s)\<lparr>el_closing := el_closing s - 1\<rparr>))"
proof -
  let ?q = "ql_queue (bl_abs (el_schedule CloseTask s))"
  have "qo_adds blocking_ops CloseTask (ql_queue (bl_abs s)) ?q"
    using bs_add [of "ql_queue (bl_abs s)" CloseTask]
    by (simp add: qo_adds_def bl_abs_def el_schedule_def)
  from ql_step.close_task [OF _ this] assms show ?thesis
    by (simp add: bl_abs_def el_schedule_def)
qed

lemma bl_close: "bl_runs s (el_close s)"
proof -
  let ?u = "(el_close_flag s)\<lparr>el_closing := el_closing s + 1\<rparr>"
  have "ql_step blocking_ops (bl_abs s) (bl_abs ?u)"
    by (rule bl_close_flag)
  moreover have "ql_step blocking_ops (bl_abs ?u) (bl_abs ((el_schedule CloseTask ?u)\<lparr>el_closing := el_closing ?u - 1\<rparr>))"
    by (rule bl_close_task) simp
  moreover have "(el_schedule CloseTask ?u)\<lparr>el_closing := el_closing ?u - 1\<rparr> = el_close s"
    by (simp add: el_close_def el_schedule_def el_close_flag_def)
  ultimately show ?thesis
    by (metis converse_rtranclp_into_rtranclp r_into_rtranclp)
qed

lemma bl_body: "bl_runs s (el_body body n s)"
proof -
  have call: "bl_runs s (el_call c s)" for s c
    using bl_schedule bl_close by (cases c) auto
  have "bl_runs s (fold el_call cs s)" for cs
  proof (induction cs arbitrary: s)
    case (Cons c cs)
    show ?case
      using rtranclp_trans [OF call [of s c] Cons.IH [of "el_call c s"]] by simp
  qed simp
  then show ?thesis
    by (simp add: el_body_def)
qed

text \<open>A callback, run in a state whose position it does not change, and then a step.\<close>

lemma bl_body_frame:
  "el_pc (el_body body n s) = el_pc s" "el_watched (el_body body n s) = el_watched s"
  using callbacks.run_body [of s body n] by (simp_all add: el_callback_moves_def el_frame_def)

lemma bl_handle_queue:
  assumes "el_pc s = LoopRound (ReportQueue # rs)" and "el_watched s"
    and "ec_read (bq_channel (el_queue s)) = Inr ch"
  shows "ql_step blocking_ops (bl_abs s)
    (bl_abs (s\<lparr>el_queue := (el_queue s)\<lparr>bq_channel := ch\<rparr>, el_pc := LoopDrain rs\<rparr>))"
proof -
  let ?q = "ql_queue (bl_abs (s\<lparr>el_queue := (el_queue s)\<lparr>bq_channel := ch\<rparr>, el_pc := LoopDrain rs\<rparr>))"
  have "qo_wakes blocking_ops (ql_queue (bl_abs s)) ?q"
    using bs_read [of "ql_queue (bl_abs s)" ch] assms by (simp add: qo_wakes_def bl_abs_def)
  from ql_step.handle_queue [OF _ _ this] assms(1,2) show ?thesis
    by (simp add: bl_abs_def)
qed

lemma bl_drain:
  assumes "el_pc s = LoopDrain rs" and "bq_pop (el_queue s) = Some (t, q)"
  shows "ql_step blocking_ops (bl_abs s)
    (ql_task t (bl_abs (s\<lparr>el_queue := q, el_ran := el_ran s @ [t]\<rparr>)))"
proof -
  let ?q = "ql_queue (bl_abs (s\<lparr>el_queue := q, el_ran := el_ran s @ [t]\<rparr>))"
  have "qo_runs blocking_ops t (ql_queue (bl_abs s)) ?q"
    using bs_pop [of "ql_queue (bl_abs s)" t q] assms by (simp add: qo_runs_def bl_abs_def)
  from ql_step.drain [OF _ this] assms(1) show ?thesis
    by (simp add: bl_abs_def)
qed

lemma bl_drained:
  assumes "el_pc s = LoopDrain rs" and "bq_pop (el_queue s) = None"
  shows "ql_step blocking_ops (bl_abs s) (bl_abs (s\<lparr>el_pc := LoopRound rs\<rparr>))"
proof -
  let ?q = "ql_queue (bl_abs (s\<lparr>el_pc := LoopRound rs\<rparr>))"
  have "qo_sleeps blocking_ops (ql_queue (bl_abs s)) ?q"
    using bs_done [of "ql_queue (bl_abs s)"] assms by (simp add: qo_sleeps_def bl_abs_def)
  from ql_step.drained [OF _ this] assms(1) show ?thesis
    by (simp add: bl_abs_def)
qed

text \<open>The steps that move the loop and leave its queue alone.\<close>

lemma bl_pc_only:
  assumes "ql_step blocking_ops (bl_abs s) ((bl_abs s)\<lparr>ql_pc := pc\<rparr>)"
    and "el_draining pc = el_draining (el_pc s)"
  shows "bl_runs s (s\<lparr>el_pc := pc\<rparr>)"
proof -
  have "bl_abs (s\<lparr>el_pc := pc\<rparr>) = (bl_abs s)\<lparr>ql_pc := pc\<rparr>"
    using assms(2) by (simp add: bl_abs_def)
  with assms(1) show ?thesis by simp
qed

lemma bl_step_moves:
  assumes "el_step body s t"
  shows "bl_runs s t"
  using assms
proof cases
  case load
  with ql_step.load [of "bl_abs s" blocking_ops] show ?thesis by (simp add: bl_pc_only)
next
  case (refuse v)
  with ql_step.refuse [of "bl_abs s" v blocking_ops] show ?thesis by (simp add: bl_pc_only)
next
  case (enter v)
  with ql_step.enter [of "bl_abs s" v blocking_ops] show ?thesis
    by (intro r_into_rtranclp) (simp add: bl_abs_def)
next
  case (again v)
  with ql_step.again [of "bl_abs s" v blocking_ops] show ?thesis by (simp add: bl_pc_only)
next
  case go
  with ql_step.go [of "bl_abs s" blocking_ops] show ?thesis by (simp add: bl_pc_only)
next
  case leave
  with ql_step.leave [of "bl_abs s" blocking_ops] show ?thesis
    by (intro r_into_rtranclp) (simp add: bl_abs_def ql_looping_def el_looping_def)
next
  case wait_fails
  with ql_step.wait_fails [of "bl_abs s" blocking_ops] show ?thesis by (simp add: bl_pc_only)
next
  case (wait_reports rs)
  with ql_step.wait_reports [of "bl_abs s" rs blocking_ops] show ?thesis by (simp add: bl_pc_only)
next
  case round_end
  with ql_step.round_end [of "bl_abs s" blocking_ops] show ?thesis by (simp add: bl_pc_only)
next
  case (handle_other n rs)
  let ?u = "el_body body n s"
  have "bl_runs ?u (?u\<lparr>el_pc := LoopRound rs\<rparr>)"
    using ql_step.handle_other [of "bl_abs ?u" n rs blocking_ops] handle_other(2)
    by (intro bl_pc_only) (simp_all add: bl_body_frame)
  with bl_body [of s body n] handle_other(1) show ?thesis
    by (metis rtranclp_trans)
next
  case (handle_removed rs)
  with ql_step.handle_removed [of "bl_abs s" rs blocking_ops] show ?thesis by (simp add: bl_pc_only)
next
  case (handle_queue rs ch)
  with bl_handle_queue [of s rs ch] show ?thesis by (auto intro: r_into_rtranclp)
next
  case (drain rs k q)
  let ?u = "s\<lparr>el_queue := q, el_ran := el_ran s @ [k]\<rparr>"
  have d: "ql_step blocking_ops (bl_abs s) (ql_task k (bl_abs ?u))"
    using drain(2,3) by (rule bl_drain)
  show ?thesis
  proof (cases k)
    case CloseTask
    with d drain(1) show ?thesis by (simp add: bl_abs_def r_into_rtranclp)
  next
    case (UserTask n)
    with d have "ql_step blocking_ops (bl_abs s) (bl_abs ?u)" by simp
    with bl_body [of ?u body n] drain(1) UserTask show ?thesis
      by (simp add: converse_rtranclp_into_rtranclp)
  qed
next
  case (drained rs)
  with bl_drained [of s rs] show ?thesis by (auto intro: r_into_rtranclp)
next
  case (ext_schedule n)
  with bl_schedule [of s n] show ?thesis by (auto intro: r_into_rtranclp)
next
  case ext_close_flag
  with bl_close_flag [of s] show ?thesis by (auto intro: r_into_rtranclp)
next
  case ext_close_task
  with bl_close_task [of s] show ?thesis by (auto intro: r_into_rtranclp)
qed

text \<open>
  The event loop of theory Event\_Loop, whose callbacks are single steps, refines the loop
  in which their calls interleave with everything else: its initial state is an initial state
  there, and each of its steps is a run there, so every state it reaches is reached there.
\<close>

theorem blocking_loop_refines:
  assumes "reachable el_initial (el_step body) s"
  shows "reachable (ql_initial blocking_ops) (ql_step blocking_ops) (bl_abs s) \<and>
    (\<forall>t. el_step body s t \<longrightarrow> (ql_step blocking_ops)\<^sup>*\<^sup>* (bl_abs s) (bl_abs t))"
proof -
  have "reachable (ql_initial blocking_ops) (ql_step blocking_ops) (bl_abs s)"
    using assms
  proof (induction rule: reachable.induct)
    case (start s)
    then show ?case
      by (intro reachable.start)
        (simp add: el_initial_def ql_initial_def bs_initial_def bl_abs_def el_create_def)
  next
    case (next_step s t)
    then show ?case
      using reachable_rtranclp [OF bl_step_moves] by blast
  qed
  then show ?thesis
    using bl_step_moves by blast
qed

theorem blocking_loop_refines_witness:
  "reachable (ql_initial blocking_ops) (ql_step blocking_ops) (bl_abs (el_schedule (UserTask 4) el_waiting))"
proof -
  have "reachable el_initial (el_step (\<lambda>_. [CallClose])) (el_schedule (UserTask 4) el_waiting)"
    by (rule reachable.next_step [OF el_waiting_reachable]) (rule el_step.ext_schedule)
  with blocking_loop_refines [of "\<lambda>_. [CallClose]"] show ?thesis by blast
qed

end
