(* ===== verification/Bench_Event_Queue.thy ===== *)
theory Bench_Event_Queue
  imports Queue_Loop_Properties Loop_Parts
begin

text \<open>
  bench/bench\_event\_queue.cc: \<open>thread\<close> threads of \<open>std::async\<close> each call \<open>Schedule\<close> \<open>n\<close>
  times on one event loop with a callback that counts a latch down, and the program waits for
  the latch.  The loop is the one of theory Queue\_Loop over any of the three queues; nanobench
  (a library outside the repository) only calls the measured lambda once.
\<close>

section \<open>The program\<close>

text \<open>The number of calls each thread has left, and the latch.\<close>

record 'q bench_run =
  br_loop :: "'q queue_loop"
  br_left :: "nat list"
  br_latch :: nat

text \<open>The measured lambda, entered on a loop that has nothing of it yet.\<close>

definition br_start :: "nat \<Rightarrow> nat \<Rightarrow> 'q queue_loop \<Rightarrow> 'q bench_run" where
  "br_start thread n l = \<lparr>br_loop = l, br_left = replicate thread n, br_latch = thread * n\<rparr>"

definition br_initial :: "'q queue_ops \<Rightarrow> nat \<Rightarrow> nat \<Rightarrow> 'q bench_run \<Rightarrow> bool" where
  "br_initial Q thread n s \<longleftrightarrow> (\<exists>l. ql_initial Q l \<and> s = br_start thread n l)"

text \<open>The callback is \<open>UserTask 0\<close>: \<open>latch.CountDown()\<close>.\<close>

definition br_count_down :: "'q queue_ops \<Rightarrow> 'q queue_loop \<Rightarrow> 'q queue_loop \<Rightarrow> nat \<Rightarrow> nat" where
  "br_count_down Q l l' latch = latch - (size (qo_ran Q (ql_queue l')) - size (qo_ran Q (ql_queue l)))"

inductive br_step :: "'q queue_ops \<Rightarrow> 'q bench_run \<Rightarrow> 'q bench_run \<Rightarrow> bool"
  for Q :: "'q queue_ops"
where
  br_moves: "ql_alone_step Q (br_loop s) l \<Longrightarrow>
    br_step Q s (s\<lparr>br_loop := l, br_latch := br_count_down Q (br_loop s) l (br_latch s)\<rparr>)"
| br_schedules: "i < length (br_left s) \<Longrightarrow> br_left s ! i = Suc k \<Longrightarrow>
    qo_adds Q (UserTask 0) (ql_queue (br_loop s)) q \<Longrightarrow>
    br_step Q s (s\<lparr>br_loop := (br_loop s)\<lparr>ql_queue := q\<rparr>, br_left := (br_left s)[i := k]\<rparr>)"

text \<open>\<open>latch.Await()\<close> returns.\<close>

definition br_await_returns :: "'q bench_run \<Rightarrow> bool" where
  "br_await_returns s \<longleftrightarrow> br_latch s = 0"

text \<open>The second \<open>benchmark\<close>: one run for 1, 2, 4, 8 and 16 threads, then \<open>Close\<close>.\<close>

function bench_threads_from :: "nat \<Rightarrow> nat list" where
  "bench_threads_from i = (if 0 < i \<and> i \<le> 16 then i # bench_threads_from (i * 2) else [])"
  by auto
termination by (relation "measure (\<lambda>i. 17 - i)") auto

declare bench_threads_from.simps [simp del]

definition bench_calls :: nat where
  "bench_calls = 1000000"

text \<open>\<open>main\<close>: the options, the topic and the number of threads of every run, in order.\<close>

definition bench_options :: "chrono \<Rightarrow> event_queue_type \<Rightarrow> event_loop_options" where
  "bench_options K q = (default_loop_options K)
     \<lparr>eo_timer_queue_type := kHeap, eo_selector_type := kEpoll, eo_event_queue_type := q\<rparr>"

definition bench_runs :: "chrono \<Rightarrow> (event_loop_options \<times> string \<times> nat) list" where
  "bench_runs K =
     concat (map (\<lambda>(q, topic). map (\<lambda>i. (bench_options K q, topic, i)) (bench_threads_from 1))
       [(kLockFreeQueue, ''LockFreeQueue''), (kBlockingQueue, ''BlockingQueue''),
        (kDoubleBufferQueue, ''DoubleBufferQueue'')])"

lemma bench_threads: "bench_threads_from 1 = [1, 2, 4, 8, 16]"
  by (simp add: bench_threads_from.simps)

section \<open>The counts\<close>

definition br_inv :: "'q queue_ops \<Rightarrow> nat \<Rightarrow> 'q bench_run \<Rightarrow> bool" where
  "br_inv Q calls s \<longleftrightarrow>
     qo_added Q (ql_queue (br_loop s)) = replicate_mset (calls - sum_list (br_left s)) (UserTask 0) \<and>
     sum_list (br_left s) \<le> calls \<and>
     br_latch s + size (qo_ran Q (ql_queue (br_loop s))) = calls"

lemma sum_list_dec:
  "i < length xs \<Longrightarrow> xs ! i = Suc k \<Longrightarrow> sum_list xs = Suc (sum_list (xs[i := k]))"
proof (induction xs arbitrary: i)
  case (Cons x xs)
  then show ?case by (cases i) simp_all
qed simp

lemma mset_sub_same_size: "M \<subseteq># N \<Longrightarrow> size M = size N \<Longrightarrow> M = N"
  by (metis mset_subset_size nless_le subset_mset.less_le)

context loop_queue
begin

lemma br_reaches_loop:
  assumes "reachable (br_initial Q thread n) (br_step Q) s"
  shows "reachable (ql_initial Q) (ql_step Q) (br_loop s)"
  using assms
proof (induction rule: reachable.induct)
  case (start s)
  then show ?case
    by (auto simp: br_initial_def br_start_def intro: reachable.start)
next
  case (next_step s t)
  from next_step.hyps(2) next_step.IH show ?case
    by cases (auto simp: ql_alone_step_def intro: reachable.next_step ql_step.schedule)
qed

lemma br_inv_step:
  assumes "br_inv Q calls s" and "linv (br_loop s)" and "br_step Q s t"
  shows "br_inv Q calls t"
  using assms(3)
proof cases
  case (br_moves l)
  have l: "linv l" and added: "qo_added Q (ql_queue l) = qo_added Q (ql_queue (br_loop s))"
    using br_moves(2) linv_step [OF assms(2)] by (auto simp: ql_alone_step_def)
  have "qo_ran Q (ql_queue (br_loop s)) \<subseteq># qo_ran Q (ql_queue l)"
    using br_moves(2) ql_step_queue_step [of Q "br_loop s" l] ran_grows
    by (auto simp: ql_alone_step_def)
  then have g: "size (qo_ran Q (ql_queue (br_loop s))) \<le> size (qo_ran Q (ql_queue l))"
    by (rule size_mset_mono)
  have "qo_ran Q (ql_queue l) \<subseteq># qo_added Q (ql_queue l)"
    using l ran_added by (simp add: ql_inv_def)
  then have "size (qo_ran Q (ql_queue l)) \<le> calls"
    using added assms(1) size_mset_mono by (fastforce simp: br_inv_def)
  with g added assms(1) show ?thesis
    unfolding br_moves(1) by (auto simp: br_inv_def br_count_down_def)
next
  case (br_schedules i k q)
  have dec: "sum_list (br_left s) = Suc (sum_list ((br_left s)[i := k]))"
    using br_schedules(2,3) by (rule sum_list_dec)
  with assms(1) have "calls - sum_list ((br_left s)[i := k]) = Suc (calls - sum_list (br_left s))"
    by (auto simp: br_inv_def)
  with br_schedules dec assms(1) show ?thesis
    by (simp add: br_inv_def qo_adds_def)
qed

lemma br_inv_reachable:
  assumes "reachable (br_initial Q thread n) (br_step Q) s"
  shows "br_inv Q (thread * n) s"
  using assms
proof (induction rule: reachable.induct)
  case (start s)
  then obtain l where "ql_initial Q l" "s = br_start thread n l"
    by (auto simp: br_initial_def)
  then show ?case
    using initially [of "ql_queue l"] by (simp add: br_inv_def br_start_def ql_initial_def sum_list_replicate)
next
  case (next_step s t)
  then show ?case
    using br_inv_step linv_reachable br_reaches_loop by blast
qed

text \<open>Only user tasks are scheduled, so the event channel stays watched.\<close>

lemma br_watched:
  assumes "reachable (br_initial Q thread n) (br_step Q) s"
  shows "ql_watched (br_loop s)"
proof -
  have inv: "linv (br_loop s)"
    using assms by (intro linv_reachable br_reaches_loop)
  then have "qo_ran Q (ql_queue (br_loop s)) \<subseteq># qo_added Q (ql_queue (br_loop s))"
    using ran_added by (simp add: ql_inv_def)
  moreover have "CloseTask \<notin># qo_added Q (ql_queue (br_loop s))"
    using br_inv_reachable [OF assms] by (auto simp: br_inv_def in_replicate_mset)
  ultimately have "CloseTask \<notin># qo_ran Q (ql_queue (br_loop s))"
    by (meson mset_subset_eqD)
  with inv show ?thesis
    by (simp add: ql_inv_def)
qed

lemma br_latch_counts:
  assumes "reachable (br_initial Q thread n) (br_step Q) s"
  shows "br_latch s + size (qo_ran Q (ql_queue (br_loop s))) = thread * n"
    and "size (qo_added Q (ql_queue (br_loop s))) + sum_list (br_left s) = thread * n"
  using br_inv_reachable [OF assms] by (auto simp: br_inv_def)

lemma br_alone_run:
  assumes "(ql_alone_step Q)\<^sup>*\<^sup>* (br_loop s) l'"
  shows "\<exists>t. (br_step Q)\<^sup>*\<^sup>* s t \<and> br_loop t = l' \<and> br_left t = br_left s"
  using assms
proof (induction rule: rtranclp_induct)
  case (step l' l'')
  then obtain t where "(br_step Q)\<^sup>*\<^sup>* s t" "br_loop t = l'" "br_left t = br_left s"
    by blast
  with br_moves [of Q t l''] step.hyps(2) show ?case
    by (intro exI [of _ "t\<lparr>br_loop := l'', br_latch := br_count_down Q (br_loop t) l'' (br_latch t)\<rparr>"])
      (simp add: rtranclp.rtrancl_into_rtrancl)
qed auto

lemma br_finishes:
  assumes s: "reachable (br_initial Q thread n) (br_step Q) s" and pc: "ql_pc (br_loop s) = LoopWaiting"
    and "settled (ql_queue (br_loop s))" and "sum_list (br_left s) = 0"
  shows "\<exists>t. (br_step Q)\<^sup>*\<^sup>* s t \<and> br_await_returns t"
proof -
  note loop = br_reaches_loop [OF s]
  from waiting_drains [OF loop pc br_watched [OF s] assms(3)] obtain l where l:
    "(ql_alone_step Q)\<^sup>*\<^sup>* (br_loop s) l"
    "qo_added Q (ql_queue l) = qo_added Q (ql_queue (br_loop s))"
    "qo_ran Q (ql_queue l) = qo_added Q (ql_queue (br_loop s))"
    by blast
  from br_alone_run [OF l(1)] obtain t where t:
    "(br_step Q)\<^sup>*\<^sup>* s t" "br_loop t = l" "br_left t = br_left s"
    by blast
  have "reachable (br_initial Q thread n) (br_step Q) t"
    using t(1) s by (rule reachable_rtranclp)
  from br_latch_counts [OF this] l(2,3) t(2,3) assms(4) have "br_latch t = 0"
    by simp
  with t(1) show ?thesis
    by (auto simp: br_await_returns_def)
qed

end

text \<open>
  C25. The benchmark of the event queues counts right, here over the lock free queue.  With any
  number of threads and calls and any interleaving: the latch reaches zero only when every
  thread has made all its calls and every callback has run, each once; and when the threads
  are done and the loop sleeps, the loop on its own brings the latch to zero.
\<close>

theorem bench_latch_exact:
  assumes "reachable (br_initial lockfree_ops thread n) (br_step lockfree_ops) s"
  shows "(br_await_returns s \<longrightarrow> (\<forall>k \<in> set (br_left s). k = 0) \<and>
      ls_ran (ql_queue (br_loop s)) = replicate_mset (thread * n) (UserTask 0)) \<and>
    ((\<forall>k \<in> set (br_left s). k = 0) \<and> ql_pc (br_loop s) = LoopWaiting \<and> ls_mid (ql_queue (br_loop s)) = 0 \<longrightarrow>
      (\<exists>t. (br_step lockfree_ops)\<^sup>*\<^sup>* s t \<and> br_await_returns t))"
proof -
  note counts = lsl.br_latch_counts [OF assms]
  have inv: "br_inv lockfree_ops (thread * n) s"
    using assms by (rule lsl.br_inv_reachable)
  have "ls_inv (ql_queue (br_loop s))"
    using lsl.linv_reachable [OF lsl.br_reaches_loop [OF assms]] by (simp add: ql_inv_def)
  then have sub: "ls_ran (ql_queue (br_loop s)) \<subseteq># ls_added (ql_queue (br_loop s))"
    by (simp add: ls_inv_def)
  have "sum_list (br_left s) = 0 \<and> ls_ran (ql_queue (br_loop s)) = replicate_mset (thread * n) (UserTask 0)"
    if "br_await_returns s"
  proof -
    from that counts(1) have all: "size (ls_ran (ql_queue (br_loop s))) = thread * n"
      by (simp add: br_await_returns_def)
    moreover from all counts(2) size_mset_mono [OF sub] have "sum_list (br_left s) = 0"
      by (simp del: sum_list_eq_0_iff)
    moreover from this inv have "ls_added (ql_queue (br_loop s)) = replicate_mset (thread * n) (UserTask 0)"
      by (simp add: br_inv_def del: sum_list_eq_0_iff)
    ultimately show ?thesis
      using sub by (simp add: mset_sub_same_size)
  qed
  then show ?thesis
    using lsl.br_finishes [OF assms] by auto
qed

text \<open>One thread that has made its one call.\<close>

theorem bench_latch_exact_witness:
  "\<exists>s t. reachable (br_initial lockfree_ops 1 1) (br_step lockfree_ops) s \<and> \<not> br_await_returns s \<and>
    (br_step lockfree_ops)\<^sup>*\<^sup>* s t \<and> br_await_returns t"
proof -
  let ?a = "br_start 1 1 lf_create"
  have a: "reachable (br_initial lockfree_ops 1 1) (br_step lockfree_ops) ?a"
    by (rule reachable.start) (use lf_create_initial in \<open>auto simp: br_initial_def\<close>)
  have "(ql_alone_step lockfree_ops)\<^sup>*\<^sup>* (br_loop ?a) lf_waiting"
    using lf_enters by (simp add: br_start_def)
  from lsl.br_alone_run [OF this] obtain b where b: "(br_step lockfree_ops)\<^sup>*\<^sup>* ?a b"
    "br_loop b = lf_waiting" "br_left b = [1]"
    by (auto simp: br_start_def)
  let ?c = "b\<lparr>br_loop := (br_loop b)\<lparr>ql_queue := lf_enqueued (UserTask 0)\<rparr>, br_left := (br_left b)[0 := 0]\<rparr>"
  let ?l = "(br_loop ?c)\<lparr>ql_queue := lf_counted (UserTask 0)\<rparr>"
  let ?d = "?c\<lparr>br_loop := ?l, br_latch := br_count_down lockfree_ops (br_loop ?c) ?l (br_latch ?c)\<rparr>"
  have "br_step lockfree_ops b ?c"
    by (rule br_schedules) (use b lf_adds in simp_all)
  moreover have "ql_step lockfree_ops (br_loop ?c) ?l"
    by (rule ql_step.works) (use lf_counts in simp)
  then have "br_step lockfree_ops ?c ?d"
    by (intro br_moves) (simp add: ql_alone_step_def lf_enqueued_def)
  ultimately have d: "reachable (br_initial lockfree_ops 1 1) (br_step lockfree_ops) ?d"
    using reachable_rtranclp [OF b(1) a] by (meson reachable.next_step)
  have up: "br_latch ?d = 1"
    using lsl.br_latch_counts(1) [OF d] b(2) by simp
  have "\<exists>t. (br_step lockfree_ops)\<^sup>*\<^sup>* ?d t \<and> br_await_returns t"
    using bench_latch_exact [OF d] b(2,3) by simp
  with d up show ?thesis
    unfolding br_await_returns_def by (metis zero_neq_one)
qed

end
