(* ===== verification/Bench_Timer_Queue.thy ===== *)
theory Bench_Timer_Queue
  imports Timer_Heap_Properties Loop_Parts
begin

text \<open>
  bench/bench\_timer\_queue.cc: the main thread calls \<open>ScheduleAfter\<close> with delays of a generator
  and a callback that increments a counter, while the loop's thread processes the timer queue.
  The queue is the heap queue of theory Timer\_Heap.  The theory shows that its timers are kept
  in a ledger without loss: every one-shot timer is pending or has been counted once.
\<close>

section \<open>The program\<close>

text \<open>
  A call of \<open>ScheduleAfter\<close>, or a \<open>Process\<close> of the loop; \<open>env\<close> are the calls that other threads
  get in around each callback of that \<open>Process\<close>, while the mutex is released.
\<close>

datatype timer_bench_op = TbSchedule usec | TbProcess "unit \<Rightarrow> nat \<Rightarrow> unit timer_cmd list"

record timer_bench =
  tb_queue :: "unit heap_queue"
  tb_counter :: nat

definition tb_create :: timer_bench where
  "tb_create = \<lparr>tb_queue = hq_create, tb_counter = 0\<rparr>"

text \<open>\<open>counter++\<close> is the callback of every timer, so \<open>Process\<close> adds the timers it ran.\<close>

fun tb_op :: "chrono \<Rightarrow> (nat \<Rightarrow> usec) \<Rightarrow> timer_bench_op \<Rightarrow> timer_bench \<Rightarrow> timer_bench option" where
  "tb_op K clk (TbSchedule delay) s =
     Some (s\<lparr>tb_queue := snd (hq_add K clk delay 0 () (tb_queue s))\<rparr>)"
| "tb_op K clk (TbProcess env) s =
     Option.bind (hq_process K clk env (tb_queue s))
       (\<lambda>(rs, q). Some (s\<lparr>tb_queue := q, tb_counter := tb_counter s + length rs\<rparr>))"

fun tb_run :: "chrono \<Rightarrow> (nat \<Rightarrow> usec) \<Rightarrow> timer_bench_op list \<Rightarrow> timer_bench \<Rightarrow> timer_bench option" where
  "tb_run K clk [] s = Some s"
| "tb_run K clk (p # ps) s = Option.bind (tb_op K clk p s) (tb_run K clk ps)"

text \<open>The generators, as the bounds of their delays in milliseconds.\<close>

definition tb_generators :: "(string \<times> int \<times> int) list" where
  "tb_generators =
     [(''RandomDelay(500, 5000)'', 500, 5000), (''RandomDelay(500, 3000)'', 500, 3000),
      (''RandomDelay(500, 1000)'', 500, 1000), (''Delay(500)'', 500, 500)]"

definition tb_schedules :: "(nat \<Rightarrow> int) \<Rightarrow> nat \<Rightarrow> timer_bench_op list" where
  "tb_schedules generator n = map (\<lambda>k. TbSchedule (generator k * 1000)) [0..<n]"

text \<open>\<open>main\<close>: the options, the topic and the generator of every run, in order.\<close>

definition tb_options :: "chrono \<Rightarrow> timer_queue_type \<Rightarrow> event_loop_options" where
  "tb_options K q = (default_loop_options K)
     \<lparr>eo_event_queue_type := kLockFreeQueue, eo_timer_queue_type := q, eo_selector_type := kEpoll\<rparr>"

definition tb_benchmarks :: "chrono \<Rightarrow> (event_loop_options \<times> string \<times> (string \<times> int \<times> int)) list" where
  "tb_benchmarks K =
     concat (map (\<lambda>(q, topic). map (\<lambda>g. (tb_options K q, topic, g)) tb_generators)
       [(kHeap, ''HeapQueue''), (kHashWheel, ''HashTimeWheel'')])"

section \<open>The ledger\<close>

text \<open>Other threads only schedule one-shot timers.\<close>

fun adds_once :: "'c timer_cmd \<Rightarrow> bool" where
  "adds_once (CmdAdd d i c) \<longleftrightarrow> i = 0"
| "adds_once (CmdCancel tid) \<longleftrightarrow> False"

fun tb_op_ok :: "timer_bench_op \<Rightarrow> bool" where
  "tb_op_ok (TbSchedule d) \<longleftrightarrow> True"
| "tb_op_ok (TbProcess env) \<longleftrightarrow> (\<forall>c n. \<forall>cmd \<in> set (env c n). adds_once cmd)"

definition ledger :: "'c heap_queue \<Rightarrow> nat list \<Rightarrow> bool" where
  "ledger q fired \<longleftrightarrow>
     (\<forall>tid e. hq_table q tid = Some e \<longrightarrow> he_interval e = 0) \<and>
     (\<forall>tid. count (mset fired) tid = (if 0 < tid \<and> tid \<le> hq_counter q \<and> hq_table q tid = None then 1 else 0))"

lemma ledger_add:
  assumes "hq_wf x q" and "ledger q fired" and "Suc (hq_counter q) < 2 ^ 64"
  shows "ledger (snd (hq_add K clk d 0 c q)) fired"
proof -
  have tid: "to_u64 (int (hq_counter q) + 1) = Suc (hq_counter q)"
    using assms(3) by (simp add: hq_id_eq)
  have tab: "hq_table (snd (hq_add K clk d 0 c q)) = (hq_table q)
      (Suc (hq_counter q) \<mapsto> \<lparr>he_id = Suc (hq_counter q), he_callback = c, he_interval = 0\<rparr>)"
    using hq_add_table [of q K clk d 0 c] hq_fresh [OF assms(1)] tid by simp
  show ?thesis
    using assms(2) by (auto simp: ledger_def tab hq_add_simps le_Suc_eq)
qed

lemma ledger_cmds:
  assumes "hq_wf x q" and "ledger q fired" and "\<forall>cmd \<in> set cmds. adds_once cmd"
    and "hq_counter (fold (hq_cmd K clk) cmds q) < 2 ^ 64"
  shows "ledger (fold (hq_cmd K clk) cmds q) fired"
  using assms
proof (induction cmds arbitrary: q)
  case (Cons cmd cmds)
  then obtain d c where cmd: "cmd = CmdAdd d 0 c"
    by (cases cmd) auto
  let ?q = "snd (hq_add K clk d 0 c q)"
  have "hq_counter ?q \<le> hq_counter (fold (hq_cmd K clk) cmds ?q)"
    by (rule hq_cmds_mono)
  then have bound: "Suc (hq_counter q) < 2 ^ 64"
    using Cons.prems(4) cmd by (simp add: hq_add_simps)
  have "hq_wf x ?q" "ledger ?q fired"
    using hq_wf_add [OF Cons.prems(1) bound] ledger_add [OF Cons.prems(1,2) bound] by auto
  with Cons cmd show ?case by simp
qed simp

text \<open>A timer that is fired leaves the table and enters the ledger.\<close>

lemma ledger_fire:
  assumes wf: "hq_wf (Some tid) q" and "ledger q fired" and "hq_table q tid = Some timer" and "he_id timer = tid"
    and "\<forall>c n. \<forall>cmd \<in> set (env c n). adds_once cmd" and "hq_counter (hq_fire K clk env timer q) < 2 ^ 64"
  shows "ledger (hq_fire K clk env timer q) (fired @ [tid])"
proof -
  have once: "he_interval timer = 0"
    using assms(2,3) by (auto simp: ledger_def)
  let ?q = "fold (hq_cmd K clk) (env (he_callback timer) (hq_reads q)) q"
  have fire: "hq_fire K clk env timer q = ?q\<lparr>hq_table := (hq_table ?q)(tid := None)\<rparr>"
    using once assms(4) by (simp add: hq_fire_def Let_def)
  have led: "ledger ?q fired"
    using assms(5,6) fire by (intro ledger_cmds [OF wf assms(2)]) simp_all
  have "CmdCancel tid \<notin> set (env (he_callback timer) (hq_reads q))"
    using assms(5) adds_once.simps(2) by blast
  then have live: "hq_table ?q tid = Some timer"
    by (rule hq_cmds_table_keep [OF assms(3)])
  have "0 < tid \<and> tid \<le> hq_counter q"
    using wf assms(3) by (auto simp: hq_wf_def)
  moreover have "hq_counter q \<le> hq_counter ?q"
    by (rule hq_cmds_mono)
  ultimately have tid: "0 < tid" "tid \<le> hq_counter ?q"
    by auto
  show ?thesis
    unfolding fire using led live tid by (auto simp: ledger_def)
qed

lemma ledger_runs:
  assumes "hq_runs K clk env now q rs q'" and "hq_wf None q" and "hq_counter q' < 2 ^ 64"
    and "\<forall>c n. \<forall>cmd \<in> set (env c n). adds_once cmd"
  shows "ledger q fired \<Longrightarrow> ledger q' (fired @ map snd rs)"
  using assms(1-3)
proof (induction arbitrary: fired rule: hq_runs_wf_induct)
  case (dead q item ts rs q')
  have "ledger (q\<lparr>hq_queue := ts\<rparr>) fired"
    using dead.prems(1) by (simp add: ledger_def)
  then show ?case by (rule dead.IH)
next
  case (live q item ts timer rs q')
  have "ledger (q\<lparr>hq_queue := ts\<rparr>) fired"
    using live.prems(1) by (simp add: ledger_def)
  then have "ledger (hq_fire K clk env timer (q\<lparr>hq_queue := ts\<rparr>)) (fired @ [to_timer item])"
    using live.hyps(4,5,6,7) assms(4) by (intro ledger_fire) simp_all
  from live.IH [OF this] show ?case by simp
qed simp

lemma ledger_process:
  assumes "hq_process K clk env q = Some (rs, q')" and "hq_wf None q" and "hq_counter q' < 2 ^ 64"
    and "\<forall>c n. \<forall>cmd \<in> set (env c n). adds_once cmd" and "ledger q fired"
  shows "ledger q' (fired @ map snd rs) \<and> hq_wf None q'"
proof -
  obtain q2 where run: "hq_runs K clk env (clk (hq_reads q)) (q\<lparr>hq_reads := Suc (hq_reads q)\<rparr>) rs q2"
    and q': "q' = (case pq_top (hq_queue q2) of None \<Rightarrow> q2 | Some item \<Rightarrow> hq_wakeup_at (to_expire item) q2)"
    using hq_processE [OF assms(1)] .
  have eqs: "hq_counter q' = hq_counter q2" "hq_queue q' = hq_queue q2" "hq_table q' = hq_table q2"
    using q' by (auto simp: hq_wakeup_at_def split: option.splits)
  have wf: "hq_wf None (q\<lparr>hq_reads := Suc (hq_reads q)\<rparr>)"
    using assms(2) by (simp add: hq_wf_def hq_timeouts_def)
  have "ledger q2 (fired @ map snd rs)"
    using assms(3-5) eqs by (intro ledger_runs [OF run wf]) (simp_all add: ledger_def)
  moreover have "hq_wf None q2"
    using hq_wf_runs [OF run wf] assms(3) eqs by simp
  ultimately show ?thesis
    using eqs by (simp add: ledger_def hq_wf_def hq_timeouts_def)
qed

text \<open>The counter of the ids given out never goes back.\<close>

lemma tb_op_mono: "tb_op K clk p s = Some t \<Longrightarrow> hq_counter (tb_queue s) \<le> hq_counter (tb_queue t)"
proof (cases p)
  case (TbProcess env)
  assume "tb_op K clk p s = Some t"
  with TbProcess obtain rs q where run: "hq_process K clk env (tb_queue s) = Some (rs, q)" "tb_queue t = q"
    by (auto simp: bind_eq_Some_conv)
  from run(1) have "hq_counter (tb_queue s) \<le> hq_counter q"
    by (rule hq_processE) (auto simp: hq_wakeup_at_def dest: hq_runs_mono split: option.splits)
  with run(2) show ?thesis by simp
qed (auto simp: hq_add_simps)

lemma tb_run_mono: "tb_run K clk ps s = Some t \<Longrightarrow> hq_counter (tb_queue s) \<le> hq_counter (tb_queue t)"
proof (induction ps arbitrary: s)
  case (Cons p ps)
  then obtain u where "tb_op K clk p s = Some u" "tb_run K clk ps u = Some t"
    by (auto simp: bind_eq_Some_conv)
  with tb_op_mono [of K clk p s u] Cons.IH [of u] show ?case by simp
qed simp

definition tb_inv :: "timer_bench \<Rightarrow> bool" where
  "tb_inv s \<longleftrightarrow> hq_wf None (tb_queue s) \<and> (\<exists>fired. ledger (tb_queue s) fired \<and> length fired = tb_counter s)"

lemma tb_inv_op:
  assumes "tb_inv s" and "tb_op K clk p s = Some t" and "tb_op_ok p" and "hq_counter (tb_queue t) < 2 ^ 64"
  shows "tb_inv t"
proof (cases p)
  case (TbSchedule d)
  let ?q = "snd (hq_add K clk d 0 () (tb_queue s))"
  from assms(1) obtain fired where fired: "ledger (tb_queue s) fired" "length fired = tb_counter s"
    and wf: "hq_wf None (tb_queue s)"
    by (auto simp: tb_inv_def)
  have t: "t = s\<lparr>tb_queue := ?q\<rparr>"
    using assms(2) TbSchedule by simp
  then have bound: "Suc (hq_counter (tb_queue s)) < 2 ^ 64"
    using assms(4) by (simp add: hq_add_simps)
  have "hq_wf None ?q" "ledger ?q fired"
    using hq_wf_add [OF wf bound] ledger_add [OF wf fired(1) bound] by auto
  with t fired(2) show ?thesis
    by (auto simp: tb_inv_def)
next
  case (TbProcess env)
  with assms(2) obtain rs q where run: "hq_process K clk env (tb_queue s) = Some (rs, q)"
    "t = s\<lparr>tb_queue := q, tb_counter := tb_counter s + length rs\<rparr>"
    by (auto simp: bind_eq_Some_conv)
  from assms(1) obtain fired where fired: "ledger (tb_queue s) fired" "length fired = tb_counter s"
    and wf: "hq_wf None (tb_queue s)"
    by (auto simp: tb_inv_def)
  have "ledger q (fired @ map snd rs) \<and> hq_wf None q"
    using assms(3,4) TbProcess run(2) by (intro ledger_process [OF run(1) wf _ _ fired(1)]) simp_all
  with fired(2) run(2) show ?thesis
    by (auto simp: tb_inv_def intro!: exI [of _ "fired @ map snd rs"])
qed

lemma tb_inv_run:
  "tb_inv s \<Longrightarrow> tb_run K clk ps s = Some t \<Longrightarrow> \<forall>p \<in> set ps. tb_op_ok p \<Longrightarrow> hq_counter (tb_queue t) < 2 ^ 64 \<Longrightarrow>
    tb_inv t"
proof (induction ps arbitrary: s)
  case (Cons p ps)
  from Cons.prems(2) obtain u where u: "tb_op K clk p s = Some u" "tb_run K clk ps u = Some t"
    by (auto simp: bind_eq_Some_conv)
  have "tb_inv u"
    using Cons.prems tb_run_mono [OF u(2)] by (intro tb_inv_op [OF Cons.prems(1) u(1)]) auto
  with u(2) Cons show ?case by simp
qed simp

text \<open>The size of a ledger.\<close>

lemma ledger_size:
  assumes "ledger q fired" and "hq_wf None q"
  shows "length fired + card (dom (hq_table q)) = hq_counter q"
proof -
  have sub: "dom (hq_table q) \<subseteq> {1..hq_counter q}"
    using assms(2) by (force simp: hq_wf_def)
  have "mset fired = mset_set ({1..hq_counter q} - dom (hq_table q))"
  proof (rule multiset_eqI)
    fix tid
    show "count (mset fired) tid = count (mset_set ({1..hq_counter q} - dom (hq_table q))) tid"
      using assms(1) by (auto simp: ledger_def count_mset_set' dom_def)
  qed
  then have "length fired = card ({1..hq_counter q} - dom (hq_table q))"
    by (metis size_mset size_mset_set)
  moreover have "card ({1..hq_counter q} - dom (hq_table q)) + card (dom (hq_table q)) = hq_counter q"
    using sub card_mono [OF _ sub] by (simp add: card_Diff_subset finite_subset [OF sub])
  ultimately show ?thesis by simp
qed

lemma tb_process_later:
  assumes "tb_op K clk (TbProcess env) u = Some s" and "hq_wf None (tb_queue u)" and "hq_counter (tb_queue s) < 2 ^ 64"
  shows "\<forall>t \<in> set (hq_queue (tb_queue s)). clk (hq_reads (tb_queue u)) < to_expire t"
proof -
  let ?q = "tb_queue u"
  from assms(1) obtain rs where "hq_process K clk env ?q = Some (rs, tb_queue s)"
    by (auto simp: bind_eq_Some_conv)
  then obtain q2 where run: "hq_runs K clk env (clk (hq_reads ?q)) (?q\<lparr>hq_reads := Suc (hq_reads ?q)\<rparr>) rs q2"
    and s: "tb_queue s = (case pq_top (hq_queue q2) of None \<Rightarrow> q2 | Some item \<Rightarrow> hq_wakeup_at (to_expire item) q2)"
    by (rule hq_processE)
  have eqs: "hq_counter (tb_queue s) = hq_counter q2" "hq_queue (tb_queue s) = hq_queue q2"
    using s by (auto simp: hq_wakeup_at_def split: option.splits)
  have "hq_wf None (?q\<lparr>hq_reads := Suc (hq_reads ?q)\<rparr>)"
    using assms(2) by (simp add: hq_wf_def hq_timeouts_def)
  from hq_runs_due [OF run this] assms(3) eqs show ?thesis
    by simp
qed

lemma tb_create_inv: "tb_inv tb_create"
proof -
  have "ledger (hq_create :: unit heap_queue) []"
    by (auto simp: ledger_def hq_create_def)
  then show ?thesis
    by (simp add: tb_inv_def tb_create_def hq_wf_create)
qed

text \<open>
  The benchmark of the timer queue counts every timer once, and only when it is due.  After
  any sequence of \<open>ScheduleAfter\<close> calls and \<open>Process\<close> calls that returned, other threads
  scheduling during them as well: the counter and the timers still pending are together the
  timers scheduled, and each pending one is later than the reading of the clock at the start of
  the last \<open>Process\<close>.
\<close>

theorem bench_timers_counted:
  assumes "tb_run K clk ps tb_create = Some u" and "tb_op K clk (TbProcess env) u = Some s"
    and "\<forall>p \<in> set ps. tb_op_ok p" and "tb_op_ok (TbProcess env)" and "hq_counter (tb_queue s) < 2 ^ 64"
  shows "tb_counter s + card (dom (hq_table (tb_queue s))) = hq_counter (tb_queue s) \<and>
    (\<forall>tid \<in> dom (hq_table (tb_queue s)). \<exists>t \<in> set (hq_queue (tb_queue s)).
       to_timer t = tid \<and> clk (hq_reads (tb_queue u)) < to_expire t)"
proof -
  have "hq_counter (tb_queue u) < 2 ^ 64"
    using tb_op_mono [OF assms(2)] assms(5) by simp
  then have u: "tb_inv u"
    by (rule tb_inv_run [OF tb_create_inv assms(1,3)])
  then have s: "tb_inv s"
    by (rule tb_inv_op [OF _ assms(2,4,5)])
  then obtain fired where fired: "ledger (tb_queue s) fired" "length fired = tb_counter s"
    and wf: "hq_wf None (tb_queue s)"
    by (auto simp: tb_inv_def)
  have sum: "tb_counter s + card (dom (hq_table (tb_queue s))) = hq_counter (tb_queue s)"
    using ledger_size [OF fired(1) wf] fired(2) by simp
  have later: "\<forall>t \<in> set (hq_queue (tb_queue s)). clk (hq_reads (tb_queue u)) < to_expire t"
    using u by (intro tb_process_later [OF assms(2) _ assms(5)]) (simp add: tb_inv_def)
  have "\<exists>t \<in> set (hq_queue (tb_queue s)). to_timer t = tid" if "tid \<in> dom (hq_table (tb_queue s))" for tid
  proof -
    from that wf have "hq_timeouts (tb_queue s) tid = 1"
      by (auto simp: hq_wf_def)
    then have "tid \<in># image_mset to_timer (mset (hq_queue (tb_queue s)))"
      unfolding hq_timeouts_def by (metis count_eq_zero_iff zero_neq_one)
    then show ?thesis by auto
  qed
  with sum later show ?thesis by blast
qed

text \<open>Three timers of which two are due when the loop processes them; a fourth is added meanwhile.\<close>

definition ms_clock :: "nat \<Rightarrow> usec" where
  "ms_clock n = (if n < 3 then 0 else 900000)"

definition bench_adds :: "timer_bench_op list" where
  "bench_adds = tb_schedules (\<lambda>k. if k = 1 then 3000 else 500) 3"

definition meanwhile :: "unit \<Rightarrow> nat \<Rightarrow> unit timer_cmd list" where
  "meanwhile c n = (if n = 4 then [CmdAdd 500000 0 ()] else [])"

definition bench_scheduled :: timer_bench where
  "bench_scheduled = the (tb_run usec_chrono ms_clock bench_adds tb_create)"

lemma bench_scheduled_eq:
  "bench_scheduled = \<lparr>tb_queue = \<lparr>hq_counter = 3,
     hq_queue = [Timeout 500000 3, Timeout 500000 1, Timeout 3000000 2],
     hq_table = [1 \<mapsto> \<lparr>he_id = 1, he_callback = (), he_interval = 0\<rparr>,
       2 \<mapsto> \<lparr>he_id = 2, he_callback = (), he_interval = 0\<rparr>, 3 \<mapsto> \<lparr>he_id = 3, he_callback = (), he_interval = 0\<rparr>],
     hq_reads = 3, hq_wakes = [500000, 3000000, 500000]\<rparr>, tb_counter = 0\<rparr>"
  by (simp add: bench_scheduled_def bench_adds_def tb_schedules_def tb_create_def hq_create_def hq_add_def hq_now_def
      hq_emplace_def hq_wakeup_at_def usec_chrono_def ms_clock_def to_u64_def pq_push_def Let_def upt_rec fun_eq_iff)

lemma bench_scheduled_process:
  "hq_process usec_chrono ms_clock meanwhile (tb_queue bench_scheduled) =
    Some ([(500000, 3), (500000, 1)], \<lparr>hq_counter = 4, hq_queue = [Timeout 1400000 4, Timeout 3000000 2],
      hq_table = [2 \<mapsto> \<lparr>he_id = 2, he_callback = (), he_interval = 0\<rparr>,
                  4 \<mapsto> \<lparr>he_id = 4, he_callback = (), he_interval = 0\<rparr>],
      hq_reads = 5, hq_wakes = [500000, 3000000, 500000, 1400000, 1400000]\<rparr>)"
  by (simp add: bench_scheduled_eq hq_process_def hq_now_def hq_loop.simps hq_fire_def meanwhile_def hq_add_def
      hq_emplace_def hq_wakeup_at_def usec_chrono_def ms_clock_def to_u64_def pq_push_def pq_pop_def Let_def fun_eq_iff)

theorem bench_timers_counted_witness:
  "\<exists>s. tb_op usec_chrono ms_clock (TbProcess meanwhile) bench_scheduled = Some s \<and> tb_counter s = 2 \<and>
    tb_counter s + card (dom (hq_table (tb_queue s))) = 4 \<and>
    (\<forall>tid \<in> dom (hq_table (tb_queue s)). \<exists>t \<in> set (hq_queue (tb_queue s)).
       to_timer t = tid \<and> 900000 < to_expire t)"
proof -
  let ?s = "the (tb_op usec_chrono ms_clock (TbProcess meanwhile) bench_scheduled)"
  have op: "tb_op usec_chrono ms_clock (TbProcess meanwhile) bench_scheduled = Some ?s"
    by (simp add: bench_scheduled_process)
  have s: "tb_counter ?s = 2" "hq_counter (tb_queue ?s) = 4"
    by (simp_all add: bench_scheduled_process) (simp add: bench_scheduled_eq)
  have run: "tb_run usec_chrono ms_clock bench_adds tb_create = Some bench_scheduled"
    by (simp add: bench_scheduled_def bench_adds_def tb_schedules_def upt_rec)
  have ok: "\<forall>p \<in> set bench_adds. tb_op_ok p" "tb_op_ok (TbProcess meanwhile)"
    by (auto simp: bench_adds_def tb_schedules_def meanwhile_def)
  have "ms_clock (hq_reads (tb_queue bench_scheduled)) = 900000"
    by (simp add: bench_scheduled_eq ms_clock_def)
  with bench_timers_counted [OF run op ok] s op show ?thesis
    by (intro exI [of _ ?s]) simp
qed

end
