(* ===== verification/Echo_Client.thy ===== *)
theory Echo_Client
  imports Tcp_Connection_Properties
begin

text \<open>
  bench/bench\_tcp\_client.cc: the client of the TCP benchmark.  Its handler counts what it
  reads, sends it back at once or through a timer, and reports its counters when the
  connection closes.  The theory shows that the counters are exact.
\<close>

section \<open>The handler\<close>

text \<open>\<open>TestOptions\<close>; \<open>cores\<close> is \<open>hardware_concurrency()\<close>, an address is the host and the port.\<close>

record test_options =
  to_address :: "string \<times> nat"
  to_topic :: string
  to_threads :: nat
  to_clients :: nat
  to_length :: nat
  to_duration :: usec
  to_echo_delay :: usec
  to_random_delay :: bool

definition default_test_options :: "chrono \<Rightarrow> nat \<Rightarrow> test_options" where
  "default_test_options K cores =
     \<lparr>to_address = ('''', 0), to_topic = '''', to_threads = cores, to_clients = 32, to_length = 2 ^ 10,
      to_duration = 2 * us_per_sec K, to_echo_delay = 0, to_random_delay = True\<rparr>"

text \<open>
  \<open>dist n\<close> stands for the draw of \<open>dist_(gen_)\<close> by the \<open>n\<close>-th callback, a number of
  milliseconds.
\<close>

definition client_delay :: "test_options \<Rightarrow> int \<Rightarrow> usec" where
  "client_delay opts draw =
     (if to_random_delay opts then to_echo_delay opts + draw * 1000 else to_echo_delay opts)"

fun echo_client :: "test_options \<Rightarrow> (nat \<Rightarrow> int) \<Rightarrow> 'b conn_handler" where
  "echo_client opts dist OnRead c =
     (if \<not> cn_context c then []
      else if to_echo_delay opts = 0 then [CmdCount, CmdSendInput]
      else [CmdCount, CmdSetAside (client_delay opts (dist (length (cn_trace c))))])"
| "echo_client opts dist OnClose c = [CmdReport]"
| "echo_client opts dist OnConnect c = []"
| "echo_client opts dist OnWriteComplete c = []"
| "echo_client opts dist (OnError err) c = []"

text \<open>
  Besides the loop's tasks and the events there are the timers of the messages set aside, the
  program's own \<open>Send\<close>, and the calls that close.
\<close>

fun client_cmd :: "conn_cmd \<Rightarrow> bool" where
  "client_cmd (CmdSend data) = True"
| "client_cmd (CmdSendAside i) = True"
| "client_cmd CmdClose = True"
| "client_cmd CmdForceClose = True"
| "client_cmd CmdShutdown = True"
| "client_cmd CmdForceShutdown = True"
| "client_cmd _ = False"

inductive client_step ::
  "'b buffer_ops \<Rightarrow> net_os \<Rightarrow> 'b conn_hook \<Rightarrow> 'b tcp_conn \<Rightarrow> 'b tcp_conn \<Rightarrow> bool"
  for B sys H
where
  cl_task: "cn_tasks c = t # ts \<Longrightarrow> client_step B sys H c (conn_run_task B sys H t (c\<lparr>cn_tasks := ts\<rparr>))"
| cl_io: "client_step B sys H c (conn_io B sys H events c)"
| cl_call: "client_cmd cmd \<Longrightarrow> client_step B sys H c (conn_exec in_loop B sys H cmd c)"

section \<open>The invariant\<close>

text \<open>The reads before the close.\<close>

definition open_reads :: "'b tcp_conn \<Rightarrow> nat" where
  "open_reads c = count_list (takeWhile (\<lambda>e. e \<noteq> OnClose) (cn_trace c)) OnRead"

definition client_open :: "'b buffer_ops \<Rightarrow> 'b tcp_conn \<Rightarrow> bool" where
  "client_open B c \<longleftrightarrow>
     bf_bytes B (cn_input c) = [] \<and> hm_bytes (cn_memory c) = of_nat (length (cn_received c)) \<and>
     hm_reported (cn_memory c) = [] \<and> count_list (cn_trace c) OnClose = 0"

definition client_closed :: "'b tcp_conn \<Rightarrow> bool" where
  "client_closed c \<longleftrightarrow>
     sc_watch (cn_channel c) = None \<and>
     (\<exists>n \<le> length (cn_received c). hm_bytes (cn_memory c) = of_nat n) \<and>
     hm_reported (cn_memory c) = [(hm_messages (cn_memory c), hm_bytes (cn_memory c))] \<and>
     count_list (cn_trace c) OnClose = 1"

lemma client_closed_trace: "client_closed c \<Longrightarrow> OnClose \<in> set (cn_trace c)"
  by (rule ccontr) (simp add: client_closed_def count_list_zero)

definition client_inv :: "'b buffer_ops \<Rightarrow> 'b tcp_conn \<Rightarrow> bool" where
  "client_inv B c \<longleftrightarrow>
     count_list (cn_tasks c) TaskAdd \<le> 1 \<and>
     (TaskAdd \<in> set (cn_tasks c) \<longrightarrow> cn_context c \<and> sc_watch (cn_channel c) = None) \<and>
     hm_messages (cn_memory c) = of_nat (open_reads c) \<and>
     (if cn_context c then client_open B c else client_closed c)"

text \<open>
  A change in which nothing is read and the connection may close; if it does, the handler has
  reported.
\<close>

definition client_keeps :: "'b tcp_conn \<Rightarrow> 'b tcp_conn \<Rightarrow> bool" where
  "client_keeps c d \<longleftrightarrow>
     cn_received d = cn_received c \<and> cn_input d = cn_input c
   \<and> hm_messages (cn_memory d) = hm_messages (cn_memory c) \<and> hm_bytes (cn_memory d) = hm_bytes (cn_memory c)
   \<and> count_list (cn_tasks d) TaskAdd = count_list (cn_tasks c) TaskAdd
   \<and> (sc_watch (cn_channel c) = None \<longrightarrow> sc_watch (cn_channel d) = None)"

definition client_outcome :: "'b tcp_conn \<Rightarrow> 'b tcp_conn \<Rightarrow> conn_event list \<Rightarrow> bool" where
  "client_outcome c d es \<longleftrightarrow>
     cn_context d = cn_context c \<and> hm_reported (cn_memory d) = hm_reported (cn_memory c) \<and> count_list es OnClose = 0
   \<or> sc_watch (cn_channel c) \<noteq> None \<and> sc_watch (cn_channel d) = None \<and> \<not> cn_context d \<and> count_list es OnClose = 1 \<and>
       hm_reported (cn_memory d) = hm_reported (cn_memory c) @ [(hm_messages (cn_memory c), hm_bytes (cn_memory c))]"

definition client_quiet :: "'b tcp_conn \<Rightarrow> 'b tcp_conn \<Rightarrow> bool" where
  "client_quiet c d \<longleftrightarrow> client_keeps c d \<and>
     (\<exists>es. cn_trace d = cn_trace c @ es \<and> OnRead \<notin> set es \<and> client_outcome c d es)"

lemmas client_quiet_defs = client_quiet_def client_keeps_def client_outcome_def

lemma client_quiet_refl [simp, intro]: "client_quiet c c"
  by (simp add: client_quiet_defs)

lemma client_keeps_trans: "client_keeps c d \<Longrightarrow> client_keeps d e \<Longrightarrow> client_keeps c e"
  by (simp add: client_keeps_def)

lemma client_outcome_trans:
  assumes "client_keeps c d" and "client_keeps d e" and "client_outcome c d es" and "client_outcome d e fs"
  shows "client_outcome c e (es @ fs)"
proof -
  have m: "hm_messages (cn_memory d) = hm_messages (cn_memory c)" "hm_bytes (cn_memory d) = hm_bytes (cn_memory c)"
    using assms(1) unfolding client_keeps_def by blast+
  have stays: "sc_watch (cn_channel c) = None \<longrightarrow> sc_watch (cn_channel d) = None"
    "sc_watch (cn_channel d) = None \<longrightarrow> sc_watch (cn_channel e) = None"
    using assms(1,2) unfolding client_keeps_def by blast+
  have set: "count_list (es @ fs) OnClose = count_list es OnClose + count_list fs OnClose"
    by simp
  show ?thesis
    using assms(3,4) stays unfolding client_outcome_def set m by (elim disjE conjE) simp_all
qed

lemma client_quiet_trans:
  assumes "client_quiet c d" and "client_quiet d e"
  shows "client_quiet c e"
proof -
  from assms obtain es fs where "cn_trace d = cn_trace c @ es" "OnRead \<notin> set es" "client_outcome c d es"
    "cn_trace e = cn_trace d @ fs" "OnRead \<notin> set fs" "client_outcome d e fs"
    and k: "client_keeps c d" "client_keeps d e"
    unfolding client_quiet_def by blast
  then have "cn_trace e = cn_trace c @ es @ fs \<and> OnRead \<notin> set (es @ fs) \<and> client_outcome c e (es @ fs)"
    using client_outcome_trans [OF k] by simp
  then show ?thesis
    unfolding client_quiet_def using client_keeps_trans [OF k] by blast
qed

lemma open_reads_append: "OnRead \<notin> set es \<Longrightarrow> cn_trace d = cn_trace c @ es \<Longrightarrow> open_reads d = open_reads c"
proof -
  assume es: "OnRead \<notin> set es" "cn_trace d = cn_trace c @ es"
  have "OnRead \<notin> set (takeWhile P es)" for P
    using es(1) by (meson set_takeWhileD)
  with es(2) show ?thesis
    by (auto simp: open_reads_def takeWhile_append count_list_zero takeWhile_eq_all_conv [THEN iffD2])
qed

lemma open_reads_read:
  assumes "OnClose \<notin> set (cn_trace c)" and "cn_trace d = cn_trace c @ [OnRead]"
  shows "open_reads d = Suc (open_reads c)"
proof -
  have "takeWhile (\<lambda>e. e \<noteq> OnClose) (cn_trace c @ ys) = cn_trace c @ takeWhile (\<lambda>e. e \<noteq> OnClose) ys" for ys
    using assms(1) by (intro takeWhile_append2) auto
  from this [of "[OnRead]"] this [of "[]"] have *:
    "takeWhile (\<lambda>e. e \<noteq> OnClose) (cn_trace c @ [OnRead]) = takeWhile (\<lambda>e. e \<noteq> OnClose) (cn_trace c) @ [OnRead]"
    by (simp only: takeWhile.simps append_Nil2) simp
  show ?thesis
    unfolding open_reads_def assms(2) * by simp
qed

lemma open_reads_late:
  "OnClose \<in> set (cn_trace c) \<Longrightarrow> cn_trace d = cn_trace c @ es \<Longrightarrow> open_reads d = open_reads c"
  by (simp add: open_reads_def takeWhile_append1 [where x = OnClose])

lemma client_quiet_inv:
  assumes "client_quiet c d" and "client_inv B c"
  shows "client_inv B d"
proof -
  from assms(1) obtain es where es: "cn_trace d = cn_trace c @ es" "OnRead \<notin> set es" "client_outcome c d es"
    and keeps: "client_keeps c d"
    unfolding client_quiet_def by blast
  have reads: "open_reads d = open_reads c"
    using es(2,1) by (rule open_reads_append)
  have add: "TaskAdd \<in> set (cn_tasks d) \<longleftrightarrow> TaskAdd \<in> set (cn_tasks c)"
    using keeps by (metis client_keeps_def count_list_0_iff)
  from es(3) show ?thesis
    unfolding client_outcome_def
  proof (elim disjE conjE)
    assume "cn_context d = cn_context c" "hm_reported (cn_memory d) = hm_reported (cn_memory c)" "count_list es OnClose = 0"
    with assms(2) keeps reads add es(1) show ?thesis
      by (auto simp: client_inv_def client_keeps_def client_open_def client_closed_def)
  next
    assume *: "sc_watch (cn_channel c) \<noteq> None" "sc_watch (cn_channel d) = None" "\<not> cn_context d"
      "count_list es OnClose = 1"
      "hm_reported (cn_memory d) = hm_reported (cn_memory c) @ [(hm_messages (cn_memory c), hm_bytes (cn_memory c))]"
    with assms(2) have "cn_context c"
      by (auto simp: client_inv_def client_closed_def split: if_splits)
    with * assms(2) keeps reads add es(1) show ?thesis
      by (auto simp: client_inv_def client_keeps_def client_open_def client_closed_def)
  qed
qed

section \<open>Operations that read nothing\<close>

text \<open>\<open>H\<close> is a hook that does nothing but report when the connection closes, except on a read.\<close>

locale client_hooks =
  fixes B :: "'b buffer_ops" and sys :: net_os and H :: "'b conn_hook"
  assumes idle: "e \<noteq> OnRead \<Longrightarrow> e \<noteq> OnClose \<Longrightarrow> H e c = c"
    and closes: "H OnClose c = handler_report c"
begin

lemma idle_notify [simp]:
  "e \<noteq> OnRead \<Longrightarrow> e \<noteq> OnClose \<Longrightarrow> conn_notify H e c = c\<lparr>cn_trace := cn_trace c @ [e]\<rparr>"
  by (simp add: conn_notify_def idle)

lemma quiet_event: "e \<noteq> OnRead \<Longrightarrow> e \<noteq> OnClose \<Longrightarrow> client_quiet c (conn_notify H e c)"
  by (simp add: client_quiet_defs)

lemma quiet_remove: "client_quiet c (conn_remove H c)"
  by (auto simp: conn_remove_def conn_handle_remove_def conn_notify_def closes handler_report_def
      client_quiet_defs Let_def)

lemma quiet_state_remove: "client_quiet c (conn_remove H (c\<lparr>cn_state := s\<rparr>))"
  by (rule client_quiet_trans [OF _ quiet_remove]) (simp add: client_quiet_defs)

lemma quiet_close:
  "client_quiet c (conn_handle_close H c)" "client_quiet c (conn_force_close in_loop H c)"
  "client_quiet c (conn_close in_loop B H c)"
  using quiet_state_remove [of c]
  by (auto simp: conn_handle_close_def conn_force_close_def conn_close_def conn_run_def conn_close_body_def)
    (auto simp: client_quiet_defs)

lemma quiet_shutdown:
  "client_quiet c (conn_shutdown in_loop B c)" "client_quiet c (conn_force_shutdown in_loop c)"
  "client_quiet c (conn_shutdown_body B c)" "client_quiet c (conn_force_shutdown_body c)"
  by (auto simp: conn_shutdown_def conn_force_shutdown_def conn_force_shutdown_store_def conn_run_def
      conn_shutdown_body_def conn_force_shutdown_body_def conn_close_write_def conn_set_writable_def client_quiet_defs)

lemma quiet_error: "client_quiet c (conn_handle_error sys H err c)"
  by (simp add: conn_handle_error_def quiet_close) (simp add: client_quiet_defs)

lemma quiet_error_after:
  "client_quiet c (conn_handle_error sys H e (c\<lparr>cn_sys := k, cn_wire := w\<rparr>))"
  "client_quiet c (conn_handle_error sys H e (c\<lparr>cn_sys := k\<rparr>))"
  by (rule client_quiet_trans [OF _ quiet_error], simp add: client_quiet_defs)+

lemma quiet_write_done: "client_quiet c (conn_write_done B H c)"
  by (auto simp: conn_write_done_def Let_def conn_close_write_def conn_set_writable_def client_quiet_defs)

lemma quiet_write: "client_quiet c (conn_handle_write B sys H c)"
proof -
  have flush: "client_quiet c (conn_write_done B H (c\<lparr>cn_sys := k, cn_wire := w, cn_output := b\<rparr>))" for k w b
    by (rule client_quiet_trans [OF _ quiet_write_done]) (simp add: client_quiet_defs)
  show ?thesis
    using quiet_write_done
    by (auto simp: conn_handle_write_def conn_write_def conn_get_error_def Let_def flush quiet_error_after)
qed

lemma quiet_enqueue: "client_quiet c (conn_enqueue B rest (conn_accept data c))"
  by (auto simp: client_quiet_defs conn_enqueue_def conn_accept_def conn_set_writable_def Let_def)

lemma quiet_send: "client_quiet c (conn_handle_send B sys H data c)"
proof -
  note enq = client_quiet_trans [OF _ quiet_enqueue]
  have "client_quiet c (c\<lparr>cn_sys := k\<rparr>)" "client_quiet c (c\<lparr>cn_sys := k, cn_wire := w\<rparr>)" for k w
    by (simp_all add: client_quiet_defs)
  then show ?thesis
    using enq [OF quiet_error_after(1)] enq [OF quiet_error_after(2)]
    by (auto simp: conn_handle_send_def conn_write_def conn_get_error_def Let_def intro: enq quiet_enqueue)
qed

lemma quiet_take_aside: "client_quiet c (handler_take_aside i c)"
  by (simp add: handler_take_aside_def client_quiet_defs Let_def)

lemma quiet_queue_send: "client_quiet c (c\<lparr>cn_tasks := cn_tasks c @ [TaskSend data]\<rparr>)"
  by (simp add: client_quiet_defs)

lemma quiet_cmd: "client_cmd cmd \<Longrightarrow> client_quiet c (conn_exec in_loop B sys H cmd c)"
  by (cases cmd) (auto simp: conn_send_view_def conn_send_string_def conn_run_def quiet_send quiet_queue_send
      quiet_close quiet_shutdown intro: client_quiet_trans [OF quiet_take_aside quiet_send])

end

section \<open>Reading\<close>

text \<open>The client's hook: \<open>G\<close> is the hook of the callbacks within its own call.\<close>

locale client_callbacks = client_hooks B sys H + inner: client_hooks B sys G
  for B :: "'b buffer_ops" and sys :: net_os and H :: "'b conn_hook" and G :: "'b conn_hook" +
  fixes now :: bool and delay :: "'b tcp_conn \<Rightarrow> usec"
  assumes reads: "H OnRead c = (if \<not> cn_context c then c
      else if now then conn_exec True B sys G CmdSendInput (conn_exec True B sys G CmdCount c)
      else conn_exec True B sys G (CmdSetAside (delay c)) (conn_exec True B sys G CmdCount c))"
    and buffer: "buffer_ok B"
begin

definition emptied :: "'b tcp_conn \<Rightarrow> 'b tcp_conn" where
  "emptied c = c\<lparr>cn_input := bf_reset B (cn_input c)\<rparr>"

text \<open>An invariant for a message that has been counted and is still in the buffer.\<close>

definition counted_inv :: "'b tcp_conn \<Rightarrow> bool" where
  "counted_inv c \<longleftrightarrow> client_inv B (emptied c)"

lemma counted_quiet: "client_quiet c d \<Longrightarrow> counted_inv c \<Longrightarrow> counted_inv d"
  unfolding counted_inv_def
  by (erule client_quiet_inv [rotated]) (simp add: client_quiet_defs emptied_def)

lemma counted_set_aside: "counted_inv c \<Longrightarrow> client_inv B (handler_set_aside B x c)"
  unfolding counted_inv_def
  by (erule client_quiet_inv [rotated]) (simp add: client_quiet_defs emptied_def handler_set_aside_def)

lemma counted_read:
  assumes "client_inv B c" and "cn_context c"
  shows "counted_inv (handler_count B (c\<lparr>cn_sys := k, cn_input := bf_append_file B bs (cn_input c),
    cn_received := cn_received c @ bs, cn_trace := cn_trace c @ [OnRead]\<rparr>))"
proof -
  let ?d = "handler_count B (c\<lparr>cn_sys := k, cn_input := bf_append_file B bs (cn_input c),
    cn_received := cn_received c @ bs, cn_trace := cn_trace c @ [OnRead]\<rparr>)"
  have close: "OnClose \<notin> set (cn_trace c)" and empty: "bf_bytes B (cn_input c) = []"
    using assms by (simp_all add: client_inv_def client_open_def count_list_0_iff)
  have "open_reads (emptied ?d) = Suc (open_reads c)"
    using close by (rule open_reads_read) (simp add: handler_count_def emptied_def)
  with assms close empty show ?thesis
    by (simp add: counted_inv_def client_inv_def client_open_def)
      (simp add: emptied_def handler_count_def bf_readable_bytes_def buffer_okD [OF buffer])
qed

lemma inv_input:
  assumes "client_inv B c"
  shows "client_inv B (conn_notify H OnRead
    (c\<lparr>cn_sys := k, cn_input := bf_append_file B bs (cn_input c), cn_received := cn_received c @ bs\<rparr>))"
proof (cases "cn_context c")
  case False
  then have "OnClose \<in> set (cn_trace c)"
    using assms by (simp add: client_inv_def client_closed_trace)
  then have "open_reads (c\<lparr>cn_sys := k, cn_input := b, cn_received := r, cn_trace := cn_trace c @ [OnRead]\<rparr>)
      = open_reads c" for b r
    by (rule open_reads_late) simp
  with False assms show ?thesis
    by (auto simp: conn_notify_def reads client_inv_def client_closed_def intro: trans_le_add1)
next
  case True
  let ?d = "handler_count B (c\<lparr>cn_sys := k, cn_input := bf_append_file B bs (cn_input c),
    cn_received := cn_received c @ bs, cn_trace := cn_trace c @ [OnRead]\<rparr>)"
  have d: "counted_inv ?d"
    using assms True by (rule counted_read)
  have "counted_inv (conn_handle_send B sys G data ?d)" for data
    using inner.quiet_send d by (rule counted_quiet)
  moreover have "client_inv B (handler_set_aside B x ?d)" for x
    using d by (rule counted_set_aside)
  moreover have "cn_context ?d"
    using True by (simp add: handler_count_def)
  ultimately show ?thesis
    using True by (simp add: conn_notify_def reads counted_inv_def emptied_def Let_def)
qed

lemma inv_read:
  assumes "client_inv B c"
  shows "client_inv B (conn_handle_read B sys H c)"
proof -
  have sys: "client_quiet c (c\<lparr>cn_sys := k\<rparr>)" for k
    by (simp add: client_quiet_defs)
  note quiet = sys client_quiet_trans [OF sys quiet_error] client_quiet_trans [OF sys quiet_close(1)]
  note inv = quiet [THEN client_quiet_inv, OF assms]
  show ?thesis
    unfolding conn_handle_read_def Let_def
    using inv inv_input [OF assms] by (auto split: sum.split list.split)
qed

lemma inv_error:
  assumes "client_inv B c"
  shows "client_inv B (case conn_get_error sys c of (err, d) \<Rightarrow> conn_handle_error sys H err d)"
  using client_quiet_inv [OF quiet_error_after(2) assms] by (simp add: conn_get_error_def)

lemma inv_io:
  assumes "client_inv B c"
  shows "client_inv B (conn_io B sys H events c)"
proof (cases "sc_watch (cn_channel c) = None")
  case False
  have contract: "callback_contract (\<lambda>s t. client_inv B s \<longrightarrow> client_inv B t)"
    by unfold_locales auto
  have closed: "client_quiet c (c\<lparr>cn_channel := sc_close (cn_channel c)\<rparr>)" for c :: "'b tcp_conn"
    by (simp add: client_quiet_defs)
  have "client_inv B c \<longrightarrow> client_inv B (sc_handle_events (conn_callbacks B sys H)
      (\<lambda>c. c\<lparr>cn_channel := sc_close (cn_channel c)\<rparr>) events c)"
    by (rule callback_contract.R_handle_events [OF contract])
      (auto simp: run_cb_def conn_callbacks_def inv_read inv_error
        intro: client_quiet_inv [OF quiet_close(1)] client_quiet_inv [OF quiet_write] client_quiet_inv [OF closed])
  with assms False show ?thesis
    by (simp add: conn_io_def)
qed (simp add: conn_io_def assms)

text \<open>The registration, which happens once and before anything is read.\<close>

lemma inv_add:
  assumes "client_inv B c" and "TaskAdd \<notin> set (cn_tasks c)" and "cn_context c"
  shows "client_inv B (conn_add H c)"
proof -
  have "open_reads (c\<lparr>cn_channel := ch, cn_state := s, cn_trace := cn_trace c @ [OnConnect]\<rparr>) = open_reads c" for ch s
    by (rule open_reads_append [of "[OnConnect]"]) simp_all
  with assms show ?thesis
    by (auto simp: conn_add_def Let_def conn_set_readable_def client_inv_def client_open_def open_reads_def)
qed

lemma inv_task:
  assumes "client_inv B c" and "cn_tasks c = t # ts"
  shows "client_inv B (conn_run_task B sys H t (c\<lparr>cn_tasks := ts\<rparr>))"
proof (cases "t = TaskAdd")
  case True
  with assms have "cn_context c" "TaskAdd \<notin> set ts" "client_inv B (c\<lparr>cn_tasks := ts\<rparr>)"
    by (auto simp: client_inv_def client_open_def open_reads_def count_list_0_iff)
  with True show ?thesis
    using inv_add [of "c\<lparr>cn_tasks := ts\<rparr>"] by simp
next
  case False
  have inv: "client_inv B (c\<lparr>cn_tasks := ts\<rparr>)"
    using assms False by (auto simp: client_inv_def client_open_def client_closed_def open_reads_def)
  note quiet = client_quiet_inv [OF _ inv]
  show ?thesis
    using False quiet [OF quiet_remove] quiet [OF quiet_shutdown(3)] quiet [OF quiet_shutdown(4)]
      quiet [OF quiet_send] inv
    by (cases t) (simp_all add: conn_close_body_def)
qed

lemma inv_initial: "conn_initial B H c \<Longrightarrow> client_inv B c"
proof -
  assume "conn_initial B H c"
  then obtain l where c: "c = conn_start l H (conn_create B)"
    by (auto simp: conn_initial_def)
  have "client_inv B ((conn_create B)\<lparr>cn_context := True\<rparr>)"
    and "client_inv B ((conn_create B)\<lparr>cn_context := True, cn_tasks := [TaskAdd]\<rparr>)"
    by (simp_all add: client_inv_def client_open_def conn_create_def fresh_memory_def open_reads_def sc_create_def
        buffer_okD [OF buffer])
  with c show ?thesis
    using inv_add [of "(conn_create B)\<lparr>cn_context := True\<rparr>"]
    by (cases l) (simp_all add: conn_start_def conn_run_def conn_create_def)
qed

lemma inv_step: "client_step B sys H c c' \<Longrightarrow> client_inv B c \<Longrightarrow> client_inv B c'"
  by (induction rule: client_step.induct) (auto intro: inv_task inv_io client_quiet_inv [OF quiet_cmd])

end

section \<open>The client's handler is such a hook\<close>

lemma client_hook_idle:
  "e \<noteq> OnRead \<Longrightarrow> e \<noteq> OnClose \<Longrightarrow> conn_hooks B sys (echo_client opts dist) n e c = c"
  by (cases n; cases e) simp_all

lemma client_hooks_handler: "client_hooks (conn_hooks B sys (echo_client opts dist) (Suc n))"
  by unfold_locales (erule (1) client_hook_idle, simp)

lemma client_callbacks_handler:
  assumes "buffer_ok B"
  shows "client_callbacks B sys (conn_hooks B sys (echo_client opts dist) (Suc (Suc n)))
    (conn_hooks B sys (echo_client opts dist) (Suc n)) (to_echo_delay opts = 0)
    (\<lambda>c. client_delay opts (dist (length (cn_trace c))))"
proof (intro client_callbacks.intro client_hooks_handler client_callbacks_axioms.intro assms)
  fix c :: "'a tcp_conn"
  have *: "conn_hooks B sys (echo_client opts dist) (Suc (Suc n)) OnRead c =
      fold (conn_exec True B sys (conn_hooks B sys (echo_client opts dist) (Suc n))) (echo_client opts dist OnRead c) c"
    by (rule conn_hooks.simps(2))
  show "conn_hooks B sys (echo_client opts dist) (Suc (Suc n)) OnRead c =
    (if \<not> cn_context c then c
     else if to_echo_delay opts = 0
          then conn_exec True B sys (conn_hooks B sys (echo_client opts dist) (Suc n)) CmdSendInput
                 (conn_exec True B sys (conn_hooks B sys (echo_client opts dist) (Suc n)) CmdCount c)
          else conn_exec True B sys (conn_hooks B sys (echo_client opts dist) (Suc n))
                 (CmdSetAside (client_delay opts (dist (length (cn_trace c)))))
                 (conn_exec True B sys (conn_hooks B sys (echo_client opts dist) (Suc n)) CmdCount c))"
    unfolding * by (simp del: conn_hooks.simps conn_exec.simps)
qed

lemma client_system:
  assumes "buffer_ok B"
  shows "invariant_system (conn_initial B (conn_hooks B sys (echo_client opts dist) (Suc (Suc n))))
    (client_step B sys (conn_hooks B sys (echo_client opts dist) (Suc (Suc n)))) (client_inv B)"
  by (rule invariant_system.intro)
    (erule client_callbacks.inv_initial [OF client_callbacks_handler [OF assms]],
     erule (1) client_callbacks.inv_step [OF client_callbacks_handler [OF assms], rotated])

text \<open>
  C20. The client's counters are exact.  At every moment of any run, with the echo immediate or
  through timers and whatever the kernel, the peer and the callers do: the message counter is
  the number of reads before the close (modulo 2^64); while the connection is up the byte
  counter is the number of bytes read, the input buffer is empty between callbacks and nothing
  has been reported; from the close on exactly one report has been made, and it agrees with the counters.
\<close>

theorem client_counts_exact:
  assumes "buffer_ok B"
    and "reachable (conn_initial B (conn_hooks B sys (echo_client opts dist) (Suc (Suc n))))
      (client_step B sys (conn_hooks B sys (echo_client opts dist) (Suc (Suc n)))) c"
  shows "hm_messages (cn_memory c) = of_nat (open_reads c) \<and>
    (if OnClose \<in> set (cn_trace c)
     then hm_reported (cn_memory c) = [(hm_messages (cn_memory c), hm_bytes (cn_memory c))] \<and>
       (\<exists>k \<le> length (cn_received c). hm_bytes (cn_memory c) = of_nat k)
     else hm_bytes (cn_memory c) = of_nat (length (cn_received c)) \<and> bf_bytes B (cn_input c) = [] \<and>
       hm_reported (cn_memory c) = [])"
proof -
  have "client_inv B c"
    by (rule invariant_system.inv_reachable [OF client_system [OF assms(1)] assms(2)])
  then show ?thesis
    using client_closed_trace [of c]
    by (cases "cn_context c") (auto simp: client_inv_def client_open_def client_closed_def count_list_0_iff)
qed

text \<open>A client that has read one byte with a delayed echo, and one that has then been closed.\<close>

definition delayed_options :: test_options where
  "delayed_options = (default_test_options usec_chrono 4)\<lparr>to_echo_delay := 3000000\<rparr>"

abbreviation delayed_hook :: "(byte list \<times> nat) conn_hook" where
  "delayed_hook \<equiv> conn_hooks list_buffer slow_os (echo_client delayed_options (\<lambda>k. 7)) (Suc (Suc 0))"

definition read_client :: "(byte list \<times> nat) tcp_conn" where
  "read_client = conn_io list_buffer slow_os delayed_hook kReadable (conn_start True delayed_hook (conn_create list_buffer))"

definition closed_client :: "(byte list \<times> nat) tcp_conn" where
  "closed_client = conn_exec True list_buffer slow_os delayed_hook CmdForceClose read_client"

lemma closed_client_reachable:
  "reachable (conn_initial list_buffer delayed_hook) (client_step list_buffer slow_os delayed_hook) closed_client"
  unfolding closed_client_def read_client_def
  by (rule reachable.next_step, rule reachable.next_step, rule reachable.start)
    (auto simp: conn_initial_def simp del: conn_hooks.simps conn_exec.simps intro: cl_io cl_call)

lemma closed_client_simps:
  "cn_received closed_client = [9]" "OnClose \<in> set (cn_trace closed_client)"
  "hm_delayed (cn_memory closed_client) = [(3007000, [9])]"
  by (code_simp)+

theorem client_counts_exact_witness:
  "cn_received closed_client = [9] \<and> hm_delayed (cn_memory closed_client) = [(3007000, [9])] \<and>
    hm_reported (cn_memory closed_client) = [(of_nat (open_reads closed_client), hm_bytes (cn_memory closed_client))]"
  using client_counts_exact [OF list_buffer_ok closed_client_reachable] by (simp add: closed_client_simps)

end
