(* ===== verification/Bench_Tcp_Client.thy ===== *)
theory Bench_Tcp_Client
  imports Echo_Client
begin

text \<open>
  bench/bench\_tcp\_client.cc, \<open>benchmark\<close> and the runs of \<open>main\<close>: every client is started, the
  program waits until all are connected, sends one message on each, waits until all have closed
  and returns the sum of what the handlers reported.  A client is represented by its connection
  (None until \<open>TcpClient\<close> has made it), which \<open>TcpClient::Send\<close> and \<open>Shutdown\<close> forward to
  (theory Tcp\_Client).
\<close>

section \<open>The program\<close>

text \<open>Starting the clients and waiting for them; about to send on client \<open>k\<close>.\<close>

datatype bench_phase = BenchStarting | BenchSending nat

record 'b client_bench =
  cb_phase :: bench_phase
  cb_conns :: "'b tcp_conn option list"

definition bench_initial :: "test_options \<Rightarrow> 'b client_bench \<Rightarrow> bool" where
  "bench_initial opts s \<longleftrightarrow> s = \<lparr>cb_phase = BenchStarting, cb_conns = replicate (to_clients opts) None\<rparr>"

text \<open>A latch of \<open>options.clients\<close>, counted down by every call of the callback \<open>e\<close>.\<close>

fun conn_count :: "conn_event \<Rightarrow> 'b tcp_conn option \<Rightarrow> nat" where
  "conn_count e None = 0"
| "conn_count e (Some c) = count_list (cn_trace c) e"

definition latch_left :: "conn_event \<Rightarrow> 'b tcp_conn option list \<Rightarrow> nat" where
  "latch_left e cs = length cs - sum_list (map (conn_count e) cs)"

definition bench_message :: "test_options \<Rightarrow> byte list" where
  "bench_message opts = replicate (to_length opts) 97"

inductive bench_step ::
  "'b buffer_ops \<Rightarrow> net_os \<Rightarrow> 'b conn_hook \<Rightarrow> test_options \<Rightarrow> 'b client_bench \<Rightarrow> 'b client_bench \<Rightarrow> bool"
  for B sys H opts
where
  bm_connection: "i < length (cb_conns s) \<Longrightarrow> cb_conns s ! i = None \<Longrightarrow> conn_initial B H c \<Longrightarrow>
    bench_step B sys H opts s (s\<lparr>cb_conns := (cb_conns s)[i := Some c]\<rparr>)"
| bm_task: "i < length (cb_conns s) \<Longrightarrow> cb_conns s ! i = Some c \<Longrightarrow> cn_tasks c = t # ts \<Longrightarrow>
    bench_step B sys H opts s
      (s\<lparr>cb_conns := (cb_conns s)[i := Some (conn_run_task B sys H t (c\<lparr>cn_tasks := ts\<rparr>))]\<rparr>)"
| bm_io: "i < length (cb_conns s) \<Longrightarrow> cb_conns s ! i = Some c \<Longrightarrow>
    bench_step B sys H opts s (s\<lparr>cb_conns := (cb_conns s)[i := Some (conn_io B sys H events c)]\<rparr>)"
| bm_timer: "i < length (cb_conns s) \<Longrightarrow> cb_conns s ! i = Some c \<Longrightarrow>
    bench_step B sys H opts s
      (s\<lparr>cb_conns := (cb_conns s)[i := Some (conn_exec True B sys H (CmdSendAside j) c)]\<rparr>)"
| bm_connected: "cb_phase s = BenchStarting \<Longrightarrow> latch_left OnConnect (cb_conns s) = 0 \<Longrightarrow>
    bench_step B sys H opts s (s\<lparr>cb_phase := BenchSending 0\<rparr>)"
| bm_send: "cb_phase s = BenchSending k \<Longrightarrow> k < length (cb_conns s) \<Longrightarrow>
    bench_step B sys H opts s
      (s\<lparr>cb_phase := BenchSending (Suc k),
         cb_conns := (cb_conns s)[k := map_option (conn_exec False B sys H (CmdSend (bench_message opts))) (cb_conns s ! k)]\<rparr>)"
| bm_shutdown: "cb_phase s \<noteq> BenchStarting \<Longrightarrow> i < length (cb_conns s) \<Longrightarrow> cb_conns s ! i = Some c \<Longrightarrow>
    bench_step B sys H opts s
      (s\<lparr>cb_conns := (cb_conns s)[i := Some (conn_exec in_loop B sys H CmdShutdown c)]\<rparr>)"

text \<open>
  \<open>close_latch.Await()\<close> has returned, all messages sent, and so have \<open>Close\<close> and \<open>Join\<close> of the
  group: every loop has run the task of its \<open>Close\<close>, hence ended the OnClose that counted the
  latch down before it added its counters.
\<close>

definition bench_returns :: "'b client_bench \<Rightarrow> bool" where
  "bench_returns s \<longleftrightarrow> cb_phase s = BenchSending (length (cb_conns s)) \<and> latch_left OnClose (cb_conns s) = 0"

text \<open>\<open>Result\<close>: what the handlers have added to it, each under the mutex.\<close>

record bench_result =
  br_msg_send :: u64
  br_byte_send :: u64

definition result_add :: "u64 \<times> u64 \<Rightarrow> bench_result \<Rightarrow> bench_result" where
  "result_add r s = s\<lparr>br_byte_send := br_byte_send s + snd r, br_msg_send := br_msg_send s + fst r\<rparr>"

fun conn_reports :: "'b tcp_conn option \<Rightarrow> (u64 \<times> u64) list" where
  "conn_reports None = []"
| "conn_reports (Some c) = hm_reported (cn_memory c)"

definition bench_result_of :: "'b client_bench \<Rightarrow> bench_result" where
  "bench_result_of s =
     fold result_add (concat (map conn_reports (cb_conns s))) \<lparr>br_msg_send = 0, br_byte_send = 0\<rparr>"

section \<open>The runs of main\<close>

text \<open>\<open>for (c = from; c < to; c *= 2)\<close>, or \<open>c <= to\<close> with \<open>to + 1\<close>.\<close>

function doubling :: "nat \<Rightarrow> nat \<Rightarrow> nat list" where
  "doubling i below = (if 0 < i \<and> i < below then i # doubling (2 * i) below else [])"
  by auto
termination by (relation "measure (\<lambda>(i, below). below - i)") auto

declare doubling.simps [simp del]

text \<open>
  The options of the runs of the second \<open>benchmark\<close>, in order; a run with busy and idle clients
  is two at a time, the idle ones first.
\<close>

definition bench_base :: "chrono \<Rightarrow> nat \<Rightarrow> string \<times> nat \<Rightarrow> string \<Rightarrow> test_options" where
  "bench_base K cores address topic = (default_test_options K cores)
     \<lparr>to_address := address, to_topic := topic, to_duration := 5 * us_per_sec K, to_random_delay := False,
      to_threads := 32, to_clients := 1, to_length := 2 ^ 10\<rparr>"

definition bench_busy :: "chrono \<Rightarrow> test_options \<Rightarrow> nat \<Rightarrow> test_options list" where
  "bench_busy K opts c =
     [opts\<lparr>to_clients := c, to_random_delay := True, to_echo_delay := 3 * us_per_sec K,
        to_duration := 10 * us_per_sec K\<rparr>,
      opts\<lparr>to_clients := 256, to_duration := 7 * us_per_sec K, to_topic := to_topic opts @ ''(some busy)''\<rparr>]"

definition bench_plan :: "chrono \<Rightarrow> test_options \<Rightarrow> test_options list" where
  "bench_plan K opts =
     map (\<lambda>c. opts\<lparr>to_clients := c\<rparr>) (doubling 1024 32768) @
     concat (map (bench_busy K opts) (doubling 1024 32768)) @
     map (\<lambda>c. opts\<lparr>to_clients := c, to_length := 2 ^ 10\<rparr>) (doubling 1 65) @
     map (\<lambda>c. opts\<lparr>to_clients := c, to_length := 2 ^ 5 * 2 ^ 10\<rparr>) (doubling 1 65) @
     map (\<lambda>c. opts\<lparr>to_clients := c, to_length := 2 ^ 20\<rparr>) (doubling 1 65)"

definition bench_main :: "chrono \<Rightarrow> nat \<Rightarrow> test_options list" where
  "bench_main K cores =
     concat (map (\<lambda>(port, topic). bench_plan K (bench_base K cores (''127.0.0.1'', port) topic))
       [(1082, ''pedronet''), (1083, ''asio''), (1084, ''muduo''), (1085, ''netty'')])"

lemma bench_sizes: "doubling 1024 32768 = [1024, 2048, 4096, 8192, 16384]" "doubling 1 65 = [1, 2, 4, 8, 16, 32, 64]"
  by (simp_all add: doubling.simps)

section \<open>The result\<close>

definition all_clients :: "'b buffer_ops \<Rightarrow> 'b client_bench \<Rightarrow> bool" where
  "all_clients B s \<longleftrightarrow> (\<forall>c. Some c \<in> set (cb_conns s) \<longrightarrow> client_inv B c)"

lemma all_clients_update:
  "all_clients B s \<Longrightarrow> client_inv B c \<Longrightarrow> all_clients B (s\<lparr>cb_conns := (cb_conns s)[i := Some c]\<rparr>)"
  unfolding all_clients_def by (auto dest!: subsetD [OF set_update_subset_insert])

lemma client_counted:
  assumes "client_inv B c" and "count_list (cn_trace c) OnClose = 1"
  shows "hm_reported (cn_memory c) = [(of_nat (open_reads c), hm_bytes (cn_memory c))]"
    and "\<exists>k \<le> length (cn_received c). hm_bytes (cn_memory c) = of_nat k"
  using assms by (auto simp: client_inv_def client_open_def client_closed_def split: if_splits)

lemma client_close_once: "client_inv B c \<Longrightarrow> count_list (cn_trace c) OnClose \<le> 1"
  by (auto simp: client_inv_def client_open_def client_closed_def split: if_splits)

text \<open>A latch at zero, when nobody counts it down twice.\<close>

lemma latch_zero:
  assumes "\<forall>x \<in> set xs. f x \<le> (1 :: nat)" and "length xs \<le> sum_list (map f xs)"
  shows "\<forall>x \<in> set xs. f x = 1"
  using assms
proof (induction xs)
  case (Cons x xs)
  have "sum_list (map f xs) \<le> sum_list (map (\<lambda>_. 1) xs)"
    using Cons.prems(1) by (intro sum_list_mono) simp
  then have "sum_list (map f xs) \<le> length xs"
    by (simp add: sum_list_triv)
  moreover have "f x \<le> 1"
    using Cons.prems(1) by simp
  ultimately have "f x = 1" "length xs \<le> sum_list (map f xs)"
    using Cons.prems(2) by auto
  with Cons show ?case by simp
qed simp

lemma result_sum:
  "fold result_add rs s = \<lparr>br_msg_send = br_msg_send s + sum_list (map fst rs),
     br_byte_send = br_byte_send s + sum_list (map snd rs)\<rparr>"
  by (induction rs arbitrary: s) (simp_all add: result_add_def add_ac)

lemma bench_all_clients:
  assumes "buffer_ok B" and H: "H = conn_hooks B sys (echo_client opts dist) (Suc (Suc n))"
    and "reachable (bench_initial opts) (bench_step B sys H opts) s"
  shows "all_clients B s"
  using assms(3)
proof (induction rule: reachable.induct)
  case (start s)
  then show ?case by (simp add: bench_initial_def all_clients_def)
next
  case (next_step s t)
  note system = client_system [OF assms(1), of sys opts dist n, folded H]
  have init: "conn_initial B H c \<Longrightarrow> client_inv B c" for c
    using invariant_system.inv_initial [OF system] .
  have move: "client_step B sys H c d \<Longrightarrow> client_inv B c \<Longrightarrow> client_inv B d" for c d
    using invariant_system.inv_step [OF system] by blast
  have at: "cb_conns s ! i = Some c \<Longrightarrow> i < length (cb_conns s) \<Longrightarrow> client_inv B c" for i c
    using next_step.IH unfolding all_clients_def by (metis nth_mem)
  note upd = all_clients_update [OF next_step.IH]
  from next_step.hyps(2) show ?case
  proof cases
    case (bm_send k)
    show ?thesis
    proof (cases "cb_conns s ! k")
      case None
      with bm_send next_step.IH show ?thesis
        by (simp add: all_clients_def list_update_id [of "cb_conns s" k, unfolded None])
    next
      case (Some c)
      have "client_inv B (conn_exec False B sys H (CmdSend (bench_message opts)) c)"
        by (rule move [OF cl_call at [OF Some bm_send(3)]]) simp
      from upd [OF this] bm_send(1) Some show ?thesis
        by (simp add: all_clients_def del: conn_exec.simps)
    qed
  next
    case bm_connected
    with next_step.IH show ?thesis by (simp add: all_clients_def)
  next
    case (bm_connection i c)
    then show ?thesis using upd init by simp
  next
    case (bm_task i c u ts)
    show ?thesis
      unfolding bm_task(1) by (rule upd, rule move [OF cl_task [OF bm_task(4)] at [OF bm_task(3,2)]])
  next
    case (bm_io i c events)
    show ?thesis
      unfolding bm_io(1) by (rule upd, rule move [OF cl_io at [OF bm_io(3,2)]])
  next
    case (bm_timer i c j)
    show ?thesis
      unfolding bm_timer(1) by (rule upd, rule move [OF cl_call at [OF bm_timer(3,2)]]) simp
  next
    case (bm_shutdown i c in_loop)
    show ?thesis
      unfolding bm_shutdown(1) by (rule upd, rule move [OF cl_call at [OF bm_shutdown(4,3)]]) simp
  qed
qed

text \<open>When the program goes on, every client has a connection and every one has closed once.\<close>

lemma returned_closed:
  assumes "all_clients B s" and "bench_returns s"
  shows "\<exists>cs. cb_conns s = map Some cs \<and> (\<forall>c \<in> set cs. client_inv B c \<and> count_list (cn_trace c) OnClose = 1)"
proof -
  have le: "\<forall>x \<in> set (cb_conns s). conn_count OnClose x \<le> 1"
  proof
    fix x
    assume "x \<in> set (cb_conns s)"
    with assms(1) show "conn_count OnClose x \<le> 1"
      using client_close_once by (cases x) (auto simp: all_clients_def)
  qed
  have one: "\<forall>x \<in> set (cb_conns s). conn_count OnClose x = 1"
    using assms(2) by (intro latch_zero [OF le]) (simp add: bench_returns_def latch_left_def)
  then have some: "\<forall>x \<in> set (cb_conns s). \<exists>c. x = Some c"
    by (metis conn_count.simps(1) option.exhaust zero_neq_one)
  let ?cs = "map the (cb_conns s)"
  have eq: "cb_conns s = map Some ?cs"
    using some by (auto simp: map_idI)
  have "client_inv B c \<and> count_list (cn_trace c) OnClose = 1" if "c \<in> set ?cs" for c
  proof -
    from that eq have "Some c \<in> set (cb_conns s)"
      by (metis image_eqI image_set)
    with assms(1) one show ?thesis
      by (auto simp: all_clients_def)
  qed
  with eq show ?thesis by blast
qed

lemma reports_of_closed:
  assumes "\<forall>c \<in> set cs. client_inv B c \<and> count_list (cn_trace c) OnClose = 1"
  shows "concat (map (conn_reports \<circ> Some) cs) = map (\<lambda>c. (of_nat (open_reads c), hm_bytes (cn_memory c))) cs"
  using assms
proof (induction cs)
  case (Cons c cs)
  then have "hm_reported (cn_memory c) = [(of_nat (open_reads c), hm_bytes (cn_memory c))]"
    using client_counted(1) [of B c] by simp
  with Cons show ?case by simp
qed simp

lemma bytes_of_closed:
  assumes "\<forall>c \<in> set cs. client_inv B c \<and> count_list (cn_trace c) OnClose = 1"
  shows "\<exists>ks. list_all2 (\<lambda>k c. k \<le> length (cn_received c)) ks cs \<and>
    sum_list (map (\<lambda>c. hm_bytes (cn_memory c)) cs) = of_nat (sum_list ks)"
  using assms
proof (induction cs)
  case (Cons c cs)
  then obtain k ks where "k \<le> length (cn_received c)" "hm_bytes (cn_memory c) = of_nat k"
    "list_all2 (\<lambda>k c. k \<le> length (cn_received c)) ks cs"
    "sum_list (map (\<lambda>c. hm_bytes (cn_memory c)) cs) = of_nat (sum_list ks)"
    using client_counted(2) [of B c] by auto
  then show ?case by (intro exI [of _ "k # ks"]) simp
qed simp

lemma sum_list_of_nat_map: "sum_list (map (\<lambda>c. of_nat (f c)) cs) = (of_nat (sum_list (map f cs)) :: u64)"
  by (induction cs) simp_all

text \<open>
  C21. The benchmark's result is the work that was done.  When \<open>benchmark\<close> has sent a message on
  every client and \<open>close_latch.Await()\<close> lets it go on, whatever the order in which the clients
  connect, read, echo (at once or by timers) and close: every client has a connection that has
  closed, each has reported exactly once, the message count is the sum over the clients of their
  reads before the close, and the byte count the sum of bytes that each had read (modulo 2^64).
\<close>

theorem bench_client_result:
  assumes "buffer_ok B" and "H = conn_hooks B sys (echo_client opts dist) (Suc (Suc n))"
    and "reachable (bench_initial opts) (bench_step B sys H opts) s" and "bench_returns s"
  shows "\<exists>cs ks. cb_conns s = map Some cs \<and> (\<forall>c \<in> set cs. count_list (cn_trace c) OnClose = 1) \<and>
    br_msg_send (bench_result_of s) = of_nat (sum_list (map open_reads cs)) \<and>
    list_all2 (\<lambda>k c. k \<le> length (cn_received c)) ks cs \<and>
    br_byte_send (bench_result_of s) = of_nat (sum_list ks)"
proof -
  from returned_closed [OF bench_all_clients [OF assms(1-3)] assms(4)] obtain cs where cs: "cb_conns s = map Some cs"
    "\<forall>c \<in> set cs. client_inv B c \<and> count_list (cn_trace c) OnClose = 1"
    by blast
  from bytes_of_closed [OF cs(2)] obtain ks where ks: "list_all2 (\<lambda>k c. k \<le> length (cn_received c)) ks cs"
    "sum_list (map (\<lambda>c. hm_bytes (cn_memory c)) cs) = of_nat (sum_list ks)"
    by blast
  have "bench_result_of s = \<lparr>br_msg_send = of_nat (sum_list (map open_reads cs)), br_byte_send = of_nat (sum_list ks)\<rparr>"
    using reports_of_closed [OF cs(2)] ks(2)
    by (simp add: bench_result_of_def result_sum cs(1) comp_def sum_list_of_nat_map)
  with cs ks(1) show ?thesis
    by (intro exI [of _ cs] exI [of _ ks]) simp
qed

text \<open>One client with a delayed echo: it connects, reads a byte, is sent to and then closed by its peer.\<close>

definition one_client :: test_options where
  "one_client = delayed_options\<lparr>to_clients := 1, to_length := 3\<rparr>"

abbreviation one_hook :: "(byte list \<times> nat) conn_hook" where
  "one_hook \<equiv> conn_hooks list_buffer slow_os (echo_client one_client (\<lambda>k. 7)) (Suc (Suc 0))"

definition one_started :: "(byte list \<times> nat) tcp_conn" where
  "one_started = conn_start True one_hook (conn_create list_buffer)"

definition one_read :: "(byte list \<times> nat) tcp_conn" where
  "one_read = conn_io list_buffer slow_os one_hook kReadable one_started"

definition one_sent :: "(byte list \<times> nat) tcp_conn" where
  "one_sent = conn_exec False list_buffer slow_os one_hook (CmdSend (bench_message one_client)) one_read"

definition one_closed :: "(byte list \<times> nat) tcp_conn" where
  "one_closed = conn_io list_buffer slow_os one_hook kHangUp one_sent"

lemma one_simps:
  "count_list (cn_trace one_started) OnConnect = 1" "count_list (cn_trace one_read) OnConnect = 1"
  "count_list (cn_trace one_closed) OnClose = 1" "open_reads one_closed = 1" "cn_received one_closed = [9]"
  by code_simp+

definition one_state :: "bench_phase \<Rightarrow> (byte list \<times> nat) tcp_conn \<Rightarrow> (byte list \<times> nat) client_bench" where
  "one_state ph c = \<lparr>cb_phase = ph, cb_conns = [Some c]\<rparr>"

lemma one_reachable:
  "reachable (bench_initial one_client) (bench_step list_buffer slow_os one_hook one_client)
     (one_state (BenchSending 1) one_closed)"
proof -
  let ?R = "reachable (bench_initial one_client) (bench_step list_buffer slow_os one_hook one_client)"
  have "?R \<lparr>cb_phase = BenchStarting, cb_conns = [None]\<rparr>"
    by (rule reachable.start) (simp add: bench_initial_def one_client_def)
  then have "?R (one_state BenchStarting one_started)"
    by (rule reachable.next_step)
      (use bm_connection [of 0 "\<lparr>cb_phase = BenchStarting, cb_conns = [None]\<rparr>" list_buffer one_hook one_started] in
        \<open>auto simp: one_state_def conn_initial_def one_started_def simp del: conn_hooks.simps\<close>)
  then have "?R (one_state BenchStarting one_read)"
    by (rule reachable.next_step)
      (use bm_io [of 0 "one_state BenchStarting one_started" one_started list_buffer slow_os one_hook one_client kReadable] in
        \<open>simp add: one_state_def one_read_def del: conn_hooks.simps\<close>)
  then have "?R (one_state (BenchSending 0) one_read)"
    by (rule reachable.next_step)
      (use bm_connected [of "one_state BenchStarting one_read"] in
        \<open>simp add: one_state_def latch_left_def one_simps del: conn_hooks.simps\<close>)
  then have "?R (one_state (BenchSending 1) one_sent)"
    by (rule reachable.next_step)
      (use bm_send [of "one_state (BenchSending 0) one_read" 0] in
        \<open>simp add: one_state_def one_sent_def del: conn_hooks.simps conn_exec.simps\<close>)
  then show ?thesis
    by (rule reachable.next_step)
      (use bm_io [of 0 "one_state (BenchSending 1) one_sent" one_sent list_buffer slow_os one_hook one_client kHangUp] in
        \<open>simp add: one_state_def one_closed_def del: conn_hooks.simps\<close>)
qed

theorem bench_client_result_witness:
  "br_msg_send (bench_result_of (one_state (BenchSending 1) one_closed)) = 1 \<and>
   (\<exists>k \<le> 1. br_byte_send (bench_result_of (one_state (BenchSending 1) one_closed)) = of_nat k)"
proof -
  have "bench_returns (one_state (BenchSending 1) one_closed)"
    by (simp add: bench_returns_def one_state_def latch_left_def one_simps)
  from bench_client_result [OF list_buffer_ok refl one_reachable this] obtain ks where
    "br_msg_send (bench_result_of (one_state (BenchSending 1) one_closed)) = 1"
    "list_all2 (\<lambda>k c. k \<le> length (cn_received c)) ks [one_closed]"
    "br_byte_send (bench_result_of (one_state (BenchSending 1) one_closed)) = of_nat (sum_list ks)"
    by (auto simp: one_state_def one_simps)
  then show ?thesis
    by (intro conjI exI [of _ "sum_list ks"]) (auto simp: one_simps list_all2_Cons2)
qed

end
