(* ===== verification/Timer_Threads.thy ===== *)
theory Timer_Threads
  imports Timer_Rearm
begin

text \<open>
  src/queue/timer\_heap\_queue.cc and src/channel/timer\_channel.cc under threads: any number of
  threads add and cancel timers of a heap queue while the thread of the loop waits in the
  selector, handles the event of the timer channel and runs \<open>Process\<close>.  A step is one access to
  what the threads share: the mutex, \<open>last_wakeup_us_\<close>, the timerfd.  What a thread does to the
  queue while it holds the mutex is one step; the calls of the timer channel are not, because
  \<open>HandleEvents\<close> does not take the mutex: its two stores and the read of the descriptor fall
  between the steps of a \<open>WakeUpAt\<close> that another thread makes.

  \<open>tt_armed\<close>: the timerfd was set and has not been read since, so it is or becomes readable.
  The clock does not go back: a reading is at least the one before.  Delays and intervals are
  within \<open>kMaxDelay\<close>.  A \<open>WakeUpAfter\<close> that loads INT64\_MIN subtracts with overflow, which
  C++ leaves undefined; here it returns, as it does where the arithmetic wraps around.
\<close>

section \<open>The steps of WakeUpAt\<close>

datatype wake_stage = WakeAt usec | WakeTest usec | WakeSwap usec int | WakeArm usec | WakeDone

text \<open>
  The clock is read and the duration clamped, the stored value is loaded and tested, compared and
  swapped (a failed swap loads again), and the descriptor is set.
\<close>

fun tt_wake :: "chrono \<Rightarrow> usec \<Rightarrow> wake_stage \<Rightarrow> timer_channel \<times> bool \<Rightarrow> wake_stage \<times> timer_channel \<times> bool" where
  "tt_wake K now (WakeAt timestamp) (ch, armed) =
     (WakeTest (max (ts_minus K timestamp now) kMinWakeUpDuration), ch, armed)"
| "tt_wake K now (WakeTest usec) (ch, armed) =
     (if tc_ignores usec (tc_last_wakeup_us ch) = Some False
      then WakeSwap usec (tc_last_wakeup_us ch) else WakeDone, ch, armed)"
| "tt_wake K now (WakeSwap usec us) (ch, armed) =
     (if tc_last_wakeup_us ch = us then (WakeArm usec, ch\<lparr>tc_last_wakeup_us := usec\<rparr>, armed)
      else (WakeTest usec, ch, armed))"
| "tt_wake K now (WakeArm usec) (ch, armed) = (WakeDone, tc_settime K now usec ch, True)"
| "tt_wake K now WakeDone (ch, armed) = (WakeDone, ch, armed)"

section \<open>The steps of the threads\<close>

text \<open>Who holds the mutex: nobody, the sweep of \<open>Process\<close>, or a thread in its call of \<open>WakeUpAt\<close>.\<close>

datatype tt_lock = LockFree | LockSweep | LockWaking wake_stage

text \<open>
  The thread of the loop: in the selector; in \<open>HandleEvents\<close> after the store of INT64\_MIN and
  after the read; behind the store of INT64\_MAX; in \<open>Process\<close> before the mutex, in its loop, in
  a callback, and in the \<open>WakeUpAt\<close> at its end.
\<close>

datatype 'c tt_phase = TtWaiting | TtReading | TtHasRead | TtTriggered | TtEntering usec
  | TtSweeping usec | TtCalling usec "'c heap_entry" | TtRearming

record 'c tt_system =
  tt_heap :: "'c heap_queue"
  tt_channel :: timer_channel
  tt_armed :: bool
  tt_clock :: usec
  tt_lock :: tt_lock
  tt_ready :: "(timeout \<times> 'c heap_entry) multiset"
  tt_phase :: "'c tt_phase"
  tt_added :: "timeout multiset"
  tt_popped :: "timeout multiset"

text \<open>A new queue and a new channel, at any time; pedrolib's time arithmetic is the documented one.\<close>

definition tt_initial :: "chrono \<Rightarrow> 'c tt_system \<Rightarrow> bool" where
  "tt_initial K s \<longleftrightarrow> chrono_ok K \<and>
     s = \<lparr>tt_heap = hq_create, tt_channel = tc_create, tt_armed = False, tt_clock = tt_clock s,
          tt_lock = LockFree, tt_ready = {#}, tt_phase = TtWaiting, tt_added = {#}, tt_popped = {#}\<rparr>"

definition tt_push :: "timeout \<Rightarrow> 'c tt_system \<Rightarrow> 'c tt_system" where
  "tt_push t s = s\<lparr>tt_heap := (tt_heap s)\<lparr>hq_queue := pq_push t (hq_queue (tt_heap s))\<rparr>,
     tt_added := add_mset t (tt_added s)\<rparr>"

definition tt_pop :: "timeout \<Rightarrow> 'c tt_system \<Rightarrow> 'c tt_system" where
  "tt_pop t s = s\<lparr>tt_heap := (tt_heap s)\<lparr>hq_queue := pq_pop (hq_queue (tt_heap s))\<rparr>,
     tt_popped := add_mset t (tt_popped s)\<rparr>"

text \<open>After a callback, with the mutex held again: \<open>now\<close> is read for a periodic timer.\<close>

definition tt_after_callback :: "chrono \<Rightarrow> usec \<Rightarrow> 'c heap_entry \<Rightarrow> 'c tt_system \<Rightarrow> 'c tt_system" where
  "tt_after_callback K now timer s =
     (if 0 < he_interval timer
      then tt_push (Timeout (ts_plus K now (he_interval timer)) (he_id timer)) (s\<lparr>tt_clock := now\<rparr>)
      else s\<lparr>tt_heap := hq_cancel (he_id timer) (tt_heap s)\<rparr>)"

inductive tt_step :: "chrono \<Rightarrow> 'c tt_system \<Rightarrow> 'c tt_system \<Rightarrow> bool" for K where
  tt_prepare: "tt_clock s \<le> now \<Longrightarrow> delay \<le> kMaxDelay \<Longrightarrow> interval \<le> kMaxDelay \<Longrightarrow>
     tid = to_u64 (int (hq_counter (tt_heap s)) + 1) \<Longrightarrow>
     timer = \<lparr>he_id = tid, he_callback = callback, he_interval = interval\<rparr> \<Longrightarrow>
     tt_step K s (s\<lparr>tt_clock := now,
       tt_heap := (tt_heap s)\<lparr>hq_counter := Suc (hq_counter (tt_heap s))\<rparr>,
       tt_ready := add_mset (Timeout (ts_plus K now delay) tid, timer) (tt_ready s)\<rparr>)"
| tt_emplace: "tt_lock s = LockFree \<Longrightarrow> tt_ready s = add_mset (t, timer) rest \<Longrightarrow>
     s1 = tt_push t s \<Longrightarrow>
     tt_step K s (s1\<lparr>tt_heap := hq_emplace (he_id timer) timer (tt_heap s1), tt_ready := rest,
       tt_lock := LockWaking (WakeAt (to_expire t))\<rparr>)"
| tt_waking: "tt_lock s = LockWaking st \<Longrightarrow> tt_clock s \<le> now \<Longrightarrow>
     tt_wake K now st (tt_channel s, tt_armed s) = (st', ch, armed) \<Longrightarrow>
     tt_step K s (s\<lparr>tt_clock := now, tt_lock := LockWaking st', tt_channel := ch, tt_armed := armed\<rparr>)"
| tt_unlock: "tt_lock s = LockWaking WakeDone \<Longrightarrow>
     tt_step K s (s\<lparr>tt_lock := LockFree,
       tt_phase := (if tt_phase s = TtRearming then TtWaiting else tt_phase s)\<rparr>)"
| tt_cancel: "tt_lock s = LockFree \<Longrightarrow> tt_step K s (s\<lparr>tt_heap := hq_cancel tid (tt_heap s)\<rparr>)"
| tt_event: "tt_phase s = TtWaiting \<Longrightarrow> tt_armed s \<Longrightarrow>
     tt_step K s (s\<lparr>tt_phase := TtReading, tt_channel := tc_begin_read (tt_channel s)\<rparr>)"
| tt_read: "tt_phase s = TtReading \<Longrightarrow> tt_armed s \<Longrightarrow>
     tt_step K s (s\<lparr>tt_phase := TtHasRead, tt_armed := False\<rparr>)"
| tt_read_fails: "tt_phase s = TtReading \<Longrightarrow> tt_step K s (s\<lparr>tt_phase := TtHasRead\<rparr>)"
| tt_trigger: "tt_phase s = TtHasRead \<Longrightarrow>
     tt_step K s (s\<lparr>tt_phase := TtTriggered, tt_channel := tc_end_read (tt_channel s)\<rparr>)"
| tt_process: "tt_phase s = TtTriggered \<Longrightarrow> tt_clock s \<le> now \<Longrightarrow>
     tt_step K s (s\<lparr>tt_phase := TtEntering now, tt_clock := now\<rparr>)"
| tt_enter: "tt_phase s = TtEntering now \<Longrightarrow> tt_lock s = LockFree \<Longrightarrow>
     tt_step K s (s\<lparr>tt_phase := TtSweeping now, tt_lock := LockSweep\<rparr>)"
| tt_stale: "tt_phase s = TtSweeping now \<Longrightarrow> pq_top (hq_queue (tt_heap s)) = Some item \<Longrightarrow>
     to_expire item \<le> now \<Longrightarrow> hq_table (tt_heap s) (to_timer item) = None \<Longrightarrow>
     tt_step K s (tt_pop item s)"
| tt_call: "tt_phase s = TtSweeping now \<Longrightarrow> pq_top (hq_queue (tt_heap s)) = Some item \<Longrightarrow>
     to_expire item \<le> now \<Longrightarrow> hq_table (tt_heap s) (to_timer item) = Some timer \<Longrightarrow>
     tt_step K s ((tt_pop item s)\<lparr>tt_phase := TtCalling now timer, tt_lock := LockFree\<rparr>)"
| tt_return: "tt_phase s = TtCalling now timer \<Longrightarrow> tt_lock s = LockFree \<Longrightarrow> tt_clock s \<le> now' \<Longrightarrow>
     tt_step K s ((tt_after_callback K now' timer s)\<lparr>tt_phase := TtSweeping now, tt_lock := LockSweep\<rparr>)"
| tt_idle: "tt_phase s = TtSweeping now \<Longrightarrow> pq_top (hq_queue (tt_heap s)) = None \<Longrightarrow>
     tt_step K s (s\<lparr>tt_phase := TtWaiting, tt_lock := LockFree\<rparr>)"
| tt_rearm: "tt_phase s = TtSweeping now \<Longrightarrow> pq_top (hq_queue (tt_heap s)) = Some item \<Longrightarrow>
     now < to_expire item \<Longrightarrow>
     tt_step K s (s\<lparr>tt_phase := TtRearming, tt_lock := LockWaking (WakeAt (to_expire item))\<rparr>)"

inductive_cases tt_stepE: "tt_step K s t"

section \<open>The invariant\<close>

text \<open>Between the two stores of \<open>HandleEvents\<close>.\<close>

fun tt_in_read :: "'c tt_phase \<Rightarrow> bool" where
  "tt_in_read TtReading \<longleftrightarrow> True"
| "tt_in_read TtHasRead \<longleftrightarrow> True"
| "tt_in_read _ \<longleftrightarrow> False"

text \<open>
  A stage before the compare-and-swap has succeeded; the durations are in range, and a value to
  be swapped was loaded outside the read.
\<close>

fun tt_undecided :: "tt_lock \<Rightarrow> bool" where
  "tt_undecided (LockWaking (WakeAt _)) \<longleftrightarrow> True"
| "tt_undecided (LockWaking (WakeTest _)) \<longleftrightarrow> True"
| "tt_undecided (LockWaking (WakeSwap _ _)) \<longleftrightarrow> True"
| "tt_undecided _ \<longleftrightarrow> False"

definition tt_duration :: "usec \<Rightarrow> bool" where
  "tt_duration u \<longleftrightarrow> 100 \<le> u \<and> u \<le> kMaxDelay"

fun tt_stage_ok :: "usec \<Rightarrow> tt_lock \<Rightarrow> bool" where
  "tt_stage_ok now (LockWaking (WakeAt t)) \<longleftrightarrow> t \<le> now + kMaxDelay"
| "tt_stage_ok now (LockWaking (WakeTest u)) \<longleftrightarrow> tt_duration u"
| "tt_stage_ok now (LockWaking (WakeSwap u us)) \<longleftrightarrow> tt_duration u \<and> 0 \<le> us"
| "tt_stage_ok now (LockWaking (WakeArm u)) \<longleftrightarrow> tt_duration u"
| "tt_stage_ok now _ \<longleftrightarrow> True"

text \<open>Who holds the mutex, by where the loop is.\<close>

definition tt_locked :: "'c tt_system \<Rightarrow> bool" where
  "tt_locked s \<longleftrightarrow> ((\<exists>now. tt_phase s = TtSweeping now) \<longleftrightarrow> tt_lock s = LockSweep)
     \<and> (tt_phase s = TtRearming \<longrightarrow> tt_lock s \<noteq> LockFree)"

text \<open>Nothing in the system is further away than the longest delay.\<close>

definition tt_range :: "'c tt_system \<Rightarrow> bool" where
  "tt_range s \<longleftrightarrow> (\<forall>t \<in> set (hq_queue (tt_heap s)). to_expire t \<le> tt_clock s + kMaxDelay)
     \<and> (\<forall>(t, e) \<in># tt_ready s. to_expire t \<le> tt_clock s + kMaxDelay \<and> he_interval e \<le> kMaxDelay)
     \<and> (\<forall>tid e. hq_table (tt_heap s) tid = Some e \<longrightarrow> he_interval e \<le> kMaxDelay)
     \<and> (\<forall>now e. tt_phase s = TtCalling now e \<longrightarrow> he_interval e \<le> kMaxDelay)
     \<and> tt_stage_ok (tt_clock s) (tt_lock s)"

text \<open>
  What \<open>last_wakeup_us_\<close> says of the descriptor: INT64\_MIN in the read; otherwise INT64\_MAX, or
  a duration for which the descriptor has been set or is about to be.
\<close>

definition tt_last :: "'c tt_system \<Rightarrow> bool" where
  "tt_last s \<longleftrightarrow>
     (if tt_in_read (tt_phase s) then tc_last_wakeup_us (tt_channel s) = INT64_MIN
      else tc_last_wakeup_us (tt_channel s) = INT64_MAX
        \<or> tt_duration (tc_last_wakeup_us (tt_channel s))
          \<and> (tt_armed s \<or> (\<exists>u. tt_lock s = LockWaking (WakeArm u))))"

text \<open>With a timeout queued, a loop that waits is promised a wakeup or a thread is about to ask for one.\<close>

definition tt_promised :: "'c tt_system \<Rightarrow> bool" where
  "tt_promised s \<longleftrightarrow>
     (tt_phase s = TtWaiting \<or> tt_phase s = TtRearming \<longrightarrow> hq_queue (tt_heap s) \<noteq> [] \<longrightarrow>
        tt_undecided (tt_lock s) \<or> tc_last_wakeup_us (tt_channel s) \<noteq> INT64_MAX)"

definition tt_inv :: "chrono \<Rightarrow> 'c tt_system \<Rightarrow> bool" where
  "tt_inv K s \<longleftrightarrow> chrono_ok K \<and> tt_locked s \<and> tt_range s \<and> tt_last s \<and> tt_promised s
     \<and> tt_added s = tt_popped s + mset (hq_queue (tt_heap s))"

lemma tt_ignores:
  assumes "tt_duration u"
  shows "tc_ignores u INT64_MIN = None"
    and "0 \<le> us \<Longrightarrow> us \<le> INT64_MAX \<Longrightarrow> tc_ignores u us = Some (us - 100 < u)"
  using assms by (simp_all add: tt_duration_def kMaxDelay_def tc_ignores_eq,
    simp add: tc_ignores_def sub64_def in_int64_def INT64_MIN_def INT64_MAX_def)

lemma tt_duration_max: "tt_duration u \<Longrightarrow> u \<noteq> INT64_MAX" "tt_duration u \<Longrightarrow> u \<noteq> INT64_MIN"
  "tt_duration u \<Longrightarrow> 0 \<le> u \<and> u \<le> INT64_MAX - 200"
  by (auto simp: tt_duration_def kMaxDelay_def INT64_MAX_def INT64_MIN_def)

lemma tt_stage_ok_later: "tt_stage_ok now l \<Longrightarrow> now \<le> now' \<Longrightarrow> tt_stage_ok now' l"
  by (cases "(now, l)" rule: tt_stage_ok.cases) auto

text \<open>
  What one step of a \<open>WakeUpAt\<close> does, in the read (\<open>r\<close>) or not: it changes the stored value only
  by the swap, which is followed by the call that sets the descriptor, and once it is past the
  test, outside the read, some wakeup is promised.
\<close>

definition tt_value :: "bool \<Rightarrow> timer_channel \<Rightarrow> bool" where
  "tt_value r ch \<longleftrightarrow>
     (if r then tc_last_wakeup_us ch = INT64_MIN
      else tc_last_wakeup_us ch = INT64_MAX \<or> tt_duration (tc_last_wakeup_us ch))"

lemma tt_wake_sound:
  assumes "chrono_ok K" and "tt_stage_ok now (LockWaking st)" and "tt_value r ch"
    and "tt_wake K now st (ch, a) = (st', ch', a')"
  shows "tt_stage_ok now (LockWaking st')" and "tt_value r ch'" and "a \<Longrightarrow> a'"
    and "st = WakeArm u \<Longrightarrow> a'"
    and "tc_last_wakeup_us ch' = tc_last_wakeup_us ch \<or> (\<exists>u. st' = WakeArm u \<and> tc_last_wakeup_us ch' \<noteq> INT64_MAX)"
    and "\<not> r \<Longrightarrow> \<not> tt_undecided (LockWaking st') \<Longrightarrow> tc_last_wakeup_us ch' = INT64_MAX \<Longrightarrow>
      \<not> tt_undecided (LockWaking st) \<and> tc_last_wakeup_us ch = INT64_MAX"
proof -
  let ?us = "tc_last_wakeup_us ch"
  have us: "?us = INT64_MIN \<longleftrightarrow> r" "?us \<noteq> INT64_MIN \<Longrightarrow> 0 \<le> ?us \<and> ?us \<le> INT64_MAX"
    using assms(3) by (auto simp: tt_value_def tt_duration_def kMaxDelay_def INT64_MAX_def INT64_MIN_def split: if_splits)
  have "tt_stage_ok now (LockWaking st') \<and> tt_value r ch' \<and> (a \<longrightarrow> a') \<and> (\<forall>u. st = WakeArm u \<longrightarrow> a')
    \<and> (tc_last_wakeup_us ch' = ?us \<or> (\<exists>u. st' = WakeArm u \<and> tc_last_wakeup_us ch' \<noteq> INT64_MAX))
    \<and> (\<not> r \<longrightarrow> \<not> tt_undecided (LockWaking st') \<longrightarrow> tc_last_wakeup_us ch' = INT64_MAX \<longrightarrow>
        \<not> tt_undecided (LockWaking st) \<and> ?us = INT64_MAX)"
  proof (cases st)
    case (WakeAt T)
    with assms show ?thesis
      by (auto simp: tt_duration_def kMinWakeUpDuration_def kMaxDelay_def INT64_MAX_def)
  next
    case (WakeTest u)
    then have u: "tt_duration u" using assms(2) by simp
    then have "?us = INT64_MAX \<Longrightarrow> st' \<noteq> WakeDone"
      using WakeTest assms(4) tt_ignores(2) [OF u, of ?us] tt_duration_max [OF u] by (auto simp: INT64_MAX_def)
    moreover have "?us = INT64_MIN \<Longrightarrow> st' = WakeDone"
      using WakeTest assms(4) tt_ignores(1) [OF u] by auto
    ultimately show ?thesis
      using WakeTest assms u us by (auto split: if_splits)
  next
    case (WakeSwap u us')
    then have u: "tt_duration u" "0 \<le> us'" using assms(2) by simp_all
    then have "\<not> r" if "?us = us'"
      using us(1) that by (auto simp: INT64_MIN_def)
    then show ?thesis
      using WakeSwap assms u tt_duration_max [OF u(1)] by (auto simp: tt_value_def split: if_splits)
  qed (use assms in \<open>auto simp: tt_value_def\<close>)
  then show "tt_stage_ok now (LockWaking st')" and "tt_value r ch'" and "a \<Longrightarrow> a'"
    and "st = WakeArm u \<Longrightarrow> a'"
    and "tc_last_wakeup_us ch' = ?us \<or> (\<exists>u. st' = WakeArm u \<and> tc_last_wakeup_us ch' \<noteq> INT64_MAX)"
    and "\<not> r \<Longrightarrow> \<not> tt_undecided (LockWaking st') \<Longrightarrow> tc_last_wakeup_us ch' = INT64_MAX \<Longrightarrow>
      \<not> tt_undecided (LockWaking st) \<and> ?us = INT64_MAX"
    by blast+
qed

lemma tt_waking_keeps:
  assumes "tt_inv K s" and "tt_lock s = LockWaking st" and "tt_clock s \<le> now"
    and "tt_wake K now st (tt_channel s, tt_armed s) = (st', ch, armed)"
  shows "tt_inv K (s\<lparr>tt_clock := now, tt_lock := LockWaking st', tt_channel := ch, tt_armed := armed\<rparr>)"
    (is "tt_inv K ?t")
proof -
  from assms(1) have inv: "chrono_ok K" "tt_locked s" "tt_range s" "tt_last s" "tt_promised s"
    by (simp_all add: tt_inv_def)
  have stage: "tt_stage_ok now (LockWaking st)"
    using inv(3) assms(2,3) tt_stage_ok_later [of "tt_clock s" "LockWaking st" now] by (simp add: tt_range_def)
  have val: "tt_value (tt_in_read (tt_phase s)) (tt_channel s)"
    using inv(4) by (auto simp: tt_last_def tt_value_def split: if_splits)
  note wake = tt_wake_sound [OF inv(1) stage val assms(4)]
  have "tt_last ?t"
    using inv(4) wake(2,3,4,5) assms(2) by (auto simp: tt_last_def tt_value_def split: if_splits)
  moreover have "tt_promised ?t"
    using inv(5) wake(5,6) assms(2) by (auto simp: tt_promised_def)
  moreover have "tt_locked ?t"
    using inv(2) assms(2) by (auto simp: tt_locked_def)
  moreover have "tt_range ?t"
    using inv(3) assms(3) wake(1) by (fastforce simp: tt_range_def)
  ultimately show ?thesis
    using assms(1) by (simp add: tt_inv_def)
qed

lemmas tt_inv_defs = tt_inv_def tt_locked_def tt_range_def tt_last_def tt_promised_def

lemma tt_emplace_table:
  "hq_table (hq_emplace k e q) tid = Some e' \<Longrightarrow> hq_table q tid = Some e' \<or> e' = e"
  by (auto simp: hq_emplace_def split: option.splits if_splits)

lemma hq_emplace_queue [simp]: "hq_queue (hq_emplace k e q) = hq_queue q"
  by (auto simp: hq_emplace_def split: option.split)

lemma pq_top_pop: "pq_top q = Some t \<Longrightarrow> mset q = add_mset t (mset (pq_pop q))"
  "pq_top q = Some t \<Longrightarrow> set (pq_pop q) \<subseteq> set q"
  by (cases q; force simp: pq_pop_def)+

lemma tt_push_simps [simp]:
  "hq_queue (tt_heap (tt_push t s)) = pq_push t (hq_queue (tt_heap s))"
  "hq_table (tt_heap (tt_push t s)) = hq_table (tt_heap s)" "tt_channel (tt_push t s) = tt_channel s"
  "tt_armed (tt_push t s) = tt_armed s" "tt_clock (tt_push t s) = tt_clock s"
  "tt_lock (tt_push t s) = tt_lock s" "tt_ready (tt_push t s) = tt_ready s"
  "tt_phase (tt_push t s) = tt_phase s" "tt_added (tt_push t s) = add_mset t (tt_added s)"
  "tt_popped (tt_push t s) = tt_popped s"
  by (simp_all add: tt_push_def)

lemma tt_pop_simps [simp]:
  "hq_queue (tt_heap (tt_pop t s)) = pq_pop (hq_queue (tt_heap s))"
  "hq_table (tt_heap (tt_pop t s)) = hq_table (tt_heap s)" "tt_channel (tt_pop t s) = tt_channel s"
  "tt_armed (tt_pop t s) = tt_armed s" "tt_clock (tt_pop t s) = tt_clock s"
  "tt_lock (tt_pop t s) = tt_lock s" "tt_ready (tt_pop t s) = tt_ready s"
  "tt_phase (tt_pop t s) = tt_phase s" "tt_added (tt_pop t s) = tt_added s"
  "tt_popped (tt_pop t s) = add_mset t (tt_popped s)"
  by (simp_all add: tt_pop_def)

lemma tt_inv_initial: "tt_initial K s \<Longrightarrow> tt_inv K s"
  unfolding tt_initial_def
  by (elim conjE, erule ssubst) (simp add: tt_inv_defs hq_create_def tc_create_def)

lemma tt_later:
  assumes "tt_inv K s" and "tt_clock s \<le> now"
  shows "tt_inv K (s\<lparr>tt_clock := now\<rparr>)"
proof -
  have "tt_range (s\<lparr>tt_clock := now\<rparr>)"
    using assms tt_stage_ok_later [of "tt_clock s" "tt_lock s" now] by (fastforce simp: tt_inv_def tt_range_def)
  with assms(1) show ?thesis
    by (simp add: tt_inv_def tt_locked_def tt_last_def tt_promised_def)
qed

lemma tt_inv_step: "tt_step K s t \<Longrightarrow> tt_inv K s \<Longrightarrow> tt_inv K t"
proof (induction rule: tt_step.induct)
  case (tt_prepare s now delay interval tid timer callback)
  then have inv: "tt_inv K (s\<lparr>tt_clock := now\<rparr>)" by (blast intro: tt_later)
  then have "ts_plus K now delay \<le> now + kMaxDelay"
    using tt_prepare.hyps(2) by (simp add: tt_inv_def)
  with inv show ?case
    using tt_prepare.hyps(3,5) by (simp add: tt_inv_defs cong: if_cong)
next
  case (tt_emplace s t timer rest s1)
  let ?t = "s1\<lparr>tt_heap := hq_emplace (he_id timer) timer (tt_heap s1), tt_ready := rest,
       tt_lock := LockWaking (WakeAt (to_expire t))\<rparr>"
  have "tt_range ?t"
    using tt_emplace unfolding tt_inv_def tt_range_def by (auto dest: tt_emplace_table)
  moreover have "tt_locked ?t" "tt_last ?t" "tt_promised ?t"
    using tt_emplace by (auto simp: tt_inv_def tt_locked_def tt_last_def tt_promised_def)
  ultimately show ?case
    using tt_emplace by (simp add: tt_inv_def)
next
  case (tt_waking s st now st' ch armed)
  then show ?case by (intro tt_waking_keeps)
next
  case (tt_process s now)
  then have "tt_inv K (s\<lparr>tt_clock := now\<rparr>)" by (blast intro: tt_later)
  then show ?case
    using tt_process.hyps by (auto simp: tt_inv_defs)
next
  case (tt_stale s now item)
  then show ?case
    using pq_top_pop [of "hq_queue (tt_heap s)" item] by (auto simp: tt_inv_defs)
next
  case (tt_call s now item timer)
  then show ?case
    using pq_top_pop [of "hq_queue (tt_heap s)" item] by (auto simp: tt_inv_defs)
next
  case (tt_return s now timer now')
  then have "tt_inv K (s\<lparr>tt_clock := now'\<rparr>)" by (blast intro: tt_later)
  then show ?case
    using tt_return by (auto simp: tt_inv_defs tt_after_callback_def split: if_splits)
next
  case (tt_rearm s now item)
  then show ?case
    by (cases "hq_queue (tt_heap s)") (auto simp: tt_inv_defs)
next
  case (tt_idle s now)
  then show ?case
    by (cases "hq_queue (tt_heap s)") (auto simp: tt_inv_defs)
qed (auto simp: tt_inv_defs tc_begin_read_def tc_end_read_def)

interpretation tt: wakeup_protocol "tt_initial K" "tt_step K" "tt_inv K"
  "\<lambda>s. tt_phase s = TtWaiting" "\<lambda>s. tt_lock s = LockFree" "\<lambda>s. mset (hq_queue (tt_heap s))"
  tt_armed tt_added tt_popped for K
proof unfold_locales
  fix s :: "'c tt_system"
  assume "tt_inv K s" and "tt_phase s = TtWaiting"
  then show "tt_added s = tt_popped s + mset (hq_queue (tt_heap s))"
    and "tt_lock s = LockFree \<Longrightarrow> mset (hq_queue (tt_heap s)) \<noteq> {#} \<Longrightarrow> tt_armed s"
    by (auto simp: tt_inv_defs)
qed (auto intro: tt_inv_initial tt_inv_step)

section \<open>The stored value and the descriptor\<close>

text \<open>
  The mutex keeps the swap of a thread and its \<open>timerfd_settime\<close> together: outside the read,
  \<open>last_wakeup_us_\<close> is the duration the descriptor was last set for, or is about to be.
\<close>

definition tt_set :: "usec \<Rightarrow> timer_channel \<Rightarrow> bool" where
  "tt_set now ch \<longleftrightarrow> (\<exists>t \<le> now. tc_armed t (tc_last_wakeup_us ch) ch)"

lemma tt_set_later: "tt_set now ch \<Longrightarrow> now \<le> now' \<Longrightarrow> tt_set now' ch"
  unfolding tt_set_def by (meson order_trans)

definition tt_honest :: "'c tt_system \<Rightarrow> bool" where
  "tt_honest s \<longleftrightarrow>
     (\<not> tt_in_read (tt_phase s) \<longrightarrow> tc_last_wakeup_us (tt_channel s) \<noteq> INT64_MAX \<longrightarrow>
        (case tt_lock s of
           LockWaking (WakeArm u) \<Rightarrow> tc_last_wakeup_us (tt_channel s) = u
         | _ \<Rightarrow> tt_set (tt_clock s) (tt_channel s)))"

lemma tt_waking_honest:
  assumes "tt_honest s" and "tt_inv K s" and "tt_lock s = LockWaking st" and "tt_clock s \<le> now"
    and "tt_wake K now st (tt_channel s, tt_armed s) = (st', ch, armed)"
  shows "tt_honest (s\<lparr>tt_clock := now, tt_lock := LockWaking st', tt_channel := ch, tt_armed := armed\<rparr>)"
proof (cases st)
  case (WakeArm u)
  have K: "chrono_ok K" and u: "tt_duration u"
    using assms(2,3) WakeArm by (simp_all add: tt_inv_def tt_range_def)
  then have "tc_deadline (tc_settime K now u (tt_channel s)) = Some (now + u)"
    by (intro tc_deadline_settime) (simp_all add: tt_duration_def)
  then have "tt_set now (tc_settime K now u (tt_channel s))" if "tc_last_wakeup_us (tt_channel s) = u"
    using u that by (auto simp: tt_set_def tc_armed_def tt_duration_def kMaxDelay_def)
  then show ?thesis
    using assms(1,3,5) WakeArm by (auto simp: tt_honest_def)
qed (use assms in \<open>auto simp: tt_honest_def intro: tt_set_later split: if_splits\<close>)

lemma tt_honest_step: "tt_step K s t \<Longrightarrow> tt_inv K s \<Longrightarrow> tt_honest s \<Longrightarrow> tt_honest t"
proof (induction rule: tt_step.induct)
  case (tt_waking s st now st' ch armed)
  then show ?case by (intro tt_waking_honest)
next
  case (tt_prepare s now delay interval tid timer callback)
  then show ?case
    by (auto simp: tt_honest_def intro: tt_set_later split: tt_lock.splits wake_stage.splits)
next
  case (tt_process s now)
  then show ?case
    by (auto simp: tt_honest_def intro: tt_set_later split: tt_lock.splits wake_stage.splits)
next
  case (tt_return s now timer now')
  then show ?case
    by (auto simp: tt_honest_def tt_after_callback_def intro: tt_set_later)
qed (auto simp: tt_honest_def tc_begin_read_def tc_end_read_def tt_inv_def tt_locked_def
    split: tt_lock.splits wake_stage.splits)

interpretation tt_channel: invariant_system "tt_initial K" "tt_step K" "\<lambda>s. tt_inv K s \<and> tt_honest s" for K
proof
  fix s t :: "'c tt_system"
  show "tt_initial K s \<Longrightarrow> tt_inv K s \<and> tt_honest s"
    using tt_inv_initial [of K s] by (cases s) (simp add: tt_initial_def tt_honest_def tc_create_def)
  show "tt_inv K s \<and> tt_honest s \<Longrightarrow> tt_step K s t \<Longrightarrow> tt_inv K t \<and> tt_honest t"
    using tt_inv_step tt_honest_step by blast
qed

section \<open>A call that meets no other thread\<close>

lemma tt_wakeup_alone:
  assumes "tt_lock s = LockWaking (WakeAt T)" and "tt_clock s \<le> now"
    and "tc_wakeup_at K now T (tt_channel s) = Some ch'"
  shows "\<exists>a. (tt_step K)\<^sup>*\<^sup>* s (s\<lparr>tt_clock := now, tt_lock := LockWaking WakeDone, tt_channel := ch', tt_armed := a\<rparr>)"
proof -
  let ?u = "max (ts_minus K T now) kMinWakeUpDuration" and ?us = "tc_last_wakeup_us (tt_channel s)"
  let ?at = "\<lambda>st ch a. s\<lparr>tt_clock := now, tt_lock := LockWaking st, tt_channel := ch, tt_armed := a\<rparr>"
  have next_stage: "tt_step K (?at st ch a) (?at st' ch1 a1)" if "tt_wake K now st (ch, a) = (st', ch1, a1)"
    for st ch a st' ch1 a1
    using tt_waking [of "?at st ch a" st now K] that by simp
  have start: "(tt_step K)\<^sup>*\<^sup>* s (?at (WakeTest ?u) (tt_channel s) (tt_armed s))"
    using tt_waking [of s "WakeAt T" now K] assms(1,2) by auto
  show ?thesis
  proof (cases "tc_ignores ?u ?us = Some False")
    case True
    let ?ch = "(tt_channel s)\<lparr>tc_last_wakeup_us := ?u\<rparr>"
    have "tt_step K (?at (WakeTest ?u) (tt_channel s) (tt_armed s)) (?at (WakeSwap ?u ?us) (tt_channel s) (tt_armed s))"
      and "tt_step K (?at (WakeSwap ?u ?us) (tt_channel s) (tt_armed s)) (?at (WakeArm ?u) ?ch (tt_armed s))"
      and "tt_step K (?at (WakeArm ?u) ?ch (tt_armed s)) (?at WakeDone (tc_settime K now ?u ?ch) True)"
      using True by (intro next_stage; simp)+
    with start have "(tt_step K)\<^sup>*\<^sup>* s (?at WakeDone (tc_settime K now ?u ?ch) True)"
      by (meson rtranclp.rtrancl_into_rtrancl)
    then show ?thesis
      using True assms(3) by (auto simp: tc_wakeup_at_def tc_wakeup_after_def tc_claim_def Let_def)
  next
    case False
    then have "tc_ignores ?u ?us = Some True"
      using assms(3) by (auto simp: tc_wakeup_at_def tc_wakeup_after_def tc_claim_def Let_def split: option.splits)
    then have "ch' = tt_channel s"
      using assms(3) by (simp add: tc_wakeup_at_def tc_wakeup_after_def tc_claim_def Let_def)
    moreover have "tt_step K (?at (WakeTest ?u) (tt_channel s) (tt_armed s)) (?at WakeDone (tt_channel s) (tt_armed s))"
      using False by (intro next_stage) simp
    ultimately show ?thesis
      using start by (meson rtranclp.rtrancl_into_rtrancl)
  qed
qed

text \<open>
  The state of theories Timer\_Heap and Timer\_Service that a state of the threads stands for, up
  to the histories of the readings of the clock and of the calls of \<open>WakeUpAt\<close>.
\<close>

definition hq_core :: "'c heap_queue \<Rightarrow> 'c heap_queue" where
  "hq_core q = q\<lparr>hq_reads := 0, hq_wakes := []\<rparr>"

definition tt_sees :: "(nat \<Rightarrow> usec) \<Rightarrow> 'c tt_system \<Rightarrow> 'c heap_queue \<times> timer_channel \<Rightarrow> bool" where
  "tt_sees clk s h \<longleftrightarrow> hq_core (tt_heap s) = hq_core (fst h) \<and> tt_channel s = snd h
     \<and> tt_clock s \<le> clk (hq_reads (fst h))"

lemma hq_core_eq: "hq_core q = hq_core q' \<longleftrightarrow>
  hq_counter q = hq_counter q' \<and> hq_queue q = hq_queue q' \<and> hq_table q = hq_table q'"
  by (cases q; cases q') (auto simp: hq_core_def)

text \<open>
  The steps of one thread, with no step of another between them, are the \<open>Add\<close> of theory
  Timer\_Service.
\<close>

lemma tt_add_alone:
  assumes "tt_lock s = LockFree" and "tt_phase s \<noteq> TtRearming" and "delay \<le> kMaxDelay" and "interval \<le> kMaxDelay"
    and "mono clk" and "tt_sees clk s h" and "ht_add K clk delay interval callback h = Some (tid, h')"
  shows "\<exists>t. (tt_step K)\<^sup>*\<^sup>* s t \<and> tt_lock t = LockFree \<and> tt_phase t = tt_phase s \<and> tt_sees clk t h'"
proof -
  let ?tid = "to_u64 (int (hq_counter (tt_heap s)) + 1)" and ?n = "hq_reads (fst h)"
  let ?e = "\<lparr>he_id = ?tid, he_callback = callback, he_interval = interval\<rparr>"
  let ?t = "Timeout (ts_plus K (clk ?n) delay) ?tid"
  let ?s1 = "s\<lparr>tt_clock := clk ?n, tt_heap := (tt_heap s)\<lparr>hq_counter := Suc (hq_counter (tt_heap s))\<rparr>,
       tt_ready := add_mset (?t, ?e) (tt_ready s)\<rparr>"
  let ?s2 = "(tt_push ?t ?s1)\<lparr>tt_heap := hq_emplace ?tid ?e (tt_heap (tt_push ?t ?s1)), tt_ready := tt_ready s,
       tt_lock := LockWaking (WakeAt (to_expire ?t))\<rparr>"
  have core: "hq_counter (fst h) = hq_counter (tt_heap s)" "hq_queue (fst h) = hq_queue (tt_heap s)"
    "hq_table (fst h) = hq_table (tt_heap s)" "snd h = tt_channel s" "tt_clock s \<le> clk ?n"
    using assms(6) by (simp_all add: tt_sees_def hq_core_eq)
  have later: "clk ?n \<le> clk (Suc ?n)" "clk (Suc ?n) \<le> clk (Suc (Suc ?n))"
    using assms(5) by (simp_all add: mono_def)
  obtain q ch where h': "h' = (q, ch)" by fastforce
  have q: "q = (snd (hq_add K clk delay interval callback (fst h)))\<lparr>hq_reads := Suc (Suc ?n)\<rparr>"
    and wake: "tc_wakeup_at K (clk (Suc ?n)) (ts_plus K (clk ?n) delay) (tt_channel s) = Some ch"
    using assms(7) core(4) unfolding h'
    by (auto simp: ht_add_def hq_add_def hq_now_def hq_emplace_def hq_wakeup_at_def Let_def split: option.splits)
  have one: "tt_step K s ?s1"
    using assms(3,4) core(5) by (intro tt_prepare) simp_all
  have two: "tt_step K ?s1 ?s2"
    using assms(1) tt_emplace [of ?s1 ?t ?e "tt_ready s" "tt_push ?t ?s1" K] by simp
  obtain a where "(tt_step K)\<^sup>*\<^sup>* ?s2 (?s2\<lparr>tt_clock := clk (Suc ?n), tt_lock := LockWaking WakeDone, tt_channel := ch, tt_armed := a\<rparr>)"
    using tt_wakeup_alone [of ?s2 "to_expire ?t" "clk (Suc ?n)" K ch] wake later(1) by auto
  moreover have "tt_step K \<dots> (\<dots>\<lparr>tt_lock := LockFree, tt_phase := tt_phase s\<rparr>)"
    using tt_unlock [of "?s2\<lparr>tt_clock := clk (Suc ?n), tt_lock := LockWaking WakeDone, tt_channel := ch, tt_armed := a\<rparr>" K]
      assms(2) by simp
  ultimately have "(tt_step K)\<^sup>*\<^sup>* s (?s2\<lparr>tt_clock := clk (Suc ?n), tt_channel := ch, tt_armed := a, tt_lock := LockFree, tt_phase := tt_phase s\<rparr>)"
    using one two by (simp add: converse_rtranclp_into_rtranclp rtranclp.rtrancl_into_rtrancl)
  moreover have "hq_core (tt_heap ?s2) = hq_core q"
    by (simp add: q core hq_core_eq hq_add_def hq_now_def hq_emplace_def hq_wakeup_at_def tt_push_def Let_def
        split: option.split)
  then have "tt_sees clk (?s2\<lparr>tt_clock := clk (Suc ?n), tt_channel := ch, tt_armed := a, tt_lock := LockFree, tt_phase := tt_phase s\<rparr>) h'"
    using later(2) by (simp add: tt_sees_def h' q)
  ultimately show ?thesis
    by (intro exI conjI) (assumption | simp)+
qed

text \<open>
  C14. TimerHeapQueue and TimerChannel lose no wakeup under threads: however the calls of Add and
  Cancel of other threads fall between the stores and the read of HandleEvents and the sweeps of
  Process, whenever the loop waits in its selector, no call of Add is in progress and a timeout is
  queued, the timerfd has been set and not been read since, and it expires the stored
  last_wakeup_us_ after the moment it was set.
\<close>

theorem timers_no_lost_wakeup:
  assumes "reachable (tt_initial K) (tt_step K) s" and "tt_phase s = TtWaiting" and "tt_lock s = LockFree"
    and "hq_queue (tt_heap s) \<noteq> []"
  shows "tt_armed s \<and> (\<exists>t \<le> tt_clock s. tc_deadline (tt_channel s) = Some (t + tc_last_wakeup_us (tt_channel s)))"
proof
  show "tt_armed s"
    using assms by (intro tt.no_lost_wakeup) simp_all
  have "tt_honest s" and "tc_last_wakeup_us (tt_channel s) \<noteq> INT64_MAX"
    using tt_channel.inv_reachable [OF assms(1)] assms(2-4) by (simp_all add: tt_inv_def tt_promised_def)
  then show "\<exists>t \<le> tt_clock s. tc_deadline (tt_channel s) = Some (t + tc_last_wakeup_us (tt_channel s))"
    using assms(2,3) by (auto simp: tt_honest_def tt_set_def tc_armed_def)
qed

text \<open>A thread adds a timer of 5 milliseconds to a new queue.\<close>

theorem timers_no_lost_wakeup_witness:
  "\<exists>s :: nat tt_system. reachable (tt_initial usec_chrono) (tt_step usec_chrono) s \<and> hq_queue (tt_heap s) \<noteq> [] \<and> tt_armed s"
proof -
  let ?s = "\<lparr>tt_heap = hq_create :: nat heap_queue, tt_channel = tc_create, tt_armed = False, tt_clock = 0,
          tt_lock = LockFree, tt_ready = {#}, tt_phase = TtWaiting, tt_added = {#}, tt_popped = {#}\<rparr>"
  have start: "reachable (tt_initial usec_chrono) (tt_step usec_chrono) ?s"
    by (intro reachable.start) (simp add: tt_initial_def)
  have range: "5000 \<le> kMaxDelay" "0 \<le> kMaxDelay"
    by (simp_all add: kMaxDelay_def INT64_MAX_def)
  obtain ch where "tc_wakeup_at usec_chrono 0 5000 tc_create = Some ch"
    using tc_wakeup_at_kept [OF usec_chrono_ok tc_ok_create, of 5000 0] by (auto simp: INT64_MAX_def)
  let ?q = "snd (hq_now (\<lambda>_. 0) (snd (hq_add usec_chrono (\<lambda>_. 0) 5000 0 (1::nat) hq_create)))"
  from \<open>tc_wakeup_at usec_chrono 0 5000 tc_create = Some ch\<close>
  have add: "ht_add usec_chrono (\<lambda>_. 0) 5000 0 1 (hq_create, tc_create) = Some (1, ?q, ch)"
    by (simp add: ht_add_def hq_add_def hq_now_def hq_create_def hq_emplace_def hq_wakeup_at_def usec_chrono_def
        to_u64_def Let_def)
  have "\<exists>t. (tt_step usec_chrono)\<^sup>*\<^sup>* ?s t \<and> tt_lock t = LockFree \<and> tt_phase t = tt_phase ?s
    \<and> tt_sees (\<lambda>_. 0) t (?q, ch)"
    using range by (intro tt_add_alone [OF _ _ _ _ _ _ add]) (simp_all add: tt_sees_def mono_def)
  then obtain t where t: "(tt_step usec_chrono)\<^sup>*\<^sup>* ?s t" "tt_lock t = LockFree" "tt_phase t = TtWaiting"
    "tt_sees (\<lambda>_. 0) t (?q, ch)"
    by auto
  moreover have "hq_queue (tt_heap t) \<noteq> []"
    using t(4) by (simp add: tt_sees_def hq_core_eq hq_add_def hq_now_def hq_create_def hq_emplace_def
        hq_wakeup_at_def Let_def pq_push_def)
  moreover have "reachable (tt_initial usec_chrono) (tt_step usec_chrono) t"
    using reachable_rtranclp t(1) start .
  ultimately show ?thesis
    using timers_no_lost_wakeup by blast
qed

end
