(* ===== verification/Timer_Threads_Alone.thy ===== *)
theory Timer_Threads_Alone
  imports Timer_Threads
begin

text \<open>
  The sequential model of theories Timer\_Heap and Timer\_Rearm is what the threads of theory
  Timer\_Threads do when the loop's thread is not interrupted: the calls that a callback makes,
  the loop of \<open>Process\<close>, the \<open>WakeUpAt\<close> after it, and the whole \<open>HandleEvents\<close>.
\<close>

text \<open>The calls of a callback, which runs with the mutex released.\<close>

lemma tt_cmds_alone:
  assumes "mono clk"
  shows "tt_lock s = LockFree \<Longrightarrow> tt_phase s \<noteq> TtRearming \<Longrightarrow> list_all cmd_safe cmds \<Longrightarrow> tt_sees clk s h \<Longrightarrow>
    ht_cmds K clk cmds h = Some h' \<Longrightarrow>
    \<exists>t. (tt_step K)\<^sup>*\<^sup>* s t \<and> tt_lock t = LockFree \<and> tt_phase t = tt_phase s \<and> tt_sees clk t h'"
proof (induction cmds arbitrary: s h)
  case Nil
  then show ?case by auto
next
  case (Cons cmd cmds)
  obtain h1 where cmd: "ht_cmd K clk cmd h = Some h1" and rest: "ht_cmds K clk cmds h1 = Some h'"
    using Cons.prems(5) by (auto simp: bind_eq_Some_conv)
  have "\<exists>u. (tt_step K)\<^sup>*\<^sup>* s u \<and> tt_lock u = LockFree \<and> tt_phase u = tt_phase s \<and> tt_sees clk u h1"
  proof (cases cmd)
    case (CmdAdd d i c)
    then obtain tid where "ht_add K clk d i c h = Some (tid, h1)"
      using cmd by auto
    moreover have "d \<le> kMaxDelay" "i \<le> kMaxDelay"
      using Cons.prems(3) CmdAdd by simp_all
    ultimately show ?thesis
      using Cons.prems(1,2,4) by (intro tt_add_alone [OF _ _ _ _ assms])
  next
    case (CmdCancel tid)
    let ?u = "s\<lparr>tt_heap := hq_cancel tid (tt_heap s)\<rparr>"
    have "(tt_step K)\<^sup>*\<^sup>* s ?u"
      using tt_cancel [OF Cons.prems(1)] by auto
    moreover have "tt_sees clk ?u h1"
      using Cons.prems(4) cmd CmdCancel by (auto simp: tt_sees_def hq_core_eq)
    ultimately show ?thesis
      using Cons.prems(1) by auto
  qed
  then obtain u where u: "(tt_step K)\<^sup>*\<^sup>* s u" "tt_lock u = LockFree" "tt_phase u = tt_phase s" "tt_sees clk u h1"
    by blast
  obtain t where "(tt_step K)\<^sup>*\<^sup>* u t" "tt_lock t = LockFree" "tt_phase t = tt_phase u" "tt_sees clk t h'"
    using Cons.IH [of u h1] Cons.prems(2,3) u rest by auto
  with u show ?case
    by (intro exI [of _ t]) (simp add: rtranclp_trans)
qed

text \<open>A callback and what \<open>Process\<close> does when it returns.\<close>

lemma tt_fire_alone:
  assumes "mono clk" and "env_safe env" and "tt_lock s = LockFree" and "tt_phase s = TtCalling now timer"
    and "tt_sees clk s h" and "ht_fire K clk env timer h = Some h'"
  shows "\<exists>t. (tt_step K)\<^sup>*\<^sup>* s t \<and> tt_lock t = LockSweep \<and> tt_phase t = TtSweeping now \<and> tt_sees clk t h'"
proof -
  obtain q ch where cmds: "ht_cmds K clk (env (he_callback timer) (hq_reads (fst h))) h = Some (q, ch)"
    and h': "h' = (if 0 < he_interval timer then
        (q\<lparr>hq_reads := Suc (hq_reads q),
           hq_queue := pq_push (Timeout (ts_plus K (clk (hq_reads q)) (he_interval timer)) (he_id timer)) (hq_queue q)\<rparr>, ch)
      else (q\<lparr>hq_table := (hq_table q)(he_id timer := None)\<rparr>, ch))"
    using assms(6) by (auto simp: ht_fire_def hq_now_def bind_eq_Some_conv Let_def)
  obtain u where u: "(tt_step K)\<^sup>*\<^sup>* s u" "tt_lock u = LockFree" "tt_phase u = TtCalling now timer" "tt_sees clk u (q, ch)"
    using tt_cmds_alone [OF assms(1,3) _ _ assms(5) cmds] assms(2,4) by (auto simp: env_safe_def)
  let ?t = "(tt_after_callback K (clk (hq_reads q)) timer u)\<lparr>tt_phase := TtSweeping now, tt_lock := LockSweep\<rparr>"
  have "tt_step K u ?t"
    using u by (intro tt_return) (simp_all add: tt_sees_def)
  with u(1) have "(tt_step K)\<^sup>*\<^sup>* s ?t"
    by (rule rtranclp.rtrancl_into_rtrancl)
  moreover have "clk (hq_reads q) \<le> clk (Suc (hq_reads q))"
    using assms(1) by (simp add: mono_def)
  then have "tt_sees clk ?t h'"
    using u(4) by (simp add: tt_sees_def h' hq_core_eq tt_after_callback_def tt_push_def)
  ultimately show ?thesis
    by (intro exI [of _ ?t]) simp
qed

text \<open>The loop of \<open>Process\<close>; what is left is not due.\<close>

definition tt_loop_runs ::
  "chrono \<Rightarrow> (nat \<Rightarrow> usec) \<Rightarrow> ('c \<Rightarrow> nat \<Rightarrow> 'c timer_cmd list) \<Rightarrow> usec \<Rightarrow> 'c heap_queue \<times> timer_channel \<Rightarrow>
     'c heap_queue \<times> timer_channel \<Rightarrow> bool"
where
  "tt_loop_runs K clk env now h h' \<longleftrightarrow>
     (mono clk \<longrightarrow> env_safe env \<longrightarrow> (\<forall>item. pq_top (hq_queue (fst h')) = Some item \<longrightarrow> now < to_expire item) \<and>
       (\<forall>s. tt_lock s = LockSweep \<longrightarrow> tt_phase s = TtSweeping now \<longrightarrow> tt_sees clk s h \<longrightarrow>
         (\<exists>t. (tt_step K)\<^sup>*\<^sup>* s t \<and> tt_lock t = LockSweep \<and> tt_phase t = TtSweeping now \<and> tt_sees clk t h')))"

lemma tt_sees_pop:
  "tt_sees clk s h \<Longrightarrow>
    tt_sees clk ((tt_pop item s)\<lparr>tt_phase := p, tt_lock := l\<rparr>) ((fst h)\<lparr>hq_queue := pq_pop (hq_queue (fst h))\<rparr>, snd h)"
  by (simp add: tt_sees_def hq_core_eq tt_pop_def)

lemma tt_loop_stale:
  assumes "pq_top (hq_queue (fst h)) = Some item" and "to_expire item \<le> now"
    and "hq_table (fst h) (to_timer item) = None"
    and "tt_loop_runs K clk env now ((fst h)\<lparr>hq_queue := pq_pop (hq_queue (fst h))\<rparr>, snd h) h'"
  shows "tt_loop_runs K clk env now h h'"
  unfolding tt_loop_runs_def
proof (intro impI conjI allI)
  assume clk: "mono clk" "env_safe env"
  note rest = assms(4) [unfolded tt_loop_runs_def, rule_format, OF clk]
  then show "now < to_expire item" if "pq_top (hq_queue (fst h')) = Some item" for item
    using that by blast
  fix s :: "'a tt_system"
  assume s: "tt_lock s = LockSweep" "tt_phase s = TtSweeping now" "tt_sees clk s h"
  have "(tt_pop item s)\<lparr>tt_phase := TtSweeping now, tt_lock := LockSweep\<rparr> = tt_pop item s"
    using s(1,2) by (simp add: tt_pop_def)
  moreover have "tt_step K s (tt_pop item s)"
    using assms(1-3) s by (intro tt_stale) (simp_all add: tt_sees_def hq_core_eq)
  moreover note tt_sees_pop [OF s(3), where item = item and p = "TtSweeping now" and l = LockSweep]
  ultimately show "\<exists>t. (tt_step K)\<^sup>*\<^sup>* s t \<and> tt_lock t = LockSweep \<and> tt_phase t = TtSweeping now \<and> tt_sees clk t h'"
    using rest s(1,2) by (metis converse_rtranclp_into_rtranclp tt_pop_simps(6,8))
qed

lemma tt_loop_fire:
  assumes "pq_top (hq_queue (fst h)) = Some item" and "to_expire item \<le> now"
    and "hq_table (fst h) (to_timer item) = Some timer"
    and "ht_fire K clk env timer ((fst h)\<lparr>hq_queue := pq_pop (hq_queue (fst h))\<rparr>, snd h) = Some h1"
    and "tt_loop_runs K clk env now h1 h'"
  shows "tt_loop_runs K clk env now h h'"
  unfolding tt_loop_runs_def
proof (intro impI conjI allI)
  assume clk: "mono clk" "env_safe env"
  note rest = assms(5) [unfolded tt_loop_runs_def, rule_format, OF clk]
  then show "now < to_expire item" if "pq_top (hq_queue (fst h')) = Some item" for item
    using that by blast
  fix s :: "'a tt_system"
  assume s: "tt_lock s = LockSweep" "tt_phase s = TtSweeping now" "tt_sees clk s h"
  let ?s = "(tt_pop item s)\<lparr>tt_phase := TtCalling now timer, tt_lock := LockFree\<rparr>"
  have "tt_step K s ?s"
    using assms(1-3) s by (intro tt_call) (simp_all add: tt_sees_def hq_core_eq)
  moreover obtain u where "(tt_step K)\<^sup>*\<^sup>* ?s u" "tt_lock u = LockSweep" "tt_phase u = TtSweeping now" "tt_sees clk u h1"
    using tt_fire_alone [OF clk _ _ tt_sees_pop [OF s(3), where item = item and p = "TtCalling now timer" and l = LockFree] assms(4)]
    by auto
  moreover from this(2-4) rest obtain t where "(tt_step K)\<^sup>*\<^sup>* u t" "tt_lock t = LockSweep"
    "tt_phase t = TtSweeping now" "tt_sees clk t h'"
    by blast
  ultimately show "\<exists>t. (tt_step K)\<^sup>*\<^sup>* s t \<and> tt_lock t = LockSweep \<and> tt_phase t = TtSweeping now \<and> tt_sees clk t h'"
    by (intro exI [of _ t]) (simp add: converse_rtranclp_into_rtranclp rtranclp_trans)
qed

lemma tt_loop_alone:
  assumes "ht_loop K clk env now h = Some (rs, h')"
  shows "tt_loop_runs K clk env now h h'"
proof -
  let ?P = "\<lambda>K clk env now h r. tt_loop_runs K clk env now h (snd r)"
  have "?P K clk env now h (rs, h')"
  proof (rule ht_loop.raw_induct [where P = ?P, OF _ assms])
    fix f K clk now h r and env :: "'a \<Rightarrow> nat \<Rightarrow> 'a timer_cmd list"
    assume IH: "\<And>K clk env now h r. f K clk env now h = Some r \<Longrightarrow> ?P K clk env now h r"
      and body: "(case pq_top (hq_queue (fst h)) of
        None \<Rightarrow> Some ([], h)
      | Some item \<Rightarrow>
          if to_expire item \<le> now then
            (let s1 = ((fst h)\<lparr>hq_queue := pq_pop (hq_queue (fst h))\<rparr>, snd h)
             in case hq_table (fst s1) (to_timer item) of
                  None \<Rightarrow> f K clk env now s1
                | Some timer \<Rightarrow>
                    Option.bind (ht_fire K clk env timer s1) (\<lambda>s2.
                      Option.bind (f K clk env now s2)
                        (\<lambda>(rs, s'). Some ((to_expire item, he_id timer) # rs, s'))))
          else Some ([], h)) = Some r"
    let ?h = "((fst h)\<lparr>hq_queue := pq_pop (hq_queue (fst h))\<rparr>, snd h)"
    have stop: "?P K clk env now h ([], h)"
      if "\<And>item. pq_top (hq_queue (fst h)) = Some item \<Longrightarrow> now < to_expire item"
      using that by (auto simp: tt_loop_runs_def)
    show "?P K clk env now h r"
    proof (cases "\<exists>item. pq_top (hq_queue (fst h)) = Some item \<and> to_expire item \<le> now")
      case False
      then have "r = ([], h)"
        using body by (auto split: option.splits)
      with stop False show ?thesis by force
    next
      case True
      then obtain item where item: "pq_top (hq_queue (fst h)) = Some item" "to_expire item \<le> now"
        by blast
      show ?thesis
      proof (cases "hq_table (fst h) (to_timer item)")
        case None
        then have "f K clk env now ?h = Some r"
          using body item by (simp add: Let_def)
        with IH show ?thesis
          using tt_loop_stale [OF item None] by blast
      next
        case (Some timer)
        then obtain h1 rs1 h2 where "ht_fire K clk env timer ?h = Some h1" "f K clk env now h1 = Some (rs1, h2)"
          "r = ((to_expire item, he_id timer) # rs1, h2)"
          using body item by (auto simp: Let_def bind_eq_Some_conv)
        then show ?thesis
          using tt_loop_fire [OF item Some] IH by fastforce
      qed
    qed
  qed
  then show ?thesis by simp
qed

text \<open>
  \<open>Process\<close> from the reading of its clock to the end, and the handling of an event of the
  channel: with no step of another thread in between, the loop's thread gets from the queue and
  the channel before to those after, and waits again.
\<close>

lemma tt_process_alone:
  assumes "mono clk" and "env_safe env" and "tt_lock s = LockFree" and "tt_phase s = TtTriggered"
    and "tt_sees clk s h" and "ht_process K clk env h = Some (rs, h')"
  shows "\<exists>t. (tt_step K)\<^sup>*\<^sup>* s t \<and> tt_lock t = LockFree \<and> tt_phase t = TtWaiting \<and> tt_sees clk t h'"
proof -
  let ?n = "hq_reads (fst h)"
  let ?now = "clk ?n" and ?h = "((fst h)\<lparr>hq_reads := Suc ?n\<rparr>, snd h)"
  let ?s1 = "s\<lparr>tt_phase := TtEntering ?now, tt_clock := ?now\<rparr>"
  let ?s2 = "?s1\<lparr>tt_phase := TtSweeping ?now, tt_lock := LockSweep\<rparr>"
  obtain rs' q ch where loop: "ht_loop K clk env ?now ?h = Some (rs', q, ch)"
    and rest: "(case pq_top (hq_queue q) of
       None \<Rightarrow> Some (rs', q, ch)
     | Some item \<Rightarrow>
         map_option (\<lambda>ch'. (rs', (hq_wakeup_at (to_expire item) q)\<lparr>hq_reads := Suc (hq_reads q)\<rparr>, ch'))
           (tc_wakeup_at K (clk (hq_reads q)) (to_expire item) ch)) = Some (rs, h')"
    using assms(6)
    by (auto simp: ht_process_def hq_now_def hq_wakeup_at_def Let_def bind_eq_Some_conv cong: option.case_cong)
  have "tt_clock s \<le> ?now" and "?now \<le> clk (Suc ?n)"
    using assms(1,5) by (simp_all add: tt_sees_def mono_def)
  then have "tt_step K s ?s1" and sees: "tt_sees clk ?s2 ?h"
    using assms(4,5) by (auto simp: tt_sees_def hq_core_eq intro: tt_process)
  moreover have "tt_step K ?s1 ?s2"
    using assms(3) tt_enter [of ?s1 ?now K] by simp
  ultimately have enter: "(tt_step K)\<^sup>*\<^sup>* s ?s2"
    by (meson r_into_rtranclp rtranclp.rtrancl_into_rtrancl)
  have "tt_loop_runs K clk env ?now ?h (q, ch)"
    using tt_loop_alone [OF loop] by simp
  note runs = this [unfolded tt_loop_runs_def, rule_format, OF assms(1,2)]
  have "tt_lock ?s2 = LockSweep" "tt_phase ?s2 = TtSweeping ?now"
    by simp_all
  then obtain u where u: "(tt_step K)\<^sup>*\<^sup>* ?s2 u" "tt_lock u = LockSweep" "tt_phase u = TtSweeping ?now"
    "tt_sees clk u (q, ch)"
    using runs sees by blast
  have "\<exists>t. (tt_step K)\<^sup>*\<^sup>* u t \<and> tt_lock t = LockFree \<and> tt_phase t = TtWaiting \<and> tt_sees clk t h'"
  proof (cases "pq_top (hq_queue q)")
    case None
    let ?t = "u\<lparr>tt_phase := TtWaiting, tt_lock := LockFree\<rparr>"
    have "tt_step K u ?t"
      using None u by (intro tt_idle) (simp_all add: tt_sees_def hq_core_eq)
    moreover have "tt_sees clk ?t h'"
      using None rest u(4) by (simp add: tt_sees_def)
    ultimately show ?thesis
      by (intro exI [of _ ?t]) auto
  next
    case (Some item)
    let ?v = "u\<lparr>tt_phase := TtRearming, tt_lock := LockWaking (WakeAt (to_expire item))\<rparr>"
    obtain ch' where ch': "tc_wakeup_at K (clk (hq_reads q)) (to_expire item) ch = Some ch'"
      and h': "h' = ((hq_wakeup_at (to_expire item) q)\<lparr>hq_reads := Suc (hq_reads q)\<rparr>, ch')"
      using rest Some by auto
    have "now < to_expire item" if "now = ?now" for now
      using runs Some that by simp
    then have "tt_step K u ?v"
      using Some u by (intro tt_rearm) (simp_all add: tt_sees_def hq_core_eq)
    moreover obtain a where "(tt_step K)\<^sup>*\<^sup>* ?v (?v\<lparr>tt_clock := clk (hq_reads q), tt_lock := LockWaking WakeDone, tt_channel := ch', tt_armed := a\<rparr>)"
      using tt_wakeup_alone [of ?v "to_expire item" "clk (hq_reads q)" K ch'] ch' u(4) by (auto simp: tt_sees_def)
    moreover have "tt_step K \<dots> (\<dots>\<lparr>tt_lock := LockFree, tt_phase := TtWaiting\<rparr>)"
      using tt_unlock [of "?v\<lparr>tt_clock := clk (hq_reads q), tt_lock := LockWaking WakeDone, tt_channel := ch', tt_armed := a\<rparr>" K]
      by simp
    ultimately have "(tt_step K)\<^sup>*\<^sup>* u (?v\<lparr>tt_clock := clk (hq_reads q), tt_channel := ch', tt_armed := a, tt_lock := LockFree, tt_phase := TtWaiting\<rparr>)"
      by (simp add: converse_rtranclp_into_rtranclp rtranclp.rtrancl_into_rtrancl)
    moreover have "clk (hq_reads q) \<le> clk (Suc (hq_reads q))"
      using assms(1) by (simp add: mono_def)
    then have "tt_sees clk (?v\<lparr>tt_clock := clk (hq_reads q), tt_channel := ch', tt_armed := a, tt_lock := LockFree, tt_phase := TtWaiting\<rparr>) h'"
      using u(4) by (simp add: tt_sees_def h' hq_core_eq hq_wakeup_at_def)
    ultimately show ?thesis
      by (intro exI conjI) (assumption | simp)+
  qed
  with enter u(1) show ?thesis
    by (meson rtranclp_trans)
qed

text \<open>
  TimerChannel::HandleEvents with Process as its callback, as theory Timer\_Rearm has it, is a run
  of the threads: in a state where the loop waits, the descriptor is armed and the mutex is free,
  the steps of the loop's thread lead to the queue and the channel that it computes, and to the
  selector again.
\<close>

theorem timer_event_simulated:
  assumes "mono clk" and "env_safe env" and "tt_lock s = LockFree" and "tt_phase s = TtWaiting" and "tt_armed s"
    and "tt_sees clk s h" and "ht_handle_events K clk env h = Some (rs, h')"
  shows "\<exists>t. (tt_step K)\<^sup>*\<^sup>* s t \<and> tt_lock t = LockFree \<and> tt_phase t = TtWaiting \<and> tt_sees clk t h'"
proof -
  let ?s1 = "s\<lparr>tt_phase := TtReading, tt_channel := tc_begin_read (tt_channel s)\<rparr>"
  let ?s2 = "?s1\<lparr>tt_phase := TtHasRead, tt_armed := False\<rparr>"
  let ?s3 = "?s2\<lparr>tt_phase := TtTriggered, tt_channel := tc_end_read (tt_channel ?s2)\<rparr>"
  have "tt_step K s ?s1" "tt_step K ?s1 ?s2" "tt_step K ?s2 ?s3"
    using assms(4,5) tt_event [of s K] tt_read [of ?s1 K] tt_trigger [of ?s2 K] by simp_all
  then have "(tt_step K)\<^sup>*\<^sup>* s ?s3"
    by (meson r_into_rtranclp rtranclp.rtrancl_into_rtrancl)
  moreover have "tt_sees clk ?s3 (fst h, tc_end_read (tc_begin_read (snd h)))"
    using assms(6) by (simp add: tt_sees_def)
  then obtain t where "(tt_step K)\<^sup>*\<^sup>* ?s3 t" "tt_lock t = LockFree" "tt_phase t = TtWaiting" "tt_sees clk t h'"
    using tt_process_alone [OF assms(1,2) _ _ _ assms(7) [unfolded ht_handle_events_def], of ?s3] assms(3) by auto
  ultimately show ?thesis
    by (meson rtranclp_trans)
qed

end
