(* ===== verification/Timer_Wheel_Threads.thy ===== *)
theory Timer_Wheel_Threads
  imports Timer_Threads Timer_Wheel_Sweep
begin

text \<open>
  include/pedronet/queue/timer\_hash\_wheel.h under threads.  \<open>Add\<close> takes the lock of the table,
  then the lock of one bucket, then no lock for \<open>WakeUp\<close>; \<open>Process\<close> takes a lock for each \<open>Pop\<close>
  and each lookup.  A step is one of these critical sections, or one access of a \<open>WakeUpAt\<close> or
  of \<open>HandleEvents\<close> to the timer channel (theory Timer\_Threads).

  A state is executable: \<open>ww_do\<close> says what an event does, so that an interleaving is a list of
  events and its outcome a computation.  The events carry the readings of the clock, which does
  not go back, and whether a read of the descriptor succeeds.
\<close>

section \<open>State\<close>

text \<open>
  An \<open>Add\<close> in progress: with its id and its entry made, with the entry in the table, and in
  \<open>WakeUp\<close>.
\<close>

datatype 'c ww_add = AddEntry usec "'c wheel_entry" | AddBucket usec nat nat | AddWaking wake_stage

text \<open>
  The thread of the loop: as in theory Timer\_Threads up to \<open>Process\<close>; then in the sweep, with
  its time, the buckets that are left and the ids of the last \<open>Pop\<close> that are left; with an entry
  looked up; in a callback; and in the \<open>WakeUp\<close> at the end.
\<close>

datatype 'c ww_phase = WwWaiting | WwReading | WwHasRead | WwTriggered
  | WwSweeping usec "nat list" "nat list" | WwFiring usec "nat list" "nat list" nat "'c wheel_entry"
  | WwCalling usec "nat list" "nat list" 'c | WwRearming wake_stage

record 'c ww_system =
  ww_wheel :: "'c wheel"
  ww_channel :: timer_channel
  ww_armed :: bool
  ww_clock :: usec
  ww_adds :: "'c ww_add list"
  ww_phase :: "'c ww_phase"
  ww_added :: "nat multiset"
  ww_popped :: "nat multiset"

text \<open>
  After the constructor, which arms the channel for the time \<open>t0\<close> it starts from; \<open>t1\<close> is the
  reading of the clock in \<open>WakeUpAt\<close>.
\<close>

definition ww_create :: "chrono \<Rightarrow> usec \<Rightarrow> nat \<Rightarrow> usec \<Rightarrow> usec \<Rightarrow> 'c ww_system option" where
  "ww_create K tick n t0 t1 =
     map_option (\<lambda>ch. \<lparr>ww_wheel = wh_create (\<lambda>_. t0) tick n, ww_channel = ch, ww_armed = True, ww_clock = t1,
         ww_adds = [], ww_phase = WwWaiting, ww_added = {#}, ww_popped = {#}\<rparr>)
       (tc_wakeup_at K t1 t0 tc_create)"

section \<open>Steps\<close>

text \<open>\<open>WakeUp\<close> rounds the time to the tick.\<close>

definition ww_floor :: "'c ww_system \<Rightarrow> usec \<Rightarrow> usec" where
  "ww_floor s expire = expire sdiv wh_tick (ww_wheel s) * wh_tick (ww_wheel s)"

definition ww_bucket_add :: "usec \<Rightarrow> nat \<Rightarrow> nat \<Rightarrow> 'c ww_system \<Rightarrow> 'c ww_system" where
  "ww_bucket_add expire rounds tid s =
     (let w = ww_wheel s; b = wh_get_ticks (wh_tick w) expire mod wh_size w
      in s\<lparr>ww_wheel := wh_bucket_add b rounds tid w, ww_added := add_mset tid (ww_added s)\<rparr>)"

text \<open>The next critical section of an \<open>Add\<close>.\<close>

fun ww_add_next :: "chrono \<Rightarrow> usec \<Rightarrow> 'c ww_add \<Rightarrow> 'c ww_system \<Rightarrow> 'c ww_add \<times> 'c ww_system" where
  "ww_add_next K now (AddEntry expired e) s =
     (AddBucket expired (we_rounds e) (we_id e),
      s\<lparr>ww_wheel := (ww_wheel s)\<lparr>wh_table := (wh_table (ww_wheel s))(we_id e \<mapsto> e)\<rparr>\<rparr>)"
| "ww_add_next K now (AddBucket expired rounds tid) s =
     (AddWaking (WakeAt (ww_floor s expired)), ww_bucket_add expired rounds tid s)"
| "ww_add_next K now (AddWaking st) s =
     (let (st', ch, armed) = tt_wake K now st (ww_channel s, ww_armed s)
      in (AddWaking st', s\<lparr>ww_channel := ch, ww_armed := armed\<rparr>))"

text \<open>
  A timer that was looked up: a one-shot timer is cancelled, a periodic one gets new rounds
  through the pointer shared with the table, if the entry is still there, and is put into its
  next bucket.
\<close>

definition ww_fire :: "chrono \<Rightarrow> usec \<Rightarrow> nat \<Rightarrow> 'c wheel_entry \<Rightarrow> 'c ww_system \<Rightarrow> 'c ww_system" where
  "ww_fire K now tid timer s =
     (if we_interval timer \<le> 0 then s\<lparr>ww_wheel := wh_cancel tid (ww_wheel s)\<rparr>
      else
        let w = ww_wheel s;
            expire = ts_plus K now (we_interval timer);
            rounds = wh_get_rounds (wh_tick w) (wh_size w) expire;
            table = (case wh_table w tid of
                       None \<Rightarrow> wh_table w
                     | Some e \<Rightarrow> (wh_table w)(tid \<mapsto> e\<lparr>we_rounds := rounds\<rparr>))
        in ww_bucket_add expire rounds (we_id timer) (s\<lparr>ww_wheel := w\<lparr>wh_table := table\<rparr>\<rparr>))"

definition ww_pop :: "usec \<Rightarrow> nat \<Rightarrow> nat list \<Rightarrow> 'c ww_system \<Rightarrow> 'c ww_system" where
  "ww_pop t i is s =
     (let w = ww_wheel s
      in case wb_pop (wh_get_rounds (wh_tick w) (wh_size w) t) (wh_buckets w ! i) of
           None \<Rightarrow> s\<lparr>ww_phase := WwSweeping t is []\<rparr>
         | Some ((k, ids), b) \<Rightarrow>
             s\<lparr>ww_wheel := w\<lparr>wh_buckets := (wh_buckets w)[i := b]\<rparr>, ww_phase := WwSweeping t (i # is) ids,
               ww_popped := mset ids + ww_popped s\<rparr>)"

text \<open>The next step of the loop's thread; None: it has none, or the read cannot succeed.\<close>

definition ww_loop_next :: "chrono \<Rightarrow> usec \<Rightarrow> bool \<Rightarrow> 'c ww_system \<Rightarrow> 'c ww_system option" where
  "ww_loop_next K now ok s =
     (case ww_phase s of
        WwWaiting \<Rightarrow>
          if ww_armed s then Some (s\<lparr>ww_phase := WwReading, ww_channel := tc_begin_read (ww_channel s)\<rparr>) else None
      | WwReading \<Rightarrow>
          if ok then (if ww_armed s then Some (s\<lparr>ww_phase := WwHasRead, ww_armed := False\<rparr>) else None)
          else Some (s\<lparr>ww_phase := WwHasRead\<rparr>)
      | WwHasRead \<Rightarrow> Some (s\<lparr>ww_phase := WwTriggered, ww_channel := tc_end_read (ww_channel s)\<rparr>)
      | WwTriggered \<Rightarrow>
          (let w = ww_wheel s
           in Some (s\<lparr>ww_phase := WwSweeping now
                (wh_swept (wh_get_ticks (wh_tick w) (wh_last w)) (wh_get_ticks (wh_tick w) now) (wh_size w)) []\<rparr>))
      | WwSweeping t is (tid # ids) \<Rightarrow>
          (case wh_table (ww_wheel s) tid of
             None \<Rightarrow> Some (s\<lparr>ww_phase := WwSweeping t is ids\<rparr>)
           | Some timer \<Rightarrow> Some (s\<lparr>ww_phase := WwFiring t is ids tid timer\<rparr>))
      | WwSweeping t (i # is) [] \<Rightarrow> Some (ww_pop t i is s)
      | WwSweeping t [] [] \<Rightarrow>
          Some (s\<lparr>ww_wheel := (ww_wheel s)\<lparr>wh_last := t\<rparr>,
            ww_phase := WwRearming (WakeAt (ww_floor s (ts_plus K t (wh_tick (ww_wheel s)))))\<rparr>)
      | WwFiring t is ids tid timer \<Rightarrow>
          Some ((ww_fire K t tid timer s)\<lparr>ww_phase := WwCalling t is ids (we_callback timer)\<rparr>)
      | WwCalling t is ids callback \<Rightarrow> Some (s\<lparr>ww_phase := WwSweeping t is ids\<rparr>)
      | WwRearming st \<Rightarrow>
          if st = WakeDone then Some (s\<lparr>ww_phase := WwWaiting\<rparr>)
          else (let (st', ch, armed) = tt_wake K now st (ww_channel s, ww_armed s)
                in Some (s\<lparr>ww_phase := WwRearming st', ww_channel := ch, ww_armed := armed\<rparr>)))"

text \<open>
  The events: a thread calls \<open>Add\<close> and has its id and entry, the i-th \<open>Add\<close> takes its next
  step, a thread calls \<open>Cancel\<close>, the loop takes its next step.
\<close>

datatype 'c ww_event = EvAdd usec usec usec 'c | EvThread usec nat | EvCancel nat | EvLoop usec bool

definition ww_entry :: "chrono \<Rightarrow> usec \<Rightarrow> usec \<Rightarrow> 'c \<Rightarrow> 'c wheel \<Rightarrow> 'c wheel_entry" where
  "ww_entry K expired interval callback w =
     \<lparr>we_rounds = wh_get_rounds (wh_tick w) (wh_size w) expired, we_id = to_u64 (int (wh_counter w) + 1),
      we_interval = interval, we_callback = callback\<rparr>"

fun ww_do :: "chrono \<Rightarrow> 'c ww_event \<Rightarrow> 'c ww_system \<Rightarrow> 'c ww_system option" where
  "ww_do K (EvAdd now delay interval callback) s =
     (if ww_clock s \<le> now \<and> delay \<le> kMaxDelay then
        let w = ww_wheel s; expired = ts_plus K now delay
        in Some (s\<lparr>ww_clock := now, ww_wheel := w\<lparr>wh_counter := Suc (wh_counter w)\<rparr>,
             ww_adds := ww_adds s @ [AddEntry expired (ww_entry K expired interval callback w)]\<rparr>)
      else None)"
| "ww_do K (EvThread now i) s =
     (if ww_clock s \<le> now \<and> i < length (ww_adds s) then
        let (a, s1) = ww_add_next K now (ww_adds s ! i) (s\<lparr>ww_clock := now\<rparr>)
        in Some (s1\<lparr>ww_adds := (ww_adds s)[i := a]\<rparr>)
      else None)"
| "ww_do K (EvCancel tid) s = Some (s\<lparr>ww_wheel := wh_cancel tid (ww_wheel s)\<rparr>)"
| "ww_do K (EvLoop now ok) s =
     (if ww_clock s \<le> now then ww_loop_next K now ok (s\<lparr>ww_clock := now\<rparr>) else None)"

fun ww_run :: "chrono \<Rightarrow> 'c ww_event list \<Rightarrow> 'c ww_system \<Rightarrow> 'c ww_system option" where
  "ww_run K [] s = Some s"
| "ww_run K (e # es) s = Option.bind (ww_do K e s) (ww_run K es)"

definition ww_initial :: "chrono \<Rightarrow> 'c ww_system \<Rightarrow> bool" where
  "ww_initial K s \<longleftrightarrow> chrono_ok K \<and> (\<exists>tick n t0 t1. 0 < tick \<and> tick \<le> kMaxDelay \<and> 0 < n \<and> 0 \<le> t0 \<and> t0 \<le> t1 \<and>
     ww_create K tick n t0 t1 = Some s)"

inductive ww_step :: "chrono \<Rightarrow> 'c ww_system \<Rightarrow> 'c ww_system \<Rightarrow> bool" for K where
  ww_event: "ww_do K e s = Some t \<Longrightarrow> ww_step K s t"

lemma ww_run_steps: "ww_run K es s = Some t \<Longrightarrow> (ww_step K)\<^sup>*\<^sup>* s t"
  by (induction es arbitrary: s)
    (auto simp: bind_eq_Some_conv intro: converse_rtranclp_into_rtranclp ww_event)

end
