(* ===== verification/Timer_Wheel_Alone.thy ===== *)
theory Timer_Wheel_Alone
  imports Timer_Wheel_Threads
begin

text \<open>
  The steps of theory Timer\_Wheel\_Threads, taken by one thread with no step of another between
  them, are the operations of theory Timer\_Wheel: \<open>Add\<close> up to its \<open>WakeUpAt\<close>, and the sweep
  of \<open>Process\<close> whose callbacks call nothing.
\<close>

text \<open>The readings of the clock and the history of the calls of \<open>WakeUpAt\<close> are not in the steps.\<close>

definition wh_core :: "'c wheel \<Rightarrow> 'c wheel" where
  "wh_core w = w\<lparr>wh_reads := 0, wh_wakes := []\<rparr>"

lemma ww_add_alone:
  assumes "ww_clock s \<le> now" and "delay \<le> kMaxDelay" and "i = length (ww_adds s)"
    and "clk (wh_reads (ww_wheel s)) = now" and "wh_add K clk delay interval callback (ww_wheel s) = (tid, w)"
  shows "\<exists>t. ww_run K [EvAdd now delay interval callback, EvThread now i, EvThread now i] s = Some t
    \<and> wh_core (ww_wheel t) = wh_core w \<and> ww_adds t = ww_adds s @ [AddWaking (WakeAt (last (wh_wakes w)))]"
  using assms
  by (auto simp: wh_add_def wh_now_def wh_wakeup_def wh_bucket_add_def wh_core_def ww_entry_def ww_bucket_add_def
      ww_floor_def wh_size_def Let_def)

definition no_commands :: "'c \<Rightarrow> nat \<Rightarrow> 'c timer_cmd list" where
  "no_commands c n = []"

lemma ww_loop_step: "ww_loop_next K (ww_clock s) ok s = Some t \<Longrightarrow> ww_step K s t"
  by (rule ww_event [where e = "EvLoop (ww_clock s) ok"]) simp

text \<open>What the sweep leaves alone.\<close>

definition ww_same :: "'c ww_system \<Rightarrow> 'c ww_system \<Rightarrow> bool" where
  "ww_same s t \<longleftrightarrow> ww_channel t = ww_channel s \<and> ww_armed t = ww_armed s \<and> ww_clock t = ww_clock s
     \<and> ww_adds t = ww_adds s"

lemma ww_same_trans [trans]: "ww_same s t \<Longrightarrow> ww_same t u \<Longrightarrow> ww_same s u"
  by (simp add: ww_same_def)

lemma ww_fire_alone:
  assumes "ww_wheel s = w" and "wh_table w tid = Some timer"
  shows "ww_wheel (ww_fire K t tid timer s) = wh_fire K clk no_commands t tid timer w"
    and "ww_same s (ww_fire K t tid timer s)"
  using assms
  by (auto simp: ww_fire_def wh_fire_def no_commands_def ww_bucket_add_def ww_same_def wh_size_def wh_bucket_add_def Let_def)

lemma ww_ids_alone:
  assumes "ww_wheel s = w" and "ww_phase s = WwSweeping t is ids"
    and "wh_fire_ids K clk no_commands t ids w = (fired, w')"
  shows "\<exists>u. (ww_step K)\<^sup>*\<^sup>* s u \<and> ww_same s u \<and> ww_wheel u = w' \<and> ww_phase u = WwSweeping t is []"
  using assms
proof (induction ids arbitrary: s w fired)
  case Nil
  then show ?case by (auto simp: ww_same_def)
next
  case (Cons tid ids)
  show ?case
  proof (cases "wh_table w tid")
    case None
    let ?s = "s\<lparr>ww_phase := WwSweeping t is ids\<rparr>"
    have "ww_loop_next K (ww_clock s) True s = Some ?s"
      using None Cons.prems by (cases "is") (simp_all add: ww_loop_next_def)
    moreover obtain u where "(ww_step K)\<^sup>*\<^sup>* ?s u \<and> ww_same ?s u \<and> ww_wheel u = w' \<and> ww_phase u = WwSweeping t is []"
      using None Cons.prems Cons.IH [of ?s w fired] by auto
    ultimately show ?thesis
      by (intro exI [of _ u]) (auto intro: converse_rtranclp_into_rtranclp ww_loop_step simp: ww_same_def)
  next
    case (Some timer)
    let ?s1 = "s\<lparr>ww_phase := WwFiring t is ids tid timer\<rparr>"
    let ?s2 = "(ww_fire K t tid timer ?s1)\<lparr>ww_phase := WwCalling t is ids (we_callback timer)\<rparr>"
    let ?s3 = "?s2\<lparr>ww_phase := WwSweeping t is ids\<rparr>"
    have "ww_step K s ?s1"
      using Some Cons.prems by (intro ww_loop_step [where ok = True], cases "is") (simp_all add: ww_loop_next_def)
    moreover have "ww_step K ?s1 ?s2" and "ww_step K ?s2 ?s3"
      by (intro ww_loop_step [where ok = True]; simp add: ww_loop_next_def)+
    ultimately have run: "(ww_step K)\<^sup>*\<^sup>* s ?s3"
      by (meson converse_rtranclp_into_rtranclp rtranclp.rtrancl_refl)
    have fire: "ww_wheel (ww_fire K t tid timer ?s1) = wh_fire K clk no_commands t tid timer w"
      "ww_same s (ww_fire K t tid timer ?s1)"
      using ww_fire_alone(1) [of ?s1 w tid timer K t clk] ww_fire_alone(2) [of ?s1 w tid timer K t] Some Cons.prems(1)
      by (simp_all add: ww_same_def)
    obtain fired' where "wh_fire_ids K clk no_commands t ids (ww_wheel ?s3) = (fired', w')"
      using Some Cons.prems(3) fire(1) by (auto split: prod.splits)
    then obtain u where "(ww_step K)\<^sup>*\<^sup>* ?s3 u \<and> ww_same ?s3 u \<and> ww_wheel u = w' \<and> ww_phase u = WwSweeping t is []"
      using Cons.IH [of ?s3 "ww_wheel ?s3" fired'] by auto
    with run fire(2) show ?thesis
      by (intro exI [of _ u]) (auto simp: ww_same_def intro: rtranclp_trans)
  qed
qed

text \<open>One bucket, then the buckets of a list, whose revolution is the one of the time \<open>t\<close>.\<close>

lemma ww_future: "wh_future 0 K clk env tick r0 t"
  by (simp add: wh_future_def)

lemma ww_drain_alone:
  assumes "wd_runs K clk no_commands t rounds i w rs w'"
    and "rounds = wh_get_rounds tick n t" and "i < n" and "wh_sweeping 0 K tick r0 t n w"
  shows "ww_wheel s = w \<Longrightarrow> ww_phase s = WwSweeping t (i # is) [] \<Longrightarrow>
    \<exists>u. (ww_step K)\<^sup>*\<^sup>* s u \<and> ww_same s u \<and> ww_wheel u = w' \<and> ww_phase u = WwSweeping t is []"
  using assms(1,4)
proof (induction arbitrary: s rule: wd_runs.induct)
  case (wd_stop w)
  let ?u = "s\<lparr>ww_phase := WwSweeping t is []\<rparr>"
  have "ww_loop_next K (ww_clock s) True s = Some ?u"
    using wd_stop assms(2) by (auto simp: ww_loop_next_def ww_pop_def wh_sweeping_def)
  then have "(ww_step K)\<^sup>*\<^sup>* s ?u"
    by (intro r_into_rtranclp ww_loop_step)
  with wd_stop show ?case
    by (intro exI [of _ ?u]) (simp add: ww_same_def)
next
  case (wd_round w k ids b fired w1 rs w2)
  let ?w = "w\<lparr>wh_buckets := (wh_buckets w)[i := b]\<rparr>"
  let ?s = "s\<lparr>ww_wheel := ?w, ww_phase := WwSweeping t (i # is) ids, ww_popped := mset ids + ww_popped s\<rparr>"
  have "ww_loop_next K (ww_clock s) True s = Some ?s"
    using wd_round.prems wd_round.hyps(1) assms(2) by (auto simp: ww_loop_next_def ww_pop_def wh_sweeping_def)
  then have first: "ww_step K s ?s"
    by (rule ww_loop_step)
  obtain u where u: "(ww_step K)\<^sup>*\<^sup>* ?s u" "ww_same ?s u" "ww_wheel u = w1" "ww_phase u = WwSweeping t (i # is) []"
    using ww_ids_alone [OF _ _ wd_round.hyps(2), of ?s "i # is"] by auto
  have "wh_sweeping 0 K tick r0 t n w1"
    using wh_fire_ids_sweeping [OF ww_future _ wd_round.hyps(2)] wh_sweeping_pop [OF wd_round.hyps(1) assms(3) wd_round.prems(3)]
    by blast
  then obtain v where "(ww_step K)\<^sup>*\<^sup>* u v" "ww_same u v" "ww_wheel v = w2" "ww_phase v = WwSweeping t is []"
    using wd_round.IH [OF u(3,4)] by blast
  with first u show ?case
    by (intro exI [of _ v]) (auto simp: ww_same_def intro: converse_rtranclp_into_rtranclp rtranclp_trans)
qed

lemma ww_sweep_alone:
  assumes "rounds = wh_get_rounds tick n t"
  shows "wh_sweep K clk no_commands t rounds is w = Some (rs, w') \<Longrightarrow> set is \<subseteq> {0..<n} \<Longrightarrow>
    wh_sweeping 0 K tick r0 t n w \<Longrightarrow> ww_wheel s = w \<Longrightarrow> ww_phase s = WwSweeping t is [] \<Longrightarrow>
    \<exists>u. (ww_step K)\<^sup>*\<^sup>* s u \<and> ww_same s u \<and> ww_wheel u = w' \<and> ww_phase u = WwSweeping t [] []"
proof (induction "is" arbitrary: w rs s)
  case Nil
  then show ?case by (auto simp: ww_same_def)
next
  case (Cons i "is")
  from Cons.prems(1) obtain rs1 w1 rs2 where d: "wh_drain K clk no_commands t rounds i w = Some (rs1, w1)"
    and rest: "wh_sweep K clk no_commands t rounds is w1 = Some (rs2, w')"
    by (auto simp: bind_eq_Some_conv)
  have i: "i < n" "set is \<subseteq> {0..<n}" using Cons.prems(2) by auto
  note run = wh_drain_runs [OF d]
  obtain u where u: "(ww_step K)\<^sup>*\<^sup>* s u" "ww_same s u" "ww_wheel u = w1" "ww_phase u = WwSweeping t is []"
    using ww_drain_alone [OF run assms i(1) Cons.prems(3-5)] by blast
  have "wh_sweeping 0 K tick r0 t n w1"
    using wd_runs_grow [OF run ww_future i(1) Cons.prems(3)] by blast
  then obtain v where "(ww_step K)\<^sup>*\<^sup>* u v" "ww_same u v" "ww_wheel v = w'" "ww_phase v = WwSweeping t [] []"
    using Cons.IH [OF rest i(2) _ u(3,4)] by blast
  with u show ?case
    by (intro exI [of _ v]) (auto simp: ww_same_def intro: rtranclp_trans)
qed

text \<open>
  \<open>Process\<close> of theory Timer\_Wheel, with callbacks that call nothing, is what the loop's thread
  does on its own from the event to its \<open>WakeUp\<close>.
\<close>

lemma ww_process_alone:
  assumes "ww_phase s = WwTriggered" and "ww_wheel s = snd (wh_now clk w)" and "ww_clock s = clk (wh_reads w)"
    and "wh_ok w" and "\<forall>tid e. wh_table w tid = Some e \<longrightarrow> we_id e = tid"
    and "wh_process K clk no_commands w = Some (rs, w')"
  shows "\<exists>u. (ww_step K)\<^sup>*\<^sup>* s u \<and> ww_same s u \<and> wh_core (ww_wheel u) = wh_core w'
    \<and> ww_phase u = WwRearming (WakeAt (last (wh_wakes w')))"
proof -
  let ?now = "clk (wh_reads w)" and ?n = "wh_size w"
  let ?t1 = "wh_get_ticks (wh_tick w) (wh_last w)" and ?t2 = "wh_get_ticks (wh_tick w) (clk (wh_reads w))"
  let ?w = "w\<lparr>wh_reads := Suc (wh_reads w)\<rparr>" and ?is = "wh_swept ?t1 ?t2 ?n"
  let ?s = "s\<lparr>ww_phase := WwSweeping ?now ?is []\<rparr>"
  have n: "0 < ?n" using assms(4) by (simp add: wh_ok_def)
  have wheel: "ww_wheel s = ?w" using assms(2) by (simp add: wh_now_def)
  obtain w2 where sweep: "wh_sweep K clk no_commands ?now (?t2 div ?n) ?is ?w = Some (rs, w2)"
    and w': "w' = wh_wakeup (ts_plus K ?now (wh_tick w2)) (w2\<lparr>wh_last := ?now\<rparr>)"
    using assms(6) wh_process_eq [OF assms(4,5), of K clk no_commands] by (auto simp: Let_def bind_eq_Some_conv)
  have sw: "wh_sweeping 0 K (wh_tick w) 0 ?now ?n ?w"
    using assms(4,5) by (simp add: wh_sweeping_def wh_intervals_def)
  have "ww_loop_next K (ww_clock s) True s = Some ?s"
    using assms(1,3) by (simp add: ww_loop_next_def wheel Let_def wh_size_def)
  then have first: "ww_step K s ?s"
    by (rule ww_loop_step)
  obtain u where u: "(ww_step K)\<^sup>*\<^sup>* ?s u" "ww_same ?s u" "ww_wheel u = w2" "ww_phase u = WwSweeping ?now [] []"
    using ww_sweep_alone [OF _ sweep wh_swept_range [OF n] sw, of ?s] wheel by (auto simp: wh_get_rounds_eq)
  let ?v = "u\<lparr>ww_wheel := w2\<lparr>wh_last := ?now\<rparr>, ww_phase := WwRearming (WakeAt (ww_floor u (ts_plus K ?now (wh_tick w2))))\<rparr>"
  have "ww_step K u ?v"
    using u(3,4) by (intro ww_loop_step [where ok = True]) (simp add: ww_loop_next_def)
  moreover have "ww_floor u (ts_plus K ?now (wh_tick w2)) = last (wh_wakes w')"
    using u(3) by (simp add: ww_floor_def w' wh_wakeup_def)
  ultimately show ?thesis
    using first u(1,2)
    by (intro exI [of _ ?v])
      (auto simp: ww_same_def wh_core_def w' wh_wakeup_def intro: converse_rtranclp_into_rtranclp rtranclp.rtrancl_into_rtrancl)
qed

end
