(* ===== verification/Timer_Wheel_Accounts.thy ===== *)
theory Timer_Wheel_Accounts
  imports Timer_Wheel_Threads
begin

text \<open>
  What holds of the hash wheel under threads: every timer in the table is in a bucket, or held by
  the thread that adds or fires it, so none is forgotten; the ids are accounted for; and a loop
  that waits in the selector has a descriptor that becomes readable, so the sweeps go on.
\<close>

section \<open>The ids in the buckets\<close>

definition wb_ids :: "bucket \<Rightarrow> nat multiset" where
  "wb_ids b = mset (concat (map snd b))"

definition wh_ids :: "'c wheel \<Rightarrow> nat multiset" where
  "wh_ids w = sum_list (map wb_ids (wh_buckets w))"

lemma wb_ids_add: "wb_ids (wb_add r t b) = add_mset t (wb_ids b)"
  by (induction r t b rule: wb_add.induct) (auto simp: wb_ids_def)

lemma wb_ids_pop: "wb_pop r b = Some ((k, ids), b') \<Longrightarrow> wb_ids b = mset ids + wb_ids b'"
  by (cases b) (auto simp: wb_ids_def split: if_splits)

lemma sum_list_replace:
  "i < length xs \<Longrightarrow> sum_list (xs[i := y]) + xs ! i = sum_list xs + (y :: 'a::comm_monoid_add)"
proof (induction xs arbitrary: i)
  case (Cons x xs)
  then show ?case
    by (cases i) (auto simp: ac_simps)
qed simp

lemma wh_ids_replace:
  "i < wh_size w \<Longrightarrow> wh_ids (w\<lparr>wh_buckets := (wh_buckets w)[i := b]\<rparr>) + wb_ids (wh_buckets w ! i) = wh_ids w + wb_ids b"
  using sum_list_replace [of i "map wb_ids (wh_buckets w)" "wb_ids b"]
  by (simp add: wh_ids_def wh_size_def map_update)

lemma wh_ids_add: "i < wh_size w \<Longrightarrow> wh_ids (wh_bucket_add i r t w) = add_mset t (wh_ids w)"
  using wh_ids_replace [of i w "wb_add r t (wh_buckets w ! i)"] by (simp add: wh_bucket_add_def wb_ids_add)

lemma wh_ids_pop:
  assumes "wb_pop r (wh_buckets w ! i) = Some ((k, ids), b)" and "i < wh_size w"
  shows "wh_ids w = mset ids + wh_ids (w\<lparr>wh_buckets := (wh_buckets w)[i := b]\<rparr>)"
  using wh_ids_replace [OF assms(2), of b] wb_ids_pop [OF assms(1)] by (simp add: ac_simps)

lemma wh_ids_upd [simp]:
  "wh_ids (w\<lparr>wh_table := t\<rparr>) = wh_ids w" "wh_ids (w\<lparr>wh_counter := n\<rparr>) = wh_ids w"
  "wh_ids (w\<lparr>wh_last := l\<rparr>) = wh_ids w" "wh_ids (wh_cancel tid w) = wh_ids w"
  by (simp_all add: wh_ids_def wh_cancel_def)

section \<open>The invariant\<close>

fun ww_held :: "'c ww_phase \<Rightarrow> nat set" where
  "ww_held (WwSweeping _ _ ids) = set ids"
| "ww_held (WwFiring _ _ ids tid _) = insert tid (set ids)"
| "ww_held (WwCalling _ _ ids _) = set ids"
| "ww_held _ = {}"

fun ww_pending :: "'c ww_add \<Rightarrow> nat set" where
  "ww_pending (AddBucket _ _ tid) = {tid}"
| "ww_pending _ = {}"

definition ww_reach :: "'c ww_system \<Rightarrow> nat set" where
  "ww_reach s = set_mset (wh_ids (ww_wheel s)) \<union> ww_held (ww_phase s) \<union> (\<Union>a \<in> set (ww_adds s). ww_pending a)"

definition ww_known :: "'c ww_system \<Rightarrow> bool" where
  "ww_known s \<longleftrightarrow> (\<forall>tid e. wh_table (ww_wheel s) tid = Some e \<longrightarrow> we_id e = tid \<and> tid \<in> ww_reach s)
     \<and> (\<forall>t is ids tid timer. ww_phase s = WwFiring t is ids tid timer \<longrightarrow> we_id timer = tid)"

fun ww_sweep_ok :: "nat \<Rightarrow> usec \<Rightarrow> 'c ww_phase \<Rightarrow> bool" where
  "ww_sweep_ok n now (WwSweeping t is _) \<longleftrightarrow> set is \<subseteq> {0..<n} \<and> t \<le> now"
| "ww_sweep_ok n now (WwFiring t is _ _ _) \<longleftrightarrow> set is \<subseteq> {0..<n} \<and> t \<le> now"
| "ww_sweep_ok n now (WwCalling t is _ _) \<longleftrightarrow> set is \<subseteq> {0..<n} \<and> t \<le> now"
| "ww_sweep_ok n now (WwRearming st) \<longleftrightarrow> tt_stage_ok now (LockWaking st)"
| "ww_sweep_ok n now _ \<longleftrightarrow> True"

fun ww_add_ok :: "usec \<Rightarrow> 'c ww_add \<Rightarrow> bool" where
  "ww_add_ok now (AddEntry x _) \<longleftrightarrow> x \<le> now + kMaxDelay"
| "ww_add_ok now (AddBucket x _ _) \<longleftrightarrow> x \<le> now + kMaxDelay"
| "ww_add_ok now (AddWaking st) \<longleftrightarrow> tt_stage_ok now (LockWaking st)"

definition ww_shape :: "'c ww_system \<Rightarrow> bool" where
  "ww_shape s \<longleftrightarrow> 0 < wh_tick (ww_wheel s) \<and> wh_tick (ww_wheel s) \<le> kMaxDelay \<and> 0 < wh_size (ww_wheel s)
     \<and> 0 \<le> ww_clock s \<and> ww_sweep_ok (wh_size (ww_wheel s)) (ww_clock s) (ww_phase s)
     \<and> (\<forall>a \<in> set (ww_adds s). ww_add_ok (ww_clock s) a)"

fun ww_in_read :: "'c ww_phase \<Rightarrow> bool" where
  "ww_in_read WwReading \<longleftrightarrow> True"
| "ww_in_read WwHasRead \<longleftrightarrow> True"
| "ww_in_read _ \<longleftrightarrow> False"

text \<open>A thread is about to set the descriptor.\<close>

definition ww_arming :: "'c ww_system \<Rightarrow> bool" where
  "ww_arming s \<longleftrightarrow> (\<exists>u. AddWaking (WakeArm u) \<in> set (ww_adds s) \<or> ww_phase s = WwRearming (WakeArm u))"

fun ww_expects :: "'c ww_phase \<Rightarrow> bool" where
  "ww_expects WwWaiting \<longleftrightarrow> True"
| "ww_expects (WwRearming st) \<longleftrightarrow> \<not> tt_undecided (LockWaking st)"
| "ww_expects _ \<longleftrightarrow> False"

definition ww_ticking :: "'c ww_system \<Rightarrow> bool" where
  "ww_ticking s \<longleftrightarrow> tt_value (ww_in_read (ww_phase s)) (ww_channel s)
     \<and> (\<not> ww_in_read (ww_phase s) \<longrightarrow> tc_last_wakeup_us (ww_channel s) \<noteq> INT64_MAX \<longrightarrow> ww_armed s \<or> ww_arming s)
     \<and> (ww_expects (ww_phase s) \<longrightarrow> tc_last_wakeup_us (ww_channel s) \<noteq> INT64_MAX)"

definition ww_inv :: "chrono \<Rightarrow> 'c ww_system \<Rightarrow> bool" where
  "ww_inv K s \<longleftrightarrow> chrono_ok K \<and> ww_shape s \<and> ww_known s \<and> ww_ticking s
     \<and> ww_added s = ww_popped s + wh_ids (ww_wheel s)"

lemmas ww_inv_defs = ww_inv_def ww_shape_def ww_known_def ww_ticking_def ww_arming_def ww_reach_def

lemma ww_inv_initial:
  assumes "ww_initial K s"
  shows "ww_inv K s"
proof -
  obtain tick n t0 t1 where K: "chrono_ok K" and args: "0 < tick" "tick \<le> kMaxDelay" "0 < n" "0 \<le> t0" "t0 \<le> t1"
    and s: "ww_create K tick n t0 t1 = Some s"
    using assms by (auto simp: ww_initial_def)
  have "tc_wakeup_at K t1 t0 tc_create = Some (tc_settime K t1 100 \<lparr>tc_last_wakeup_us = 100, tc_settimes = []\<rparr>)"
    using K args tc_wakeup_after_eq [of tc_create "t0 - t1" K t1]
    by (simp add: tc_wakeup_at_def tc_create_def max_absorb2 INT64_MAX_def)
  then have s: "s = \<lparr>ww_wheel = wh_create (\<lambda>_. t0) tick n,
      ww_channel = tc_settime K t1 100 \<lparr>tc_last_wakeup_us = 100, tc_settimes = []\<rparr>, ww_armed = True, ww_clock = t1,
      ww_adds = [], ww_phase = WwWaiting, ww_added = {#}, ww_popped = {#}\<rparr>"
    using s by (simp add: ww_create_def)
  have "sum_list (replicate n {#}) = {#}"
    by (induction n) simp_all
  then have "wh_ids (wh_create (\<lambda>_. t0) tick n) = {#}"
    by (simp add: wh_ids_def wh_create_def wb_ids_def)
  then show ?thesis
    using K args
    by (simp add: s ww_inv_defs wh_create_def wh_size_def tt_value_def tt_duration_def kMaxDelay_def INT64_MAX_def)
qed

text \<open>Rounding to the tick does not leave the range of the channel.\<close>

lemma ww_floor_range:
  assumes "0 < wh_tick (ww_wheel s)" and "x \<le> now + kMaxDelay" and "0 \<le> now"
  shows "ww_floor s x \<le> now + kMaxDelay"
proof (cases "0 \<le> x")
  case True
  have "x div wh_tick (ww_wheel s) * wh_tick (ww_wheel s) \<le> x"
    using div_mult_mod_eq [of x "wh_tick (ww_wheel s)"] pos_mod_sign [OF assms(1), of x] by linarith
  with True assms(1) have "ww_floor s x \<le> x"
    by (simp add: ww_floor_def sdiv_pos)
  with assms(2) show ?thesis by linarith
next
  case False
  then have "x sdiv wh_tick (ww_wheel s) \<le> 0"
    using assms(1) by (simp add: signed_divide_int_def sgn_if pos_imp_zdiv_nonneg_iff)
  then have "ww_floor s x \<le> 0"
    using assms(1) by (simp add: ww_floor_def mult_nonpos_nonneg)
  with assms(3) show ?thesis by (simp add: kMaxDelay_def INT64_MAX_def)
qed

lemma ww_later:
  assumes "ww_inv K s" and "ww_clock s \<le> now"
  shows "ww_inv K (s\<lparr>ww_clock := now\<rparr>)"
proof -
  have "ww_add_ok now a" if "ww_add_ok (ww_clock s) a" for a :: "'c ww_add"
    using that assms(2) tt_stage_ok_later by (cases a) (auto elim: tt_stage_ok_later)
  moreover have "ww_sweep_ok n now p" if "ww_sweep_ok n (ww_clock s) p" for n and p :: "'c ww_phase"
    using that assms(2) by (cases "(n, now, p)" rule: ww_sweep_ok.cases) (auto elim: tt_stage_ok_later)
  ultimately have "ww_shape (s\<lparr>ww_clock := now\<rparr>)"
    using assms unfolding ww_inv_def ww_shape_def by auto
  with assms(1) show ?thesis
    by (simp add: ww_inv_def ww_known_def ww_reach_def ww_ticking_def ww_arming_def)
qed

section \<open>The steps of an Add\<close>

lemma ww_bucket_add_simps [simp]:
  "ww_channel (ww_bucket_add x r tid s) = ww_channel s" "ww_armed (ww_bucket_add x r tid s) = ww_armed s"
  "ww_clock (ww_bucket_add x r tid s) = ww_clock s" "ww_adds (ww_bucket_add x r tid s) = ww_adds s"
  "ww_phase (ww_bucket_add x r tid s) = ww_phase s" "ww_popped (ww_bucket_add x r tid s) = ww_popped s"
  "ww_added (ww_bucket_add x r tid s) = add_mset tid (ww_added s)"
  "wh_tick (ww_wheel (ww_bucket_add x r tid s)) = wh_tick (ww_wheel s)"
  "wh_size (ww_wheel (ww_bucket_add x r tid s)) = wh_size (ww_wheel s)"
  "wh_table (ww_wheel (ww_bucket_add x r tid s)) = wh_table (ww_wheel s)"
  by (simp_all add: ww_bucket_add_def Let_def)

lemma ww_bucket_add_ids:
  "0 < wh_size (ww_wheel s) \<Longrightarrow> wh_ids (ww_wheel (ww_bucket_add x r tid s)) = add_mset tid (wh_ids (ww_wheel s))"
  by (simp add: ww_bucket_add_def Let_def wh_ids_add)

lemma set_replace_other: "i < length xs \<Longrightarrow> b \<in> set xs \<Longrightarrow> b \<noteq> xs ! i \<Longrightarrow> b \<in> set (xs[i := a])"
  by (metis in_set_conv_nth length_list_update nth_list_update_neq)

text \<open>What the i-th \<open>Add\<close> leaves untouched: the others, and what they hold or are about to do.\<close>

lemma ww_reach_thread:
  assumes "tid \<in> ww_reach s" and "i < length (ww_adds s)"
    and "tid \<in> ww_pending (ww_adds s ! i) \<Longrightarrow> tid \<in># wh_ids (ww_wheel t) \<or> tid \<in> ww_pending a"
    and "wh_ids (ww_wheel s) \<subseteq># wh_ids (ww_wheel t)" and "ww_phase t = ww_phase s"
    and "ww_adds t = (ww_adds s)[i := a]"
  shows "tid \<in> ww_reach t"
proof -
  have "a \<in> set (ww_adds t)"
    using assms(2,6) by (simp add: set_update_memI)
  moreover have "b \<in> set (ww_adds t)" if "b \<in> set (ww_adds s)" "b \<noteq> ww_adds s ! i" for b
    using set_replace_other [OF assms(2) that] assms(6) by simp
  ultimately show ?thesis
    using assms(1,3-5) unfolding ww_reach_def by (auto dest: mset_subset_eqD)
qed

lemma ww_arming_thread:
  assumes "ww_arming s" and "i < length (ww_adds s)" and "\<And>u. ww_adds s ! i \<noteq> AddWaking (WakeArm u)"
    and "ww_phase t = ww_phase s" and "ww_adds t = (ww_adds s)[i := a]"
  shows "ww_arming t"
  using assms set_replace_other [OF assms(2)] unfolding ww_arming_def by metis

lemma ww_shape_thread:
  assumes "ww_shape s" and "ww_add_ok (ww_clock s) a" and "wh_tick (ww_wheel t) = wh_tick (ww_wheel s)"
    and "wh_size (ww_wheel t) = wh_size (ww_wheel s)" and "ww_clock t = ww_clock s" and "ww_phase t = ww_phase s"
    and "ww_adds t = (ww_adds s)[i := a]"
  shows "ww_shape t"
  using assms set_update_subset_insert [of "ww_adds s" i a] unfolding ww_shape_def by auto

lemma ww_ticking_thread:
  assumes "ww_ticking s" and "i < length (ww_adds s)" and "\<And>u. ww_adds s ! i \<noteq> AddWaking (WakeArm u)"
    and "ww_phase t = ww_phase s" and "ww_channel t = ww_channel s" and "ww_armed t = ww_armed s"
    and "ww_adds t = (ww_adds s)[i := a]"
  shows "ww_ticking t"
  using assms ww_arming_thread [OF _ assms(2,3,4,7)] unfolding ww_ticking_def by auto

lemma ww_add_keeps:
  assumes "ww_inv K s" and "i < length (ww_adds s)"
    and "ww_add_next K (ww_clock s) (ww_adds s ! i) s = (a, s1)"
  shows "ww_inv K (s1\<lparr>ww_adds := (ww_adds s)[i := a]\<rparr>)" (is "ww_inv K ?t")
proof -
  let ?a = "ww_adds s ! i"
  have K: "chrono_ok K" and shape: "ww_shape s" and known: "ww_known s" and tick: "ww_ticking s"
    and acc: "ww_added s = ww_popped s + wh_ids (ww_wheel s)"
    using assms(1) by (simp_all add: ww_inv_def)
  have ok: "ww_add_ok (ww_clock s) ?a" and pos: "0 < wh_size (ww_wheel s)"
    using shape assms(2) by (simp_all add: ww_shape_def)
  show ?thesis
  proof (cases ?a)
    case (AddEntry x e)
    then have a: "a = AddBucket x (we_rounds e) (we_id e)"
      and t: "s1 = s\<lparr>ww_wheel := (ww_wheel s)\<lparr>wh_table := (wh_table (ww_wheel s))(we_id e \<mapsto> e)\<rparr>\<rparr>"
      using assms(3) by simp_all
    have "tid \<in> ww_reach ?t" if "tid \<in> ww_reach s" for tid
      using that assms(2) AddEntry by (intro ww_reach_thread [OF that assms(2)]) (simp_all add: t a)
    moreover have "we_id e \<in> ww_reach ?t"
      using set_update_memI [OF assms(2), of a] by (force simp: ww_reach_def a)
    ultimately have "ww_known ?t"
      using known by (simp add: ww_known_def t)
    moreover have "ww_shape ?t"
      using ok AddEntry by (intro ww_shape_thread [OF shape]) (simp_all add: t a)
    moreover have "ww_ticking ?t"
      using AddEntry by (intro ww_ticking_thread [OF tick assms(2)]) (simp_all add: t)
    ultimately show ?thesis
      using K acc by (simp add: ww_inv_def t)
  next
    case (AddBucket x r tid)
    then have a: "a = AddWaking (WakeAt (ww_floor s x))" and t: "s1 = ww_bucket_add x r tid s"
      using assms(3) by simp_all
    note ids = ww_bucket_add_ids [OF pos, of x r tid]
    have "tid' \<in> ww_reach ?t" if "tid' \<in> ww_reach s" for tid'
      using that AddBucket by (intro ww_reach_thread [OF that assms(2)]) (auto simp: t ids)
    then have "ww_known ?t"
      using known by (simp add: ww_known_def t)
    moreover have "ww_floor s x \<le> ww_clock s + kMaxDelay"
      using shape ok AddBucket by (intro ww_floor_range) (simp_all add: ww_shape_def)
    then have "ww_shape ?t"
      by (intro ww_shape_thread [OF shape]) (simp_all add: t a)
    moreover have "ww_ticking ?t"
      using AddBucket by (intro ww_ticking_thread [OF tick assms(2)]) (simp_all add: t)
    ultimately show ?thesis
      using K acc by (simp add: ww_inv_def t ids)
  next
    case (AddWaking st)
    obtain st' ch armed where w: "tt_wake K (ww_clock s) st (ww_channel s, ww_armed s) = (st', ch, armed)"
      by (metis prod_cases3)
    then have a: "a = AddWaking st'" and t: "s1 = s\<lparr>ww_channel := ch, ww_armed := armed\<rparr>"
      using assms(3) AddWaking by simp_all
    have stage: "tt_stage_ok (ww_clock s) (LockWaking st)"
      using ok AddWaking by simp
    have val: "tt_value (ww_in_read (ww_phase s)) (ww_channel s)"
      using tick by (simp add: ww_ticking_def)
    note wake = tt_wake_sound [OF K stage val w]
    have "tid \<in> ww_reach ?t" if "tid \<in> ww_reach s" for tid
      using that AddWaking by (intro ww_reach_thread [OF that assms(2)]) (simp_all add: t)
    then have "ww_known ?t"
      using known by (simp add: ww_known_def t)
    moreover have "ww_shape ?t"
      using wake(1) by (intro ww_shape_thread [OF shape]) (simp_all add: t a)
    moreover have "ww_armed ?t \<or> ww_arming ?t" if "ww_armed s \<or> ww_arming s \<or> (\<exists>u. st' = WakeArm u)"
    proof (cases "\<exists>u. st = WakeArm u")
      case False
      have "a \<in> set (ww_adds ?t)"
        using set_update_memI [OF assms(2)] by simp
      with that False AddWaking show ?thesis
        using wake(3) ww_arming_thread [of s i ?t a] assms(2) by (auto simp: ww_arming_def t a)
    qed (use wake(4) t in auto)
    then have "ww_ticking ?t"
      using tick wake(2,5) by (auto simp: ww_ticking_def t)
    ultimately show ?thesis
      using K acc by (simp add: ww_inv_def t)
  qed
qed

section \<open>The steps of the loop\<close>

lemma ww_inv_wheel:
  assumes "ww_inv K s" and "wh_tick w = wh_tick (ww_wheel s)" and "wh_size w = wh_size (ww_wheel s)"
    and "wh_ids w = wh_ids (ww_wheel s)"
    and "\<And>tid e. wh_table w tid = Some e \<Longrightarrow> (\<exists>e'. wh_table (ww_wheel s) tid = Some e' \<and> we_id e = we_id e')"
  shows "ww_inv K (s\<lparr>ww_wheel := w\<rparr>)"
proof -
  have "ww_reach (s\<lparr>ww_wheel := w\<rparr>) = ww_reach s"
    using assms(4) by (simp add: ww_reach_def)
  then have "ww_known (s\<lparr>ww_wheel := w\<rparr>)"
    using assms(1,5) unfolding ww_inv_def ww_known_def by fastforce
  with assms(1-4) show ?thesis
    by (simp add: ww_inv_def ww_shape_def ww_ticking_def ww_arming_def)
qed

lemma ww_inv_bucket_add:
  assumes "ww_inv K s"
  shows "ww_inv K (ww_bucket_add x r tid s)"
proof -
  have ids: "wh_ids (ww_wheel (ww_bucket_add x r tid s)) = add_mset tid (wh_ids (ww_wheel s))"
    using assms by (simp add: ww_bucket_add_ids ww_inv_def ww_shape_def)
  then have "ww_reach s \<subseteq> ww_reach (ww_bucket_add x r tid s)"
    by (auto simp: ww_reach_def)
  with assms ids show ?thesis
    by (auto simp: ww_inv_def ww_shape_def ww_known_def ww_ticking_def ww_arming_def)
qed

text \<open>A change of the phase between two points of the sweep, or out of the read.\<close>

lemma ww_inv_phase:
  assumes "ww_inv K s" and "ww_sweep_ok (wh_size (ww_wheel s)) (ww_clock s) p"
    and "\<And>tid. tid \<in> ww_held (ww_phase s) \<Longrightarrow> wh_table (ww_wheel s) tid \<noteq> None \<Longrightarrow> tid \<in> ww_held p \<or> tid \<in># wh_ids (ww_wheel s)"
    and "\<And>t is ids tid timer. p = WwFiring t is ids tid timer \<Longrightarrow> we_id timer = tid"
    and "\<not> ww_in_read (ww_phase s)" and "\<not> ww_in_read p" and "\<not> ww_expects p"
    and "\<And>u. ww_phase s \<noteq> WwRearming (WakeArm u)"
  shows "ww_inv K (s\<lparr>ww_phase := p\<rparr>)"
proof -
  have "tid \<in> ww_reach (s\<lparr>ww_phase := p\<rparr>)" if "tid \<in> ww_reach s" "wh_table (ww_wheel s) tid \<noteq> None" for tid
    using that assms(3) by (auto simp: ww_reach_def)
  then have "ww_known (s\<lparr>ww_phase := p\<rparr>)"
    using assms(1,4) by (auto simp: ww_inv_def ww_known_def)
  moreover have "ww_ticking (s\<lparr>ww_phase := p\<rparr>)"
    using assms(1,5-8) by (auto simp: ww_inv_def ww_ticking_def ww_arming_def)
  ultimately show ?thesis
    using assms(1,2) by (simp add: ww_inv_def ww_shape_def)
qed

lemma ww_fire_keeps:
  assumes "ww_inv K s" and "ww_phase s = WwFiring t is ids tid timer"
  shows "ww_inv K ((ww_fire K t tid timer s)\<lparr>ww_phase := WwCalling t is ids (we_callback timer)\<rparr>)"
proof (cases "we_interval timer \<le> 0")
  case True
  let ?s = "s\<lparr>ww_wheel := wh_cancel tid (ww_wheel s)\<rparr>"
  have "ww_inv K ?s"
    using assms(1) by (intro ww_inv_wheel) (auto simp: wh_cancel_def wh_size_def split: if_splits)
  then have "ww_inv K (?s\<lparr>ww_phase := WwCalling t is ids (we_callback timer)\<rparr>)"
    using assms by (intro ww_inv_phase) (auto simp: wh_cancel_def wh_size_def ww_inv_def ww_shape_def)
  with True show ?thesis by (simp add: ww_fire_def)
next
  case False
  let ?w = "ww_wheel s"
  define expire where "expire = ts_plus K t (we_interval timer)"
  define rounds where "rounds = wh_get_rounds (wh_tick ?w) (wh_size ?w) expire"
  define table where "table = (case wh_table ?w tid of None \<Rightarrow> wh_table ?w
    | Some e \<Rightarrow> (wh_table ?w)(tid \<mapsto> e\<lparr>we_rounds := rounds\<rparr>))"
  let ?s = "s\<lparr>ww_wheel := ?w\<lparr>wh_table := table\<rparr>\<rparr>"
  have fire: "ww_fire K t tid timer s = ww_bucket_add expire rounds (we_id timer) ?s"
    using False unfolding table_def rounds_def expire_def ww_fire_def Let_def by simp
  have "ww_inv K ?s"
    using assms(1) by (intro ww_inv_wheel) (auto simp: table_def split: option.splits if_splits)
  then have "ww_inv K (ww_bucket_add expire rounds (we_id timer) ?s)"
    by (rule ww_inv_bucket_add)
  moreover have "we_id timer = tid" and size: "0 < wh_size ?w"
    using assms by (auto simp: ww_inv_def ww_known_def ww_shape_def)
  ultimately show ?thesis
    unfolding fire using assms ww_bucket_add_ids [of ?s expire rounds tid]
    by (intro ww_inv_phase) (auto simp: ww_inv_def ww_shape_def)
qed

lemma ww_pop_keeps:
  assumes "ww_inv K s" and "ww_phase s = WwSweeping t (i # is) []"
  shows "ww_inv K (ww_pop t i is s)"
proof -
  let ?w = "ww_wheel s"
  have i: "i < wh_size ?w" "set is \<subseteq> {0..<wh_size ?w}" "t \<le> ww_clock s"
    using assms by (auto simp: ww_inv_def ww_shape_def)
  show ?thesis
  proof (cases "wb_pop (wh_get_rounds (wh_tick ?w) (wh_size ?w) t) (wh_buckets ?w ! i)")
    case None
    with assms i show ?thesis
      by (auto simp: ww_pop_def Let_def intro!: ww_inv_phase)
  next
    case (Some r)
    obtain k ids b where r: "r = ((k, ids), b)" by (cases r) auto
    let ?w' = "?w\<lparr>wh_buckets := (wh_buckets ?w)[i := b]\<rparr>"
    let ?t = "s\<lparr>ww_wheel := ?w', ww_phase := WwSweeping t (i # is) ids, ww_popped := mset ids + ww_popped s\<rparr>"
    have ids: "wh_ids ?w = mset ids + wh_ids ?w'"
      using wh_ids_pop Some i(1) unfolding r by blast
    then have "ww_reach s \<subseteq> ww_reach ?t"
      using assms(2) by (auto simp: ww_reach_def)
    then have "ww_known ?t"
      using assms(1) by (auto simp: ww_inv_def ww_known_def)
    moreover have "ww_ticking ?t"
      using assms by (simp add: ww_inv_def ww_ticking_def ww_arming_def)
    moreover have "ww_shape ?t"
      using assms i by (simp add: ww_inv_def ww_shape_def wh_size_def)
    ultimately have "ww_inv K ?t"
      using assms(1) ids by (simp add: ww_inv_def)
    with Some r show ?thesis by (simp add: ww_pop_def Let_def)
  qed
qed

lemma ww_rearm_keeps:
  assumes "ww_inv K s" and "ww_phase s = WwRearming st"
    and "tt_wake K (ww_clock s) st (ww_channel s, ww_armed s) = (st', ch, armed)"
  shows "ww_inv K (s\<lparr>ww_phase := WwRearming st', ww_channel := ch, ww_armed := armed\<rparr>)" (is "ww_inv K ?t")
proof -
  have K: "chrono_ok K" and shape: "ww_shape s" and known: "ww_known s" and tick: "ww_ticking s"
    using assms(1) by (simp_all add: ww_inv_def)
  have stage: "tt_stage_ok (ww_clock s) (LockWaking st)"
    using shape assms(2) by (simp add: ww_shape_def)
  have val: "tt_value False (ww_channel s)"
    using tick assms(2) by (simp add: ww_ticking_def)
  note wake = tt_wake_sound [OF K stage val assms(3)]
  have "ww_reach ?t = ww_reach s"
    using assms(2) by (simp add: ww_reach_def)
  then have "ww_known ?t"
    using known by (simp add: ww_known_def)
  moreover have "armed \<or> ww_arming ?t" if "ww_armed s \<or> ww_arming s \<or> (\<exists>u. st' = WakeArm u)"
    using that wake(3,4) assms(2) by (auto simp: ww_arming_def)
  then have "ww_ticking ?t"
    using tick wake(2,5,6) assms(2) unfolding ww_ticking_def by auto
  ultimately show ?thesis
    using assms(1,2) wake(1) by (simp add: ww_inv_def ww_shape_def)
qed

text \<open>Outside the sweep, with the channel changed.\<close>

lemma ww_inv_idle:
  assumes "ww_inv K s" and "ww_held (ww_phase s) = {}" and "ww_held p = {}"
    and "\<And>n now. ww_sweep_ok n now p" and "\<And>t is ids tid timer. p \<noteq> WwFiring t is ids tid timer"
    and "ww_ticking (s\<lparr>ww_phase := p, ww_channel := ch, ww_armed := armed\<rparr>)"
  shows "ww_inv K (s\<lparr>ww_phase := p, ww_channel := ch, ww_armed := armed\<rparr>)"
  using assms by (simp add: ww_inv_def ww_shape_def ww_known_def ww_reach_def)

lemma ww_loop_keeps:
  assumes "ww_inv K s" and "ww_loop_next K (ww_clock s) ok s = Some t"
  shows "ww_inv K t"
proof (cases "ww_phase s")
  case WwWaiting
  with assms have "t = s\<lparr>ww_phase := WwReading, ww_channel := tc_begin_read (ww_channel s), ww_armed := ww_armed s\<rparr>"
    by (auto simp: ww_loop_next_def split: if_splits)
  moreover have "ww_inv K \<dots>"
    using assms(1) WwWaiting by (intro ww_inv_idle) (simp_all add: ww_ticking_def tc_begin_read_def tt_value_def)
  ultimately show ?thesis by simp
next
  case WwReading
  with assms have "t = s\<lparr>ww_phase := WwHasRead, ww_channel := ww_channel s, ww_armed := (\<not> ok \<and> ww_armed s)\<rparr>"
    by (cases ok) (auto simp: ww_loop_next_def split: if_splits)
  moreover have "ww_inv K (s\<lparr>ww_phase := WwHasRead, ww_channel := ww_channel s, ww_armed := a\<rparr>)" for a
    using assms(1) WwReading by (intro ww_inv_idle) (simp_all add: ww_inv_def ww_ticking_def)
  ultimately show ?thesis by simp
next
  case WwHasRead
  with assms have "t = s\<lparr>ww_phase := WwTriggered, ww_channel := tc_end_read (ww_channel s), ww_armed := ww_armed s\<rparr>"
    by (auto simp: ww_loop_next_def)
  moreover have "ww_inv K \<dots>"
    using assms(1) WwHasRead by (intro ww_inv_idle) (simp_all add: ww_ticking_def tc_end_read_def tt_value_def)
  ultimately show ?thesis by simp
next
  case WwTriggered
  let ?w = "ww_wheel s"
  let ?p = "WwSweeping (ww_clock s) (wh_swept (wh_get_ticks (wh_tick ?w) (wh_last ?w))
    (wh_get_ticks (wh_tick ?w) (ww_clock s)) (wh_size ?w)) [] :: 'a ww_phase"
  have "0 < wh_size ?w"
    using assms(1) by (simp add: ww_inv_def ww_shape_def)
  then have "ww_inv K (s\<lparr>ww_phase := ?p\<rparr>)"
    using assms(1) WwTriggered wh_swept_range [of "wh_size ?w"] by (intro ww_inv_phase) simp_all
  with assms(2) WwTriggered show ?thesis
    by (simp add: ww_loop_next_def Let_def)
next
  case (WwSweeping t0 "is" ids)
  have floor: "ww_floor s (ts_plus K t0 (wh_tick (ww_wheel s))) \<le> ww_clock s + kMaxDelay"
    using assms(1) WwSweeping by (intro ww_floor_range) (auto simp: ww_inv_def ww_shape_def)
  consider (stop) "is = []" "ids = []" | (pop) i is' where "is = i # is'" "ids = []" | (fire) tid ids' where "ids = tid # ids'"
    by (cases "is"; cases ids) auto
  then show ?thesis
  proof cases
    case stop
    let ?s = "s\<lparr>ww_wheel := (ww_wheel s)\<lparr>wh_last := t0\<rparr>\<rparr>"
    have "ww_inv K ?s"
      using assms(1) by (intro ww_inv_wheel) (auto simp: wh_size_def)
    then have "ww_inv K (?s\<lparr>ww_phase := WwRearming (WakeAt (ww_floor s (ts_plus K t0 (wh_tick (ww_wheel s)))))\<rparr>)"
      using WwSweeping stop floor by (intro ww_inv_phase) auto
    with assms(2) WwSweeping stop show ?thesis
      by (auto simp: ww_loop_next_def)
  next
    case pop
    with assms WwSweeping show ?thesis
      using ww_pop_keeps [OF assms(1)] by (auto simp: ww_loop_next_def)
  next
    case fire
    then have ids: "ww_sweep_ok (wh_size (ww_wheel s)) (ww_clock s) (WwSweeping t0 is ids')"
      using assms(1) WwSweeping by (auto simp: ww_inv_def ww_shape_def)
    have id: "we_id timer = tid" if "wh_table (ww_wheel s) tid = Some timer" for timer
      using assms(1) that by (auto simp: ww_inv_def ww_known_def)
    have "ww_inv K (s\<lparr>ww_phase := WwSweeping t0 is ids'\<rparr>)" if "wh_table (ww_wheel s) tid = None"
      using assms(1) WwSweeping fire ids that by (intro ww_inv_phase) auto
    moreover have "ww_inv K (s\<lparr>ww_phase := WwFiring t0 is ids' tid timer\<rparr>)"
      if "wh_table (ww_wheel s) tid = Some timer" for timer
      using assms(1) WwSweeping fire ids id that by (intro ww_inv_phase) auto
    ultimately show ?thesis
      using assms(2) WwSweeping fire by (cases "is") (auto simp: ww_loop_next_def split: option.splits)
  qed
next
  case (WwFiring t0 "is" ids tid timer)
  with assms show ?thesis
    using ww_fire_keeps by (auto simp: ww_loop_next_def)
next
  case (WwCalling t0 "is" ids callback)
  then have "ww_sweep_ok (wh_size (ww_wheel s)) (ww_clock s) (WwSweeping t0 is ids)"
    using assms(1) by (simp add: ww_inv_def ww_shape_def)
  then have "ww_inv K (s\<lparr>ww_phase := WwSweeping t0 is ids\<rparr>)"
    using assms(1) WwCalling by (intro ww_inv_phase) auto
  with assms(2) WwCalling show ?thesis
    by (simp add: ww_loop_next_def)
next
  case (WwRearming st)
  show ?thesis
  proof (cases "st = WakeDone")
    case True
    then have "t = s\<lparr>ww_phase := WwWaiting, ww_channel := ww_channel s, ww_armed := ww_armed s\<rparr>"
      using assms(2) WwRearming by (auto simp: ww_loop_next_def)
    moreover have "ww_inv K \<dots>"
      using assms(1) WwRearming True
      by (intro ww_inv_idle) (auto simp: ww_inv_def ww_ticking_def ww_arming_def)
    ultimately show ?thesis by simp
  next
    case False
    then show ?thesis
      using assms WwRearming ww_rearm_keeps by (auto simp: ww_loop_next_def split: prod.splits)
  qed
qed

lemma ww_inv_step: "ww_step K s t \<Longrightarrow> ww_inv K s \<Longrightarrow> ww_inv K t"
proof (induction rule: ww_step.induct)
  case (ww_event e s t)
  show ?case
  proof (cases e)
    case (EvAdd now delay interval callback)
    let ?s = "s\<lparr>ww_clock := now\<rparr>"
    let ?w = "(ww_wheel s)\<lparr>wh_counter := Suc (wh_counter (ww_wheel s))\<rparr>"
    obtain e' where t: "ww_clock s \<le> now" "delay \<le> kMaxDelay"
      "t = ?s\<lparr>ww_wheel := ?w, ww_adds := ww_adds s @ [AddEntry (ts_plus K now delay) e']\<rparr>"
      using ww_event EvAdd by (auto simp: Let_def split: if_splits)
    then have "ww_inv K (?s\<lparr>ww_wheel := ?w\<rparr>)"
      using ww_later [OF ww_event.prems] by (intro ww_inv_wheel) (auto simp: wh_size_def)
    with t(2,3) show ?thesis
      by (auto simp: ww_inv_defs)
  next
    case (EvThread now i)
    let ?s = "s\<lparr>ww_clock := now\<rparr>"
    obtain a s1 where t: "ww_clock s \<le> now" "i < length (ww_adds s)"
      "ww_add_next K now (ww_adds s ! i) ?s = (a, s1)" "t = s1\<lparr>ww_adds := (ww_adds s)[i := a]\<rparr>"
      using ww_event EvThread by (auto simp: Let_def split: if_splits prod.splits)
    then show ?thesis
      using ww_add_keeps [of K ?s i a s1] ww_later [OF ww_event.prems] by simp
  next
    case (EvCancel tid)
    then show ?thesis
      using ww_event by (auto simp: wh_cancel_def wh_size_def split: if_splits intro!: ww_inv_wheel)
  next
    case (EvLoop now ok)
    then show ?thesis
      using ww_event ww_loop_keeps [of K "s\<lparr>ww_clock := now\<rparr>" ok t] ww_later [OF ww_event.prems]
      by (auto split: if_splits)
  qed
qed

text \<open>No \<open>Add\<close> is in progress: each has returned.\<close>

definition ww_settled :: "'c ww_system \<Rightarrow> bool" where
  "ww_settled s \<longleftrightarrow> list_all (\<lambda>a. a = AddWaking WakeDone) (ww_adds s)"

interpretation ww: wakeup_protocol "ww_initial K" "ww_step K" "ww_inv K" "\<lambda>s. ww_phase s = WwWaiting"
  ww_settled "\<lambda>s. wh_ids (ww_wheel s)" ww_armed ww_added ww_popped for K
proof unfold_locales
  fix s :: "'c ww_system"
  assume "ww_inv K s" and "ww_phase s = WwWaiting"
  then show "ww_added s = ww_popped s + wh_ids (ww_wheel s)"
    and "ww_settled s \<Longrightarrow> wh_ids (ww_wheel s) \<noteq> {#} \<Longrightarrow> ww_armed s"
    by (auto simp: ww_inv_defs ww_settled_def list_all_iff)
qed (auto intro: ww_inv_initial ww_inv_step)

end
