(* ===== verification/Timer_Wheel_Races.thy ===== *)
theory Timer_Wheel_Races
  imports Timer_Wheel_Accounts
begin

text \<open>
  What the threads of a hash wheel can and cannot do to its timers: no timer is forgotten and the
  sweeps go on, but without a lock over \<open>Add\<close> and \<open>WakeUpAfter\<close> a timer can be late.  The late
  timers are interleavings that are computed from a new wheel.
\<close>

section \<open>What holds of every interleaving\<close>

lemma wh_ids_has: "tid \<in># wh_ids w \<Longrightarrow> \<exists>i k. wh_has w i k tid"
proof -
  assume "tid \<in># wh_ids w"
  then obtain b where b: "b \<in> set (wh_buckets w)" "tid \<in># wb_ids b"
    by (induction "wh_buckets w" arbitrary: w) (auto simp: wh_ids_def set_mset_sum_list)
  then obtain i where "i < length (wh_buckets w)" "wh_buckets w ! i = b"
    by (auto simp: in_set_conv_nth)
  moreover have "\<exists>k. wb_has b k tid"
    using b(2) by (force simp: wb_ids_def wb_has_def)
  ultimately show ?thesis
    by (auto simp: wh_has_def wh_size_def)
qed

text \<open>The outcome of a list of events on a new wheel is a reachable state.\<close>

definition ww_outcome :: "usec \<Rightarrow> nat \<Rightarrow> 'c ww_event list \<Rightarrow> 'c ww_system option" where
  "ww_outcome tick n es = Option.bind (ww_create usec_chrono tick n 0 0) (ww_run usec_chrono es)"

lemma ww_outcome_reachable:
  assumes "ww_outcome tick n es = Some s" and "0 < tick" and "tick \<le> 1000000" and "0 < n"
  shows "reachable (ww_initial usec_chrono) (ww_step usec_chrono) s"
proof -
  obtain s0 where s0: "ww_create usec_chrono tick n 0 0 = Some s0" "ww_run usec_chrono es s0 = Some s"
    using assms(1) by (auto simp: ww_outcome_def bind_eq_Some_conv)
  have "tick \<le> kMaxDelay"
    using assms(3) by (simp add: kMaxDelay_def INT64_MAX_def)
  with s0(1) assms(2,4) have "ww_initial usec_chrono s0"
    unfolding ww_initial_def by (metis order_refl usec_chrono_ok)
  then show ?thesis
    by (intro reachable_rtranclp [OF ww_run_steps [OF s0(2)]] reachable.start)
qed

text \<open>
  C15. TimerHashWheel forgets no timer under threads and keeps sweeping: however the critical
  sections of Add, Cancel and Process and the accesses to the timer channel interleave, whenever
  the loop waits in its selector and no Add is in progress, the timerfd has been set and not been
  read since, and every timer of the table lies in a bucket.
\<close>

theorem wheel_no_lost_timer:
  assumes "reachable (ww_initial K) (ww_step K) s" and "ww_phase s = WwWaiting" and "ww_settled s"
  shows "ww_armed s \<and> (\<forall>tid e. wh_table (ww_wheel s) tid = Some e \<longrightarrow> (\<exists>i k. wh_has (ww_wheel s) i k tid))"
proof -
  have inv: "ww_inv K s" using assms(1) by (rule ww.inv_reachable)
  with assms(2,3) have "ww_armed s"
    by (auto simp: ww_inv_def ww_ticking_def ww_arming_def ww_settled_def list_all_iff)
  have "ww_pending a = {}" if "a \<in> set (ww_adds s)" for a
    using assms(3) that by (cases a) (auto simp: ww_settled_def list_all_iff)
  then have "ww_reach s = set_mset (wh_ids (ww_wheel s))"
    using assms(2) by (simp add: ww_reach_def)
  with inv have "tid \<in># wh_ids (ww_wheel s)" if "wh_table (ww_wheel s) tid = Some e" for tid e
    using that by (auto simp: ww_inv_def ww_known_def)
  with \<open>ww_armed s\<close> show ?thesis
    using wh_ids_has by blast
qed

section \<open>A wheel whose Add is overtaken by a sweep\<close>

text \<open>
  A wheel of 4 buckets with a tick of 100 microseconds.  A thread adds a timer that expires at
  60 and is preempted before it puts it into its bucket, the one of tick 0.  The sweep at 150
  passes that bucket; the thread goes on at 160.  The sweeps at 250 and 350 do not look there.
\<close>

definition ww_sweep_at :: "usec \<Rightarrow> 'c ww_event list" where
  "ww_sweep_at now = replicate 12 (EvLoop now True)"

definition overtaken :: "nat ww_event list" where
  "overtaken = EvAdd 10 50 0 1 # EvThread 20 0 # ww_sweep_at 150 @ replicate 3 (EvThread 160 0)
     @ ww_sweep_at 250 @ ww_sweep_at 350"

lemma overtaken_outcome:
  "case ww_outcome 100 4 overtaken of None \<Rightarrow> False | Some s \<Rightarrow>
     ww_phase s = WwWaiting \<and> ww_settled s \<and> ww_clock s = 350 \<and> wh_last (ww_wheel s) = 350
     \<and> wh_table (ww_wheel s) 1 \<noteq> None \<and> wh_buckets (ww_wheel s) = [[(0, [1])], [], [], []]"
  by code_simp

text \<open>A timer that expired at 60 is still in its bucket, behind the sweep, at 350.\<close>

theorem wheel_add_overtaken:
  "\<exists>s :: nat ww_system. reachable (ww_initial usec_chrono) (ww_step usec_chrono) s \<and> ww_phase s = WwWaiting
     \<and> ww_settled s \<and> wh_last (ww_wheel s) = 350 \<and> wh_table (ww_wheel s) 1 \<noteq> None
     \<and> wh_buckets (ww_wheel s) = [[(0, [1])], [], [], []]"
proof -
  obtain s where s: "ww_outcome 100 4 overtaken = Some s"
    using overtaken_outcome by (cases "ww_outcome 100 4 overtaken") auto
  then have "reachable (ww_initial usec_chrono) (ww_step usec_chrono) s"
    by (rule ww_outcome_reachable) simp_all
  with s overtaken_outcome show ?thesis
    by auto
qed

text \<open>The state is one the property above is about: the loop waits and no \<open>Add\<close> is in progress.\<close>

theorem wheel_no_lost_timer_witness:
  "\<exists>s :: nat ww_system. ww_phase s = WwWaiting \<and> ww_settled s \<and> wh_table (ww_wheel s) 1 \<noteq> None
     \<and> ww_armed s \<and> (\<exists>i k. wh_has (ww_wheel s) i k 1)"
proof -
  obtain s :: "nat ww_system" where s: "reachable (ww_initial usec_chrono) (ww_step usec_chrono) s"
    "ww_phase s = WwWaiting" "ww_settled s" "wh_table (ww_wheel s) 1 \<noteq> None"
    using wheel_add_overtaken by blast
  with wheel_no_lost_timer [OF s(1-3)] show ?thesis
    by blast
qed

section \<open>A wakeup that is overtaken by a shorter one\<close>

text \<open>
  A wheel with a tick of 100 milliseconds.  The descriptor has been read and the stored value is
  INT64\_MAX when a thread adds a timer of 5 seconds and swaps in its duration; before it sets
  the descriptor, the sweep of the loop swaps in the rest of the tick, 99.8 milliseconds, and
  sets the descriptor for it.  Then the thread sets the descriptor for second 5.  The stored
  value stays at 99.8 milliseconds, and a timer of 300 milliseconds that is added next is
  refused as the longer wait.
\<close>

definition overtaking :: "nat ww_event list" where
  "overtaking = replicate 3 (EvLoop 200 True) @ EvAdd 200 5000000 0 1 # replicate 5 (EvThread 200 0)
     @ replicate 8 (EvLoop 200 True) @ EvThread 200 0 # EvAdd 200 300000 0 2 # replicate 4 (EvThread 200 1)"

lemma overtaking_outcome:
  "case ww_outcome 100000 4 overtaking of None \<Rightarrow> False | Some s \<Rightarrow>
     ww_phase s = WwWaiting \<and> ww_settled s \<and> tc_last_wakeup_us (ww_channel s) = 99800
     \<and> tc_deadline (ww_channel s) = Some 5000000 \<and> wh_table (ww_wheel s) 2 \<noteq> None
     \<and> wh_buckets (ww_wheel s) = [[], [], [(12, [1])], [(0, [2])]]"
  by code_simp

text \<open>A timer that expires in tick 3, at 300 milliseconds, waits for a wakeup at second 5.\<close>

theorem wheel_wakeup_overtaken:
  "\<exists>s :: nat ww_system. reachable (ww_initial usec_chrono) (ww_step usec_chrono) s \<and> ww_phase s = WwWaiting
     \<and> ww_settled s \<and> wh_table (ww_wheel s) 2 \<noteq> None \<and> wh_buckets (ww_wheel s) ! 3 = [(0, [2])]
     \<and> tc_last_wakeup_us (ww_channel s) = 99800 \<and> tc_deadline (ww_channel s) = Some 5000000"
proof -
  obtain s where s: "ww_outcome 100000 4 overtaking = Some s"
    using overtaking_outcome by (cases "ww_outcome 100000 4 overtaking") auto
  then have "reachable (ww_initial usec_chrono) (ww_step usec_chrono) s"
    by (rule ww_outcome_reachable) simp_all
  with s overtaking_outcome show ?thesis
    by auto
qed

end
