(* ===== verification/Event_Loop_Test.thy ===== *)
theory Event_Loop_Test
  imports Event_Loop_Properties Loop_Parts Timer_Wheel_Properties
begin

text \<open>
  test/test\_event\_loop.cc: a loop with a hash wheel, run by a second thread.  \<open>main\<close> adds a
  timer that fires once, five tasks, and two periodic timers; the second one cancels the first
  in its 5th run and closes the loop in its 10th.  Then \<open>main\<close> returns, and its locals are
  destroyed in reverse order: the future of \<open>std::async\<close> waits for \<open>Loop\<close> to return, then the
  destructor of the loop waits in \<open>join\<close>.
\<close>

section \<open>The program\<close>

text \<open>The callbacks, and the lines they log.\<close>

datatype test_callback = AfterCallback | ScheduleCallback nat | Timer1Callback | Timer2Callback

datatype test_line = StartLine | ScheduleLine nat | Timer1Line int | Timer2Line int | ShutdownLine | CloseLine

record test_vars =
  te_i :: int
  te_j :: int
  te_log :: "test_line list"

definition te_create :: test_vars where
  "te_create = \<lparr>te_i = 0, te_j = 0, te_log = []\<rparr>"

text \<open>What a callback asks the loop for: \<open>ScheduleCancel\<close> and \<open>Close\<close>.\<close>

datatype test_call = TeCancel nat | TeClose

definition te_line :: "test_line \<Rightarrow> test_vars \<Rightarrow> test_vars" where
  "te_line l v = v\<lparr>te_log := te_log v @ [l]\<rparr>"

fun te_callback :: "nat \<Rightarrow> test_callback \<Rightarrow> test_vars \<Rightarrow> test_vars \<times> test_call list" where
  "te_callback tid AfterCallback v = (te_line StartLine v, [])"
| "te_callback tid (ScheduleCallback i) v = (te_line (ScheduleLine i) v, [])"
| "te_callback tid Timer1Callback v =
     (let v1 = v\<lparr>te_i := te_i v + 1\<rparr> in (te_line (Timer1Line (te_i v1)) v1, []))"
| "te_callback tid Timer2Callback v =
     (let v1 = v\<lparr>te_j := te_j v + 1\<rparr>;
          v2 = te_line (Timer2Line (te_j v1)) v1;
          (v3, cs) = (if te_j v2 = 5 then (te_line ShutdownLine v2, [TeCancel tid]) else (v2, []));
          (v4, cs') = (if te_j v3 = 10 then (te_line CloseLine v3, [TeClose]) else (v3, []))
      in (v4, cs @ cs'))"

fun te_callbacks :: "nat \<Rightarrow> test_callback list \<Rightarrow> test_vars \<Rightarrow> test_vars \<times> test_call list" where
  "te_callbacks tid [] v = (v, [])"
| "te_callbacks tid (c # cs) v =
     (let (v1, es) = te_callback tid c v; (v2, es') = te_callbacks tid cs v1 in (v2, es @ es'))"

definition te_options :: "chrono \<Rightarrow> event_loop_options" where
  "te_options K = (default_loop_options K)\<lparr>eo_timer_queue_type := kHashWheel\<rparr>"

text \<open>
  The calls of \<open>main\<close> on the wheel of the loop: the id of timer 1, the wheel, and the tasks it
  schedules, in order.
\<close>

definition te_main ::
  "chrono \<Rightarrow> (nat \<Rightarrow> usec) \<Rightarrow> test_callback wheel \<Rightarrow> nat \<times> test_callback wheel \<times> test_callback list" where
  "te_main K clk w =
     (let (after, w1) = wh_add K clk 1000000 0 AfterCallback w;
          (tid, w2) = wh_add K clk 500000 500000 Timer1Callback w1;
          (timer2, w3) = wh_add K clk 0 1000000 Timer2Callback w2
      in (tid, w3, map ScheduleCallback [0..<5]))"

section \<open>What the callbacks do\<close>

text \<open>
  \<open>main\<close> leaves three timers in the table, with the intervals it gave, and the id it passes to
  the callback of timer 2 is the one of timer 1.
\<close>

lemma wh_add_entry:
  assumes "wh_add K clk delay interval callback w = (tid, w')"
  shows "tid = to_u64 (int (wh_counter w) + 1)" and "wh_counter w' = Suc (wh_counter w)"
    and "\<exists>e. wh_table w' = (wh_table w)(tid \<mapsto> e) \<and> we_callback e = callback \<and> we_interval e = interval"
  using assms by (auto simp: wh_add_def wh_now_def wh_wakeup_def wh_bucket_add_def wh_size_def Let_def)

lemma te_main_timers:
  assumes "te_main K clk (wh_create clk0 tick n) = (tid, w, tasks)"
  shows "tid = 2" and "\<exists>e. wh_table w tid = Some e \<and> we_callback e = Timer1Callback \<and> we_interval e = 500000"
    and "dom (wh_table w) = {1, 2, 3}" and "tasks = map ScheduleCallback [0..<5]"
proof -
  let ?w = "wh_create clk0 tick n :: test_callback wheel"
  obtain a w1 where 1: "wh_add K clk 1000000 0 AfterCallback ?w = (a, w1)" by fastforce
  obtain b w2 where 2: "wh_add K clk 500000 500000 Timer1Callback w1 = (b, w2)" by fastforce
  obtain c w3 where 3: "wh_add K clk 0 1000000 Timer2Callback w2 = (c, w3)" by fastforce
  note add1 = wh_add_entry [OF 1] and add2 = wh_add_entry [OF 2] and add3 = wh_add_entry [OF 3]
  have start: "wh_counter ?w = 0" "wh_table ?w = Map.empty" by (simp_all add: wh_create_def)
  then have ids: "a = 1" "b = 2" "c = 3"
    using add1(1,2) add2(1,2) add3(1) by (simp_all add: to_u64_def)
  have out: "tid = b" "w = w3" and "tasks = map ScheduleCallback [0..<5]"
    using assms by (simp_all add: te_main_def 1 2 3)
  then show "tid = 2" and "tasks = map ScheduleCallback [0..<5]"
    using ids by simp_all
  show "dom (wh_table w) = {1, 2, 3}"
    and "\<exists>e. wh_table w tid = Some e \<and> we_callback e = Timer1Callback \<and> we_interval e = 500000"
    using add1(3) add2(3) add3(3) start ids out by (auto split: if_splits)
qed

text \<open>
  Timer 2 counts its runs from 1; whatever runs in between, its 5th run cancels timer 1 and its
  10th closes the loop, and nothing else is asked of the loop.
\<close>

lemma te_other:
  "c \<noteq> Timer2Callback \<Longrightarrow> te_j (fst (te_callback tid c v)) = te_j v \<and> snd (te_callback tid c v) = []"
  by (cases c) (simp_all add: te_line_def)

lemma te_timer2:
  "te_j (fst (te_callback tid Timer2Callback v)) = te_j v + 1"
  "snd (te_callback tid Timer2Callback v) =
     (if te_j v + 1 = 5 then [TeCancel tid] else []) @ (if te_j v + 1 = 10 then [TeClose] else [])"
  by (simp_all add: te_line_def Let_def)

lemma te_callbacks_calls:
  "te_j (fst (te_callbacks tid cs v)) = te_j v + int (count_list cs Timer2Callback)
   \<and> snd (te_callbacks tid cs v) =
       (if te_j v < 5 \<and> 5 \<le> te_j v + int (count_list cs Timer2Callback) then [TeCancel tid] else [])
       @ (if te_j v < 10 \<and> 10 \<le> te_j v + int (count_list cs Timer2Callback) then [TeClose] else [])"
proof (induction cs arbitrary: v)
  case (Cons c cs)
  obtain v1 es where first: "te_callback tid c v = (v1, es)"
    by fastforce
  show ?case
  proof (cases "c = Timer2Callback")
    case True
    then have "te_j v1 = te_j v + 1"
      and "es = (if te_j v + 1 = 5 then [TeCancel tid] else []) @ (if te_j v + 1 = 10 then [TeClose] else [])"
      using first te_timer2 [of tid v] by simp_all
    with Cons.IH [of v1] True first show ?thesis
      by (simp add: case_prod_beta Let_def)
  next
    case False
    with te_other [of c tid v] Cons.IH [of v1] first show ?thesis
      by (simp add: case_prod_beta Let_def)
  qed
qed simp

lemma te_calls:
  "snd (te_callbacks tid cs te_create) =
     (if 5 \<le> count_list cs Timer2Callback then [TeCancel tid] else [])
     @ (if 10 \<le> count_list cs Timer2Callback then [TeClose] else [])"
  using te_callbacks_calls [of tid cs te_create] by (simp add: te_create_def)

section \<open>The end of the program\<close>

text \<open>
  The loop of the program in the terms of theory Event\_Loop: the handler of number k is the
  k-th run of timer 2, with the calls that this run makes on the loop.
\<close>

fun te_loop_call :: "test_call \<Rightarrow> loop_call list" where
  "te_loop_call TeClose = [CallClose]"
| "te_loop_call (TeCancel tid) = []"

definition te_body :: "nat \<Rightarrow> loop_call list" where
  "te_body k = concat (map te_loop_call (snd (te_callback 2 Timer2Callback (te_create\<lparr>te_j := int k - 1\<rparr>))))"

lemma te_body_eq: "te_body k = (if k = 10 then [CallClose] else [])"
  by (auto simp: te_body_def te_timer2 te_create_def simp del: te_callback.simps)

text \<open>A loop that was closed in the last handler of a round leaves without another look at its queue.\<close>

definition el_leaving :: "event_loop \<Rightarrow> bool" where
  "el_leaving s \<longleftrightarrow> el_pc s \<in> {LoopRound [], LoopCheck, LoopDone} \<and> \<not> el_looping s \<and> el_state s AND kJoinable \<noteq> 0
     \<and> el_latch s \<noteq> 0"

lemma el_leaving_step:
  assumes "el_leaving s" and "el_step body s t"
  shows "el_leaving t"
  using assms(2,1)
proof (cases rule: el_step.cases)
  case ext_close_flag
  with assms(1) show ?thesis
    using el_flag_bits [of s] by (simp add: el_leaving_def el_looping_def)
qed (auto simp: el_leaving_def el_looping_def)

lemma el_leaving_hangs: "el_leaving s \<Longrightarrow> el_join_hangs body s"
proof -
  assume "el_leaving s"
  have "el_leaving t" if "(el_step body)\<^sup>*\<^sup>* s t" for t
    using that \<open>el_leaving s\<close> by (induction rule: rtranclp_induct) (auto intro: el_leaving_step)
  then show ?thesis
    by (auto simp: el_join_hangs_def el_leaving_def el_join_returns_def)
qed

text \<open>
  The program does not end: when the 10th run of timer 2 is the last event of its round, the
  task that \<open>Close\<close> schedules is never run and the destructor of the loop waits for ever.  Such
  a round is reachable.
\<close>

theorem test_never_ends:
  "\<exists>s. reachable el_initial (el_step te_body) s \<and> el_pc s = LoopDone \<and> el_join_hangs te_body s"
  and "reachable el_initial (el_step te_body) s \<Longrightarrow> el_pc s = LoopRound [ReportOther 10] \<Longrightarrow> el_latch s \<noteq> 0 \<Longrightarrow>
    el_step te_body s t \<Longrightarrow> el_pc t = LoopRound [] \<Longrightarrow> el_join_hangs te_body t"
proof -
  show "\<exists>s. reachable el_initial (el_step te_body) s \<and> el_pc s = LoopDone \<and> el_join_hangs te_body s"
    using el_close_in_handler [of te_body 10] el_stuck_hangs by (auto simp: te_body_eq)
next
  assume s: "reachable el_initial (el_step te_body) s" "el_pc s = LoopRound [ReportOther 10]" "el_latch s \<noteq> 0"
    and t: "el_step te_body s t" "el_pc t = LoopRound []"
  have "el_state s AND kJoinable \<noteq> 0"
    using loop.inv_reachable [OF s(1)] s(2) by (simp add: el_inv_def el_pc_defs)
  moreover have "t = (el_body te_body 10 s)\<lparr>el_pc := LoopRound []\<rparr>"
    using t s(2) by (auto elim!: el_step.cases)
  ultimately have "el_leaving t"
    using s(3) el_flag_bits [of s]
    by (simp add: el_leaving_def el_body_def te_body_eq el_close_def el_looping_def)
  then show "el_join_hangs te_body t"
    by (rule el_leaving_hangs)
qed

end
