(* ===== verification/Spec2Isabelle.thy ===== *)
theory Spec2Isabelle
  imports Event_Flags Event_Queue_Properties Timer_Heap_Properties Timer_Channel Timer_Service
    Timer_Rearm Timer_Wheel_Properties Tcp_Connection_Closing Selector_Properties
    Connections_On_Epoll
    Event_Loop_Properties Loop_Parts_Properties Loop_Calls Loop_Group Group_Lifecycle Tcp_Client
    Tcp_Server Server_Setup Server_System Inet_Address Echo_Server Echo_Program Bench_Reporter
    Client_System Loop_Files Queue_Loop_Properties Bench_Event_Queue Bench_Timer_Queue Bench_Tcp_Client
    Timer_Threads_Alone Timer_Wheel_Alone Timer_Wheel_Races Event_Loop_Test
begin

text \<open>
  Pedronet: an event driven network library for Linux in C++.  This development models its core
  and proves what makes it correct, or where it is not.

  The program.  An event loop (src/eventloop.cc) waits in a selector (epoll or poll) for events of
  channels and calls their handlers.  An eventfd channel wakes it up for the tasks of its event
  queue, a timerfd channel for the timers of its timer queue; both queues have several
  implementations.  A TCP connection lives on one loop: its socket channel keeps the event mask,
  its buffers the bytes, and its user gets the callbacks OnConnect, OnRead, OnWriteComplete,
  OnError and OnClose.  Groups of loops spread the work, an acceptor accepts connections for a
  server, a client makes one.

  Theories and sources.
  \<^item> Pedronet\_Prelude: machine types, pedrolib's time arithmetic as the parameter \<open>chrono\<close>,
    reachability and the locales \<open>invariant_system\<close> and \<open>wakeup_protocol\<close>.
  \<^item> Event\_Flags: SelectEvents and ReceiveEvents (include/pedronet/event.h, src/event.cc).
  \<^item> Event\_Channel, Event\_Queue, Event\_Queue\_Threads, Event\_Queue\_Properties: the eventfd
    (src/channel/event\_channel.cc) and the three event queues (include/pedronet/queue/event\_*.h),
    as sequential code under the locale \<open>event_queue\<close> and as interleaved steps under
    \<open>wakeup_protocol\<close>.
  \<^item> Timer\_Channel, Timer\_Heap, Timer\_Heap\_Facts, Timer\_Heap\_Properties, Timer\_Service,
    Timer\_Rearm, Timer\_Wheel, Timer\_Wheel\_Facts, Timer\_Wheel\_Sweep, Timer\_Wheel\_Properties: the timerfd with
    its atomic window (src/channel/timer\_channel.cc), the heap (src/queue/timer\_heap\_queue.cc),
    the heap with the channel from Add to Process and back, and the hash wheel (include/pedronet/queue/timer\_hash\_wheel.h).
  \<^item> Timer\_Threads, Timer\_Threads\_Alone: the heap, the channel and the loop's thread under threads,
    with every access to the mutex, to \<open>last_wakeup_us_\<close> and to the timerfd a step; it meets
    \<open>wakeup_protocol\<close>, and the sequential Add and HandleEvents of the theories above are its runs in
    which no other thread takes a step in between.
  \<^item> Timer\_Wheel\_Threads, Timer\_Wheel\_Accounts, Timer\_Wheel\_Alone, Timer\_Wheel\_Races: the same for
    the wheel, as an executable step function over lists of events; its invariant and its instance
    of \<open>wakeup_protocol\<close>; that a thread alone does what Timer\_Wheel says; and the runs in which a
    timer is late.
  \<^item> Selector, Epoll\_Selector, Poll\_Selector, Selector\_Properties: the selector interface as the
    locales \<open>selector\<close> and \<open>watching_selector\<close> with the round of dispatch of the loop, and its
    two implementations (src/selector/epoller.cc, include/pedronet/selector/poller.h).
  \<^item> Channel\_Selector, Connections\_On\_Epoll: many socket channels, and many connections, on one
    epoll selector, which serves each of them as the abstract channel of theory Socket\_Channel, also
    when the descriptors of destroyed connections are used again.
  \<^item> Event\_Loop, Event\_Loop\_Properties: Loop, Schedule, Close and Join (src/eventloop.cc) as the
    steps of the loop's thread and of other threads, over the blocking queue.
  \<^item> Loop\_Queues, Queue\_Loop, Queue\_Loop\_Properties: the same loop over any event queue, with
    every synchronisation point of the queue's Add and Process a step of its own.  The locale
    \<open>loop_queue\<close> extends \<open>wakeup_protocol\<close> by what Process owes and by a measure of its progress;
    the three interleaved queues meet it, and the loop of Event\_Loop refines the loop over the first.
  \<^item> Loop\_Parts, Loop\_Parts\_Properties, Loop\_Calls: the options, the factories, the virtual calls
    of EventQueue, TimerQueue and Selector, the constructor of EventLoop and a turn of Loop with
    whichever parts the options choose; Add and Remove from any thread.
  \<^item> Loop\_Files: the descriptors a loop opens, in the order of its members, and a whole group from
    its options.
  \<^item> Loop\_Group: round robin and timer ids of a group (src/eventloopgroup.cc) over the locale
    \<open>timer_service\<close>, which the heap and the timer queue of any choice provide.
  \<^item> Group\_Lifecycle: Create, Close, Join and the destructor of a group beside the threads of its
    loops (include/pedronet/eventloopgroup.h, src/eventloopgroup.cc).
  \<^item> Net\_Environment, Socket\_Channel, Tcp\_Connection, Tcp\_Connection\_Steps,
    Tcp\_Connection\_Invariants, Tcp\_Connection\_Races, Tcp\_Connection\_Properties,
    Tcp\_Connection\_Closing: the buffer and the kernel as parameters, the socket channel
    (src/channel/socket\_channel.cc), the connection (src/tcp\_connection.cc); every operation is a
    sequence of the elementary changes \<open>conn_micro\<close>, by the locale \<open>connection_hooks\<close>, so that an
    invariant is proved for these changes only.  Tcp\_Connection\_Races takes the test and the store of
    ForceShutdown apart, lets other threads between the halves of a close, and runs the loop's tasks
    in any order.
  \<^item> Socket\_Calls, Acceptor, Tcp\_Client, Tcp\_Server, Inet\_Address: src/socket.cc,
    src/acceptor.cc, src/tcp\_client.cc, src/tcp\_server.cc, src/inetaddress.cc.
  \<^item> Client\_System: a client over the connection it makes, with the client's channel handler around
    the user's; it projects to runs of Tcp\_Client and of Tcp\_Connection.
  \<^item> Server\_Setup, Server\_System: a server from Bind to its listening socket, and a running server
    with all its connections, its set \<open>conns_\<close> and its Close.
  \<^item> Echo\_Server, Echo\_Program, Bench\_Reporter, Echo\_Client, Bench\_Tcp\_Client,
    Bench\_Event\_Queue, Bench\_Timer\_Queue: the users of the library under bench, that is the echo
    server's handler over a connection and its \<open>main\<close>, the counters of the reporter under any number
    of threads, the echo client with its counters and the benchmark of all its connections, the
    threads and the latch of the event queue benchmark over the interleaved loop, and the calls of
    the timer benchmark over the heap.
  \<^item> Event\_Loop\_Test: test/test\_event\_loop.cc, its callbacks, the calls of its \<open>main\<close> and its end.

  What the properties show.
  \<^item> Connections: the bytes on the wire and those waiting are the bytes the user gave, in order;
    OnConnect and OnClose come at most once; the state moves forward, except for a late ForceShutdown
    of another thread; graceful shutdown closes the write end when everything is written and not
    before.  Also the cases in which closing does not work as meant.
  \<^item> Timers: the heap runs exactly what is due, in order, each due timer that is not cancelled,
    no cancelled one ever after (while ids fit 64 bits), returns, and arms the channel for the next,
    so that through any sequence of calls
    and expiries the channel stays armed for a pending timer; the wheel, alone with its callbacks,
    misses no timer and is not early unless a sweep wraps around, when it can be early or not return.  Under threads, a loop
    that waits has its descriptor armed whenever a timer is queued, whatever falls between the
    stores of HandleEvents; the wheel forgets no timer and keeps sweeping, but a timer can be
    overtaken by a sweep, and a wakeup by a shorter one.
  \<^item> Queues and loop: no wake-up is lost in any interleaving; tasks run once, over the blocking
    queue in order; one
    handling of the event channel runs what was queued when it began, and a waiting loop with
    work gets to run it all, over each queue; when closing a loop works and the two races in which
    it does not.  With every choice of parts a
    constructed loop watches its two channels, and a scheduled task is run by the turn in which
    the event channel is reported; deferred calls do what immediate ones do.
  \<^item> Selectors: the epoll selector implements a table of masks and reports what the kernel
    reported; channels and connections on it behave as if each were alone, and a connection with
    output waiting is watched for writability in the kernel; what the poll selector's CleanUp and Wait do, and where its indices go wrong.
  \<^item> Group, acceptor, client, server, addresses: timer ids round trip, no loop of a group is
    destroyed while its thread runs and its destructor returns, the accept loop, the client
    and its connection as one system, whose messages arrive in order over a queue that keeps order, the set of a server is that of its live connections (and what its Close
    misses), the destructor of the server, addresses round trip.
  \<^item> Users: the echo server's wire carries a prefix of what it read, and while the connection is
    up all of it, so its client reads back a prefix of what it sent; the TCP benchmark's
    result is the work its clients did; the queue benchmark's latch opens exactly when every callback has run;
    the timer benchmark counts each timer once, when due; each report is exact for the traces of its windows, and no trace is lost.

  Parameters and bounds.  pedrolib (time arithmetic, ArrayBuffer, Latch, logger) and moodycamel's
  queue are not in the repository: \<open>chrono_ok\<close>, \<open>buffer_ok\<close>, \<open>cq_ok\<close> state their documented
  behaviour, each satisfied by a concrete instance in a witness.  \<open>Logger::Fatal\<close> is taken to end
  the program.  The kernel is an oracle (\<open>net_os\<close>, the answers of \<open>Wait\<close>, the results of
  \<open>accept\<close>) or an explicit state (eventfd counter, interest set, timerfd history).  Loops that may
  not end are \<open>partial_function (option)\<close>, None for a run that does not return, and no fuel is
  used; a user's handler is defined by the depth \<open>n\<close> of callbacks within callbacks, and every
  fact holds for all \<open>n\<close>.  Counters have their width where it matters (64 bit ids of a group, the
  lock-free queue's counter, the eventfd, the 16 bit masks of poll).

  Atomic steps.  An operation of a connection on its loop's thread, with its callbacks, is one step
  of the connection (other threads only queue tasks and change \<open>state_\<close>; Tcp\_Connection\_Races has the
  accesses of \<open>state_\<close> that are apart).  The sequential theories of the timers let other threads in at
  the callbacks only; Timer\_Threads and Timer\_Wheel\_Threads have the single accesses.  The client
  with its connection and the echo programs run the tasks of a connection in the order in which they
  were queued, which the default EventLockFreeQueue does not promise between threads; the server and
  the connections on epoll run them in any order.

  Not modelled: formatting (String), logging, memory ownership (shared pointers and what they keep
  alive), data races on data the code does not protect, the floating point of the benchmark's
  PrintResult, nanobench; the abstract classes and aliases of include/pedronet/channel/channel.h,
  channel\_handler.h, callbacks.h and defines.h, which have no code of their own.  What is left of
  the headers are declarations, accessors and constructors that only store their arguments.
\<close>

end
